(* ===== verification/Prelude.thy ===== *)
theory Prelude
  imports Complex_Main "HOL-Library.AList"
begin

text \<open>
  The shared base of the development: the Python values, dictionaries and conversions that
  the services use, the environment reader \<open>env_int\<close> of
  \<open>services/runtime_configuration.py\<close>, the generic lemmas on association lists, and the
  locale of state machines with an invariant that the stateful components interpret.

  Conventions. A Python \<open>int\<close> is an \<open>int\<close>. A finite \<open>float\<close> is the rational number it
  denotes: rounding of floating point arithmetic is not modelled; the infinities and
  not-a-number are separate constructors. A string is the list of its UTF-8 bytes; case
  folding and white space are those of ASCII. A dictionary is the association list of its
  items in insertion order, with distinct keys: \<open>AList.update\<close> is assignment to a key (in
  place, or at the end) and \<open>AList.delete\<close> is \<open>pop\<close>. Wall and monotonic clocks are
  arguments of the operations that read them.
\<close>

named_theorems dict_simps \<open>lookup after an update or a deletion of a dictionary\<close>
named_theorems step_defs \<open>definitions of the steps of the state machines\<close>

section \<open>Exceptions and values\<close>

datatype pyexc = TypeError | ValueError | OverflowError | KeyError | RuntimeError

datatype pyfloat = Fin rat | PosInf | NegInf | NaN

datatype pyval =
    PNone
  | PBool bool
  | PInt int
  | PFloat pyfloat
  | PStr string
  | PList "pyval list"
  | PDict "(string \<times> pyval) list"

type_synonym pydict = "(string \<times> pyval) list"

text \<open>The value of \<open>d.get(k)\<close>: None when the key is missing.\<close>

definition field :: "pydict \<Rightarrow> string \<Rightarrow> pyval" where
  "field d k = (case map_of d k of None \<Rightarrow> PNone | Some v \<Rightarrow> v)"

text \<open>Truth of a value, and \<open>a or b\<close>.\<close>

fun truthy :: "pyval \<Rightarrow> bool" where
  "truthy PNone = False"
| "truthy (PBool b) = b"
| "truthy (PInt i) = (i \<noteq> 0)"
| "truthy (PFloat f) = (f \<noteq> Fin 0)"
| "truthy (PStr s) = (s \<noteq> [])"
| "truthy (PList xs) = (xs \<noteq> [])"
| "truthy (PDict d) = (d \<noteq> [])"

definition py_or :: "pyval \<Rightarrow> pyval \<Rightarrow> pyval" where
  "py_or a b = (if truthy a then a else b)"

text \<open>\<open>isinstance\<close> tests of the code.\<close>

fun is_dict :: "pyval \<Rightarrow> bool" where
  "is_dict (PDict _) = True"
| "is_dict _ = False"

fun is_list :: "pyval \<Rightarrow> bool" where
  "is_list (PList _) = True"
| "is_list _ = False"

section \<open>Text\<close>

definition is_space :: "char \<Rightarrow> bool" where
  "is_space c \<longleftrightarrow> (let n = (of_char c :: nat) in n = 32 \<or> (9 \<le> n \<and> n \<le> 13) \<or> (28 \<le> n \<and> n \<le> 31))"

definition strip :: "string \<Rightarrow> string" where
  "strip s = rev (dropWhile is_space (rev (dropWhile is_space s)))"

definition lower_char :: "char \<Rightarrow> char" where
  "lower_char c = (let n = (of_char c :: nat) in if 65 \<le> n \<and> n \<le> 90 then char_of (n + 32) else c)"

definition lower :: "string \<Rightarrow> string" where
  "lower s = map lower_char s"

definition is_digit :: "char \<Rightarrow> bool" where
  "is_digit c \<longleftrightarrow> (let n = (of_char c :: nat) in 48 \<le> n \<and> n \<le> 57)"

definition digit_val :: "char \<Rightarrow> nat" where
  "digit_val c = of_char c - 48"

definition digit_char :: "nat \<Rightarrow> char" where
  "digit_char n = char_of (48 + n)"

fun nat_text :: "nat \<Rightarrow> string" where
  "nat_text n = (if n < 10 then [digit_char n] else nat_text (n div 10) @ [digit_char (n mod 10)])"

declare nat_text.simps [simp del]

definition int_text :: "int \<Rightarrow> string" where
  "int_text i = (if i < 0 then CHR ''-'' # nat_text (nat (- i)) else nat_text (nat i))"

text \<open>
  \<open>str(v)\<close>. The code compares the text of strings, numbers and booleans only; the text of
  a float or of a container is represented by one non-empty word.
\<close>

fun py_str :: "pyval \<Rightarrow> string" where
  "py_str PNone = ''None''"
| "py_str (PBool b) = (if b then ''True'' else ''False'')"
| "py_str (PInt i) = int_text i"
| "py_str (PStr s) = s"
| "py_str (PFloat _) = ''<float>''"
| "py_str (PList _) = ''<list>''"
| "py_str (PDict _) = ''<dict>''"

text \<open>\<open>str(v or "").strip()\<close>.\<close>

definition clean :: "pyval \<Rightarrow> string" where
  "clean v = strip (py_str (py_or v (PStr [])))"

section \<open>Stripped text\<close>

lemma strip_id:
  assumes "s \<noteq> []" "\<not> is_space (hd s)" "\<not> is_space (last s)"
  shows "strip s = s"
proof -
  have drop: "dropWhile is_space x = x" if "x \<noteq> []" "\<not> is_space (hd x)" for x
    using that by (cases x) auto
  show ?thesis
    using assms by (simp add: strip_def drop hd_rev)
qed

lemma strip_Nil [simp]: "strip [] = []"
  by (simp add: strip_def)

lemma clean_text: "clean (PStr s) = strip s"
  by (simp add: clean_def py_or_def)

lemma clean_None: "clean PNone = []"
  by (simp add: clean_def py_or_def)

lemma strip_strip [simp]: "strip (strip s) = strip s"
proof (cases "strip s = []")
  case False
  define x where "x = dropWhile is_space s"
  have s: "strip s = rev (dropWhile is_space (rev x))" by (simp add: strip_def x_def)
  with False have x: "x \<noteq> []" by auto
  have "x = rev (dropWhile is_space (rev x)) @ rev (takeWhile is_space (rev x))"
    by (metis rev_append rev_rev_ident takeWhile_dropWhile_id)
  with s have "x = strip s @ rev (takeWhile is_space (rev x))" by simp
  with False have "hd (strip s) = hd x" by (metis hd_append2)
  then have "\<not> is_space (hd (strip s))" using x hd_dropWhile unfolding x_def by metis
  moreover have "\<not> is_space (last (strip s))"
    using False s hd_dropWhile [of is_space "rev x"] by (simp add: last_rev)
  ultimately show ?thesis using False by (intro strip_id)
qed simp

lemma strip_ends: "strip s = s \<Longrightarrow> s \<noteq> [] \<Longrightarrow> \<not> is_space (hd s) \<and> \<not> is_space (last s)"
proof -
  assume s: "strip s = s" "s \<noteq> []"
  have hd: "dropWhile is_space x \<noteq> [] \<Longrightarrow> \<not> is_space (hd (dropWhile is_space x))" for x by (rule hd_dropWhile)
  show ?thesis
  proof
    show "\<not> is_space (last s)" using s hd [of "rev (dropWhile is_space s)"] unfolding strip_def by (metis last_rev rev_is_Nil_conv)
    show "\<not> is_space (hd s)"
    proof
      assume "is_space (hd s)"
      then have "length (strip s) < length s" using s(2)
        by (cases s) (auto simp: strip_def intro!: le_imp_less_Suc order_trans [OF length_dropWhile_le])
      with s(1) show False by simp
    qed
  qed
qed

lemma strip_subset: "set (strip s) \<subseteq> set s"
  by (auto simp: strip_def dest!: set_dropWhileD)

lemma nat_text_plain: "nat_text n \<noteq> [] \<and> (\<forall>c \<in> set (nat_text n). \<not> is_space c)"
proof (induction n rule: nat_text.induct)
  case (1 n)
  have d: "\<not> is_space (digit_char m)" if "m < 10" for m
    using that by (auto simp: digit_char_def is_space_def Let_def)
  show ?case using 1 d by (subst (1 2) nat_text.simps) (auto split: if_splits)
qed

section \<open>Numbers from values\<close>

text \<open>The digits of an \<open>int\<close> literal; a single underscore may stand between two digits.\<close>

fun digit_run :: "bool \<Rightarrow> int \<Rightarrow> string \<Rightarrow> int option" where
  "digit_run after_digit acc [] = (if after_digit then Some acc else None)"
| "digit_run after_digit acc (c # cs) =
     (if is_digit c then digit_run True (acc * 10 + int (digit_val c)) cs
      else if c = CHR ''_'' \<and> after_digit then digit_run False acc cs
      else None)"

definition parse_int :: "string \<Rightarrow> int option" where
  "parse_int s =
     (case strip s of
        [] \<Rightarrow> None
      | c # cs \<Rightarrow>
          if c = CHR ''-'' then map_option uminus (digit_run False 0 cs)
          else if c = CHR ''+'' then digit_run False 0 cs
          else digit_run False 0 (c # cs))"

text \<open>Truncation towards zero, and rounding half to even.\<close>

definition py_trunc :: "rat \<Rightarrow> int" where
  "py_trunc q = (if 0 \<le> q then \<lfloor>q\<rfloor> else \<lceil>q\<rceil>)"

definition py_round :: "rat \<Rightarrow> int" where
  "py_round q =
     (let f = \<lfloor>q\<rfloor>; r = q - of_int f in
      if r < 1/2 then f else if 1/2 < r then f + 1 else if even f then f else f + 1)"

text \<open>A magnitude from here on does not fit a double: \<open>float(i)\<close> raises OverflowError.\<close>

definition float_limit :: rat where
  "float_limit = 2 ^ 1024 - 2 ^ 970"

definition finite_or_inf :: "rat \<Rightarrow> pyfloat" where
  "finite_or_inf q = (if float_limit \<le> q then PosInf else if q \<le> - float_limit then NegInf else Fin q)"

definition split_at :: "(char \<Rightarrow> bool) \<Rightarrow> string \<Rightarrow> string \<times> string option" where
  "split_at p s =
     (case dropWhile (\<lambda>c. \<not> p c) s of [] \<Rightarrow> (s, None) | _ # r \<Rightarrow> (takeWhile (\<lambda>c. \<not> p c) s, Some r))"

definition parse_mantissa :: "string \<Rightarrow> rat option" where
  "parse_mantissa s =
     (case split_at (\<lambda>c. c = CHR ''.'') s of
        (ip, None) \<Rightarrow> map_option of_int (digit_run False 0 ip)
      | (ip, Some fp) \<Rightarrow>
          (let whole = (if ip = [] then Some 0 else digit_run False 0 ip);
               part = (if fp = [] then Some 0 else digit_run False 0 fp) in
           if ip = [] \<and> fp = [] then None
           else case (whole, part) of
             (Some w, Some f) \<Rightarrow> Some (of_int w + of_int f / 10 ^ length (filter is_digit fp))
           | _ \<Rightarrow> None))"

definition scale10 :: "rat \<Rightarrow> int \<Rightarrow> rat" where
  "scale10 m e = (if 0 \<le> e then m * 10 ^ nat e else m / 10 ^ nat (- e))"

definition parse_unsigned :: "string \<Rightarrow> pyfloat option" where
  "parse_unsigned s =
     (if lower s \<in> {''inf'', ''infinity''} then Some PosInf
      else if lower s = ''nan'' then Some NaN
      else case split_at (\<lambda>c. c = CHR ''e'' \<or> c = CHR ''E'') s of
        (m, None) \<Rightarrow> map_option finite_or_inf (parse_mantissa m)
      | (m, Some e) \<Rightarrow>
          (case (parse_mantissa m, if strip e = e then parse_int e else None) of
             (Some q, Some k) \<Rightarrow> Some (finite_or_inf (scale10 q k))
           | _ \<Rightarrow> None))"

fun float_neg :: "pyfloat \<Rightarrow> pyfloat" where
  "float_neg (Fin q) = Fin (- q)"
| "float_neg PosInf = NegInf"
| "float_neg NegInf = PosInf"
| "float_neg NaN = NaN"

definition parse_float :: "string \<Rightarrow> pyfloat option" where
  "parse_float s =
     (case strip s of
        [] \<Rightarrow> None
      | c # cs \<Rightarrow>
          if c = CHR ''-'' then map_option float_neg (parse_unsigned cs)
          else if c = CHR ''+'' then parse_unsigned cs
          else parse_unsigned (c # cs))"

text \<open>\<open>int(v)\<close> and \<open>float(v)\<close>, with the exceptions they raise.\<close>

fun py_int :: "pyval \<Rightarrow> pyexc + int" where
  "py_int (PInt i) = Inr i"
| "py_int (PBool b) = Inr (if b then 1 else 0)"
| "py_int (PFloat (Fin q)) = Inr (py_trunc q)"
| "py_int (PFloat NaN) = Inl ValueError"
| "py_int (PFloat _) = Inl OverflowError"
| "py_int (PStr s) = (case parse_int s of None \<Rightarrow> Inl ValueError | Some i \<Rightarrow> Inr i)"
| "py_int _ = Inl TypeError"

fun py_float :: "pyval \<Rightarrow> pyexc + pyfloat" where
  "py_float (PFloat f) = Inr f"
| "py_float (PInt i) =
     (if float_limit \<le> of_int \<bar>i\<bar> then Inl OverflowError else Inr (Fin (of_int i)))"
| "py_float (PBool b) = Inr (Fin (if b then 1 else 0))"
| "py_float (PStr s) = (case parse_float s of None \<Rightarrow> Inl ValueError | Some f \<Rightarrow> Inr f)"
| "py_float _ = Inl TypeError"

section \<open>The process environment\<close>

type_synonym environ = "string \<Rightarrow> string option"

definition empty_env :: environ where
  "empty_env = (\<lambda>_. None)"

text \<open>
  \<open>env_int\<close>: a missing, empty or malformed variable gives the default; the result is then
  raised to the minimum and lowered to the maximum.
\<close>

definition env_int :: "environ \<Rightarrow> string \<Rightarrow> int \<Rightarrow> int \<Rightarrow> int option \<Rightarrow> int" where
  "env_int env name dflt minimum maximum =
     (let raw = (case env name of None \<Rightarrow> [] | Some s \<Rightarrow> s);
          text = (if raw = [] then int_text dflt else raw);
          value = (case parse_int text of None \<Rightarrow> dflt | Some v \<Rightarrow> v);
          value = max value minimum in
      case maximum of None \<Rightarrow> value | Some m \<Rightarrow> min value m)"

lemma env_int_bounds:
  "minimum \<le> m \<Longrightarrow> minimum \<le> env_int env name d minimum (Some m) \<and> env_int env name d minimum (Some m) \<le> m"
  by (simp add: env_int_def Let_def)

lemma env_int_min: "minimum \<le> env_int env name d minimum None"
  by (simp add: env_int_def Let_def)

section \<open>Dictionaries\<close>

lemma map_of_update [dict_simps, simp]:
  "map_of (AList.update k v d) j = (if j = k then Some v else map_of d j)"
  by (simp add: AList.update_conv')

lemma map_of_delete [dict_simps, simp]:
  "map_of (AList.delete k d) j = (if j = k then None else map_of d j)"
  by (simp add: AList.delete_conv')

lemma field_update [dict_simps, simp]:
  "field (AList.update k v d) j = (if j = k then v else field d j)"
  by (simp add: field_def)

lemma field_delete [dict_simps, simp]:
  "field (AList.delete k d) j = (if j = k then PNone else field d j)"
  by (simp add: field_def)

definition distinct_keys :: "('k \<times> 'v) list \<Rightarrow> bool" where
  "distinct_keys d \<longleftrightarrow> distinct (map fst d)"

lemma distinct_keys_Nil [simp]: "distinct_keys []"
  by (simp add: distinct_keys_def)

lemma distinct_keys_update [simp]: "distinct_keys d \<Longrightarrow> distinct_keys (AList.update k v d)"
  by (simp add: distinct_keys_def AList.distinct_update)

lemma distinct_keys_delete [simp]: "distinct_keys d \<Longrightarrow> distinct_keys (AList.delete k d)"
  by (simp add: distinct_keys_def AList.distinct_delete)

lemma distinct_keys_filter [simp]: "distinct_keys d \<Longrightarrow> distinct_keys (filter P d)"
  by (auto simp: distinct_keys_def distinct_map_filter)

lemma map_of_filter_keys:
  "distinct_keys d \<Longrightarrow>
   map_of (filter (\<lambda>(k, v). P k v) d) j = (case map_of d j of None \<Rightarrow> None | Some v \<Rightarrow> if P j v then Some v else None)"
proof (induction d)
  case Nil
  then show ?case by simp
next
  case (Cons p d)
  obtain k v where p: "p = (k, v)" by (cases p)
  have fresh: "map_of d k = None"
    using Cons.prems p by (simp add: distinct_keys_def map_of_eq_None_iff)
  have "distinct_keys d" using Cons.prems by (simp add: distinct_keys_def)
  with Cons.IH p fresh show ?case by (auto split: option.splits)
qed

lemma update_fresh: "map_of d k = None \<Longrightarrow> AList.update k v d = d @ [(k, v)]"
  by (induction d) (auto split: if_splits)

lemma delete_fresh: "map_of d k = None \<Longrightarrow> AList.delete k d = d"
  by (induction d) (auto split: if_splits simp: AList.delete_eq)

lemma length_delete_le: "length (AList.delete k d) \<le> length d"
  by (rule AList.length_delete_le)

lemma length_delete_present:
  "distinct_keys d \<Longrightarrow> map_of d k = Some v \<Longrightarrow> length (AList.delete k d) = length d - 1"
proof (induction d)
  case Nil
  then show ?case by simp
next
  case (Cons p d)
  then show ?case
  proof (cases "fst p = k")
    case True
    then have "map_of d k = None"
      using Cons.prems(1) by (simp add: distinct_keys_def map_of_eq_None_iff)
    then have "AList.delete k d = d" by (rule delete_fresh)
    with True show ?thesis by (cases p) (simp add: AList.delete_eq)
  next
    case False
    with Cons.prems have "map_of d k = Some v" and "distinct_keys d"
      by (auto simp: distinct_keys_def split: prod.splits)
    with Cons.IH have IH: "length (AList.delete k d) = length d - 1" by blast
    have "d \<noteq> []" using \<open>map_of d k = Some v\<close> by auto
    with False IH show ?thesis by (cases p) (simp add: AList.delete_eq Suc_diff_1)
  qed
qed

lemma update_list_all: "list_all P d \<Longrightarrow> P (k, v) \<Longrightarrow> list_all P (AList.update k v d)"
  by (induction d) auto

lemma length_update_present: "map_of d k \<noteq> None \<Longrightarrow> length (AList.update k v d) = length d"
  by (induction d) auto


text \<open>
  A sum over the values of a dictionary, in any commutative monoid: counts of entries (an
  indicator) and bags of what the entries hold are instances.
\<close>

definition ksum :: "('v \<Rightarrow> 'm::comm_monoid_add) \<Rightarrow> ('k \<times> 'v) list \<Rightarrow> 'm" where
  "ksum f d = sum_list (map (\<lambda>p. f (snd p)) d)"

lemma ksum_Nil [simp]: "ksum f [] = 0"
  by (simp add: ksum_def)

lemma ksum_Cons [simp]: "ksum f (p # d) = f (snd p) + ksum f d"
  by (simp add: ksum_def)

lemma ksum_append [simp]: "ksum f (d @ e) = ksum f d + ksum f e"
  by (simp add: ksum_def)

lemma ksum_update_fresh: "map_of d k = None \<Longrightarrow> ksum f (AList.update k v d) = ksum f d + f v"
  by (simp add: update_fresh)

lemma ksum_update_swap:
  "map_of d k = Some old \<Longrightarrow> ksum f (AList.update k new d) + f old = ksum f d + f new"
proof (induction d)
  case Nil
  then show ?case by simp
next
  case (Cons p d)
  show ?case
  proof (cases "fst p = k")
    case True
    with Cons.prems show ?thesis by (cases p) (simp add: ac_simps)
  next
    case False
    with Cons.prems have "map_of d k = Some old" by (cases p) simp
    with Cons.IH have IH: "ksum f (AList.update k new d) + f old = ksum f d + f new" by blast
    have "ksum f (AList.update k new (p # d)) + f old = f (snd p) + (ksum f (AList.update k new d) + f old)"
      using False by (cases p) (simp add: ac_simps)
    also have "\<dots> = f (snd p) + (ksum f d + f new)" by (simp only: IH)
    finally show ?thesis by (simp add: ac_simps)
  qed
qed

lemma ksum_delete_swap:
  "distinct_keys d \<Longrightarrow> map_of d k = Some old \<Longrightarrow> ksum f (AList.delete k d) + f old = ksum f d"
proof (induction d)
  case Nil
  then show ?case by simp
next
  case (Cons p d)
  show ?case
  proof (cases "fst p = k")
    case True
    then have "map_of d k = None"
      using Cons.prems(1) by (simp add: distinct_keys_def map_of_eq_None_iff)
    then have "AList.delete k d = d" by (rule delete_fresh)
    with True Cons.prems show ?thesis by (cases p) (simp add: AList.delete_eq ac_simps)
  next
    case False
    with Cons.prems have "map_of d k = Some old" and "distinct_keys d"
      by (auto simp: distinct_keys_def split: prod.splits)
    with Cons.IH have "ksum f (AList.delete k d) + f old = ksum f d" by blast
    with False show ?thesis by (cases p) (simp add: AList.delete_eq ac_simps)
  qed
qed

lemma ksum_update_int:
  fixes f :: "'v \<Rightarrow> int"
  shows "map_of d k = Some old \<Longrightarrow> ksum f (AList.update k new d) = ksum f d + f new - f old"
  using ksum_update_swap [of d k old f new] by simp

lemma ksum_delete_int:
  fixes f :: "'v \<Rightarrow> int"
  shows "distinct_keys d \<Longrightarrow> map_of d k = Some old \<Longrightarrow> ksum f (AList.delete k d) = ksum f d - f old"
  using ksum_delete_swap [of d k old f] by simp

lemma ksum_nonneg:
  fixes f :: "'v \<Rightarrow> int"
  shows "(\<And>v. 0 \<le> f v) \<Longrightarrow> 0 \<le> ksum f d"
  by (induction d) auto

lemma ksum_ge_value:
  fixes f :: "'v \<Rightarrow> int"
  assumes "\<And>v. 0 \<le> f v" and "map_of d k = Some v"
  shows "f v \<le> ksum f d"
  using assms(2)
proof (induction d)
  case (Cons p d)
  have "0 \<le> ksum f d" by (rule ksum_nonneg) (rule assms(1))
  with Cons assms(1) [of "snd p"] show ?case by (cases p) (auto split: if_splits)
qed simp

lemma ksum_cong: "(\<And>v. v \<in> snd ` set d \<Longrightarrow> f v = g v) \<Longrightarrow> ksum f d = ksum g d"
  by (induction d) auto

lemmas dict_sum_rules = ksum_update_fresh ksum_update_int ksum_delete_int

text \<open>Equality of dictionaries does not see the order of the items.\<close>

definition dict_eq :: "('k \<times> 'v) list \<Rightarrow> ('k \<times> 'v) list \<Rightarrow> bool" where
  "dict_eq a b \<longleftrightarrow>
     list_all (\<lambda>k. map_of a k = map_of b k) (map fst a) \<and> list_all (\<lambda>k. map_of a k = map_of b k) (map fst b)"

lemma dict_eq_iff: "dict_eq a b \<longleftrightarrow> map_of a = map_of b"
proof
  assume eq: "dict_eq a b"
  show "map_of a = map_of b"
  proof
    fix k
    show "map_of a k = map_of b k"
    proof (cases "k \<in> set (map fst a) \<or> k \<in> set (map fst b)")
      case True
      with eq show ?thesis by (auto simp: dict_eq_def list_all_iff)
    next
      case False
      then show ?thesis by (auto simp: map_of_eq_None_iff [THEN iffD2])
    qed
  qed
qed (simp add: dict_eq_def list_all_iff)

section \<open>Sequences\<close>

text \<open>\<open>xs[-n:]\<close> for a positive \<open>n\<close>: the last \<open>n\<close> elements.\<close>

definition last_n :: "nat \<Rightarrow> 'a list \<Rightarrow> 'a list" where
  "last_n n xs = drop (length xs - n) xs"

lemma length_last_n [simp]: "length (last_n n xs) = min n (length xs)"
  by (simp add: last_n_def)

lemma set_last_n: "set (last_n n xs) \<subseteq> set xs"
  by (simp add: last_n_def set_drop_subset)

lemma last_n_last_n [simp]: "last_n n (last_n n xs) = last_n n xs"
  by (simp add: last_n_def)

lemma last_n_short: "length xs \<le> n \<Longrightarrow> last_n n xs = xs"
  by (simp add: last_n_def)

lemma last_n_append_last_n: "last_n n (last_n n xs @ ys) = last_n n (xs @ ys)"
  by (cases "n \<le> length xs") (auto simp: last_n_def add.commute)

text \<open>\<open>list(dict.fromkeys(xs))\<close>: first occurrences, in order.\<close>

fun fromkeys_from :: "'a list \<Rightarrow> 'a list \<Rightarrow> 'a list" where
  "fromkeys_from seen [] = []"
| "fromkeys_from seen (x # xs) =
     (if x \<in> set seen then fromkeys_from seen xs else x # fromkeys_from (x # seen) xs)"

definition fromkeys :: "'a list \<Rightarrow> 'a list" where
  "fromkeys xs = fromkeys_from [] xs"

lemma set_fromkeys_from: "set (fromkeys_from seen xs) = set xs - set seen"
  by (induction seen xs rule: fromkeys_from.induct) auto

lemma distinct_fromkeys_from: "distinct (fromkeys_from seen xs)"
  by (induction seen xs rule: fromkeys_from.induct) (auto simp: set_fromkeys_from)

lemma set_fromkeys [simp]: "set (fromkeys xs) = set xs"
  by (simp add: fromkeys_def set_fromkeys_from)

lemma distinct_fromkeys [simp]: "distinct (fromkeys xs)"
  by (simp add: fromkeys_def distinct_fromkeys_from)

lemma fromkeys_from_distinct: "distinct xs \<Longrightarrow> set xs \<inter> set seen = {} \<Longrightarrow> fromkeys_from seen xs = xs"
  by (induction xs arbitrary: seen) auto

lemma fromkeys_distinct: "distinct xs \<Longrightarrow> fromkeys xs = xs"
  by (simp add: fromkeys_def fromkeys_from_distinct)

text \<open>\<open>max(xs, key=f)\<close>: the first element with the greatest key.\<close>

fun max_by :: "('a \<Rightarrow> 'k::linorder) \<Rightarrow> 'a \<Rightarrow> 'a list \<Rightarrow> 'a" where
  "max_by f best [] = best"
| "max_by f best (x # xs) = max_by f (if f best < f x then x else best) xs"

lemma max_by_in: "max_by f best xs \<in> insert best (set xs)"
  by (induction f best xs rule: max_by.induct) auto

lemma max_by_ge: "x \<in> insert best (set xs) \<Longrightarrow> f x \<le> f (max_by f best xs)"
proof (induction f best xs arbitrary: x rule: max_by.induct)
  case (1 f best)
  then show ?case by simp
next
  case (2 f best y ys)
  let ?b = "if f best < f y then y else best"
  have b: "f best \<le> f ?b" "f y \<le> f ?b" by auto
  have top: "f ?b \<le> f (max_by f ?b ys)" by (rule "2.IH") simp
  show ?case
  proof (cases "x \<in> set ys")
    case True
    then have "x \<in> insert ?b (set ys)" by simp
    then have "f x \<le> f (max_by f ?b ys)" by (rule "2.IH")
    then show ?thesis by simp
  next
    case False
    with "2.prems" have "x = best \<or> x = y" by simp
    then have "f x \<le> f ?b" using b by metis
    from this top have "f x \<le> f (max_by f ?b ys)" by (rule order_trans)
    then show ?thesis by simp
  qed
qed

section \<open>State machines with an invariant\<close>

text \<open>
  A machine is a step function on states and operations, a predicate of the operations that
  are allowed in a state, and an invariant that every allowed step keeps. The client lemma is
  the run lemma: the invariant holds after any sequence of allowed operations.
\<close>

fun allowed_run :: "('s \<Rightarrow> 'o \<Rightarrow> bool) \<Rightarrow> ('s \<Rightarrow> 'o \<Rightarrow> 's) \<Rightarrow> 's \<Rightarrow> 'o list \<Rightarrow> bool" where
  "allowed_run ok step s [] = True"
| "allowed_run ok step s (x # xs) = (ok s x \<and> allowed_run ok step (step s x) xs)"

fun run :: "('s \<Rightarrow> 'o \<Rightarrow> 's) \<Rightarrow> 's \<Rightarrow> 'o list \<Rightarrow> 's" where
  "run step s [] = s"
| "run step s (x # xs) = run step (step s x) xs"

lemma run_append: "run step s (xs @ ys) = run step (run step s xs) ys"
  by (induction xs arbitrary: s) auto

lemma allowed_run_append:
  "allowed_run ok step s (xs @ ys) \<longleftrightarrow> allowed_run ok step s xs \<and> allowed_run ok step (run step s xs) ys"
  by (induction xs arbitrary: s) auto

lemma allowed_run_list_all: "allowed_run (\<lambda>_ x. P x) step s xs = list_all P xs"
  by (induction xs arbitrary: s) auto

locale guarded_machine =
  fixes step :: "'s \<Rightarrow> 'o \<Rightarrow> 's"
    and ok :: "'s \<Rightarrow> 'o \<Rightarrow> bool"
    and inv :: "'s \<Rightarrow> bool"
  assumes step_inv: "inv s \<Longrightarrow> ok s x \<Longrightarrow> inv (step s x)"
begin

lemma run_inv: "inv s \<Longrightarrow> allowed_run ok step s xs \<Longrightarrow> inv (run step s xs)"
  by (induction xs arbitrary: s) (auto intro: step_inv)

lemma run_prefix_inv:
  "inv s \<Longrightarrow> allowed_run ok step s (xs @ ys) \<Longrightarrow> inv (run step s xs)"
  by (simp add: allowed_run_append run_inv)

end

text \<open>A machine whose steps need no guard.\<close>

locale invariant_machine =
  fixes step :: "'s \<Rightarrow> 'o \<Rightarrow> 's"
    and inv :: "'s \<Rightarrow> bool"
  assumes step_keeps: "inv s \<Longrightarrow> inv (step s x)"
begin

lemma run_keeps: "inv s \<Longrightarrow> inv (run step s xs)"
  by (induction xs arbitrary: s) (auto intro: step_keeps)

end

sublocale invariant_machine \<subseteq> guarded: guarded_machine step "\<lambda>_ _. True" inv
  by unfold_locales (rule step_keeps)

end
