(* ===== verification/TaskRunner.thy ===== *)
theory TaskRunner
  imports Prelude "HOL-Library.Multiset"
begin

text \<open>
  \<open>services/bounded_task_runner.py\<close>: bounded admission and fixed concurrency for
  background work. The runner is a record; reservations and run states are objects of the
  code, so they live in stores keyed by identity (\<open>resvs\<close>, \<open>runs\<close>), and the worker
  threads that are alive are the entries of \<open>workers\<close>. Each operation that the code does
  under \<open>_lock\<close> is one function; a worker thread is the sequence of its atomic steps
  (\<open>worker_acquire\<close>, \<open>worker_poll\<close>, \<open>worker_check\<close>, \<open>worker_decide\<close>,
  \<open>worker_done\<close>), so that every interleaving of clients and workers is a list of operations.
  What follows a critical section without taking the lock again (the calls of the cancel
  handlers, \<open>task_done\<close>, the end of the thread) belongs to the step of that section.

  The fields \<open>committed_log\<close>, \<open>finished_log\<close>, \<open>cancelled_log\<close> and
  \<open>notified\<close> are histories: they record what was committed, run to its end, cancelled, and
  which cancel handlers were called. No guard reads them.
\<close>

section \<open>State\<close>

text \<open>\<open>env_int\<close> of this module: a lower bound only.\<close>

definition runner_env_int :: "environ \<Rightarrow> string \<Rightarrow> int \<Rightarrow> int \<Rightarrow> int" where
  "runner_env_int env name dflt minimum =
     (let raw = (case env name of None \<Rightarrow> [] | Some s \<Rightarrow> s) in
      case parse_int (if raw = [] then int_text dflt else raw) of
        Some v \<Rightarrow> max minimum v
      | None \<Rightarrow> max minimum dflt)"

datatype reservation_state = Reserved | Committed | RolledBack | Cancelled

datatype runner_mode = ModeRunning | ModeDraining | ModeCancelled

text \<open>A task: the callback with its arguments, and the handler to call when it never starts.\<close>

type_synonym ('c, 'k) task = "'c \<times> 'k option"

record ('c, 'k) run_state =
  queue :: "('c, 'k) task list"
  mode :: runner_mode
  threads :: "nat list"
  unfinished :: int

record reservation =
  res_run :: nat
  res_state :: reservation_state

text \<open>Where a worker thread is: waiting for a slot, polling its queue, back from a \<open>get\<close> that
  timed out, holding a task it has taken but not decided on, or running a callback.\<close>

datatype ('c, 'k) worker_state =
    WaitSlot
  | Polling
  | TimedOut
  | Holding "('c, 'k) task"
  | Executing "('c, 'k) task"

record ('c, 'k) worker =
  w_run :: nat
  w_state :: "('c, 'k) worker_state"

record ('c, 'k) runner =
  max_workers :: nat
  queue_size :: nat
  capacity :: nat
  generation :: nat
  runs :: "(nat \<times> ('c, 'k) run_state) list"
  resvs :: "(nat \<times> reservation) list"
  pending :: "nat list"
  workers :: "(nat \<times> ('c, 'k) worker) list"
  slots :: int
  accepted :: int
  active :: int
  closed :: bool
  next_resv :: nat
  next_thread :: nat
  reported :: nat
  committed_log :: "('c, 'k) task list"
  finished_log :: "('c, 'k) task list"
  cancelled_log :: "('c, 'k) task list"
  notified :: "'k list"

definition fresh_run :: "('c, 'k) run_state" where
  "fresh_run = \<lparr>queue = [], mode = ModeRunning, threads = [], unfinished = 0\<rparr>"

definition init_runner :: "int \<Rightarrow> int \<Rightarrow> ('c, 'k) runner" where
  "init_runner workers_wanted queue_wanted =
     (let mw = nat (max 1 workers_wanted); qs = nat (max 1 queue_wanted) in
      \<lparr>max_workers = mw, queue_size = qs, capacity = mw + qs, generation = 1,
       runs = [(1, fresh_run)], resvs = [], pending = [], workers = [], slots = int mw,
       accepted = 0, active = 0, closed = False, next_resv = 0, next_thread = 0, reported = 0,
       committed_log = [], finished_log = [], cancelled_log = [], notified = []\<rparr>)"

text \<open>The run state object of a generation; \<open>self._state\<close> is that of the current one.\<close>

definition run_of :: "('c, 'k) runner \<Rightarrow> nat \<Rightarrow> ('c, 'k) run_state" where
  "run_of s g = (case map_of (runs s) g of None \<Rightarrow> fresh_run | Some r \<Rightarrow> r)"

definition put_run :: "nat \<Rightarrow> ('c, 'k) run_state \<Rightarrow> ('c, 'k) runner \<Rightarrow> ('c, 'k) runner" where
  "put_run g r s = s\<lparr>runs := AList.update g r (runs s)\<rparr>"

section \<open>Operations of the clients\<close>

text \<open>\<open>_start_locked\<close>: start the workers of a run that has none.\<close>

fun spawn_workers :: "nat \<Rightarrow> nat \<Rightarrow> ('c, 'k) runner \<Rightarrow> ('c, 'k) runner" where
  "spawn_workers 0 g s = s"
| "spawn_workers (Suc n) g s =
     (let t = next_thread s; r = run_of s g in
      spawn_workers n g
        ((put_run g (r\<lparr>threads := threads r @ [t]\<rparr>) s)
           \<lparr>workers := AList.update t \<lparr>w_run = g, w_state = WaitSlot\<rparr> (workers s),
            next_thread := Suc t\<rparr>))"

definition start_locked :: "nat \<Rightarrow> ('c, 'k) runner \<Rightarrow> ('c, 'k) runner" where
  "start_locked g s = (if threads (run_of s g) \<noteq> [] then s else spawn_workers (max_workers s) g s)"

text \<open>\<open>self._generation += 1\<close> and a fresh \<open>_RunState\<close>.\<close>

definition new_generation :: "('c, 'k) runner \<Rightarrow> ('c, 'k) runner" where
  "new_generation s =
     (put_run (Suc (generation s)) fresh_run s)\<lparr>generation := Suc (generation s), closed := False\<rparr>"

definition start :: "('c, 'k) runner \<Rightarrow> ('c, 'k) runner" where
  "start s =
     (let s = (if closed s \<or> mode (run_of s (generation s)) \<noteq> ModeRunning then new_generation s else s)
      in start_locked (generation s) s)"

definition reserve :: "('c, 'k) runner \<Rightarrow> nat option \<times> ('c, 'k) runner" where
  "reserve s =
     (if closed s \<or> mode (run_of s (generation s)) \<noteq> ModeRunning then (None, s)
      else if int (capacity s) \<le> accepted s then (None, s)
      else
        let s = start_locked (generation s) s; rid = next_resv s in
        (Some rid,
         s\<lparr>resvs := AList.update rid \<lparr>res_run = generation s, res_state = Reserved\<rparr> (resvs s),
           pending := rid # pending s, next_resv := Suc rid, accepted := accepted s + 1\<rparr>))"

definition owns_pending :: "nat \<Rightarrow> ('c, 'k) runner \<Rightarrow> bool" where
  "owns_pending rid s \<longleftrightarrow>
     (case map_of (resvs s) rid of None \<Rightarrow> False | Some r \<Rightarrow> res_state r = Reserved \<and> rid \<in> set (pending s))"

definition cancel_reservation :: "nat \<Rightarrow> ('c, 'k) runner \<Rightarrow> ('c, 'k) runner" where
  "cancel_reservation rid s =
     (let s = s\<lparr>pending := removeAll rid (pending s)\<rparr> in
      case map_of (resvs s) rid of
        None \<Rightarrow> s
      | Some r \<Rightarrow>
          if res_state r = Reserved
          then s\<lparr>resvs := AList.update rid (r\<lparr>res_state := Cancelled\<rparr>) (resvs s), accepted := accepted s - 1\<rparr>
          else s)"

definition commit :: "nat \<Rightarrow> ('c, 'k) task \<Rightarrow> ('c, 'k) runner \<Rightarrow> bool \<times> ('c, 'k) runner" where
  "commit rid tk s =
     (case map_of (resvs s) rid of
        None \<Rightarrow> (False, s)
      | Some r \<Rightarrow>
          if \<not> owns_pending rid s then (False, s)
          else if closed s \<or> res_run r \<noteq> generation s then (False, cancel_reservation rid s)
          else
            let q = run_of s (res_run r) in
            if mode q \<noteq> ModeRunning then (False, cancel_reservation rid s)
            else if capacity s \<le> length (queue q) then (False, cancel_reservation rid s)
            else
              (True,
               (put_run (res_run r) (q\<lparr>queue := queue q @ [tk], unfinished := unfinished q + 1\<rparr>) s)
                 \<lparr>pending := removeAll rid (pending s),
                  resvs := AList.update rid (r\<lparr>res_state := Committed\<rparr>) (resvs s),
                  committed_log := committed_log s @ [tk]\<rparr>))"

definition rollback :: "nat \<Rightarrow> ('c, 'k) runner \<Rightarrow> bool \<times> ('c, 'k) runner" where
  "rollback rid s =
     (case map_of (resvs s) rid of
        None \<Rightarrow> (False, s)
      | Some r \<Rightarrow>
          if \<not> owns_pending rid s then (False, s)
          else
            (True,
             s\<lparr>pending := removeAll rid (pending s),
               resvs := AList.update rid (r\<lparr>res_state := RolledBack\<rparr>) (resvs s),
               accepted := accepted s - 1\<rparr>))"

definition submit :: "'c \<Rightarrow> ('c, 'k) runner \<Rightarrow> bool \<times> ('c, 'k) runner" where
  "submit callback s =
     (case reserve s of
        (None, s) \<Rightarrow> (False, s)
      | (Some rid, s) \<Rightarrow>
          (case commit rid (callback, None) s of
             (True, s) \<Rightarrow> (True, s)
           | (False, s) \<Rightarrow> (False, snd (rollback rid s))))"

text \<open>\<open>_notify_cancelled\<close>: call the handlers; one that raises is reported, and the rest are
  still called. Whether the client's handler raises is the argument \<open>fails\<close>.\<close>

fun handlers :: "('c, 'k) task list \<Rightarrow> 'k list" where
  "handlers [] = []"
| "handlers ((_, None) # ts) = handlers ts"
| "handlers ((_, Some h) # ts) = h # handlers ts"

definition notify_cancelled ::
  "('k \<Rightarrow> bool) \<Rightarrow> ('c, 'k) task list \<Rightarrow> ('c, 'k) runner \<Rightarrow> ('c, 'k) runner" where
  "notify_cancelled fails ts s =
     s\<lparr>notified := notified s @ handlers ts,
       reported := reported s + length (filter fails (handlers ts)),
       cancelled_log := cancelled_log s @ ts\<rparr>"

text \<open>\<open>_close_locked\<close>: the tasks that will not run, and the closed runner.\<close>

definition close_mode :: "bool \<Rightarrow> runner_mode \<Rightarrow> runner_mode" where
  "close_mode wait m =
     (if \<not> wait then ModeCancelled else if m = ModeRunning then ModeDraining else m)"

definition cancel_current :: "('c, 'k) runner \<Rightarrow> ('c, 'k) runner" where
  "cancel_current s =
     fold (\<lambda>rid s. case map_of (resvs s) rid of
             None \<Rightarrow> s
           | Some r \<Rightarrow> if res_run r = generation s then cancel_reservation rid s else s)
       (pending s) s"

definition close_locked :: "bool \<Rightarrow> ('c, 'k) runner \<Rightarrow> ('c, 'k) task list \<times> ('c, 'k) runner" where
  "close_locked wait s =
     (let g = generation s;
          s = s\<lparr>closed := True\<rparr>;
          r = run_of s g;
          s = put_run g (r\<lparr>mode := close_mode wait (mode r)\<rparr>) s;
          s = cancel_current s;
          r = run_of s g in
      if mode r = ModeCancelled
      then (queue r,
            (put_run g (r\<lparr>queue := [], unfinished := unfinished r - int (length (queue r))\<rparr>) s)
              \<lparr>accepted := accepted s - int (length (queue r))\<rparr>)
      else ([], s))"

definition shutdown :: "('k \<Rightarrow> bool) \<Rightarrow> bool \<Rightarrow> ('c, 'k) runner \<Rightarrow> ('c, 'k) runner" where
  "shutdown fails wait s = (case close_locked wait s of (ts, s) \<Rightarrow> notify_cancelled fails ts s)"

definition shutdown_cancel_pending :: "('k \<Rightarrow> bool) \<Rightarrow> ('c, 'k) runner \<Rightarrow> ('c, 'k) runner" where
  "shutdown_cancel_pending fails s = (case close_locked False s of (ts, s) \<Rightarrow> notify_cancelled fails ts s)"

text \<open>\<open>_wait_for_shutdown\<close> returns in the states where this holds: the waiting thread is itself
  a worker, or the queue of the run is joined and the threads have ended.\<close>

definition wait_for_shutdown :: "nat \<Rightarrow> nat list \<Rightarrow> nat option \<Rightarrow> ('c, 'k) runner \<Rightarrow> bool" where
  "wait_for_shutdown g ts me s \<longleftrightarrow>
     (\<exists>t. me = Some t \<and> t \<in> set ts) \<or>
     (unfinished (run_of s g) = 0 \<and> list_all (\<lambda>t. map_of (workers s) t = None) ts)"

definition restart :: "('k \<Rightarrow> bool) \<Rightarrow> ('c, 'k) runner \<Rightarrow> ('c, 'k) runner" where
  "restart fails s =
     (case close_locked False s of
        (ts, s) \<Rightarrow>
          let s = new_generation s; s = start_locked (generation s) s in
          notify_cancelled fails ts s)"

record runner_status =
  st_queued :: nat
  st_reserved :: nat
  st_accepted :: int
  st_active :: int
  st_total_capacity :: nat
  st_started :: bool
  st_closed :: bool

definition status :: "('c, 'k) runner \<Rightarrow> runner_status" where
  "status s =
     (let r = run_of s (generation s) in
      \<lparr>st_queued = length (queue r), st_reserved = length (pending s), st_accepted = accepted s,
       st_active = active s, st_total_capacity = capacity s,
       st_started = list_ex (\<lambda>t. map_of (workers s) t \<noteq> None) (threads r),
       st_closed = closed s\<rparr>)"

section \<open>Steps of a worker thread\<close>

definition set_worker :: "nat \<Rightarrow> ('c, 'k) worker \<Rightarrow> ('c, 'k) runner \<Rightarrow> ('c, 'k) runner" where
  "set_worker t w s = s\<lparr>workers := AList.update t w (workers s)\<rparr>"

definition worker_acquire :: "nat \<Rightarrow> ('c, 'k) runner \<Rightarrow> ('c, 'k) runner" where
  "worker_acquire t s =
     (case map_of (workers s) t of
        None \<Rightarrow> s
      | Some w \<Rightarrow>
          if w_state w = WaitSlot \<and> 0 < slots s
          then (set_worker t (w\<lparr>w_state := Polling\<rparr>) s)\<lparr>slots := slots s - 1\<rparr>
          else s)"

text \<open>Leaving \<open>_worker\<close>: release the slot, then forget the thread.\<close>

definition worker_exit :: "nat \<Rightarrow> ('c, 'k) runner \<Rightarrow> ('c, 'k) runner" where
  "worker_exit t s = s\<lparr>slots := slots s + 1, workers := AList.delete t (workers s)\<rparr>"

text \<open>One \<open>queue.get(timeout=0.1)\<close>: a task or a timeout. The look at the mode that follows a
  timeout is a step of its own, since \<open>get\<close> has returned before the lock is taken.\<close>

definition worker_poll :: "nat \<Rightarrow> ('c, 'k) runner \<Rightarrow> ('c, 'k) runner" where
  "worker_poll t s =
     (case map_of (workers s) t of
        None \<Rightarrow> s
      | Some w \<Rightarrow>
          if w_state w \<noteq> Polling then s
          else
            let r = run_of s (w_run w) in
            case queue r of
              [] \<Rightarrow> set_worker t (w\<lparr>w_state := TimedOut\<rparr>) s
            | tk # rest \<Rightarrow>
                set_worker t (w\<lparr>w_state := Holding tk\<rparr>) (put_run (w_run w) (r\<lparr>queue := rest\<rparr>) s))"

definition worker_check :: "nat \<Rightarrow> ('c, 'k) runner \<Rightarrow> ('c, 'k) runner" where
  "worker_check t s =
     (case map_of (workers s) t of
        None \<Rightarrow> s
      | Some w \<Rightarrow>
          if w_state w \<noteq> TimedOut then s
          else if mode (run_of s (w_run w)) \<noteq> ModeRunning then worker_exit t s
          else set_worker t (w\<lparr>w_state := Polling\<rparr>) s)"

definition task_done :: "nat \<Rightarrow> ('c, 'k) runner \<Rightarrow> ('c, 'k) runner" where
  "task_done g s = (let r = run_of s g in put_run g (r\<lparr>unfinished := unfinished r - 1\<rparr>) s)"

definition worker_decide :: "('k \<Rightarrow> bool) \<Rightarrow> nat \<Rightarrow> ('c, 'k) runner \<Rightarrow> ('c, 'k) runner" where
  "worker_decide fails t s =
     (case map_of (workers s) t of
        None \<Rightarrow> s
      | Some w \<Rightarrow>
          (case w_state w of
             Holding tk \<Rightarrow>
               if mode (run_of s (w_run w)) \<noteq> ModeCancelled
               then (set_worker t (w\<lparr>w_state := Executing tk\<rparr>) s)\<lparr>active := active s + 1\<rparr>
               else worker_exit t
                      (notify_cancelled fails [tk] (task_done (w_run w) (s\<lparr>accepted := accepted s - 1\<rparr>)))
           | _ \<Rightarrow> s))"

text \<open>The end of a callback; \<open>raised\<close> says whether it raised.\<close>

definition worker_done :: "bool \<Rightarrow> nat \<Rightarrow> ('c, 'k) runner \<Rightarrow> ('c, 'k) runner" where
  "worker_done raised t s =
     (case map_of (workers s) t of
        None \<Rightarrow> s
      | Some w \<Rightarrow>
          (case w_state w of
             Executing tk \<Rightarrow>
               task_done (w_run w)
                 ((set_worker t (w\<lparr>w_state := Polling\<rparr>) s)
                    \<lparr>reported := (if raised then Suc (reported s) else reported s),
                     active := active s - 1, accepted := accepted s - 1,
                     finished_log := finished_log s @ [tk]\<rparr>)
           | _ \<Rightarrow> s))"

section \<open>The runner as a machine\<close>

datatype ('c, 'k) runner_op =
    Start
  | Restart
  | Reserve
  | Commit nat "('c, 'k) task"
  | Rollback nat
  | Submit 'c
  | Shutdown bool
  | ShutdownCancelPending
  | WorkerAcquire nat
  | WorkerPoll nat
  | WorkerCheck nat
  | WorkerDecide nat
  | WorkerDone bool nat

fun runner_step :: "('k \<Rightarrow> bool) \<Rightarrow> ('c, 'k) runner \<Rightarrow> ('c, 'k) runner_op \<Rightarrow> ('c, 'k) runner" where
  "runner_step fails s Start = start s"
| "runner_step fails s Restart = restart fails s"
| "runner_step fails s Reserve = snd (reserve s)"
| "runner_step fails s (Commit rid tk) = snd (commit rid tk s)"
| "runner_step fails s (Rollback rid) = snd (rollback rid s)"
| "runner_step fails s (Submit c) = snd (submit c s)"
| "runner_step fails s (Shutdown wait) = shutdown fails wait s"
| "runner_step fails s ShutdownCancelPending = shutdown_cancel_pending fails s"
| "runner_step fails s (WorkerAcquire t) = worker_acquire t s"
| "runner_step fails s (WorkerPoll t) = worker_poll t s"
| "runner_step fails s (WorkerCheck t) = worker_check t s"
| "runner_step fails s (WorkerDecide t) = worker_decide fails t s"
| "runner_step fails s (WorkerDone raised t) = worker_done raised t s"

section \<open>Invariant\<close>

text \<open>Counts and bags over the stores.\<close>

fun holding_of :: "('c, 'k) worker_state \<Rightarrow> int" where
  "holding_of (Holding _) = 1"
| "holding_of _ = 0"

fun executing_of :: "('c, 'k) worker_state \<Rightarrow> int" where
  "executing_of (Executing _) = 1"
| "executing_of _ = 0"

fun slotted_of :: "('c, 'k) worker_state \<Rightarrow> int" where
  "slotted_of WaitSlot = 0"
| "slotted_of _ = 1"

fun task_of :: "('c, 'k) worker_state \<Rightarrow> ('c, 'k) task multiset" where
  "task_of (Holding tk) = {#tk#}"
| "task_of (Executing tk) = {#tk#}"
| "task_of _ = {#}"

definition n_queued :: "('c, 'k) runner \<Rightarrow> int" where
  "n_queued s = ksum (\<lambda>r. int (length (queue r))) (runs s)"

definition n_holding :: "('c, 'k) runner \<Rightarrow> int" where
  "n_holding s = ksum (\<lambda>w. holding_of (w_state w)) (workers s)"

definition n_executing :: "('c, 'k) runner \<Rightarrow> int" where
  "n_executing s = ksum (\<lambda>w. executing_of (w_state w)) (workers s)"

definition n_slotted :: "('c, 'k) runner \<Rightarrow> int" where
  "n_slotted s = ksum (\<lambda>w. slotted_of (w_state w)) (workers s)"

definition in_hand :: "nat \<Rightarrow> ('c, 'k) worker \<Rightarrow> int" where
  "in_hand g w = (if w_run w = g then holding_of (w_state w) + executing_of (w_state w) else 0)"

definition shape_inv :: "('c, 'k) runner \<Rightarrow> bool" where
  "shape_inv s \<longleftrightarrow>
     distinct_keys (runs s) \<and> distinct_keys (workers s) \<and> distinct_keys (resvs s) \<and> distinct (pending s) \<and>
     capacity s = max_workers s + queue_size s \<and> 1 \<le> max_workers s \<and> 1 \<le> queue_size s \<and>
     map_of (runs s) (generation s) \<noteq> None \<and>
     (\<forall>g r. map_of (runs s) g = Some r \<longrightarrow> g \<le> generation s) \<and>
     (\<forall>t w. map_of (workers s) t = Some w \<longrightarrow> t < next_thread s \<and> map_of (runs s) (w_run w) \<noteq> None) \<and>
     (\<forall>rid r. map_of (resvs s) rid = Some r \<longrightarrow> rid < next_resv s)"

definition resv_inv :: "('c, 'k) runner \<Rightarrow> bool" where
  "resv_inv s \<longleftrightarrow>
     (\<forall>rid. rid \<in> set (pending s) \<longleftrightarrow> (\<exists>r. map_of (resvs s) rid = Some r \<and> res_state r = Reserved)) \<and>
     (\<forall>rid r. map_of (resvs s) rid = Some r \<and> res_state r = Reserved \<longrightarrow> res_run r = generation s) \<and>
     (closed s \<longrightarrow> pending s = [])"

definition mode_inv :: "('c, 'k) runner \<Rightarrow> bool" where
  "mode_inv s \<longleftrightarrow>
     (closed s \<longleftrightarrow> mode (run_of s (generation s)) \<noteq> ModeRunning) \<and>
     (\<forall>g r. map_of (runs s) g = Some r \<longrightarrow>
        (g \<noteq> generation s \<longrightarrow> mode r \<noteq> ModeRunning) \<and> (mode r = ModeCancelled \<longrightarrow> queue r = []))"

definition count_inv :: "('c, 'k) runner \<Rightarrow> bool" where
  "count_inv s \<longleftrightarrow>
     accepted s = int (length (pending s)) + n_queued s + n_holding s + n_executing s \<and>
     active s = n_executing s \<and>
     slots s + n_slotted s = int (max_workers s) \<and> 0 \<le> slots s \<and>
     accepted s \<le> int (capacity s)"

definition join_inv :: "('c, 'k) runner \<Rightarrow> bool" where
  "join_inv s \<longleftrightarrow>
     (\<forall>g r. map_of (runs s) g = Some r \<longrightarrow>
        unfinished r = int (length (queue r)) + ksum (in_hand g) (workers s))"

definition task_inv :: "('c, 'k) runner \<Rightarrow> bool" where
  "task_inv s \<longleftrightarrow>
     mset (committed_log s) =
       ksum (\<lambda>r. mset (queue r)) (runs s) + ksum (\<lambda>w. task_of (w_state w)) (workers s) +
       mset (finished_log s) + mset (cancelled_log s) \<and>
     notified s = handlers (cancelled_log s)"

definition runner_inv :: "('c, 'k) runner \<Rightarrow> bool" where
  "runner_inv s \<longleftrightarrow> shape_inv s \<and> resv_inv s \<and> mode_inv s \<and> count_inv s \<and> join_inv s \<and> task_inv s"

lemmas runner_inv_parts = shape_inv_def resv_inv_def mode_inv_def count_inv_def join_inv_def task_inv_def

lemmas runner_counts = n_queued_def n_holding_def n_executing_def n_slotted_def

lemma handlers_append [simp]: "handlers (xs @ ys) = handlers xs @ handlers ys"
  by (induction xs rule: handlers.induct) auto

lemma distinct_keys_single [simp]: "distinct_keys [p]"
  by (simp add: distinct_keys_def)

lemma runner_inv_init: "runner_inv (init_runner w q)"
  by (auto simp: runner_inv_def runner_inv_parts runner_counts init_runner_def Let_def run_of_def fresh_run_def in_hand_def)

lemma fresh_thread: "shape_inv s \<Longrightarrow> map_of (workers s) (next_thread s) = None"
  by (cases "map_of (workers s) (next_thread s)") (auto simp: shape_inv_def)

lemma fresh_resv: "shape_inv s \<Longrightarrow> map_of (resvs s) (next_resv s) = None"
  by (cases "map_of (resvs s) (next_resv s)") (auto simp: shape_inv_def)

lemma run_of_Some: "map_of (runs s) g = Some r \<Longrightarrow> run_of s g = r"
  by (simp add: run_of_def)

text \<open>Entering a worker that has nothing in hand.\<close>

lemma spawn_one_inv:
  assumes "runner_inv s" and "map_of (runs s) g = Some r"
  shows "runner_inv
     ((put_run g (r\<lparr>threads := ts\<rparr>) s)
        \<lparr>workers := AList.update (next_thread s) \<lparr>w_run = g, w_state = WaitSlot\<rparr> (workers s),
         next_thread := Suc (next_thread s)\<rparr>)" (is "runner_inv ?s")
proof -
  have fresh: "map_of (workers s) (next_thread s) = None"
    using assms(1) by (intro fresh_thread) (simp add: runner_inv_def)
  have "shape_inv ?s"
    using assms by (auto simp: runner_inv_def shape_inv_def put_run_def less_SucI)
  moreover have "resv_inv ?s"
    using assms by (auto simp: runner_inv_def resv_inv_def put_run_def)
  moreover have "mode_inv ?s"
    using assms by (auto simp: runner_inv_def mode_inv_def put_run_def run_of_def)
  moreover have "count_inv ?s"
    using assms fresh by (simp add: runner_inv_def count_inv_def put_run_def runner_counts dict_sum_rules)
  moreover have "join_inv ?s"
    using assms fresh by (auto simp: runner_inv_def join_inv_def put_run_def dict_sum_rules in_hand_def)
  moreover have "task_inv ?s"
    using assms fresh ksum_update_swap [OF assms(2), of "\<lambda>r. mset (queue r)" "r\<lparr>threads := ts\<rparr>"]
    by (simp add: runner_inv_def task_inv_def put_run_def ksum_update_fresh)
  ultimately show ?thesis by (simp add: runner_inv_def)
qed

lemma spawn_workers_inv:
  "runner_inv s \<Longrightarrow> map_of (runs s) g \<noteq> None \<Longrightarrow> runner_inv (spawn_workers n g s)"
proof (induction n g s rule: spawn_workers.induct)
  case (1 g s)
  then show ?case by simp
next
  case (2 n g s)
  then obtain r where r: "map_of (runs s) g = Some r" by blast
  have inv: "runner_inv ((put_run g (r\<lparr>threads := threads r @ [next_thread s]\<rparr>) s)
        \<lparr>workers := AList.update (next_thread s) \<lparr>w_run = g, w_state = WaitSlot\<rparr> (workers s),
         next_thread := Suc (next_thread s)\<rparr>)"
    using "2.prems"(1) r by (rule spawn_one_inv)
  show ?case
    using "2.IH" [OF refl refl] inv r
    by (simp add: Let_def run_of_Some put_run_def)
qed

lemma start_locked_inv:
  "runner_inv s \<Longrightarrow> map_of (runs s) g \<noteq> None \<Longrightarrow> runner_inv (start_locked g s)"
  by (simp add: start_locked_def spawn_workers_inv)

lemma spawn_workers_frame:
  "generation (spawn_workers n g s) = generation s \<and> closed (spawn_workers n g s) = closed s \<and>
   resvs (spawn_workers n g s) = resvs s \<and> pending (spawn_workers n g s) = pending s \<and>
   accepted (spawn_workers n g s) = accepted s \<and> capacity (spawn_workers n g s) = capacity s \<and>
   next_resv (spawn_workers n g s) = next_resv s \<and> active (spawn_workers n g s) = active s"
  by (induction n g s rule: spawn_workers.induct) (simp_all add: Let_def put_run_def)

lemma start_locked_frame [simp]:
  "generation (start_locked g s) = generation s" "closed (start_locked g s) = closed s"
  "resvs (start_locked g s) = resvs s" "pending (start_locked g s) = pending s"
  "accepted (start_locked g s) = accepted s" "capacity (start_locked g s) = capacity s"
  "next_resv (start_locked g s) = next_resv s" "active (start_locked g s) = active s"
  by (simp_all add: start_locked_def spawn_workers_frame)

lemma closed_pending: "runner_inv s \<Longrightarrow> closed s \<Longrightarrow> pending s = []"
  by (simp add: runner_inv_def resv_inv_def)

lemma closed_mode: "runner_inv s \<Longrightarrow> closed s \<longleftrightarrow> mode (run_of s (generation s)) \<noteq> ModeRunning"
  by (simp add: runner_inv_def mode_inv_def)

lemma current_run: "runner_inv s \<Longrightarrow> map_of (runs s) (generation s) \<noteq> None"
  by (simp add: runner_inv_def shape_inv_def)

lemma new_generation_inv:
  assumes "runner_inv s" and "pending s = []" and "mode (run_of s (generation s)) \<noteq> ModeRunning"
  shows "runner_inv (new_generation s)"
proof -
  have fresh: "map_of (runs s) (Suc (generation s)) = None"
    using assms(1) by (cases "map_of (runs s) (Suc (generation s))") (auto simp: runner_inv_def shape_inv_def)
  have old: "w_run w \<noteq> Suc (generation s)" if "map_of (workers s) t = Some w" for t w
  proof -
    have "map_of (runs s) (w_run w) \<noteq> None" using assms(1) that by (simp add: runner_inv_def shape_inv_def)
    with fresh show ?thesis by metis
  qed
  have zero: "ksum (in_hand (Suc (generation s))) (workers s) = 0"
  proof -
    have "w_run w \<noteq> Suc (generation s)" if "w \<in> snd ` set (workers s)" for w
      using that assms(1) old by (auto simp: runner_inv_def shape_inv_def distinct_keys_def)
    then have "ksum (in_hand (Suc (generation s))) (workers s) = ksum (\<lambda>_. 0) (workers s)"
      by (intro ksum_cong) (simp add: in_hand_def)
    then show ?thesis by (simp add: ksum_def)
  qed
  have "shape_inv (new_generation s)"
    using assms fresh by (auto simp: runner_inv_def shape_inv_def new_generation_def put_run_def intro: le_SucI)
  moreover have "resv_inv (new_generation s)"
    using assms by (auto simp: runner_inv_def resv_inv_def new_generation_def put_run_def)
  moreover have "mode_inv (new_generation s)"
  proof -
    have cur: "map_of (runs s) (generation s) = Some (run_of s (generation s))"
      using current_run [OF assms(1)] by (auto simp: run_of_def)
    have "mode r \<noteq> ModeRunning \<and> (mode r = ModeCancelled \<longrightarrow> queue r = [])"
      if "map_of (runs s) g = Some r" for g r
      using assms(1,3) cur that by (cases "g = generation s") (auto simp: runner_inv_def mode_inv_def)
    then show ?thesis
      by (auto simp: mode_inv_def new_generation_def put_run_def run_of_def fresh_run_def)
  qed
  moreover have "count_inv (new_generation s)"
    using assms fresh
    by (simp add: runner_inv_def count_inv_def new_generation_def put_run_def runner_counts dict_sum_rules fresh_run_def)
  moreover have "join_inv (new_generation s)"
    using assms fresh zero
    by (auto simp: runner_inv_def join_inv_def new_generation_def put_run_def fresh_run_def)
  moreover have "task_inv (new_generation s)"
    using assms fresh
    by (simp add: runner_inv_def task_inv_def new_generation_def put_run_def ksum_update_fresh fresh_run_def)
  ultimately show ?thesis by (simp add: runner_inv_def)
qed

lemma start_inv:
  assumes "runner_inv s"
  shows "runner_inv (start s)"
proof (cases "closed s")
  case True
  then have "runner_inv (new_generation s)"
    using assms closed_pending closed_mode new_generation_inv by blast
  then show ?thesis
    using True current_run [of "new_generation s"] by (simp add: start_def Let_def start_locked_inv)
next
  case False
  then show ?thesis
    using assms closed_mode [OF assms] current_run [OF assms] by (simp add: start_def start_locked_inv)
qed

lemma reserve_inv:
  assumes "runner_inv s"
  shows "runner_inv (snd (reserve s))"
proof (cases "closed s \<or> mode (run_of s (generation s)) \<noteq> ModeRunning \<or> int (capacity s) \<le> accepted s")
  case True
  with assms show ?thesis by (auto simp: reserve_def)
next
  case False
  let ?s = "start_locked (generation s) s"
  let ?t = "?s\<lparr>resvs := AList.update (next_resv s) \<lparr>res_run = generation s, res_state = Reserved\<rparr> (resvs s),
      pending := next_resv s # pending s, next_resv := Suc (next_resv s), accepted := accepted s + 1\<rparr>"
  have inv: "runner_inv ?s" using assms current_run start_locked_inv by blast
  have fresh: "map_of (resvs s) (next_resv s) = None"
    using assms by (intro fresh_resv) (simp add: runner_inv_def)
  have notin: "next_resv s \<notin> set (pending s)"
    using assms fresh by (auto simp: runner_inv_def resv_inv_def)
  have "shape_inv ?t" "mode_inv ?t" "count_inv ?t" "join_inv ?t" "task_inv ?t"
    using inv False notin
    by (auto simp: runner_inv_def runner_inv_parts runner_counts run_of_def less_SucI)
  moreover have "resv_inv ?t"
    using inv False fresh by (auto simp: runner_inv_def resv_inv_def)
  ultimately show ?thesis
    using False by (simp add: reserve_def Let_def runner_inv_def)
qed

lemma distinct_length_removeAll:
  "distinct xs \<Longrightarrow> x \<in> set xs \<Longrightarrow> int (length (removeAll x xs)) = int (length xs) - 1"
  by (metis distinct_remove1_removeAll length_remove1 length_pos_if_in_set of_nat_diff of_nat_1
      One_nat_def Suc_leI)

text \<open>Ending a reservation: cancelled or rolled back.\<close>

definition end_resv :: "reservation_state \<Rightarrow> nat \<Rightarrow> reservation \<Rightarrow> ('c, 'k) runner \<Rightarrow> ('c, 'k) runner" where
  "end_resv st rid r s =
     s\<lparr>pending := removeAll rid (pending s),
       resvs := AList.update rid (r\<lparr>res_state := st\<rparr>) (resvs s), accepted := accepted s - 1\<rparr>"

lemma end_resv_inv:
  assumes "runner_inv s" and "map_of (resvs s) rid = Some r" and "res_state r = Reserved"
    and "st \<noteq> Reserved"
  shows "runner_inv (end_resv st rid r s)" (is "runner_inv ?s")
proof -
  have p: "rid \<in> set (pending s)" "distinct (pending s)"
    using assms by (auto simp: runner_inv_def resv_inv_def shape_inv_def)
  have "shape_inv ?s" "mode_inv ?s" "join_inv ?s" "task_inv ?s"
    using assms by (auto simp: end_resv_def runner_inv_def runner_inv_parts run_of_def distinct_removeAll)
  moreover have "count_inv ?s"
    using assms p by (simp add: end_resv_def runner_inv_def count_inv_def runner_counts distinct_length_removeAll)
  moreover have "resv_inv ?s"
    using assms by (auto simp: end_resv_def runner_inv_def resv_inv_def)
  ultimately show ?thesis by (simp add: runner_inv_def)
qed

lemma pending_resv:
  "runner_inv s \<Longrightarrow> rid \<in> set (pending s) \<Longrightarrow>
   \<exists>r. map_of (resvs s) rid = Some r \<and> res_state r = Reserved \<and> res_run r = generation s"
  by (auto simp: runner_inv_def resv_inv_def)

lemma owns_pending_iff: "runner_inv s \<Longrightarrow> owns_pending rid s \<longleftrightarrow> rid \<in> set (pending s)"
  by (auto simp: owns_pending_def runner_inv_def resv_inv_def split: option.splits)

lemma cancel_reservation_pending:
  "map_of (resvs s) rid = Some r \<Longrightarrow> res_state r = Reserved \<Longrightarrow>
   cancel_reservation rid s = end_resv Cancelled rid r s"
  by (simp add: cancel_reservation_def end_resv_def)

lemma cancel_reservation_other:
  "runner_inv s \<Longrightarrow> rid \<notin> set (pending s) \<Longrightarrow> cancel_reservation rid s = s"
  by (auto simp: cancel_reservation_def runner_inv_def resv_inv_def removeAll_id split: option.splits)

lemma cancel_reservation_inv: "runner_inv s \<Longrightarrow> runner_inv (cancel_reservation rid s)"
  using pending_resv [of s rid] cancel_reservation_other [of s rid]
  by (cases "rid \<in> set (pending s)") (auto simp: cancel_reservation_pending intro: end_resv_inv)

lemma cancel_reservation_frame [simp]:
  "generation (cancel_reservation rid s) = generation s" "closed (cancel_reservation rid s) = closed s"
  "runs (cancel_reservation rid s) = runs s" "workers (cancel_reservation rid s) = workers s"
  "pending (cancel_reservation rid s) = removeAll rid (pending s)"
  "committed_log (cancel_reservation rid s) = committed_log s"
  "cancelled_log (cancel_reservation rid s) = cancelled_log s"
  "finished_log (cancel_reservation rid s) = finished_log s"
  "notified (cancel_reservation rid s) = notified s"
  by (simp_all add: cancel_reservation_def Let_def split: option.split)

lemma rollback_inv: "runner_inv s \<Longrightarrow> runner_inv (snd (rollback rid s))"
  using end_resv_inv [of s rid _ RolledBack]
  by (auto simp: rollback_def owns_pending_def end_resv_def split: option.splits)

text \<open>Room: an owned reservation guarantees its place in the queue.\<close>

lemma sum_parts_nonneg:
  "0 \<le> n_queued s" "0 \<le> n_holding s" "0 \<le> n_executing s" "0 \<le> n_slotted s"
proof -
  have "0 \<le> holding_of x" "0 \<le> executing_of x" "0 \<le> slotted_of x" for x :: "('a, 'b) worker_state"
    by (cases x; simp)+
  then show "0 \<le> n_queued s" "0 \<le> n_holding s" "0 \<le> n_executing s" "0 \<le> n_slotted s"
    by (simp_all add: runner_counts ksum_nonneg)
qed

lemma queue_room:
  assumes "runner_inv s" and "rid \<in> set (pending s)" and "map_of (runs s) g = Some q"
  shows "length (queue q) < capacity s"
proof -
  have "int (length (queue q)) \<le> n_queued s"
    unfolding n_queued_def by (rule ksum_ge_value [of "\<lambda>r. int (length (queue r))" "runs s" g q])
      (simp_all add: assms)
  moreover have "0 < length (pending s)" using assms(2) by (auto simp: length_pos_if_in_set)
  moreover have "accepted s = int (length (pending s)) + n_queued s + n_holding s + n_executing s"
    and "accepted s \<le> int (capacity s)"
    using assms(1) by (simp_all add: runner_inv_def count_inv_def)
  ultimately show ?thesis
    using sum_parts_nonneg [of s] by linarith
qed

definition enqueue :: "nat \<Rightarrow> ('c, 'k) task \<Rightarrow> reservation \<Rightarrow> ('c, 'k) run_state \<Rightarrow> ('c, 'k) runner \<Rightarrow> ('c, 'k) runner" where
  "enqueue rid tk r q s =
     (put_run (res_run r) (q\<lparr>queue := queue q @ [tk], unfinished := unfinished q + 1\<rparr>) s)
       \<lparr>pending := removeAll rid (pending s),
        resvs := AList.update rid (r\<lparr>res_state := Committed\<rparr>) (resvs s),
        committed_log := committed_log s @ [tk]\<rparr>"

lemma commit_owned:
  assumes "runner_inv s" and "rid \<in> set (pending s)"
  obtains r q where "map_of (resvs s) rid = Some r" "res_state r = Reserved" "res_run r = generation s"
    "map_of (runs s) (generation s) = Some q" "mode q = ModeRunning"
    "commit rid tk s = (True, enqueue rid tk r q s)"
proof -
  obtain r where r: "map_of (resvs s) rid = Some r" "res_state r = Reserved" "res_run r = generation s"
    using pending_resv [OF assms] by blast
  obtain q where q: "map_of (runs s) (generation s) = Some q"
    using current_run [OF assms(1)] by blast
  have open_now: "\<not> closed s"
    using assms closed_pending by fastforce
  then have m: "mode q = ModeRunning"
    using closed_mode [OF assms(1)] q by (simp add: run_of_Some)
  have "length (queue q) < capacity s"
    using assms q by (rule queue_room)
  then have "commit rid tk s = (True, enqueue rid tk r q s)"
    using assms r q m open_now
    by (simp add: commit_def enqueue_def owns_pending_iff run_of_Some Let_def)
  with r q m show thesis by (rule that)
qed

lemma enqueue_inv:
  assumes inv: "runner_inv s" and "rid \<in> set (pending s)"
    and r: "map_of (resvs s) rid = Some r" "res_state r = Reserved" "res_run r = generation s"
    and q: "map_of (runs s) (generation s) = Some q" "mode q = ModeRunning"
  shows "runner_inv (enqueue rid tk r q s)" (is "runner_inv ?s")
proof -
  have d: "distinct (pending s)" using inv by (simp add: runner_inv_def shape_inv_def)
  have "shape_inv ?s" "mode_inv ?s" "join_inv ?s" "resv_inv ?s"
    using assms by (auto simp: enqueue_def runner_inv_def runner_inv_parts run_of_def put_run_def distinct_removeAll)
  moreover have "count_inv ?s"
    using assms d
    by (simp add: enqueue_def put_run_def runner_inv_def count_inv_def runner_counts distinct_length_removeAll dict_sum_rules)
  moreover have "task_inv ?s"
    using inv r ksum_update_swap [OF q(1), of "\<lambda>r. mset (queue r)" "q\<lparr>queue := queue q @ [tk], unfinished := unfinished q + 1\<rparr>"]
    by (simp add: enqueue_def put_run_def runner_inv_def task_inv_def)
  ultimately show ?thesis by (simp add: runner_inv_def)
qed

lemma commit_inv: "runner_inv s \<Longrightarrow> runner_inv (snd (commit rid tk s))"
proof (cases "rid \<in> set (pending s)")
  case True
  assume inv: "runner_inv s"
  obtain r q where "map_of (resvs s) rid = Some r" "res_state r = Reserved" "res_run r = generation s"
    "map_of (runs s) (generation s) = Some q" "mode q = ModeRunning"
    "commit rid tk s = (True, enqueue rid tk r q s)"
    using commit_owned [OF inv True] .
  then show ?thesis using enqueue_inv [OF inv True] by simp
next
  case False
  assume "runner_inv s"
  with False show ?thesis by (simp add: commit_def owns_pending_iff split: option.split)
qed

lemma submit_inv: "runner_inv s \<Longrightarrow> runner_inv (snd (submit c s))"
  using reserve_inv [of s]
  by (auto simp: submit_def split: prod.splits option.splits bool.splits)
    (metis commit_inv rollback_inv snd_conv)+

text \<open>Closing: first the reservations, then the queue.\<close>

lemma cancel_current_loop:
  assumes "runner_inv s"
  defines "f \<equiv> (\<lambda>rid s. case map_of (resvs s) rid of
             None \<Rightarrow> s
           | Some r \<Rightarrow> if res_run r = generation s then cancel_reservation rid s else s)"
  shows "runner_inv (fold f xs s) \<and> pending (fold f xs s) = [p \<leftarrow> pending s. p \<notin> set xs] \<and>
     generation (fold f xs s) = generation s \<and> runs (fold f xs s) = runs s \<and>
     committed_log (fold f xs s) = committed_log s"
  using assms(1)
proof (induction xs arbitrary: s)
  case Nil
  then show ?case by simp
next
  case (Cons x xs)
  have one: "runner_inv (f x s) \<and> pending (f x s) = removeAll x (pending s) \<and> generation (f x s) = generation s \<and>
      runs (f x s) = runs s \<and> committed_log (f x s) = committed_log s"
  proof (cases "x \<in> set (pending s)")
    case True
    then obtain r where "map_of (resvs s) x = Some r" "res_run r = generation s"
      using pending_resv Cons.prems by blast
    then show ?thesis using Cons.prems by (simp add: f_def cancel_reservation_inv)
  next
    case False
    then have "f x s = s"
      using Cons.prems by (simp add: f_def cancel_reservation_other split: option.split)
    with False Cons.prems show ?thesis by simp
  qed
  then have "runner_inv (f x s)" by blast
  from Cons.IH [OF this] one show ?case
    by (auto simp: removeAll_filter_not_eq intro!: filter_cong)
qed

lemma cancel_current_inv:
  assumes "runner_inv s"
  shows "runner_inv (cancel_current s)" "pending (cancel_current s) = []"
    "generation (cancel_current s) = generation s" "runs (cancel_current s) = runs s"
    "committed_log (cancel_current s) = committed_log s"
  using cancel_current_loop [OF assms, of "pending s"] by (simp_all add: cancel_current_def)

text \<open>Marking the run closed commutes with the cancellation of the reservations.\<close>

lemma cancel_reservation_mark:
  "cancel_reservation rid (s\<lparr>closed := c, runs := R\<rparr>) = (cancel_reservation rid s)\<lparr>closed := c, runs := R\<rparr>"
  by (simp add: cancel_reservation_def Let_def split: option.split)

lemma cancel_loop_mark:
  "fold (\<lambda>rid s. case map_of (resvs s) rid of None \<Rightarrow> s
           | Some r \<Rightarrow> if res_run r = generation s then cancel_reservation rid s else s) xs (s\<lparr>closed := c, runs := R\<rparr>) =
   (fold (\<lambda>rid s. case map_of (resvs s) rid of None \<Rightarrow> s
           | Some r \<Rightarrow> if res_run r = generation s then cancel_reservation rid s else s) xs s)\<lparr>closed := c, runs := R\<rparr>"
proof (induction xs arbitrary: s)
  case (Cons x xs)
  show ?case
  proof (cases "map_of (resvs s) x")
    case None
    then show ?thesis using Cons.IH [of s] by simp
  next
    case (Some r)
    then show ?thesis
      using Cons.IH [of s] Cons.IH [of "cancel_reservation x s"]
      by (simp add: cancel_reservation_mark)
  qed
qed simp

lemma cancel_current_mark:
  "cancel_current (s\<lparr>closed := c, runs := R\<rparr>) = (cancel_current s)\<lparr>closed := c, runs := R\<rparr>"
  by (simp add: cancel_current_def cancel_loop_mark)

definition closed_state :: "bool \<Rightarrow> ('c, 'k) run_state \<Rightarrow> ('c, 'k) runner \<Rightarrow> ('c, 'k) runner" where
  "closed_state wait r s =
     (let m = close_mode wait (mode r) in
      if m = ModeCancelled
      then s\<lparr>closed := True,
             runs := AList.update (generation s)
               (r\<lparr>mode := m, queue := [], unfinished := unfinished r - int (length (queue r))\<rparr>) (runs s),
             accepted := accepted s - int (length (queue r))\<rparr>
      else s\<lparr>closed := True, runs := AList.update (generation s) (r\<lparr>mode := m\<rparr>) (runs s)\<rparr>)"

definition dropped :: "bool \<Rightarrow> ('c, 'k) run_state \<Rightarrow> ('c, 'k) task list" where
  "dropped wait r = (if close_mode wait (mode r) = ModeCancelled then queue r else [])"

lemma update_twice: "AList.update k v (AList.update k u d) = AList.update k v d"
  by (induction d) auto

lemma close_locked_eq:
  assumes "runner_inv s" and "map_of (runs s) (generation s) = Some r"
  shows "close_locked wait s = (dropped wait r, closed_state wait r (cancel_current s))"
  using assms cancel_current_inv(3,4) [OF assms(1)]
  by (simp add: close_locked_def Let_def run_of_Some put_run_def run_of_def closed_state_def dropped_def
      update_twice cancel_current_mark)

lemma closed_state_inv:
  assumes inv: "runner_inv s" and p: "pending s = []" and r: "map_of (runs s) (generation s) = Some r"
  shows "runner_inv (notify_cancelled fails (dropped wait r) (closed_state wait r s))" (is "runner_inv ?s")
proof -
  have m: "close_mode wait (mode r) \<noteq> ModeRunning"
    by (cases "mode r") (simp_all add: close_mode_def)
  have "mode r = ModeCancelled \<Longrightarrow> queue r = []"
    using inv r by (auto simp: runner_inv_def mode_inv_def)
  then have "shape_inv ?s" "mode_inv ?s" "resv_inv ?s" "join_inv ?s"
    using assms m
    by (auto simp: notify_cancelled_def closed_state_def dropped_def runner_inv_def runner_inv_parts run_of_def Let_def)
  moreover have "count_inv ?s"
    using assms
    by (simp add: notify_cancelled_def closed_state_def dropped_def runner_inv_def count_inv_def runner_counts
        dict_sum_rules Let_def)
  moreover have "task_inv ?s"
    using assms ksum_update_swap [OF r, of "\<lambda>r. mset (queue r)"
        "r\<lparr>mode := close_mode wait (mode r), queue := [], unfinished := unfinished r - int (length (queue r))\<rparr>"]
      ksum_update_swap [OF r, of "\<lambda>r. mset (queue r)" "r\<lparr>mode := close_mode wait (mode r)\<rparr>"]
    by (auto simp: notify_cancelled_def closed_state_def dropped_def runner_inv_def task_inv_def Let_def ac_simps)
  ultimately show ?thesis by (simp add: runner_inv_def)
qed

lemma close_locked_inv:
  assumes "runner_inv s" and "close_locked wait s = (ts, u)"
  shows "runner_inv (notify_cancelled fails ts u)" "closed u" "generation u = generation s" "pending u = []"
proof -
  obtain r where r: "map_of (runs s) (generation s) = Some r" using current_run [OF assms(1)] by blast
  note c = cancel_current_inv [OF assms(1)]
  have eq: "ts = dropped wait r" "u = closed_state wait r (cancel_current s)"
    using assms(2) close_locked_eq [OF assms(1) r, of wait] by simp_all
  have r': "map_of (runs (cancel_current s)) (generation (cancel_current s)) = Some r"
    using r c by simp
  show "runner_inv (notify_cancelled fails ts u)"
    unfolding eq using closed_state_inv [OF c(1,2) r'] .
  show "closed u" "generation u = generation s" "pending u = []"
    unfolding eq using c by (simp_all add: closed_state_def Let_def)
qed

lemma shutdown_inv: "runner_inv s \<Longrightarrow> runner_inv (shutdown fails wait s)"
  by (auto simp: shutdown_def close_locked_inv split: prod.split)

lemma shutdown_cancel_pending_inv: "runner_inv s \<Longrightarrow> runner_inv (shutdown_cancel_pending fails s)"
  by (auto simp: shutdown_cancel_pending_def close_locked_inv split: prod.split)

text \<open>The handlers of a restart run after the new workers were started; they touch nothing the
  start reads.\<close>

lemma notify_cancelled_frame:
  "runs (notify_cancelled fails ts s) = runs s" "workers (notify_cancelled fails ts s) = workers s"
  "next_thread (notify_cancelled fails ts s) = next_thread s"
  "max_workers (notify_cancelled fails ts s) = max_workers s"
  "run_of (notify_cancelled fails ts s) g = run_of s g"
  by (simp_all add: notify_cancelled_def run_of_def)

lemma notify_cancelled_update:
  "notify_cancelled fails ts (s\<lparr>runs := R, workers := W, next_thread := N\<rparr>) =
   (notify_cancelled fails ts s)\<lparr>runs := R, workers := W, next_thread := N\<rparr>"
  by (simp add: notify_cancelled_def)

lemma start_locked_notify:
  "notify_cancelled fails ts (start_locked g s) = start_locked g (notify_cancelled fails ts s)"
proof -
  have "notify_cancelled fails ts (spawn_workers n g s) = spawn_workers n g (notify_cancelled fails ts s)" for n
    by (induction n arbitrary: s)
      (simp_all add: Let_def put_run_def notify_cancelled_frame notify_cancelled_update)
  then show ?thesis by (simp add: start_locked_def notify_cancelled_frame)
qed

lemma new_generation_notify:
  "notify_cancelled fails ts (new_generation s) = new_generation (notify_cancelled fails ts s)"
  by (simp add: new_generation_def notify_cancelled_def put_run_def)

lemma restart_eq:
  "close_locked False s = (ts, u) \<Longrightarrow>
   restart fails s =
     (let v = new_generation (notify_cancelled fails ts u) in start_locked (generation v) v)"
  by (simp add: restart_def Let_def start_locked_notify new_generation_notify)
    (simp add: new_generation_def notify_cancelled_def)

lemma restart_inv: 
  assumes "runner_inv s"
  shows "runner_inv (restart fails s)"
proof -
  obtain ts u where tu: "close_locked False s = (ts, u)" by (cases "close_locked False s")
  note c = close_locked_inv [OF assms tu]
  let ?v = "notify_cancelled fails ts u"
  have v: "runner_inv ?v" "closed ?v" "pending ?v = []"
    using c by (simp_all add: notify_cancelled_def)
  have "runner_inv (new_generation ?v)"
    using v closed_mode [OF v(1)] by (intro new_generation_inv) simp_all
  then show ?thesis
    using tu current_run [of "new_generation ?v"] by (simp add: restart_eq Let_def start_locked_inv)
qed

section \<open>Workers keep the invariant\<close>

lemma worker_run:
  "runner_inv s \<Longrightarrow> map_of (workers s) t = Some w \<Longrightarrow> \<exists>r. map_of (runs s) (w_run w) = Some r"
  by (auto simp: runner_inv_def shape_inv_def)

text \<open>A change of a worker that keeps what it has in hand.\<close>

lemma set_worker_same_inv:
  assumes inv: "runner_inv s" and w: "map_of (workers s) t = Some w"
    and same: "task_of st = task_of (w_state w)" "holding_of st = holding_of (w_state w)"
      "executing_of st = executing_of (w_state w)"
    and slot: "k = slots s + slotted_of (w_state w) - slotted_of st" "0 \<le> k"
  shows "runner_inv ((set_worker t (w\<lparr>w_state := st\<rparr>) s)\<lparr>slots := k\<rparr>)" (is "runner_inv ?s")
proof -
  have hand: "in_hand g (w\<lparr>w_state := st\<rparr>) = in_hand g w" for g
    by (simp add: in_hand_def same)
  have "shape_inv ?s" "mode_inv ?s" "resv_inv ?s"
    using inv w by (auto simp: set_worker_def runner_inv_def runner_inv_parts run_of_def)
  moreover have "count_inv ?s"
    using inv w same slot by (simp add: set_worker_def runner_inv_def count_inv_def runner_counts dict_sum_rules)
  moreover have "join_inv ?s"
    using inv w hand by (simp add: set_worker_def runner_inv_def join_inv_def dict_sum_rules)
  moreover have "task_inv ?s"
    using inv ksum_update_swap [OF w, of "\<lambda>w. task_of (w_state w)" "w\<lparr>w_state := st\<rparr>"] same
    by (simp add: set_worker_def runner_inv_def task_inv_def)
  ultimately show ?thesis by (simp add: runner_inv_def)
qed

lemma worker_acquire_inv: "runner_inv s \<Longrightarrow> runner_inv (worker_acquire t s)"
  by (auto simp: worker_acquire_def split: option.split intro!: set_worker_same_inv)

lemma set_worker_slots: "set_worker t w s = (set_worker t w s)\<lparr>slots := slots s\<rparr>"
  by (simp add: set_worker_def)

lemma set_worker_idle_inv:
  assumes "runner_inv s" and "map_of (workers s) t = Some w"
    and "task_of st = task_of (w_state w)" "holding_of st = holding_of (w_state w)"
      "executing_of st = executing_of (w_state w)" "slotted_of st = slotted_of (w_state w)"
  shows "runner_inv (set_worker t (w\<lparr>w_state := st\<rparr>) s)"
proof -
  have "0 \<le> slots s" using assms(1) by (simp add: runner_inv_def count_inv_def)
  then show ?thesis
    by (subst set_worker_slots) (rule set_worker_same_inv; simp add: assms)
qed

text \<open>Leaving with nothing in hand.\<close>

lemma worker_exit_inv:
  assumes inv: "runner_inv s" and w: "map_of (workers s) t = Some w"
    and idle: "task_of (w_state w) = {#}" "holding_of (w_state w) = 0" "executing_of (w_state w) = 0"
      "slotted_of (w_state w) = 1"
  shows "runner_inv (worker_exit t s)" (is "runner_inv ?s")
proof -
  have d: "distinct_keys (workers s)" using inv by (simp add: runner_inv_def shape_inv_def)
  have "shape_inv ?s" "mode_inv ?s" "resv_inv ?s"
    using inv w by (auto simp: worker_exit_def runner_inv_def runner_inv_parts run_of_def)
  moreover have "count_inv ?s"
    using inv w d idle by (simp add: worker_exit_def runner_inv_def count_inv_def runner_counts dict_sum_rules)
  moreover have "join_inv ?s"
    using inv w d idle by (simp add: worker_exit_def runner_inv_def join_inv_def dict_sum_rules in_hand_def)
  moreover have "task_inv ?s"
    using inv ksum_delete_swap [OF d w, of "\<lambda>w. task_of (w_state w)"] idle
    by (simp add: worker_exit_def runner_inv_def task_inv_def)
  ultimately show ?thesis by (simp add: runner_inv_def)
qed

lemma worker_check_inv: "runner_inv s \<Longrightarrow> runner_inv (worker_check t s)"
  by (auto simp: worker_check_def split: option.split intro!: set_worker_idle_inv worker_exit_inv)

lemma take_inv:
  assumes inv: "runner_inv s" and w: "map_of (workers s) t = Some w" "w_state w = Polling"
    and r: "map_of (runs s) (w_run w) = Some r" "queue r = tk # rest"
  shows "runner_inv (set_worker t (w\<lparr>w_state := Holding tk\<rparr>) (put_run (w_run w) (r\<lparr>queue := rest\<rparr>) s))"
    (is "runner_inv ?s")
proof -
  have "mode r \<noteq> ModeCancelled"
    using inv r by (auto simp: runner_inv_def mode_inv_def)
  then have "shape_inv ?s" "mode_inv ?s" "resv_inv ?s"
    using inv w r by (auto simp: set_worker_def put_run_def runner_inv_def runner_inv_parts run_of_def)
  moreover have "count_inv ?s"
    using inv w r by (simp add: set_worker_def put_run_def runner_inv_def count_inv_def runner_counts dict_sum_rules)
  moreover have "join_inv ?s"
    using inv w r by (auto simp: set_worker_def put_run_def runner_inv_def join_inv_def dict_sum_rules in_hand_def)
  moreover have "task_inv ?s"
    using inv w r ksum_update_swap [OF w(1), of "\<lambda>w. task_of (w_state w)" "w\<lparr>w_state := Holding tk\<rparr>"]
      ksum_update_swap [OF r(1), of "\<lambda>r. mset (queue r)" "r\<lparr>queue := rest\<rparr>"]
    by (simp add: set_worker_def put_run_def runner_inv_def task_inv_def)
  ultimately show ?thesis by (simp add: runner_inv_def)
qed

lemma worker_poll_inv:
  assumes "runner_inv s"
  shows "runner_inv (worker_poll t s)"
proof (cases "map_of (workers s) t")
  case None
  with assms show ?thesis by (simp add: worker_poll_def)
next
  case (Some w)
  obtain r where r: "map_of (runs s) (w_run w) = Some r" using worker_run [OF assms Some] by blast
  show ?thesis
    using assms Some r take_inv [OF assms Some _ r]
    by (auto simp: worker_poll_def run_of_Some Let_def split: list.split intro!: set_worker_idle_inv)
qed

lemma execute_inv:
  assumes inv: "runner_inv s" and w: "map_of (workers s) t = Some w" "w_state w = Holding tk"
  shows "runner_inv ((set_worker t (w\<lparr>w_state := Executing tk\<rparr>) s)\<lparr>active := active s + 1\<rparr>)" (is "runner_inv ?s")
proof -
  have hand: "in_hand g (w\<lparr>w_state := Executing tk\<rparr>) = in_hand g w" for g
    using w by (simp add: in_hand_def)
  have "shape_inv ?s" "mode_inv ?s" "resv_inv ?s"
    using inv w by (auto simp: set_worker_def runner_inv_def runner_inv_parts run_of_def)
  moreover have "count_inv ?s"
    using inv w by (simp add: set_worker_def runner_inv_def count_inv_def runner_counts dict_sum_rules)
  moreover have "join_inv ?s"
    using inv w hand by (simp add: set_worker_def runner_inv_def join_inv_def dict_sum_rules)
  moreover have "task_inv ?s"
    using inv w ksum_update_swap [OF w(1), of "\<lambda>w. task_of (w_state w)" "w\<lparr>w_state := Executing tk\<rparr>"]
    by (simp add: set_worker_def runner_inv_def task_inv_def)
  ultimately show ?thesis by (simp add: runner_inv_def)
qed

text \<open>A held task of a cancelled run: given back, its handler called, the thread ends.\<close>

lemma discard_inv:
  assumes inv: "runner_inv s" and w: "map_of (workers s) t = Some w" "w_state w = Holding tk"
  shows "runner_inv (worker_exit t (notify_cancelled fails [tk] (task_done (w_run w) (s\<lparr>accepted := accepted s - 1\<rparr>))))"
    (is "runner_inv ?s")
proof -
  obtain r where r: "map_of (runs s) (w_run w) = Some r" using worker_run [OF inv w(1)] by blast
  have d: "distinct_keys (workers s)" using inv by (simp add: runner_inv_def shape_inv_def)
  note d = d w r inv
  have "shape_inv ?s" "mode_inv ?s" "resv_inv ?s"
    using d by (auto simp: worker_exit_def notify_cancelled_def task_done_def put_run_def Let_def run_of_def
        runner_inv_def runner_inv_parts)
  moreover have "count_inv ?s"
    using d by (simp add: worker_exit_def notify_cancelled_def task_done_def put_run_def Let_def run_of_def
        runner_inv_def count_inv_def runner_counts dict_sum_rules)
  moreover have "join_inv ?s"
    using d by (auto simp: worker_exit_def notify_cancelled_def task_done_def put_run_def Let_def run_of_def
        runner_inv_def join_inv_def dict_sum_rules in_hand_def)
  moreover have "task_inv ?s"
    using d ksum_delete_swap [OF d(1) w(1), of "\<lambda>w. task_of (w_state w)"]
      ksum_update_swap [OF r, of "\<lambda>r. mset (queue r)" "r\<lparr>unfinished := unfinished r - 1\<rparr>"]
    by (simp add: worker_exit_def notify_cancelled_def task_done_def put_run_def Let_def run_of_def
        runner_inv_def task_inv_def ac_simps)
  ultimately show ?thesis by (simp add: runner_inv_def)
qed

lemma worker_decide_inv: "runner_inv s \<Longrightarrow> runner_inv (worker_decide fails t s)"
  by (simp add: worker_decide_def execute_inv discard_inv split: option.split worker_state.split)

lemma worker_done_inv:
  assumes inv: "runner_inv s"
  shows "runner_inv (worker_done raised t s)"
proof (cases "\<exists>w tk. map_of (workers s) t = Some w \<and> w_state w = Executing tk")
  case False
  with inv show ?thesis by (auto simp: worker_done_def split: option.split worker_state.split)
next
  case True
  then obtain w tk where w: "map_of (workers s) t = Some w" "w_state w = Executing tk" by blast
  obtain r where r: "map_of (runs s) (w_run w) = Some r" using worker_run [OF inv w(1)] by blast
  have d: "distinct_keys (workers s)" using inv by (simp add: runner_inv_def shape_inv_def)
  note d = d w r inv
  let ?s = "worker_done raised t s"
  have "shape_inv ?s" "mode_inv ?s" "resv_inv ?s"
    using d by (auto simp: worker_done_def set_worker_def task_done_def put_run_def Let_def run_of_def
        runner_inv_def runner_inv_parts)
  moreover have "count_inv ?s"
    using d by (simp add: worker_done_def set_worker_def task_done_def put_run_def Let_def run_of_def
        runner_inv_def count_inv_def runner_counts dict_sum_rules)
  moreover have "join_inv ?s"
    using d by (auto simp: worker_done_def set_worker_def task_done_def put_run_def Let_def run_of_def
        runner_inv_def join_inv_def dict_sum_rules in_hand_def)
  moreover have "task_inv ?s"
    using d ksum_update_swap [OF w(1), of "\<lambda>w. task_of (w_state w)" "w\<lparr>w_state := Polling\<rparr>"]
      ksum_update_swap [OF r, of "\<lambda>r. mset (queue r)" "r\<lparr>unfinished := unfinished r - 1\<rparr>"]
    by (simp add: worker_done_def set_worker_def task_done_def put_run_def Let_def run_of_def
        runner_inv_def task_inv_def ac_simps)
  ultimately show ?thesis by (simp add: runner_inv_def)
qed

section \<open>The machine\<close>

lemma runner_step_inv: "runner_inv s \<Longrightarrow> runner_inv (runner_step fails s x)"
  by (cases x) (simp_all add: start_inv restart_inv reserve_inv commit_inv rollback_inv submit_inv shutdown_inv
      shutdown_cancel_pending_inv worker_acquire_inv worker_poll_inv worker_check_inv worker_decide_inv
      worker_done_inv)

interpretation task_runner: invariant_machine "runner_step fails" runner_inv for fails
  by unfold_locales (rule runner_step_inv)

lemma run_inv_init: "runner_inv (run (runner_step fails) (init_runner w q) ops)"
  by (rule task_runner.run_keeps) (rule runner_inv_init)

text \<open>Facts of every reachable runner that the properties below read off.\<close>

lemma reachable_counts:
  assumes "runner_inv s"
  shows "0 \<le> active s" "active s \<le> int (max_workers s)" "accepted s \<le> int (capacity s)"
    "int (length (pending s)) \<le> accepted s" "accepted s = int (length (pending s)) + n_queued s + n_holding s + active s"
    "capacity s = max_workers s + queue_size s"
proof -
  have "executing_of x \<le> slotted_of x" for x :: "('a, 'b) worker_state" by (cases x) simp_all
  then have "ksum (\<lambda>w. executing_of (w_state w)) d \<le> ksum (\<lambda>w. slotted_of (w_state w)) d"
    for d :: "(nat \<times> ('a, 'b) worker) list"
    by (induction d) (auto simp: add_mono)
  then have "n_executing s \<le> n_slotted s" by (simp add: runner_counts)
  with assms sum_parts_nonneg [of s]
  show "0 \<le> active s" "active s \<le> int (max_workers s)" "accepted s \<le> int (capacity s)"
    "int (length (pending s)) \<le> accepted s" "accepted s = int (length (pending s)) + n_queued s + n_holding s + active s"
    "capacity s = max_workers s + queue_size s"
    by (auto simp: runner_inv_def count_inv_def shape_inv_def)
qed

lemma commit_not_pending: "runner_inv s \<Longrightarrow> rid \<notin> set (pending s) \<Longrightarrow> commit rid tk s = (False, s)"
  by (simp add: commit_def owns_pending_iff split: option.split)

lemma rollback_not_pending: "runner_inv s \<Longrightarrow> rid \<notin> set (pending s) \<Longrightarrow> rollback rid s = (False, s)"
  by (simp add: rollback_def owns_pending_iff split: option.split)

lemma commit_facts:
  assumes inv: "runner_inv s"
  shows "fst (commit rid tk s) \<longleftrightarrow> rid \<in> set (pending s)"
    and "rid \<notin> set (pending (snd (commit rid tk s)))"
    and "committed_log (snd (commit rid tk s)) = committed_log s @ (if rid \<in> set (pending s) then [tk] else [])"
    and "accepted (snd (commit rid tk s)) = accepted s"
proof -
  show "fst (commit rid tk s) \<longleftrightarrow> rid \<in> set (pending s)"
    and "rid \<notin> set (pending (snd (commit rid tk s)))"
    and "committed_log (snd (commit rid tk s)) = committed_log s @ (if rid \<in> set (pending s) then [tk] else [])"
    and "accepted (snd (commit rid tk s)) = accepted s"
  proof (atomize(full), cases "rid \<in> set (pending s)")
    case True
    obtain r q where "commit rid tk s = (True, enqueue rid tk r q s)" using commit_owned [OF inv True] by metis
    with True show "(fst (commit rid tk s) = (rid \<in> set (pending s)) \<and>
      rid \<notin> set (pending (snd (commit rid tk s)))) \<and>
      committed_log (snd (commit rid tk s)) = committed_log s @ (if rid \<in> set (pending s) then [tk] else []) \<and>
      accepted (snd (commit rid tk s)) = accepted s"
      by (simp add: enqueue_def put_run_def)
  next
    case False
    then show "(fst (commit rid tk s) = (rid \<in> set (pending s)) \<and>
      rid \<notin> set (pending (snd (commit rid tk s)))) \<and>
      committed_log (snd (commit rid tk s)) = committed_log s @ (if rid \<in> set (pending s) then [tk] else []) \<and>
      accepted (snd (commit rid tk s)) = accepted s"
      using commit_not_pending [OF inv False] by simp
  qed
qed

lemma shutdown_cancel_facts:
  fixes fails :: "'k \<Rightarrow> bool" and s :: "('c, 'k) runner"
  assumes inv: "runner_inv s"
  defines "u \<equiv> shutdown_cancel_pending fails s"
  shows "closed u" "pending u = []" "generation u = generation s" "queue (run_of u (generation u)) = []"
    "unfinished (run_of u (generation u)) = ksum (in_hand (generation u)) (workers u)"
proof -
  obtain r where r: "map_of (runs s) (generation s) = Some r" using current_run [OF inv] by blast
  note c = cancel_current_inv [OF inv]
  have u: "u = notify_cancelled fails (queue r) (closed_state False r (cancel_current s))"
    using close_locked_eq [OF inv r, of False]
    by (simp add: u_def shutdown_cancel_pending_def dropped_def close_mode_def)
  show "closed u" "pending u = []" "generation u = generation s" and q: "queue (run_of u (generation u)) = []"
    using c by (simp_all add: u notify_cancelled_def closed_state_def close_mode_def run_of_def)
  have "runner_inv u" unfolding u_def by (rule shutdown_cancel_pending_inv [OF inv])
  moreover obtain q where "map_of (runs u) (generation u) = Some q" using current_run [OF \<open>runner_inv u\<close>] by blast
  ultimately show "unfinished (run_of u (generation u)) = ksum (in_hand (generation u)) (workers u)"
    using q by (auto simp: runner_inv_def join_inv_def run_of_def)
qed

lemma reserve_closed: "closed s \<Longrightarrow> reserve s = (None, s)"
  by (simp add: reserve_def)

section \<open>What the runner promises to its clients\<close>

text \<open>The contract of admission: a ticket that is open can be used once, either to put a job into
  the log or to give the place back; a ticket that is not open does nothing.\<close>

locale admission =
  fixes legal :: "'s \<Rightarrow> bool"
    and tickets :: "'s \<Rightarrow> nat set"
    and put :: "nat \<Rightarrow> 'j \<Rightarrow> 's \<Rightarrow> bool \<times> 's"
    and give_back :: "nat \<Rightarrow> 's \<Rightarrow> bool \<times> 's"
    and log :: "'s \<Rightarrow> 'j list"
  assumes put_legal: "legal s \<Longrightarrow> legal (snd (put t j s))"
    and give_legal: "legal s \<Longrightarrow> legal (snd (give_back t s))"
    and put_verdict: "legal s \<Longrightarrow> fst (put t j s) \<longleftrightarrow> t \<in> tickets s"
    and put_log: "legal s \<Longrightarrow> log (snd (put t j s)) = log s @ (if t \<in> tickets s then [j] else [])"
    and put_tickets: "legal s \<Longrightarrow> tickets (snd (put t j s)) = tickets s - {t}"
    and give_log: "legal s \<Longrightarrow> log (snd (give_back t s)) = log s"
    and give_tickets: "legal s \<Longrightarrow> tickets (snd (give_back t s)) = tickets s - {t}"
begin

text \<open>Trying to put a job and giving the ticket back when that fails always uses the ticket up,
  and the job is in the log exactly when the ticket was open.\<close>

lemma put_or_give_back:
  assumes "legal s" and "put t j s = (b, u)"
  shows "legal u" "b \<longleftrightarrow> t \<in> tickets s" "log u = log s @ (if b then [j] else [])" "tickets u = tickets s - {t}"
    "log (snd (give_back t u)) = log u" "tickets (snd (give_back t u)) = tickets s - {t}"
proof -
  show u: "legal u" "b \<longleftrightarrow> t \<in> tickets s" "log u = log s @ (if b then [j] else [])" "tickets u = tickets s - {t}"
    using put_legal [OF assms(1), of t j] put_verdict [OF assms(1), of t j] put_log [OF assms(1), of t j]
      put_tickets [OF assms(1), of t j] assms(2) by simp_all
  show "log (snd (give_back t u)) = log u" "tickets (snd (give_back t u)) = tickets s - {t}"
    using give_log [OF u(1)] give_tickets [OF u(1)] u(4) by simp_all
qed

end

lemma commit_pending: "runner_inv s \<Longrightarrow> set (pending (snd (commit rid tk s))) = set (pending s) - {rid}"
proof (cases "rid \<in> set (pending s)")
  case True
  assume inv: "runner_inv s"
  obtain r q where "commit rid tk s = (True, enqueue rid tk r q s)" using commit_owned [OF inv True] by metis
  then show ?thesis by (auto simp: enqueue_def put_run_def)
qed (simp add: commit_not_pending)

lemma rollback_facts:
  assumes inv: "runner_inv s"
  shows "committed_log (snd (rollback rid s)) = committed_log s"
    and "set (pending (snd (rollback rid s))) = set (pending s) - {rid}"
proof -
  have "committed_log (snd (rollback rid s)) = committed_log s \<and>
      set (pending (snd (rollback rid s))) = set (pending s) - {rid}"
  proof (cases "rid \<in> set (pending s)")
    case True
    then show ?thesis using pending_resv [OF inv True] by (auto simp: rollback_def owns_pending_def)
  qed (simp add: rollback_not_pending [OF inv])
  then show "committed_log (snd (rollback rid s)) = committed_log s"
    and "set (pending (snd (rollback rid s))) = set (pending s) - {rid}" by simp_all
qed

interpretation slots: admission runner_inv "\<lambda>s. set (pending s)" commit rollback committed_log
  by unfold_locales (simp_all add: commit_inv rollback_inv commit_facts commit_pending rollback_facts)

section \<open>Properties\<close>

text \<open>After any sequence of client calls and worker steps, the runner never has more accepted
  work than its capacity and never runs more callbacks than it has workers, and the accepted
  count is exactly the open reservations, the queued tasks of all generations, the tasks taken
  but not yet decided on, and the running callbacks.\<close>

theorem runner_admission_bounds:
  fixes fails :: "'k \<Rightarrow> bool" and ops :: "('c, 'k) runner_op list" and w q :: int and rid :: nat and tk tk2 :: "('c, 'k) task"
  defines "s \<equiv> run (runner_step fails) (init_runner w q) ops"
  shows "0 \<le> active s \<and> active s \<le> int (max_workers s) \<and> accepted s \<le> int (capacity s) \<and>
    accepted s = int (length (pending s)) + n_queued s + n_holding s + active s"
  using reachable_counts [OF run_inv_init [of fails w q ops]] by (simp add: s_def)

text \<open>C1. In every reachable state, commit succeeds exactly for the open reservations (an open
  reservation is never refused for a full queue or a closed run), puts the task on record
  once, and afterwards neither commit nor rollback of the same reservation has any effect.\<close>

theorem runner_commit_exactly_once:
  fixes fails :: "'k \<Rightarrow> bool" and ops :: "('c, 'k) runner_op list" and w q :: int and rid :: nat and tk tk2 :: "('c, 'k) task"
  defines "s \<equiv> run (runner_step fails) (init_runner w q) ops"
  defines "u \<equiv> snd (commit rid tk s)"
  shows "fst (commit rid tk s) = (rid \<in> set (pending s)) \<and>
    committed_log u = committed_log s @ (if rid \<in> set (pending s) then [tk] else []) \<and>
    accepted u = accepted s \<and> commit rid tk2 u = (False, u) \<and> rollback rid u = (False, u)"
proof -
  have inv: "runner_inv s" unfolding s_def by (rule run_inv_init)
  then have "runner_inv u" unfolding u_def by (rule commit_inv)
  moreover have "rid \<notin> set (pending u)" unfolding u_def using inv by (rule commit_facts)
  ultimately show ?thesis
    using commit_facts [OF inv, of rid tk] by (simp add: u_def commit_not_pending rollback_not_pending)
qed

text \<open>C2. No task is lost or duplicated: the tasks committed so far are, as a bag, those still
  queued, those in a worker's hands, those run to their end and those cancelled; and the
  cancel handlers called are those of the cancelled tasks, once each and in that order,
  whatever the handlers raise.\<close>

theorem runner_task_conservation:
  fixes fails :: "'k \<Rightarrow> bool" and ops :: "('c, 'k) runner_op list" and w q :: int and rid :: nat and tk tk2 :: "('c, 'k) task"
  defines "s \<equiv> run (runner_step fails) (init_runner w q) ops"
  shows "mset (committed_log s) =
      ksum (\<lambda>r. mset (queue r)) (runs s) + ksum (\<lambda>w. task_of (w_state w)) (workers s) +
      mset (finished_log s) + mset (cancelled_log s) \<and>
    notified s = handlers (cancelled_log s)"
  using run_inv_init [of fails w q ops] by (simp add: s_def runner_inv_def task_inv_def)

text \<open>\<open>shutdown_cancel_pending_and_wait\<close>, from any reachable state: admission is closed, every
  reservation is cancelled so that no later commit succeeds, nothing is queued in the run it
  waits for, and the count its \<open>join\<close> waits on is exactly the number of tasks that
  workers of this run have in hand.\<close>

theorem runner_shutdown_cancels_pending:
  fixes fails :: "'k \<Rightarrow> bool" and ops :: "('c, 'k) runner_op list" and w q :: int and rid :: nat and tk tk2 :: "('c, 'k) task"
  defines "s \<equiv> run (runner_step fails) (init_runner w q) ops"
  defines "u \<equiv> shutdown_cancel_pending fails s"
  shows "closed u \<and> reserve u = (None, u) \<and> commit rid tk u = (False, u) \<and>
    generation u = generation s \<and> queue (run_of u (generation u)) = [] \<and>
    unfinished (run_of u (generation u)) = ksum (in_hand (generation u)) (workers u)"
proof -
  have inv: "runner_inv s" unfolding s_def by (rule run_inv_init)
  then have "runner_inv u" unfolding u_def by (rule shutdown_cancel_pending_inv)
  with shutdown_cancel_facts [OF inv, of fails] show ?thesis
    by (simp add: u_def reserve_closed commit_not_pending)
qed

text \<open>C3. \<open>shutdown(wait=True)\<close> is not a safe drain: a worker whose \<open>get\<close> has just timed out
  reads the mode only afterwards, so a task committed in between and then the shutdown make it
  leave with the task still queued. With one worker the task never runs, its count never
  reaches zero, and the shutdown waits for ever, whatever the workers do.\<close>

definition strand_ops :: "'c \<Rightarrow> ('c, 'k) runner_op list" where
  "strand_ops c = [Start, WorkerAcquire 0, WorkerPoll 0, Submit c, Shutdown True, WorkerCheck 0]"

definition worker_ops :: "nat \<Rightarrow> ('c, 'k) runner_op list" where
  "worker_ops t =
     [WorkerAcquire t, WorkerPoll t, WorkerCheck t, WorkerDecide t, WorkerDone True t, WorkerDone False t]"

lemma no_workers_stuck:
  "workers s = [] \<Longrightarrow> x \<in> set (worker_ops t) \<Longrightarrow> runner_step fails s x = s"
  by (auto simp: worker_ops_def worker_acquire_def worker_poll_def worker_check_def worker_decide_def worker_done_def)

lemma no_workers_run:
  "workers s = [] \<Longrightarrow> set xs \<subseteq> (\<Union>t. set (worker_ops t)) \<Longrightarrow> run (runner_step fails) s xs = s"
  by (induction xs arbitrary: s) (auto simp: no_workers_stuck)

lemmas runner_eval = start_def reserve_def submit_def commit_def rollback_def shutdown_def start_locked_def Let_def
  worker_acquire_def worker_poll_def worker_check_def worker_exit_def set_worker_def close_locked_def
  cancel_current_def run_of_def put_run_def fresh_run_def init_runner_def owns_pending_def notify_cancelled_def
  close_mode_def new_generation_def

theorem runner_drain_strands_task:
  fixes fails :: "'k \<Rightarrow> bool" and c :: 'c
  defines "s \<equiv> run (runner_step fails) (init_runner 1 1) (strand_ops c)"
  assumes "set xs \<subseteq> (\<Union>t. set (worker_ops t))"
  shows "run (runner_step fails) s xs = s \<and> queue (run_of s 1) = [(c, None)] \<and> unfinished (run_of s 1) = 1 \<and>
    \<not> wait_for_shutdown 1 ts None s \<and> finished_log s = []"
proof -
  have w: "workers s = []" "queue (run_of s 1) = [(c, None)]" "unfinished (run_of s 1) = 1" "finished_log s = []"
    by (simp_all add: s_def strand_ops_def runner_eval)
  then show ?thesis using no_workers_run [OF w(1) assms(2)] by (simp add: wait_for_shutdown_def)
qed

theorem runner_drain_strands_task_witness:
  "run (runner_step (\<lambda>k::nat. False)) (run (runner_step (\<lambda>_. False)) (init_runner 1 1) (strand_ops (7::nat)))
     [WorkerPoll 0] = run (runner_step (\<lambda>_. False)) (init_runner 1 1) (strand_ops 7)"
proof -
  have "set [WorkerPoll 0] \<subseteq> (\<Union>t. set (worker_ops t :: (nat, nat) runner_op list))"
    by (auto simp: worker_ops_def)
  then show ?thesis using runner_drain_strands_task by metis
qed

end
