(* ===== verification/PyTime.thy ===== *)
theory PyTime
  imports Prelude
begin

text \<open>
  What the services use of Python's \<open>datetime\<close>: \<open>fromtimestamp(t, utc).isoformat()\<close>
  and \<open>fromisoformat(s)\<close> followed by \<open>timestamp()\<close> (a text without an offset is read
  as UTC, as every caller does). Timestamps are rational seconds since the epoch; a
  \<open>datetime\<close> keeps whole microseconds, rounded half to even.
\<close>

section \<open>Calendar\<close>

definition leap :: "int \<Rightarrow> bool" where
  "leap y \<longleftrightarrow> y mod 4 = 0 \<and> (y mod 100 \<noteq> 0 \<or> y mod 400 = 0)"

definition days_in_year :: "int \<Rightarrow> int" where
  "days_in_year y = (if leap y then 366 else 365)"

definition month_lengths :: "int \<Rightarrow> int list" where
  "month_lengths y = [31, if leap y then 29 else 28, 31, 30, 31, 30, 31, 31, 30, 31, 30, 31]"

definition days_before_year :: "int \<Rightarrow> int" where
  "days_before_year y = (let p = y - 1 in 365 * p + p div 4 - p div 100 + p div 400)"

text \<open>Days since 1970-01-01 of a date, None when the date does not exist.\<close>

definition day_number :: "int \<Rightarrow> int \<Rightarrow> int \<Rightarrow> int option" where
  "day_number y m d =
     (if 1 \<le> y \<and> y \<le> 9999 \<and> 1 \<le> m \<and> m \<le> 12 \<and> 1 \<le> d \<and> d \<le> month_lengths y ! nat (m - 1)
      then Some (days_before_year y - days_before_year 1970 + sum_list (take (nat (m - 1)) (month_lengths y)) + (d - 1))
      else None)"

function year_of :: "int \<Rightarrow> int \<Rightarrow> int \<times> int" where
  "year_of y n = (if n < days_in_year y then (y, n) else year_of (y + 1) (n - days_in_year y))"
  by pat_completeness auto
termination
  by (relation "measure (\<lambda>(y, n). nat n)") (auto simp: days_in_year_def split: if_splits)

declare year_of.simps [simp del]

fun month_of :: "int \<Rightarrow> int \<Rightarrow> int list \<Rightarrow> int \<times> int" where
  "month_of m n [] = (m, n)"
| "month_of m n (l # ls) = (if n < l then (m, n) else month_of (m + 1) (n - l) ls)"

text \<open>The date of a day number.\<close>

definition civil :: "int \<Rightarrow> int \<times> int \<times> int" where
  "civil n = (let (y, r) = year_of 1970 n; (m, d) = month_of 1 r (month_lengths y) in (y, m, d + 1))"

section \<open>Text\<close>

definition digits2 :: "int \<Rightarrow> string" where
  "digits2 n = [digit_char (nat (n div 10 mod 10)), digit_char (nat (n mod 10))]"

definition digits4 :: "int \<Rightarrow> string" where
  "digits4 n = digits2 (n div 100) @ digits2 (n mod 100)"

definition digits6 :: "int \<Rightarrow> string" where
  "digits6 n = digits4 (n div 100) @ digits2 (n mod 100)"

definition micros :: "rat \<Rightarrow> int" where
  "micros t = py_round (t * 1000000)"

definition isoformat :: "rat \<Rightarrow> string" where
  "isoformat t =
     (let us = micros t; s = us div 1000000; f = us mod 1000000; (y, m, d) = civil (s div 86400); r = s mod 86400 in
      digits4 y @ ''-'' @ digits2 m @ ''-'' @ digits2 d @ ''T'' @
      digits2 (r div 3600) @ '':'' @ digits2 (r div 60 mod 60) @ '':'' @ digits2 (r mod 60) @
      (if f = 0 then [] else ''.'' @ digits6 f) @ ''+00:00'')"

text \<open>Reading: the number written by a run of digits.\<close>

definition number :: "string \<Rightarrow> int option" where
  "number s = (if s \<noteq> [] \<and> list_all is_digit s then Some (foldl (\<lambda>a c. a * 10 + int (digit_val c)) 0 s) else None)"

definition subtext :: "nat \<Rightarrow> nat \<Rightarrow> string \<Rightarrow> string" where
  "subtext i n s = take n (drop i s)"

text \<open>Where the date ends: \<open>YYYY-MM-DD\<close>, \<open>YYYYMMDD\<close> or one of the week forms.\<close>

definition date_end :: "string \<Rightarrow> nat option" where
  "date_end s =
     (if length s < 7 then None
      else if length s = 7 then Some 7
      else if s ! 4 = CHR ''-'' then
        (if s ! 5 \<noteq> CHR ''W'' then Some 10
         else if length s = 8 \<or> s ! 8 \<noteq> CHR ''-'' then Some 8
         else if length s = 9 then None
         else if 10 < length s \<and> is_digit (s ! 10) then Some 8
         else Some 10)
      else if s ! 4 \<noteq> CHR ''W'' then Some 8
      else
        (let i = 7 + length (takeWhile is_digit (drop 7 s)) in
         if i < 9 then Some i else if even i then Some 7 else Some 8))"

text \<open>\<open>fromisocalendar\<close>: the day of a week date.\<close>

definition week_day_number :: "int \<Rightarrow> int \<Rightarrow> int \<Rightarrow> int option" where
  "week_day_number y w d =
     (let first = days_before_year y + 1; wd = (first + 6) mod 7;
          long = (wd = 3 \<or> (wd = 2 \<and> leap y));
          monday = (if 3 < wd then first - wd + 7 else first - wd) in
      if 1 \<le> y \<and> y \<le> 9999 \<and> 1 \<le> w \<and> (w \<le> 52 \<or> w = 53 \<and> long) \<and> 1 \<le> d \<and> d \<le> 7
      then Some (monday + (w - 1) * 7 + (d - 1) - 1 - days_before_year 1970) else None)"

definition parse_date :: "string \<Rightarrow> int option" where
  "parse_date s =
     (let dash = (4 < length s \<and> s ! 4 = CHR ''-''); p = (if dash then 5 else 4) in
      case number (subtext 0 4 s) of
        None \<Rightarrow> None
      | Some y \<Rightarrow>
          if p < length s \<and> s ! p = CHR ''W'' then
            (case number (subtext (p + 1) 2 s) of
               None \<Rightarrow> None
             | Some w \<Rightarrow>
                 if length (subtext (p + 1) 2 s) \<noteq> 2 then None
                 else if length s = p + 3 then week_day_number y w 1
                 else
                   (let q = p + 3 + (if dash then 1 else 0) in
                    if dash \<and> s ! (p + 3) \<noteq> CHR ''-'' \<or> length s \<noteq> q + 1 then None
                    else case number (subtext q 1 s) of None \<Rightarrow> None | Some d \<Rightarrow> week_day_number y w d))
          else
            (let q = p + 2 + (if dash then 1 else 0) in
             if length s \<noteq> q + 2 \<or> dash \<and> s ! (p + 2) \<noteq> CHR ''-'' then None
             else case (number (subtext p 2 s), number (subtext q 2 s)) of
               (Some m, Some d) \<Rightarrow> day_number y m d
             | _ \<Rightarrow> None))"

text \<open>\<open>HH[:MM[:SS[.f]]]\<close> in microseconds; \<open>k\<close> components are still allowed.\<close>

definition parse_fraction :: "string \<Rightarrow> int option" where
  "parse_fraction s =
     (case s of
        [] \<Rightarrow> Some 0
      | c # f \<Rightarrow>
          if c \<noteq> CHR ''.'' \<and> c \<noteq> CHR '','' then None
          else if \<not> list_all is_digit f then None
          else map_option (\<lambda>v. v * 10 ^ (6 - min 6 (length f))) (number (take 6 f)))"

fun parse_clock_from :: "bool \<Rightarrow> int list \<Rightarrow> string \<Rightarrow> int option" where
  "parse_clock_from sep [] s = parse_fraction s"
| "parse_clock_from sep ((unit :: int) # us) s =
     (case (s, number (take 2 s)) of
        (_ # _ # rest, Some v) \<Rightarrow>
          if unit = 3600000000 \<and> 24 \<le> v \<or> unit < 3600000000 \<and> 60 \<le> v then None
          else
            (let sep' = (if unit = 3600000000 then rest \<noteq> [] \<and> hd rest = CHR '':'' else sep) in
             if rest = [] then Some (v * unit)
             else if us = [] then map_option (\<lambda>f. v * unit + f) (parse_fraction rest)
             else if sep' \<and> hd rest \<noteq> CHR '':'' then None
             else map_option (\<lambda>f. v * unit + f) (parse_clock_from sep' us (if sep' then tl rest else rest)))
      | _ \<Rightarrow> None)"

definition parse_clock :: "string \<Rightarrow> int option" where
  "parse_clock s = parse_clock_from False [3600000000, 60000000, 1000000] s"

text \<open>The time with its offset; the result is the time of the day in UTC, in microseconds.\<close>

definition is_zone_mark :: "char \<Rightarrow> bool" where
  "is_zone_mark c \<longleftrightarrow> c = CHR ''+'' \<or> c = CHR ''-'' \<or> c = CHR ''Z''"

definition parse_time :: "string \<Rightarrow> int option" where
  "parse_time s =
     (let clock = takeWhile (\<lambda>c. \<not> is_zone_mark c) s in
      case (parse_clock clock, dropWhile (\<lambda>c. \<not> is_zone_mark c) s) of
        (None, _) \<Rightarrow> None
      | (Some t, []) \<Rightarrow> Some t
      | (Some t, c # zone) \<Rightarrow>
          if c = CHR ''Z'' then (if zone = [] then Some t else None)
          else case parse_clock zone of
            None \<Rightarrow> None
          | Some off \<Rightarrow> Some (if c = CHR ''+'' then t - off else t + off))"

definition from_isoformat :: "string \<Rightarrow> rat option" where
  "from_isoformat s =
     (case date_end s of
        None \<Rightarrow> None
      | Some e \<Rightarrow>
          (case parse_date (take e s) of
             None \<Rightarrow> None
           | Some day \<Rightarrow>
               (if length s \<le> e then Some (of_int (day * 86400))
                else map_option (\<lambda>us. of_int (day * 86400) + of_int us / 1000000) (parse_time (drop (Suc e) s)))))"

text \<open>\<open>raw.replace("Z", "+00:00")\<close>.\<close>

definition replace_zulu :: "string \<Rightarrow> string" where
  "replace_zulu s = concat (map (\<lambda>c. if c = CHR ''Z'' then ''+00:00'' else [c]) s)"

section \<open>Reading back what was written\<close>

lemma div_step:
  fixes y k :: int
  assumes "0 < k"
  shows "y div k = (y - 1) div k + (if y mod k = 0 then 1 else 0)"
proof -
  have y: "y = k * (y div k) + y mod k" and r: "0 \<le> y mod k" "y mod k < k"
    using assms by simp_all
  show ?thesis
  proof (cases "y mod k = 0")
    case True
    then have "k * (y div k) = y" using minus_mod_eq_mult_div [of y k] by linarith
    moreover have "k * (y div k - 1) = k * (y div k) - k" by (simp add: right_diff_distrib)
    ultimately have "y - 1 = k * (y div k - 1) + (k - 1)" by linarith
    then have "(y - 1) div k = y div k - 1" by (rule int_div_pos_eq) (use assms in linarith)+
    with True show ?thesis by simp
  next
    case False
    then have "y - 1 = k * (y div k) + (y mod k - 1)" using y by linarith
    then have "(y - 1) div k = y div k" by (rule int_div_pos_eq) (use False r in linarith)+
    with False show ?thesis by simp
  qed
qed

lemma days_before_year_step: "days_before_year (y + 1) = days_before_year y + days_in_year y"
proof -
  have a: "y div 4 = (y - 1) div 4 + (if y mod 4 = 0 then 1 else 0)"
    "y div 100 = (y - 1) div 100 + (if y mod 100 = 0 then 1 else 0)"
    "y div 400 = (y - 1) div 400 + (if y mod 400 = 0 then 1 else 0)"
    by (rule div_step; simp)+
  have "y mod 400 = 0 \<Longrightarrow> (100::int) dvd y" "y mod 100 = 0 \<Longrightarrow> (4::int) dvd y"
    by (rule dvd_trans [of _ 400]; simp add: dvd_eq_mod_eq_0)
      (rule dvd_trans [of _ 100]; simp add: dvd_eq_mod_eq_0)
  then have d: "y mod 400 = 0 \<Longrightarrow> y mod 100 = 0" "y mod 100 = 0 \<Longrightarrow> y mod 4 = 0"
    by (simp_all add: dvd_eq_mod_eq_0)
  have e: "days_before_year (y + 1) = 365 * y + y div 4 - y div 100 + y div 400"
    "days_before_year y = 365 * (y - 1) + (y - 1) div 4 - (y - 1) div 100 + (y - 1) div 400"
    by (simp_all only: days_before_year_def Let_def add_diff_cancel_right')
  have l: "days_in_year y = 365 + (if y mod 4 = 0 then 1 else 0) - (if y mod 100 = 0 then 1 else 0) +
      (if y mod 400 = 0 then 1 else 0)"
  proof -
    define P Q R where "P \<longleftrightarrow> y mod 4 = 0" and "Q \<longleftrightarrow> y mod 100 = 0" and "R \<longleftrightarrow> y mod 400 = 0"
    note fold = P_def [symmetric] Q_def [symmetric] R_def [symmetric]
    show ?thesis
      using d unfolding days_in_year_def leap_def fold by (cases P; cases Q; cases R) simp_all
  qed
  show ?thesis unfolding e l unfolding a by algebra
qed

lemma year_of_correct:
  "0 \<le> n \<Longrightarrow> year_of y n = (z, r) \<Longrightarrow>
   0 \<le> r \<and> r < days_in_year z \<and> y \<le> z \<and> days_before_year z + r = days_before_year y + n"
proof (induction y n rule: year_of.induct)
  case (1 y n)
  show ?case
  proof (cases "n < days_in_year y")
    case True
    with 1 show ?thesis by (simp add: year_of.simps)
  next
    case False
    then have "year_of (y + 1) (n - days_in_year y) = (z, r)"
      using 1 by (subst (asm) year_of.simps) simp
    with 1(1) [OF False] False days_before_year_step [of y] show ?thesis by auto
  qed
qed

lemma month_of_correct:
  "0 \<le> n \<Longrightarrow> n < sum_list ls \<Longrightarrow> month_of m n ls = (k, d) \<Longrightarrow>
   m \<le> k \<and> k < m + int (length ls) \<and> 0 \<le> d \<and> d < ls ! nat (k - m) \<and> sum_list (take (nat (k - m)) ls) + d = n"
proof (induction m n ls rule: month_of.induct)
  case (1 m n)
  then show ?case by simp
next
  case (2 m n l ls)
  show ?case
  proof (cases "n < l")
    case True
    with 2 show ?thesis by simp
  next
    case False
    with 2 have IH: "m + 1 \<le> k \<and> k < m + 1 + int (length ls) \<and> 0 \<le> d \<and> d < ls ! nat (k - (m + 1)) \<and>
        sum_list (take (nat (k - (m + 1))) ls) + d = n - l"
      by simp
    then have "nat (k - m) = Suc (nat (k - (m + 1)))" by linarith
    with IH show ?thesis by simp
  qed
qed

lemma sum_month_lengths: "sum_list (month_lengths y) = days_in_year y"
  by (simp add: month_lengths_def days_in_year_def)

lemma days_before_year_mono: "y \<le> z \<Longrightarrow> days_before_year y \<le> days_before_year z"
proof (induction "nat (z - y)" arbitrary: z)
  case 0
  then show ?case by simp
next
  case (Suc k)
  then have "days_before_year y \<le> days_before_year (z - 1)" by simp
  with days_before_year_step [of "z - 1"] show ?case by (simp add: days_in_year_def split: if_splits)
qed

lemma civil_correct:
  assumes "0 \<le> n" and "n < 2932897" and "civil n = (y, m, d)"
  shows "day_number y m d = Some n" "1970 \<le> y" "y \<le> 9999" "1 \<le> m" "m \<le> 12" "1 \<le> d" "d \<le> 31"
proof -
  obtain r where yr: "year_of 1970 n = (y, r)" and md: "month_of 1 r (month_lengths y) = (m, d - 1)"
    using assms(3) by (auto simp: civil_def Let_def split: prod.splits)
  note Y = year_of_correct [OF assms(1) yr]
  then have "r < sum_list (month_lengths y)" by (simp add: sum_month_lengths)
  note M = month_of_correct [OF _ this md]
  show y: "1970 \<le> y" using Y by simp
  show "y \<le> 9999"
  proof (rule ccontr)
    assume "\<not> y \<le> 9999"
    then have "days_before_year 10000 \<le> days_before_year y" by (intro days_before_year_mono) simp
    moreover have "days_before_year 10000 = days_before_year 1970 + 2932897"
      by (simp add: days_before_year_def)
    ultimately show False using Y assms(2) by linarith
  qed
  show m: "1 \<le> m" "m \<le> 12" using M Y by (auto simp: month_lengths_def)
  have "month_lengths y ! nat (m - 1) \<in> set (month_lengths y)"
    using m by (intro nth_mem) (auto simp: month_lengths_def nat_less_iff)
  then have "month_lengths y ! nat (m - 1) \<le> 31" by (auto simp: month_lengths_def split: if_splits)
  with M Y show "1 \<le> d" "d \<le> 31" by auto
  with M Y y \<open>y \<le> 9999\<close> m show "day_number y m d = Some n" by (simp add: day_number_def)
qed

lemma of_char_digit: "n < 10 \<Longrightarrow> (of_char (digit_char n) :: nat) = 48 + n"
  by (simp add: digit_char_def)

lemma digit_facts [simp]:
  assumes "n < 10"
  shows "is_digit (digit_char n)" "digit_val (digit_char n) = n"
    "digit_char n \<noteq> CHR ''-''" "digit_char n \<noteq> CHR '':''" "digit_char n \<noteq> CHR ''W''" "digit_char n \<noteq> CHR ''Z''"
    "digit_char n \<noteq> CHR ''+''" "digit_char n \<noteq> CHR ''.''" "digit_char n \<noteq> CHR ''e''" "digit_char n \<noteq> CHR ''E''"
    "digit_char n \<noteq> CHR '' ''"
proof -
  have "digit_char n \<noteq> c" if "(of_char c :: nat) < 48 \<or> 57 < (of_char c :: nat)" for c
    using of_char_digit [OF assms] assms that by auto
  then show "is_digit (digit_char n)" "digit_val (digit_char n) = n"
    "digit_char n \<noteq> CHR ''-''" "digit_char n \<noteq> CHR '':''" "digit_char n \<noteq> CHR ''W''" "digit_char n \<noteq> CHR ''Z''"
    "digit_char n \<noteq> CHR ''+''" "digit_char n \<noteq> CHR ''.''" "digit_char n \<noteq> CHR ''e''" "digit_char n \<noteq> CHR ''E''"
    "digit_char n \<noteq> CHR '' ''"
    using of_char_digit [OF assms] assms by (auto simp: is_digit_def digit_val_def)
qed

lemma digit_nat: "nat (n mod 10) < 10" "nat (n div 10 mod 10) < 10" for n :: int
  by (simp_all add: nat_less_iff)

abbreviation push_digit :: "int \<Rightarrow> char \<Rightarrow> int" where
  "push_digit a c \<equiv> a * 10 + int (digit_val c)"

lemma read_digits2: "foldl push_digit a (digits2 n) = a * 100 + n mod 100"
  using digit_nat [of n] zmod_zmult2_eq [of 10 n 10] by (simp add: digits2_def)

lemma read_digits4: "foldl push_digit a (digits4 n) = a * 10000 + n mod 10000"
  using zmod_zmult2_eq [of 100 n 100] by (simp add: digits4_def read_digits2)

lemma read_digits6: "foldl push_digit a (digits6 n) = a * 1000000 + n mod 1000000"
  using zmod_zmult2_eq [of 10000 n 100] by (simp add: digits6_def read_digits2 read_digits4)

lemma digits_length [simp]: "length (digits2 n) = 2" "length (digits4 n) = 4" "length (digits6 n) = 6"
  by (simp_all add: digits2_def digits4_def digits6_def)

lemma digits_are_digits: "list_all is_digit (digits2 n)" "list_all is_digit (digits4 n)" "list_all is_digit (digits6 n)"
  using digit_nat by (simp_all add: digits2_def digits4_def digits6_def)

lemma digits_read:
  "0 \<le> n \<Longrightarrow> n < 100 \<Longrightarrow> number (digits2 n) = Some n"
  "0 \<le> n \<Longrightarrow> n < 10000 \<Longrightarrow> number (digits4 n) = Some n"
  "0 \<le> n \<Longrightarrow> n < 1000000 \<Longrightarrow> number (digits6 n) = Some n"
  using digits_length digits_are_digits
  by (auto simp: number_def read_digits2 read_digits4 read_digits6 simp flip: length_0_conv)

text \<open>The texts as explicit lists, for the positions the reader looks at.\<close>

lemma digits2_list: "\<exists>a b. digits2 n = [a, b] \<and> is_digit a \<and> is_digit b"
  using digits_are_digits(1) [of n] by (auto simp: digits2_def)

lemma digits4_list: "\<exists>a b c d. digits4 n = [a, b, c, d] \<and> is_digit a \<and> is_digit b \<and> is_digit c \<and> is_digit d"
  using digits_are_digits(2) [of n] by (auto simp: digits4_def digits2_def)

lemma is_digit_not_mark: "is_digit c \<Longrightarrow> c \<noteq> CHR ''-'' \<and> c \<noteq> CHR '':'' \<and> c \<noteq> CHR ''W'' \<and> c \<noteq> CHR ''Z'' \<and>
   c \<noteq> CHR ''+'' \<and> c \<noteq> CHR ''.'' \<and> c \<noteq> CHR ''T'' \<and> c \<noteq> CHR ''e'' \<and> c \<noteq> CHR ''E'' \<and> c \<noteq> CHR ''_''"
  by (intro conjI notI; simp add: is_digit_def Let_def)

lemma is_digit_not_space: "is_digit c \<Longrightarrow> \<not> is_space c"
  unfolding is_digit_def is_space_def Let_def by linarith

lemma parse_date_extended:
  assumes "day_number y m d = Some n" "1970 \<le> y" "y \<le> 9999" "1 \<le> m" "m \<le> 12" "1 \<le> d" "d \<le> 31"
  shows "parse_date (digits4 y @ ''-'' @ digits2 m @ ''-'' @ digits2 d) = Some n"
proof -
  obtain y1 y2 y3 y4 where Y: "digits4 y = [y1, y2, y3, y4]" using digits4_list by metis
  obtain m1 m2 where M: "digits2 m = [m1, m2]" and m1: "is_digit m1" using digits2_list by metis
  obtain d1 d2 where D: "digits2 d = [d1, d2]" using digits2_list by metis
  have "number [y1, y2, y3, y4] = Some y" "number [m1, m2] = Some m" "number [d1, d2] = Some d"
    using digits_read(2) [of y] digits_read(1) [of m] digits_read(1) [of d] assms Y M D by simp_all
  moreover have "m1 \<noteq> CHR ''W''" using m1 is_digit_not_mark by blast
  ultimately show ?thesis
    using assms by (simp add: parse_date_def Y M D subtext_def)
qed

lemma parse_clock_extended:
  assumes "0 \<le> h" "h < 24" "0 \<le> mi" "mi < 60" "0 \<le> s" "s < 60" "0 \<le> f" "f < 1000000"
  shows "parse_clock (digits2 h @ '':'' @ digits2 mi @ '':'' @ digits2 s @ (if f = 0 then [] else ''.'' @ digits6 f)) =
    Some (h * 3600000000 + mi * 60000000 + s * 1000000 + f)"
proof -
  obtain h1 h2 where H: "digits2 h = [h1, h2]" using digits2_list by metis
  obtain m1 m2 where M: "digits2 mi = [m1, m2]" using digits2_list by metis
  obtain s1 s2 where S: "digits2 s = [s1, s2]" using digits2_list by metis
  have n: "number [h1, h2] = Some h" "number [m1, m2] = Some mi" "number [s1, s2] = Some s"
    using digits_read(1) [of h] digits_read(1) [of mi] digits_read(1) [of s] assms H M S by simp_all
  have f: "parse_fraction (''.'' @ digits6 f) = Some f"
    using digits_read(3) [of f] digits_are_digits(3) [of f] assms by (simp add: parse_fraction_def)
  show ?thesis
    using n f assms by (simp add: parse_clock_def H M S)
qed

lemma parse_zero_offset: "parse_clock ''00:00'' = Some 0"
  by (simp add: parse_clock_def number_def is_digit_def digit_val_def Let_def)

lemma takeWhile_marks:
  assumes "list_all (\<lambda>c. \<not> is_zone_mark c) a" and "is_zone_mark z"
  shows "takeWhile (\<lambda>c. \<not> is_zone_mark c) (a @ z # b) = a" "dropWhile (\<lambda>c. \<not> is_zone_mark c) (a @ z # b) = z # b"
  using assms by (induction a) auto

lemma digits_no_marks: "list_all is_digit a \<Longrightarrow> list_all (\<lambda>c. \<not> is_zone_mark c) a"
  by (induction a) (auto simp: is_zone_mark_def dest: is_digit_not_mark)

text \<open>The shape of a written timestamp.\<close>

lemma isoformat_shape:
  assumes "0 \<le> micros t" "micros t < 253402300800000000"
  obtains y m d h mi s f n where
    "isoformat t = (digits4 y @ ''-'' @ digits2 m @ ''-'' @ digits2 d) @ ''T'' @
      (digits2 h @ '':'' @ digits2 mi @ '':'' @ digits2 s @ (if f = 0 then [] else ''.'' @ digits6 f)) @ ''+00:00''"
    "day_number y m d = Some n" "1970 \<le> y" "y \<le> 9999" "1 \<le> m" "m \<le> 12" "1 \<le> d" "d \<le> 31"
    "0 \<le> h" "h < 24" "0 \<le> mi" "mi < 60" "0 \<le> s" "s < 60" "0 \<le> f" "f < 1000000"
    "n * 86400000000 + (h * 3600000000 + mi * 60000000 + s * 1000000 + f) = micros t"
proof -
  define us where "us = micros t"
  define sec where "sec = us div 1000000"
  define r where "r = sec mod 86400"
  obtain y m d where c: "civil (sec div 86400) = (y, m, d)" by (metis prod_cases3)
  have us: "0 \<le> us" "us < 253402300800000000" using assms by (simp_all add: us_def)
  then have sec: "0 \<le> sec" "sec < 253402300800" by (simp_all add: sec_def)
  then have day: "0 \<le> sec div 86400" "sec div 86400 < 2932897" by simp_all
  have r: "0 \<le> r" "r < 86400" by (simp_all add: r_def)
  have rr: "r = (r div 3600) * 3600 + (r div 60 mod 60) * 60 + r mod 60"
  proof -
    have "r div 60 = (r div 60 div 60) * 60 + r div 60 mod 60" by simp
    moreover have "r div 60 div 60 = r div 3600" by (simp add: zdiv_zmult2_eq [symmetric])
    moreover have "r = (r div 60) * 60 + r mod 60" by simp
    ultimately show ?thesis by linarith
  qed
  have "sec = (sec div 86400) * 86400 + r" by (simp add: r_def)
  moreover have "us = sec * 1000000 + us mod 1000000" by (simp add: sec_def)
  ultimately have total: "(sec div 86400) * 86400000000 + ((r div 3600) * 3600000000 + (r div 60 mod 60) * 60000000 +
      (r mod 60) * 1000000 + us mod 1000000) = micros t"
    using rr unfolding us_def [symmetric] by linarith
  show thesis
  proof (rule that [OF _ civil_correct(1-7) [OF day c] _ _ _ _ _ _ _ _ total])
    show "isoformat t = (digits4 y @ ''-'' @ digits2 m @ ''-'' @ digits2 d) @ ''T'' @
      (digits2 (r div 3600) @ '':'' @ digits2 (r div 60 mod 60) @ '':'' @ digits2 (r mod 60) @
       (if us mod 1000000 = 0 then [] else ''.'' @ digits6 (us mod 1000000))) @ ''+00:00''"
      using c by (simp add: isoformat_def Let_def us_def sec_def r_def)
    show "0 \<le> r div 3600" "r div 3600 < 24" using r by simp_all
  qed simp_all
qed

lemma from_isoformat_shape:
  assumes "day_number y m d = Some n" "1970 \<le> y" "y \<le> 9999" "1 \<le> m" "m \<le> 12" "1 \<le> d" "d \<le> 31"
    and "0 \<le> h" "h < 24" "0 \<le> mi" "mi < 60" "0 \<le> s" "s < 60" "0 \<le> f" "f < 1000000"
  shows "from_isoformat ((digits4 y @ ''-'' @ digits2 m @ ''-'' @ digits2 d) @ ''T'' @
      (digits2 h @ '':'' @ digits2 mi @ '':'' @ digits2 s @ (if f = 0 then [] else ''.'' @ digits6 f)) @ ''+00:00'') =
    Some (of_int (n * 86400000000 + (h * 3600000000 + mi * 60000000 + s * 1000000 + f)) / 1000000)"
proof -
  let ?date = "digits4 y @ ''-'' @ digits2 m @ ''-'' @ digits2 d"
  let ?clock = "digits2 h @ '':'' @ digits2 mi @ '':'' @ digits2 s @ (if f = 0 then [] else ''.'' @ digits6 f)"
  have len: "length ?date = 10" by simp
  have e: "date_end (?date @ ''T'' @ ?clock @ ''+00:00'') = Some 10"
  proof -
    obtain y1 y2 y3 y4 where Y: "digits4 y = [y1, y2, y3, y4]" using digits4_list by metis
    obtain m1 m2 where M: "digits2 m = [m1, m2]" and m1: "is_digit m1" using digits2_list by metis
    have "m1 \<noteq> CHR ''W''" using m1 is_digit_not_mark by blast
    then show ?thesis by (simp add: date_end_def Y M)
  qed
  have date: "parse_date (take 10 (?date @ ''T'' @ ?clock @ ''+00:00'')) = Some n"
    using parse_date_extended [OF assms(1-7)] len by simp
  have marks: "list_all (\<lambda>c. \<not> is_zone_mark c) ?clock"
    using digits_no_marks digits_are_digits by (simp add: is_zone_mark_def)
  have time: "parse_time (?clock @ ''+00:00'') = Some (h * 3600000000 + mi * 60000000 + s * 1000000 + f)"
    using takeWhile_marks [OF marks, of "CHR ''+''" "''00:00''"] parse_clock_extended [OF assms(8-15)] parse_zero_offset
    by (simp add: parse_time_def is_zone_mark_def)
  have drop: "drop 11 (?date @ ''T'' @ ?clock @ ''+00:00'') = ?clock @ ''+00:00''"
    using len by simp
  show ?thesis
    using e date time drop len by (simp add: from_isoformat_def add_divide_distrib)
qed

theorem iso_round_trip:
  assumes "0 \<le> micros t" "micros t < 253402300800000000"
  shows "from_isoformat (isoformat t) = Some (of_int (micros t) / 1000000)"
proof -
  obtain y m d h mi s f n where *:
    "isoformat t = (digits4 y @ ''-'' @ digits2 m @ ''-'' @ digits2 d) @ ''T'' @
      (digits2 h @ '':'' @ digits2 mi @ '':'' @ digits2 s @ (if f = 0 then [] else ''.'' @ digits6 f)) @ ''+00:00''"
    "day_number y m d = Some n" "1970 \<le> y" "y \<le> 9999" "1 \<le> m" "m \<le> 12" "1 \<le> d" "d \<le> 31"
    "0 \<le> h" "h < 24" "0 \<le> mi" "mi < 60" "0 \<le> s" "s < 60" "0 \<le> f" "f < 1000000"
    "n * 86400000000 + (h * 3600000000 + mi * 60000000 + s * 1000000 + f) = micros t"
    by (rule isoformat_shape [OF assms]) blast
  show ?thesis
    unfolding *(1) using from_isoformat_shape [OF *(2-16)] unfolding *(17) .
qed

end
