(* ===== verification/Credentials.thy ===== *)
theory Credentials
  imports PyTime
begin

text \<open>
  \<open>services/account_credentials.py\<close> and \<open>services/account_readiness.py\<close>: what an
  account's tokens are good for. The claims of a token (\<open>decode_access_token_payload\<close>:
  base64 and JSON) are the argument \<open>claims\<close>; everything the code computes from them is
  modelled.
\<close>

section \<open>Account states\<close>

text \<open>The status words of the accounts, as UTF-8: normal, limited, abnormal, disabled.\<close>

definition st_normal :: string where
  "st_normal = [CHR 0xE6, CHR 0xAD, CHR 0xA3, CHR 0xE5, CHR 0xB8, CHR 0xB8]"

definition st_limited :: string where
  "st_limited = [CHR 0xE9, CHR 0x99, CHR 0x90, CHR 0xE6, CHR 0xB5, CHR 0x81]"

definition st_abnormal :: string where
  "st_abnormal = [CHR 0xE5, CHR 0xBC, CHR 0x82, CHR 0xE5, CHR 0xB8, CHR 0xB8]"

definition st_disabled :: string where
  "st_disabled = [CHR 0xE7, CHR 0xA6, CHR 0x81, CHR 0xE7, CHR 0x94, CHR 0xA8]"

lemma status_words [simp]:
  "st_normal \<noteq> st_limited" "st_limited \<noteq> st_normal" "st_normal \<noteq> st_abnormal" "st_abnormal \<noteq> st_normal"
  "st_normal \<noteq> st_disabled" "st_disabled \<noteq> st_normal" "st_limited \<noteq> st_abnormal" "st_abnormal \<noteq> st_limited"
  "st_limited \<noteq> st_disabled" "st_disabled \<noteq> st_limited" "st_abnormal \<noteq> st_disabled" "st_disabled \<noteq> st_abnormal"
  by (simp_all add: st_normal_def st_limited_def st_abnormal_def st_disabled_def)

section \<open>Refresh rejections\<close>

text \<open>\<open>re.match\<close> of the historical rejection messages.\<close>

fun drop_prefix :: "string \<Rightarrow> string \<Rightarrow> string option" where
  "drop_prefix [] s = Some s"
| "drop_prefix (p # ps) [] = None"
| "drop_prefix (p # ps) (c # cs) = (if p = c then drop_prefix ps cs else None)"

definition ends_word :: "string \<Rightarrow> bool" where
  "ends_word s \<longleftrightarrow> s = [] \<or> is_space (hd s) \<or> hd s = CHR '':''"

definition rejection_reasons :: "string list" where
  "rejection_reasons = [''refresh_token_reused'', ''invalid_grant'', ''invalid_refresh_token'', ''refresh_token_invalidated'']"

definition rejection_message :: "string \<Rightarrow> bool" where
  "rejection_message error =
     list_ex (\<lambda>code.
       case drop_prefix (''oauth_refresh_http_'' @ code @ '':'') (lower error) of
         None \<Rightarrow> False
       | Some rest \<Rightarrow>
           list_ex (\<lambda>reason. case drop_prefix reason (dropWhile is_space rest) of None \<Rightarrow> False | Some r \<Rightarrow> ends_word r)
             rejection_reasons)
       [''400'', ''401'']"

definition has_unverified_refresh_rejection :: "pydict \<Rightarrow> bool" where
  "has_unverified_refresh_rejection account =
     (if \<not> truthy (field account ''refresh_token'') \<or> truthy (field account ''refresh_token_invalid_at'') then False
      else rejection_message (py_str (py_or (field account ''last_token_refresh_error'') (PStr []))))"

section \<open>Access tokens\<close>

definition access_token_refresh_skew_seconds :: int where
  "access_token_refresh_skew_seconds = 24 * 60 * 60"

datatype access_status = AccessValid | AccessExpiring | AccessInvalid

datatype refresh_status = RefreshValid | RefreshMissing | RefreshInvalid

datatype credential_status = Usable | Recoverable | Unavailable

record access_lifecycle =
  al_status :: access_status
  al_issued_at :: "int option"
  al_expires_at :: "int option"

record credential_availability =
  ca_status :: credential_status
  ca_access :: access_lifecycle
  ca_refresh :: refresh_status

type_synonym claims = "string \<Rightarrow> pydict"

definition positive_timestamp :: "pydict \<Rightarrow> string \<Rightarrow> int option" where
  "positive_timestamp cs name =
     (case field cs name of
        PBool _ \<Rightarrow> None
      | raw \<Rightarrow>
          (case py_int (py_or raw (PInt 0)) of
             Inl _ \<Rightarrow> None
           | Inr v \<Rightarrow> if 0 < v \<and> v < 253402300800 then Some v else None))"

definition access_token_timestamps :: "claims \<Rightarrow> string \<Rightarrow> int option \<times> int option" where
  "access_token_timestamps claims token =
     (positive_timestamp (claims token) ''iat'', positive_timestamp (claims token) ''exp'')"

definition access_token_expires_in_seconds :: "claims \<Rightarrow> string \<Rightarrow> int \<Rightarrow> int option" where
  "access_token_expires_in_seconds claims token now =
     map_option (\<lambda>e. e - now) (snd (access_token_timestamps claims token))"

definition access_token_issued_at :: "claims \<Rightarrow> string \<Rightarrow> int option" where
  "access_token_issued_at claims token = fst (access_token_timestamps claims token)"

text \<open>\<open>token\<close> is the text that was passed; \<open>now\<close> the whole seconds of the clock.\<close>

definition project_access_token_lifecycle :: "claims \<Rightarrow> string \<Rightarrow> bool \<Rightarrow> int \<Rightarrow> access_lifecycle" where
  "project_access_token_lifecycle claims token confirmed_invalid now =
     (let normalized = strip token in
      if normalized = [] then \<lparr>al_status = AccessInvalid, al_issued_at = None, al_expires_at = None\<rparr>
      else
        (let (issued_at, expires_at) = access_token_timestamps claims normalized;
             expires_in = map_option (\<lambda>e. e - now) expires_at;
             status = (if confirmed_invalid \<or> (case expires_in of None \<Rightarrow> False | Some n \<Rightarrow> n \<le> 0) then AccessInvalid
               else if (case expires_in of None \<Rightarrow> False | Some n \<Rightarrow> n \<le> access_token_refresh_skew_seconds)
               then AccessExpiring
               else AccessValid) in
         \<lparr>al_status = status, al_issued_at = issued_at, al_expires_at = expires_at\<rparr>))"

definition project_upstream_credential_availability ::
  "claims \<Rightarrow> string \<Rightarrow> string \<Rightarrow> bool \<Rightarrow> bool \<Rightarrow> int \<Rightarrow> credential_availability" where
  "project_upstream_credential_availability claims access_token refresh_token access_confirmed_invalid
     refresh_confirmed_invalid now =
     (let access = project_access_token_lifecycle claims access_token access_confirmed_invalid now;
          refresh = (if strip refresh_token = [] then RefreshMissing
            else if refresh_confirmed_invalid then RefreshInvalid else RefreshValid);
          status = (if al_status access \<noteq> AccessInvalid then Usable
            else if refresh = RefreshValid then Recoverable else Unavailable) in
      \<lparr>ca_status = status, ca_access = access, ca_refresh = refresh\<rparr>)"

section \<open>Readiness\<close>

datatype readiness =
  Ready | Refreshing | UncertainRefresh | UnknownExpiry | Expiring | Expired | Quarantined | InvalidCred | Disabled

definition readiness_states :: "readiness list" where
  "readiness_states =
     [Ready, Refreshing, UncertainRefresh, UnknownExpiry, Expiring, Expired, Quarantined, InvalidCred, Disabled]"

record projection =
  pr_state :: readiness
  pr_expires_at :: "string option"
  pr_remaining_seconds :: "int option"
  pr_has_refresh_path :: bool
  pr_refresh_unverified :: bool

definition credential_readiness :: "claims \<Rightarrow> pydict \<Rightarrow> rat \<Rightarrow> rat \<Rightarrow> projection" where
  "credential_readiness claims account minimum_validity now =
     (let token = clean (field account ''access_token'');
          expires_at = snd (access_token_timestamps claims token);
          expires_at = (case expires_at of None \<Rightarrow> None | Some e \<Rightarrow> if 253402300800 \<le> e then None else Some e);
          remaining = map_option (\<lambda>e. of_int e - now) expires_at;
          remote = lower (py_str (py_or (field account ''last_remote_check_result'') (PStr [])));
          state =
            (if field account ''status'' = PStr st_disabled then Disabled
             else if remote = ''pending'' then Quarantined
             else if field account ''status'' = PStr st_abnormal \<or> remote = ''invalid'' \<or> token = [] then InvalidCred
             else case remaining of
               None \<Rightarrow> UnknownExpiry
             | Some r \<Rightarrow> if r \<le> 0 then Expired else if r \<le> minimum_validity then Expiring else Ready) in
      \<lparr>pr_state = state,
       pr_expires_at = map_option (\<lambda>e. isoformat (of_int e)) expires_at,
       pr_remaining_seconds = map_option py_trunc remaining,
       pr_has_refresh_path =
         (truthy (field account ''refresh_token'') \<and> \<not> truthy (field account ''refresh_token_invalid_at'')),
       pr_refresh_unverified = has_unverified_refresh_rejection account\<rparr>)"

text \<open>The summary; the states of \<open>repairable\<close> are the ones that count towards the work lists.\<close>

definition repairable :: "readiness \<Rightarrow> bool" where
  "repairable s \<longleftrightarrow> s \<in> {UnknownExpiry, Expired, Expiring, Quarantined, InvalidCred, UncertainRefresh}"

record summary =
  su_total :: nat
  su_counts :: "(readiness \<times> nat) list"
  su_refresh_candidates :: nat
  su_needs_credentials :: nat
  su_refresh_unverified :: nat
  su_minimum_validity_seconds :: int

fun count_projection :: "projection \<Rightarrow> summary \<Rightarrow> summary" where
  "count_projection item s =
     (let st = pr_state item;
          s = s\<lparr>su_counts := AList.update st (Suc (case map_of (su_counts s) st of None \<Rightarrow> 0 | Some n \<Rightarrow> n)) (su_counts s)\<rparr> in
      if repairable st then
        (let pending = (pr_has_refresh_path item \<and> pr_refresh_unverified item) in
         s\<lparr>su_refresh_unverified := su_refresh_unverified s + (if pending then 1 else 0),
           su_refresh_candidates := su_refresh_candidates s + (if pr_has_refresh_path item \<and> \<not> pending then 1 else 0),
           su_needs_credentials := su_needs_credentials s + (if pr_has_refresh_path item then 0 else 1)\<rparr>)
      else s)"

definition summarize_projections :: "projection list \<Rightarrow> rat \<Rightarrow> summary" where
  "summarize_projections items minimum_validity =
     (let s = fold count_projection items
          \<lparr>su_total = 0, su_counts = map (\<lambda>st. (st, 0)) readiness_states, su_refresh_candidates = 0,
           su_needs_credentials = 0, su_refresh_unverified = 0,
           su_minimum_validity_seconds = py_trunc minimum_validity\<rparr> in
      s\<lparr>su_total := sum_list (map snd (su_counts s))\<rparr>)"

definition summarize_readiness :: "claims \<Rightarrow> pydict list \<Rightarrow> rat \<Rightarrow> rat \<Rightarrow> summary" where
  "summarize_readiness claims accounts minimum_validity now =
     summarize_projections (map (\<lambda>a. credential_readiness claims a minimum_validity now) accounts) minimum_validity"

section \<open>Lemmas\<close>

lemma count_projection_counts:
  "map_of (su_counts (count_projection item s)) st =
     (if st = pr_state item then Some (Suc (case map_of (su_counts s) st of None \<Rightarrow> 0 | Some n \<Rightarrow> n))
      else map_of (su_counts s) st)"
  by (simp add: Let_def)

lemma count_projection_keys:
  "distinct_keys (su_counts s) \<Longrightarrow> distinct_keys (su_counts (count_projection item s))"
  by (simp add: Let_def)

lemma count_projection_total:
  assumes "map_of (su_counts s) (pr_state item) \<noteq> None"
  shows "sum_list (map snd (su_counts (count_projection item s))) = Suc (sum_list (map snd (su_counts s)))"
proof -
  obtain n where n: "map_of (su_counts s) (pr_state item) = Some n" using assms by blast
  show ?thesis
    using ksum_update_swap [OF n, of "\<lambda>n. n" "Suc n"] n by (simp add: Let_def ksum_def)
qed

lemma count_projection_lists:
  "su_refresh_candidates (count_projection item s) + su_needs_credentials (count_projection item s) +
     su_refresh_unverified (count_projection item s) =
   su_refresh_candidates s + su_needs_credentials s + su_refresh_unverified s + (if repairable (pr_state item) then 1 else 0)"
  by (simp add: Let_def)

lemma fold_count_projection:
  "map_of (su_counts (fold count_projection items s)) st =
     (let n = length (filter (\<lambda>i. pr_state i = st) items) in
      if n = 0 then map_of (su_counts s) st
      else Some (n + (case map_of (su_counts s) st of None \<Rightarrow> 0 | Some k \<Rightarrow> k)))"
  by (induction items arbitrary: s) (simp_all add: Let_def count_projection_counts del: count_projection.simps)

lemma fold_count_total:
  "(\<And>st. map_of (su_counts s) st \<noteq> None) \<Longrightarrow>
   sum_list (map snd (su_counts (fold count_projection items s))) = length items + sum_list (map snd (su_counts s))"
proof (induction items arbitrary: s)
  case Nil
  then show ?case by simp
next
  case (Cons item items)
  have "map_of (su_counts (count_projection item s)) st \<noteq> None" for st
    using Cons.prems [of st] by (simp add: count_projection_counts del: count_projection.simps)
  from Cons.IH [OF this] count_projection_total [OF Cons.prems] show ?case
    by (simp del: count_projection.simps)
qed

lemma fold_count_lists:
  "su_refresh_candidates (fold count_projection items s) + su_needs_credentials (fold count_projection items s) +
     su_refresh_unverified (fold count_projection items s) =
   su_refresh_candidates s + su_needs_credentials s + su_refresh_unverified s +
     length (filter (\<lambda>i. repairable (pr_state i)) items)"
proof (induction items arbitrary: s)
  case (Cons item items)
  show ?case
    using Cons.IH [of "count_projection item s"] count_projection_lists [of item s]
    by (simp del: count_projection.simps)
qed simp

lemma map_of_states: "map_of (map (\<lambda>st. (st, 0::nat)) readiness_states) st = Some 0"
  by (cases st) (simp_all add: readiness_states_def)

section \<open>Properties\<close>

text \<open>The readiness summary accounts for every account: the counts per state are the numbers
  of accounts projected to that state, they add up to the total, and every account in a
  repairable state is on exactly one of the three work lists.\<close>

theorem readiness_summary_complete:
  "let ps = map (\<lambda>a. credential_readiness claims a m now) accounts; s = summarize_readiness claims accounts m now in
   su_total s = length accounts \<and>
   map_of (su_counts s) st = Some (length (filter (\<lambda>p. pr_state p = st) ps)) \<and>
   su_refresh_candidates s + su_needs_credentials s + su_refresh_unverified s =
     length (filter (\<lambda>p. repairable (pr_state p)) ps)"
  using fold_count_total [of "\<lparr>su_total = 0, su_counts = map (\<lambda>st. (st, 0)) readiness_states, su_refresh_candidates = 0,
           su_needs_credentials = 0, su_refresh_unverified = 0, su_minimum_validity_seconds = py_trunc m\<rparr>"
      "map (\<lambda>a. credential_readiness claims a m now) accounts"]
  by (simp add: summarize_readiness_def summarize_projections_def Let_def fold_count_projection fold_count_lists
      map_of_states comp_def sum_list_triv)

text \<open>The strict projection used for dispatch and the life-cycle projection used for display
  agree: an account that is ready for a minimum validity has a token that the life cycle does
  not call invalid, that outlives the minimum, and, from one day of minimum validity on, that
  the life cycle calls valid.\<close>

theorem ready_implies_lifecycle:
  assumes "pr_state (credential_readiness claims account m now) = Ready" and "0 \<le> m"
  defines "l \<equiv> project_access_token_lifecycle claims (clean (field account ''access_token'')) False \<lfloor>now\<rfloor>"
  shows "al_status l \<noteq> AccessInvalid \<and> (\<exists>e. al_expires_at l = Some e \<and> m < of_int e - now) \<and>
    (al_status l = AccessValid \<or> m < 86400)"
proof -
  let ?t = "clean (field account ''access_token'')"
  obtain e where e: "snd (access_token_timestamps claims ?t) = Some e" and m: "m < of_int e - now" and t: "?t \<noteq> []"
    using assms(1) by (auto simp: credential_readiness_def Let_def split: option.splits if_splits)
  have strip: "strip ?t = ?t" by (simp add: clean_def)
  have fl: "of_int \<lfloor>now\<rfloor> \<le> now" by (rule of_int_floor_le)
  have "(0::rat) < of_int (e - \<lfloor>now\<rfloor>)" using m assms(2) fl unfolding of_int_diff by linarith
  then have pos: "0 < e - \<lfloor>now\<rfloor>" by (simp only: of_int_0_less_iff)
  have lt: "m < of_int (e - \<lfloor>now\<rfloor>)" using m fl unfolding of_int_diff by linarith
  have "86400 < e - \<lfloor>now\<rfloor> \<or> m < 86400"
  proof (cases "86400 < e - \<lfloor>now\<rfloor>")
    case False
    then have "(of_int (e - \<lfloor>now\<rfloor>) :: rat) \<le> of_int 86400" by (simp only: of_int_le_iff not_less)
    with lt show ?thesis by simp
  qed simp
  then show ?thesis
    using e m t strip pos
    by (auto simp: l_def project_access_token_lifecycle_def Let_def access_token_refresh_skew_seconds_def
        split: prod.split)
qed

theorem ready_implies_lifecycle_witness:
  "al_status (project_access_token_lifecycle (\<lambda>_. [(''exp'', PInt 1800000000)])
     (clean (field [(''access_token'', PStr ''t'')] ''access_token'')) False \<lfloor>1700000000 :: rat\<rfloor>) = AccessValid"
proof -
  have "pr_state (credential_readiness (\<lambda>_. [(''exp'', PInt 1800000000)]) [(''access_token'', PStr ''t'')] 100000 1700000000) = Ready"
    by (simp add: credential_readiness_def clean_def field_def py_or_def strip_def is_space_def
        access_token_timestamps_def positive_timestamp_def lower_def Let_def)
  from ready_implies_lifecycle [OF this] show ?thesis by simp
qed

end
