(* ===== verification/Cooldown.thy ===== *)
theory Cooldown
  imports PyTime
begin

text \<open>
  \<open>services/account_capabilities.py\<close> (the cool-down of file uploads) and
  \<open>services/image_quota_cooldown.py\<close> (the cool-down of accounts whose image quota is used
  up). An account is a dictionary; recording an observation returns the updated one. The
  environment and the clock are arguments.
\<close>

section \<open>Uploads\<close>

definition upload_cooldown_fields :: "string list" where
  "upload_cooldown_fields = [''file_upload_blocked_until'', ''file_upload_throttle_streak'', ''last_file_upload_throttled_at'']"

definition upload_blocked_until :: "pydict \<Rightarrow> rat" where
  "upload_blocked_until account =
     (case py_float (py_or (field account ''file_upload_blocked_until'') (PInt 0)) of
        Inr (Fin until) \<Rightarrow> max 0 until
      | _ \<Rightarrow> 0)"

definition upload_blocked :: "pydict \<Rightarrow> rat \<Rightarrow> bool" where
  "upload_blocked account now \<longleftrightarrow> now < upload_blocked_until account"

definition upload_cooldown_seconds :: "environ \<Rightarrow> int option \<Rightarrow> int" where
  "upload_cooldown_seconds env retry_after =
     (let fallback = env_int env ''CHATGPT2API_UPLOAD_COOLDOWN_SECONDS'' 900 1 (Some 86400) in
      max 1 (case retry_after of None \<Rightarrow> fallback | Some r \<Rightarrow> r))"

text \<open>\<open>max(0, min(16, int(v or 0)))\<close>, 0 when the conversion raises.\<close>

definition saved_streak :: "pyval \<Rightarrow> int" where
  "saved_streak v = (case py_int (py_or v (PInt 0)) of Inl _ \<Rightarrow> 0 | Inr n \<Rightarrow> max 0 (min 16 n))"

text \<open>The streak and the duration of an observation without a deadline of its own.\<close>

definition next_streak :: "rat \<Rightarrow> int \<Rightarrow> int \<Rightarrow> rat \<Rightarrow> int" where
  "next_streak previous_until duration previous_streak now =
     (if 0 < previous_until \<and> now \<le> previous_until + of_int duration
      then max 1 (previous_streak + (if previous_until < now then 1 else 0))
      else 1)"

definition backoff :: "int \<Rightarrow> int \<Rightarrow> int \<Rightarrow> int" where
  "backoff maximum duration streak = min maximum (duration * 2 ^ nat (min (streak - 1) 16))"

definition record_upload_throttle :: "environ \<Rightarrow> pydict \<Rightarrow> int option \<Rightarrow> rat \<Rightarrow> pydict" where
  "record_upload_throttle env account retry_after now =
     (let previous_until = upload_blocked_until account;
          duration = upload_cooldown_seconds env retry_after;
          (streak, duration) =
            (if retry_after = None then
               (let streak = next_streak previous_until duration
                      (saved_streak (field account ''file_upload_throttle_streak'')) now;
                    maximum = max duration (env_int env ''CHATGPT2API_UPLOAD_COOLDOWN_MAX_SECONDS'' 7200 1 (Some 86400)) in
                (streak, backoff maximum duration streak))
             else (0, duration)) in
      AList.update ''last_file_upload_throttled_at'' (PStr (isoformat now))
        (AList.update ''file_upload_blocked_until'' (PFloat (Fin (max previous_until (now + of_int duration))))
          (AList.update ''file_upload_throttle_streak'' (PInt streak) account)))"

text \<open>\<open>target[f] = source[f]\<close> for the fields the source has, \<open>pop\<close> for the others.\<close>

definition copy_fields :: "string list \<Rightarrow> pydict \<Rightarrow> pydict \<Rightarrow> pydict" where
  "copy_fields fs source target =
     fold (\<lambda>f t. case map_of source f of None \<Rightarrow> AList.delete f t | Some v \<Rightarrow> AList.update f v t) fs target"

definition merge_upload_cooldown :: "pydict \<Rightarrow> pydict \<Rightarrow> pydict" where
  "merge_upload_cooldown target source =
     (if upload_blocked_until target < upload_blocked_until source
      then copy_fields upload_cooldown_fields source target else target)"

section \<open>Image quota\<close>

definition image_quota_cooldown_fields :: "string list" where
  "image_quota_cooldown_fields =
     [''image_quota_cooldown_until'', ''image_quota_exhausted_at'', ''image_quota_exhausted_streak'',
      ''image_quota_recovered_at'']"

text \<open>\<open>_timestamp\<close>: a positive finite number, or an ISO text.\<close>

definition timestamp :: "pyval \<Rightarrow> rat" where
  "timestamp value =
     (case py_float (py_or value (PInt 0)) of
        Inr (Fin q) \<Rightarrow> if 0 < q then q else
          (case from_isoformat (replace_zulu (clean value)) of None \<Rightarrow> 0 | Some t \<Rightarrow> max 0 t)
      | _ \<Rightarrow> (case from_isoformat (replace_zulu (clean value)) of None \<Rightarrow> 0 | Some t \<Rightarrow> max 0 t))"

definition image_quota_cooldown_until :: "pydict \<Rightarrow> rat" where
  "image_quota_cooldown_until account = timestamp (field account ''image_quota_cooldown_until'')"

definition image_quota_needs_verification :: "pydict \<Rightarrow> bool" where
  "image_quota_needs_verification account =
     (let exhausted_at = field account ''image_quota_exhausted_at'' in
      if \<not> truthy exhausted_at then False
      else
        (let exhausted = timestamp exhausted_at;
             recovered = timestamp (field account ''image_quota_recovered_at'') in
         0 < exhausted \<and> recovered \<le> exhausted))"

definition image_quota_cooling :: "pydict \<Rightarrow> rat \<Rightarrow> bool" where
  "image_quota_cooling account now \<longleftrightarrow>
     image_quota_needs_verification account \<and> now < image_quota_cooldown_until account"

text \<open>\<open>retry_after\<close> is None, an int or a float.\<close>

definition image_quota_cooldown_seconds :: "environ \<Rightarrow> pyval \<Rightarrow> int" where
  "image_quota_cooldown_seconds env retry_after =
     (let fallback = env_int env ''CHATGPT2API_IMAGE_QUOTA_COOLDOWN_SECONDS'' 300 1 (Some 86400) in
      if retry_after = PNone then fallback
      else case py_float retry_after of
        Inr (Fin q) \<Rightarrow> max 1 (min 86400 (py_trunc q))
      | _ \<Rightarrow> fallback)"

definition record_image_quota_exhaustion :: "environ \<Rightarrow> pydict \<Rightarrow> pyval \<Rightarrow> rat \<Rightarrow> pydict" where
  "record_image_quota_exhaustion env account retry_after now =
     (let previous_until = image_quota_cooldown_until account;
          duration = image_quota_cooldown_seconds env retry_after;
          previous_streak = saved_streak (field account ''image_quota_exhausted_streak'');
          (streak, duration) =
            (if retry_after = PNone then
               (let streak = next_streak previous_until duration previous_streak now;
                    maximum = max duration
                      (env_int env ''CHATGPT2API_IMAGE_QUOTA_COOLDOWN_MAX_SECONDS'' 3600 1 (Some 86400)) in
                (streak, backoff maximum duration streak))
             else (0, duration)) in
      AList.update ''image_quota_exhausted_at'' (PStr (isoformat now))
        (AList.update ''image_quota_cooldown_until'' (PFloat (Fin (max previous_until (now + of_int duration))))
          (AList.update ''image_quota_exhausted_streak'' (PInt streak) account)))"

definition clear_image_quota_cooldown :: "bool \<Rightarrow> rat \<Rightarrow> pydict \<Rightarrow> pydict" where
  "clear_image_quota_cooldown success now account =
     (if \<not> truthy (field account ''image_quota_exhausted_at'') then account
      else
        (let account = AList.update ''image_quota_recovered_at'' (PFloat (Fin now)) account in
         if success
         then AList.update ''image_quota_cooldown_until'' PNone
                (AList.update ''image_quota_exhausted_streak'' (PInt 0) account)
         else account))"

definition quota_event :: "pydict \<Rightarrow> bool" where
  "quota_event row \<longleftrightarrow>
     truthy (field row ''image_quota_exhausted_at'') \<or> truthy (field row ''image_quota_recovered_at'')"

definition exhausted_time :: "pydict \<Rightarrow> rat" where
  "exhausted_time row = timestamp (field row ''image_quota_exhausted_at'')"

definition recovered_time :: "pydict \<Rightarrow> rat" where
  "recovered_time row = timestamp (field row ''image_quota_recovered_at'')"

definition merge_image_quota_cooldown :: "pydict \<Rightarrow> pydict \<Rightarrow> pydict \<Rightarrow> pydict" where
  "merge_image_quota_cooldown target local remote =
     (if \<not> list_ex quota_event [local, remote] then target
      else
        (let recovered = max (recovered_time local) (recovered_time remote);
             failures = filter (\<lambda>row. 0 < exhausted_time row \<and> recovered \<le> exhausted_time row) [local, remote];
             winner = (case failures of
                 [] \<Rightarrow> max_by recovered_time local [remote]
               | r # rs \<Rightarrow> max_by image_quota_cooldown_until r rs);
             target = copy_fields image_quota_cooldown_fields winner target;
             target = (case failures of
                 [] \<Rightarrow> target
               | r # rs \<Rightarrow> AList.update ''image_quota_exhausted_at''
                   (field (max_by exhausted_time r rs) ''image_quota_exhausted_at'') target) in
         if recovered \<noteq> 0
         then AList.update ''image_quota_recovered_at'' (PFloat (Fin recovered)) target else target))"

section \<open>Lemmas\<close>

lemma field_copy_fields:
  "field (copy_fields fs source target) f = (if f \<in> set fs then field source f else field target f)"
proof (induction fs arbitrary: target)
  case Nil
  then show ?case by (simp add: copy_fields_def)
next
  case (Cons g fs)
  have step: "copy_fields (g # fs) source target =
      copy_fields fs source (case map_of source g of None \<Rightarrow> AList.delete g target | Some v \<Rightarrow> AList.update g v target)"
    by (simp add: copy_fields_def)
  show ?case
    unfolding step Cons.IH by (auto simp: field_def split: option.split)
qed

lemma upload_blocked_until_nonneg: "0 \<le> upload_blocked_until account"
  by (simp add: upload_blocked_until_def split: sum.split pyfloat.split)

lemma timestamp_nonneg: "0 \<le> timestamp v"
  by (auto simp: timestamp_def split: sum.split pyfloat.split option.split)

lemma from_isoformat_Nil [simp]: "from_isoformat [] = None"
  by (simp add: from_isoformat_def date_end_def)

lemma replace_zulu_Nil [simp]: "replace_zulu [] = []"
  by (simp add: replace_zulu_def)

lemma clean_falsy: "\<not> truthy v \<Longrightarrow> clean v = []"
  by (simp add: clean_def py_or_def strip_def)

lemma timestamp_falsy: "\<not> truthy v \<Longrightarrow> timestamp v = 0"
  by (simp add: timestamp_def py_or_def clean_falsy float_limit_def)

lemma timestamp_pos_truthy: "0 < timestamp v \<Longrightarrow> truthy v"
  using timestamp_falsy by fastforce

lemma timestamp_float: "0 < q \<Longrightarrow> timestamp (PFloat (Fin q)) = q"
  by (simp add: timestamp_def py_or_def)

lemma needs_verification_iff:
  "image_quota_needs_verification account \<longleftrightarrow>
     0 < exhausted_time account \<and> recovered_time account \<le> exhausted_time account"
  using timestamp_pos_truthy
  by (auto simp: image_quota_needs_verification_def exhausted_time_def recovered_time_def Let_def)

lemma backoff_bounds:
  assumes "1 \<le> duration" and "duration \<le> maximum"
  shows "duration \<le> backoff maximum duration streak" "backoff maximum duration streak \<le> maximum"
proof -
  have "(1::int) \<le> 2 ^ nat (min (streak - 1) 16)" by simp
  then have "duration * 1 \<le> duration * 2 ^ nat (min (streak - 1) 16)"
    using assms by (intro mult_left_mono) auto
  with assms show "duration \<le> backoff maximum duration streak" "backoff maximum duration streak \<le> maximum"
    by (auto simp: backoff_def)
qed

lemma upload_cooldown_seconds_pos: "1 \<le> upload_cooldown_seconds env r"
  by (simp add: upload_cooldown_seconds_def Let_def)

lemma image_quota_cooldown_seconds_bounds:
  "1 \<le> image_quota_cooldown_seconds env r \<and> image_quota_cooldown_seconds env r \<le> 86400"
  using env_int_bounds [of 1 86400 env "''CHATGPT2API_IMAGE_QUOTA_COOLDOWN_SECONDS''" 300]
  by (auto simp: image_quota_cooldown_seconds_def Let_def split: sum.split pyfloat.split)

text \<open>A text that \<open>isoformat\<close> wrote is not a number, and is read back as its microseconds.\<close>

lemma dated_not_number:
  assumes "is_digit a" "is_digit b" "is_digit c" "is_digit d"
  shows "parse_float (a # b # c # d # CHR ''-'' # r) = None \<or> strip (a # b # c # d # CHR ''-'' # r) \<noteq> a # b # c # d # CHR ''-'' # r"
proof -
  have run: "digit_run False 0 (a # b # c # d # CHR ''-'' # x) = None" for x
    using assms is_digit_not_mark by (simp add: is_digit_def Let_def)
  have dots: "a \<noteq> CHR ''.''" "b \<noteq> CHR ''.''" "c \<noteq> CHR ''.''" "d \<noteq> CHR ''.''"
    and es: "a \<noteq> CHR ''e''" "b \<noteq> CHR ''e''" "c \<noteq> CHR ''e''" "d \<noteq> CHR ''e''"
      "a \<noteq> CHR ''E''" "b \<noteq> CHR ''E''" "c \<noteq> CHR ''E''" "d \<noteq> CHR ''E''"
    and signs: "a \<noteq> CHR ''-''" "a \<noteq> CHR ''+''"
    using assms by (simp_all add: is_digit_not_mark)
  have mant: "parse_mantissa (a # b # c # d # CHR ''-'' # x) = None" for x
    using run dots by (simp add: parse_mantissa_def split_at_def split: list.split)
  have low: "lower_char a = a"
    using assms(1) by (simp add: lower_char_def is_digit_def Let_def)
  have "a \<noteq> CHR ''i''" "a \<noteq> CHR ''n''"
    using assms(1) by (auto simp: is_digit_def Let_def)
  then have "parse_unsigned (a # b # c # d # CHR ''-'' # r) = None"
    using mant es low by (auto simp: parse_unsigned_def split_at_def lower_def split: list.split)
  then show ?thesis
    using signs by (auto simp: parse_float_def)
qed

lemma replace_zulu_id: "list_all (\<lambda>c. c \<noteq> CHR ''Z'') s \<Longrightarrow> replace_zulu s = s"
  by (induction s) (auto simp: replace_zulu_def)

lemma digits_no_zulu: "list_all is_digit s \<Longrightarrow> list_all (\<lambda>c. c \<noteq> CHR ''Z'') s"
  by (induction s) (auto dest: is_digit_not_mark)

lemma timestamp_isoformat:
  assumes "0 \<le> micros t" "micros t < 253402300800000000"
  shows "timestamp (PStr (isoformat t)) = of_int (micros t) / 1000000"
proof -
  obtain y m d h mi s f n where iso:
    "isoformat t = (digits4 y @ ''-'' @ digits2 m @ ''-'' @ digits2 d) @ ''T'' @
      (digits2 h @ '':'' @ digits2 mi @ '':'' @ digits2 s @ (if f = 0 then [] else ''.'' @ digits6 f)) @ ''+00:00''"
    by (rule isoformat_shape [OF assms]) blast
  obtain a b c e where Y: "digits4 y = [a, b, c, e]" and dig: "is_digit a" "is_digit b" "is_digit c" "is_digit e"
    using digits4_list by metis
  have "last (isoformat t) = CHR ''0''" by (simp add: iso)
  then have strip: "strip (isoformat t) = isoformat t"
    using dig is_digit_not_space by (intro strip_id) (simp_all add: iso Y is_space_def)
  obtain r where r: "isoformat t = a # b # c # e # CHR ''-'' # r" by (simp add: iso Y)
  have float: "parse_float (isoformat t) = None"
    using dated_not_number [OF dig, of r] strip r by simp
  have zulu: "replace_zulu (isoformat t) = isoformat t"
    by (rule replace_zulu_id) (use digits_no_zulu digits_are_digits in \<open>simp add: iso\<close>)
  have "0 \<le> (of_int (micros t) / 1000000 :: rat)" using assms by simp
  then show ?thesis
    using float strip zulu iso_round_trip [OF assms] r by (simp add: timestamp_def clean_def py_or_def)
qed

lemma upload_until_record:
  "upload_blocked_until (record_upload_throttle env a r now) =
     max (upload_blocked_until a)
       (now + of_int (if r = None
          then backoff (max (upload_cooldown_seconds env r)
                 (env_int env ''CHATGPT2API_UPLOAD_COOLDOWN_MAX_SECONDS'' 7200 1 (Some 86400)))
                 (upload_cooldown_seconds env r)
                 (next_streak (upload_blocked_until a) (upload_cooldown_seconds env r)
                    (saved_streak (field a ''file_upload_throttle_streak'')) now)
          else upload_cooldown_seconds env r))"
proof -
  have "upload_blocked_until (AList.update ''last_file_upload_throttled_at'' v
          (AList.update ''file_upload_blocked_until'' (PFloat (Fin u)) b)) = max 0 u" for v u b
    by (simp add: upload_blocked_until_def py_or_def float_limit_def)
  then show ?thesis
    using upload_blocked_until_nonneg [of a] by (simp add: record_upload_throttle_def Let_def max.absorb2)
qed

lemma upload_streak_record:
  "field (record_upload_throttle env a None now) ''file_upload_throttle_streak'' =
     PInt (next_streak (upload_blocked_until a) (upload_cooldown_seconds env None)
        (saved_streak (field a ''file_upload_throttle_streak'')) now)"
  by (simp add: record_upload_throttle_def Let_def)

lemma saved_streak_PInt: "saved_streak (PInt n) = max 0 (min 16 n)"
  by (simp add: saved_streak_def py_or_def)

lemma next_streak_ge1: "1 \<le> next_streak u d p now"
  by (simp add: next_streak_def)

lemma upload_until_merge:
  "upload_blocked_until (merge_upload_cooldown target source) =
     max (upload_blocked_until target) (upload_blocked_until source)"
  by (simp add: merge_upload_cooldown_def upload_blocked_until_def field_copy_fields upload_cooldown_fields_def
      max_def)

lemma quota_event_time: "0 < exhausted_time row \<or> 0 < recovered_time row \<Longrightarrow> quota_event row"
  using timestamp_pos_truthy by (auto simp: quota_event_def exhausted_time_def recovered_time_def)

lemma times_nonneg: "0 \<le> exhausted_time row" "0 \<le> recovered_time row"
  by (simp_all add: exhausted_time_def recovered_time_def timestamp_nonneg)

lemma times_update [simp]:
  "exhausted_time (AList.update ''image_quota_recovered_at'' v d) = exhausted_time d"
  "recovered_time (AList.update ''image_quota_recovered_at'' v d) = timestamp v"
  "exhausted_time (AList.update ''image_quota_exhausted_at'' v d) = timestamp v"
  "recovered_time (AList.update ''image_quota_exhausted_at'' v d) = recovered_time d"
  "exhausted_time (AList.update ''image_quota_cooldown_until'' v d) = exhausted_time d"
  "recovered_time (AList.update ''image_quota_cooldown_until'' v d) = recovered_time d"
  "exhausted_time (AList.update ''image_quota_exhausted_streak'' v d) = exhausted_time d"
  "recovered_time (AList.update ''image_quota_exhausted_streak'' v d) = recovered_time d"
  by (simp_all add: exhausted_time_def recovered_time_def)

lemma times_copy [simp]:
  "exhausted_time (copy_fields image_quota_cooldown_fields w target) = exhausted_time w"
  "recovered_time (copy_fields image_quota_cooldown_fields w target) = recovered_time w"
  by (simp_all add: exhausted_time_def recovered_time_def field_copy_fields image_quota_cooldown_fields_def)

text \<open>The times of a merge: the later recovery, and an exhaustion that is not older than it if
  either side has one.\<close>

lemma merge_quota_times:
  fixes t l r :: pydict
  assumes "list_ex quota_event [l, r]"
  defines "m \<equiv> merge_image_quota_cooldown t l r"
  defines "rec \<equiv> max (recovered_time l) (recovered_time r)"
  shows "recovered_time m = rec"
    and "0 < exhausted_time m \<and> rec \<le> exhausted_time m \<longleftrightarrow>
      (0 < exhausted_time l \<and> rec \<le> exhausted_time l) \<or> (0 < exhausted_time r \<and> rec \<le> exhausted_time r)"
proof -
  have rec: "rec = recovered_time l \<or> rec = recovered_time r" "0 \<le> rec" "recovered_time l \<le> rec" "recovered_time r \<le> rec"
    using times_nonneg by (auto simp: rec_def max_def)
  let ?ok = "\<lambda>row. 0 < exhausted_time row \<and> rec \<le> exhausted_time row"
  show "recovered_time m = rec"
  proof (cases "rec = 0")
    case False
    then have "timestamp (PFloat (Fin rec)) = rec" using rec(2) timestamp_float by simp
    with False show ?thesis
      using assms(1) unfolding m_def merge_image_quota_cooldown_def Let_def rec_def [symmetric]
      by (simp del: filter.simps max_by.simps)
  next
    case True
    then have zero: "recovered_time row = 0" if "row = l \<or> row = r" for row
      using that rec times_nonneg [of l] times_nonneg [of r] by auto
    have "recovered_time m = 0"
    proof (cases "filter ?ok [l, r]")
      case Nil
      then show ?thesis
        using assms(1) True zero [of "max_by recovered_time l [r]"]
        unfolding m_def merge_image_quota_cooldown_def Let_def rec_def [symmetric]
        by (simp del: filter.simps)
    next
      case (Cons x xs)
      then have "set (x # xs) \<subseteq> {l, r}" by (metis filter_is_subset list.set(1) list.set(2))
      then have "recovered_time (max_by image_quota_cooldown_until x xs) = 0"
        using max_by_in [of image_quota_cooldown_until x xs] by (intro zero) auto
      with Cons show ?thesis
        using assms(1) True unfolding m_def merge_image_quota_cooldown_def Let_def rec_def [symmetric]
        by (simp del: filter.simps max_by.simps)
    qed
    with True show ?thesis by simp
  qed
  have m: "exhausted_time m = exhausted_time (case filter ?ok [l, r] of
      [] \<Rightarrow> max_by recovered_time l [r] | x # xs \<Rightarrow> max_by exhausted_time x xs)"
  proof (cases "filter ?ok [l, r]")
    case Nil
    then show ?thesis
      using assms(1) unfolding m_def merge_image_quota_cooldown_def Let_def rec_def [symmetric]
      by (cases "rec = 0") (simp_all del: filter.simps max_by.simps)
  next
    case (Cons x xs)
    then show ?thesis
      using assms(1) unfolding m_def merge_image_quota_cooldown_def Let_def rec_def [symmetric]
      by (cases "rec = 0")
        (simp_all del: filter.simps max_by.simps add: exhausted_time_def [of "max_by exhausted_time x xs"])
  qed
  have "exhausted_time (max_by recovered_time l [r]) = exhausted_time l \<or>
      exhausted_time (max_by recovered_time l [r]) = exhausted_time r"
    and "exhausted_time (max_by exhausted_time l [r]) = max (exhausted_time l) (exhausted_time r)"
    by (auto simp: max_def)
  then show "0 < exhausted_time m \<and> rec \<le> exhausted_time m \<longleftrightarrow>
      (0 < exhausted_time l \<and> rec \<le> exhausted_time l) \<or> (0 < exhausted_time r \<and> rec \<le> exhausted_time r)"
    unfolding m by (cases "?ok l"; cases "?ok r") (auto simp del: max_by.simps, simp_all)
qed

lemma upload_until_bounds:
  "\<exists>n. upload_cooldown_seconds env r \<le> n \<and>
     n \<le> (if r = None then max (upload_cooldown_seconds env r)
          (env_int env ''CHATGPT2API_UPLOAD_COOLDOWN_MAX_SECONDS'' 7200 1 (Some 86400))
        else upload_cooldown_seconds env r) \<and>
     upload_blocked_until (record_upload_throttle env a r now) = max (upload_blocked_until a) (now + of_int n)"
proof (cases "r = None")
  case True
  let ?d = "upload_cooldown_seconds env r"
  let ?m = "max ?d (env_int env ''CHATGPT2API_UPLOAD_COOLDOWN_MAX_SECONDS'' 7200 1 (Some 86400))"
  have "?d \<le> backoff ?m ?d k" "backoff ?m ?d k \<le> ?m" for k
    using backoff_bounds [of ?d ?m] upload_cooldown_seconds_pos [of env r] by auto
  then show ?thesis using True unfolding upload_until_record by (auto simp del: max.bounded_iff)
next
  case False
  then obtain k where "r = Some k" by blast
  then show ?thesis by (auto simp: upload_until_record)
qed

lemma upload_until_lower:
  "now + of_int (upload_cooldown_seconds env r) \<le> upload_blocked_until (record_upload_throttle env a r now)"
proof -
  obtain n where n: "upload_cooldown_seconds env r \<le> n"
    "upload_blocked_until (record_upload_throttle env a r now) = max (upload_blocked_until a) (now + of_int n)"
    using upload_until_bounds by blast
  from n(1) have "(of_int (upload_cooldown_seconds env r) :: rat) \<le> of_int n" by (simp only: of_int_le_iff)
  with n(2) show ?thesis by (simp add: le_max_iff_disj)
qed

lemma py_round_pos: "0 < py_round q \<Longrightarrow> 0 < q"
proof (rule ccontr)
  assume pos: "0 < py_round q" and "\<not> 0 < q"
  then have q: "q \<le> 0" by simp
  then have "\<lfloor>q\<rfloor> \<le> 0" by (simp add: floor_le_zero)
  moreover have "\<lfloor>q\<rfloor> = 0 \<Longrightarrow> q = 0" using q by linarith
  ultimately show False using pos by (auto simp: py_round_def Let_def split: if_splits)
qed

lemma image_quota_until_record:
  "\<exists>n. image_quota_cooldown_seconds env r \<le> n \<and>
     field (record_image_quota_exhaustion env a r t) ''image_quota_cooldown_until'' =
       PFloat (Fin (max (image_quota_cooldown_until a) (t + of_int n)))"
proof -
  let ?d = "image_quota_cooldown_seconds env r"
  have "?d \<le> backoff (max ?d m) ?d k" for m k
    using backoff_bounds [of ?d "max ?d m"] image_quota_cooldown_seconds_bounds [of env r] by auto
  then show ?thesis
    by (cases "r = PNone") (auto simp: record_image_quota_exhaustion_def Let_def)
qed

lemma image_quota_until_lower:
  assumes "0 < micros t"
  shows "t + of_int (image_quota_cooldown_seconds env r) \<le>
    image_quota_cooldown_until (record_image_quota_exhaustion env a r t)"
proof -
  let ?d = "image_quota_cooldown_seconds env r"
  obtain n where n: "?d \<le> n" and f: "field (record_image_quota_exhaustion env a r t) ''image_quota_cooldown_until'' =
      PFloat (Fin (max (image_quota_cooldown_until a) (t + of_int n)))"
    using image_quota_until_record by blast
  have "0 < t" using assms py_round_pos [of "t * 1000000"] by (simp add: micros_def zero_less_mult_iff)
  have "1 \<le> n" using n image_quota_cooldown_seconds_bounds [of env r] by linarith
  then have "(1::rat) \<le> of_int n" by (simp only: of_int_1_le_iff)
  then have "0 < max (image_quota_cooldown_until a) (t + of_int n)" using \<open>0 < t\<close> by linarith
  moreover have "(of_int ?d :: rat) \<le> of_int n" using n by (simp only: of_int_le_iff)
  ultimately show ?thesis
    by (simp add: image_quota_cooldown_until_def f timestamp_float le_max_iff_disj)
qed

section \<open>Properties\<close>

text \<open>Recording an upload throttle never shortens a running cool-down, always blocks for at
  least the requested or configured time, and blocks for at most the configured maximum; a
  deadline given by the upstream is taken as it is. Merging two copies of an account keeps the
  longer cool-down.\<close>

theorem upload_throttle_deadline:
  "upload_blocked_until (record_upload_throttle env a r now) \<ge> upload_blocked_until a \<and>
   upload_blocked_until (record_upload_throttle env a r now) \<ge> now + of_int (upload_cooldown_seconds env r) \<and>
   upload_blocked_until (record_upload_throttle env a r now) \<le>
     max (upload_blocked_until a)
       (now + of_int (if r = None then max (upload_cooldown_seconds env r)
          (env_int env ''CHATGPT2API_UPLOAD_COOLDOWN_MAX_SECONDS'' 7200 1 (Some 86400))
        else upload_cooldown_seconds env r)) \<and>
   upload_blocked_until (merge_upload_cooldown a b) = max (upload_blocked_until a) (upload_blocked_until b)"
proof -
  let ?u = "if r = None then max (upload_cooldown_seconds env r)
      (env_int env ''CHATGPT2API_UPLOAD_COOLDOWN_MAX_SECONDS'' 7200 1 (Some 86400)) else upload_cooldown_seconds env r"
  obtain n where n: "upload_cooldown_seconds env r \<le> n" "n \<le> ?u"
    "upload_blocked_until (record_upload_throttle env a r now) = max (upload_blocked_until a) (now + of_int n)"
    using upload_until_bounds by blast
  from n(2) have "(of_int n :: rat) \<le> of_int ?u" by (simp only: of_int_le_iff)
  then have "max (upload_blocked_until a) (now + of_int n) \<le> max (upload_blocked_until a) (now + of_int ?u)"
    by (intro max.mono) simp_all
  then show ?thesis
    using upload_until_lower [of now env r a] n(3) upload_until_merge by simp
qed

text \<open>Failures inside one blocked window count once: a second throttle without a deadline of
  its own, observed before the first one's block has run out, leaves the streak (saved up to
  16) as it was, whatever the account held before.\<close>

theorem upload_window_counts_once:
  assumes "0 \<le> t1" and "t2 \<le> upload_blocked_until (record_upload_throttle env a None t1)"
  shows "saved_streak (field (record_upload_throttle env (record_upload_throttle env a None t1) None t2)
            ''file_upload_throttle_streak'') =
         saved_streak (field (record_upload_throttle env a None t1) ''file_upload_throttle_streak'')"
proof -
  let ?b = "record_upload_throttle env a None t1"
  let ?d = "upload_cooldown_seconds env None"
  let ?k = "next_streak (upload_blocked_until a) ?d (saved_streak (field a ''file_upload_throttle_streak'')) t1"
  have d: "(1::rat) \<le> of_int ?d" using upload_cooldown_seconds_pos [of env None] by (simp only: of_int_1_le_iff)
  have "t1 + of_int ?d \<le> upload_blocked_until ?b"
    using upload_until_lower [of t1 env None a] by simp
  then have pos: "0 < upload_blocked_until ?b" using d assms(1) by linarith
  have s: "saved_streak (field ?b ''file_upload_throttle_streak'') = min 16 ?k"
    using next_streak_ge1 [of "upload_blocked_until a" ?d "saved_streak (field a ''file_upload_throttle_streak'')" t1]
    by (simp add: upload_streak_record saved_streak_PInt)
  have "next_streak (upload_blocked_until ?b) ?d (min 16 ?k) t2 = max 1 (min 16 ?k)"
    using pos assms(2) d by (simp add: next_streak_def)
  then show ?thesis
    using s next_streak_ge1 [of "upload_blocked_until a" ?d "saved_streak (field a ''file_upload_throttle_streak'')" t1]
    by (simp add: upload_streak_record saved_streak_PInt)
qed

theorem upload_window_counts_once_witness:
  "saved_streak (field (record_upload_throttle empty_env (record_upload_throttle empty_env [] None 10) None 20)
      ''file_upload_throttle_streak'') =
   saved_streak (field (record_upload_throttle empty_env [] None 10) ''file_upload_throttle_streak'')"
proof (rule upload_window_counts_once)
  have d: "upload_cooldown_seconds empty_env None = 900"
    by code_simp
  show "(20::rat) \<le> upload_blocked_until (record_upload_throttle empty_env [] None 10)"
    using upload_until_lower [of 10 empty_env None "[]"] by (simp add: d)
qed simp

text \<open>C4. Merging two copies of an account (local and stored) decides the quota verdict by the
  observations: the merge needs verification exactly when some side saw an exhaustion that is
  not older than the latest recovery seen by either side. So a stale copy neither brings back
  a cleared exhaustion nor hides a new one, and the order of the copies does not matter.\<close>

theorem image_quota_merge_verdict:
  "image_quota_needs_verification (merge_image_quota_cooldown t l r) =
     (if list_ex quota_event [l, r]
      then list_ex (\<lambda>row. 0 < exhausted_time row \<and> max (recovered_time l) (recovered_time r) \<le> exhausted_time row) [l, r]
      else image_quota_needs_verification t)"
proof (cases "list_ex quota_event [l, r]")
  case True
  show ?thesis
    using merge_quota_times [OF True, of t] True by (simp add: needs_verification_iff)
next
  case False
  then show ?thesis by (simp add: merge_image_quota_cooldown_def)
qed

text \<open>The life of an exhaustion: once recorded it needs verification and cools down for at
  least the configured time; a clear in a later microsecond ends it and keeps its backoff
  history unless an image has succeeded; and merging the cleared copy with the stale one, in
  either order, keeps it cleared.\<close>

theorem image_quota_lifecycle:
  fixes a t :: pydict and env :: environ and retry :: pyval and success :: bool
  assumes "0 < micros t1" "micros t1 < 253402300800000000" and "of_int (micros t1) / 1000000 < t2"
    and "recovered_time a \<le> of_int (micros t1) / 1000000"
  defines "b \<equiv> record_image_quota_exhaustion env a retry t1"
  defines "c \<equiv> clear_image_quota_cooldown success t2 b"
  shows "image_quota_needs_verification b \<and>
    t1 + of_int (image_quota_cooldown_seconds env retry) \<le> image_quota_cooldown_until b \<and>
    \<not> image_quota_needs_verification c \<and>
    field c ''image_quota_exhausted_streak'' = (if success then PInt 0 else field b ''image_quota_exhausted_streak'') \<and>
    \<not> image_quota_needs_verification (merge_image_quota_cooldown t b c) \<and>
    \<not> image_quota_needs_verification (merge_image_quota_cooldown t c b)"
proof -
  have e: "exhausted_time b = of_int (micros t1) / 1000000"
    using assms(1,2) timestamp_isoformat [of t1]
    by (simp add: b_def record_image_quota_exhaustion_def Let_def exhausted_time_def split: prod.split)
  have r: "recovered_time b = recovered_time a"
    by (simp add: b_def record_image_quota_exhaustion_def Let_def split: prod.split)
  have pos: "0 < exhausted_time b" using e assms(1) by simp
  then have t2: "0 < t2" using e assms(3) by linarith
  have ev: "truthy (field b ''image_quota_exhausted_at'')"
    using pos timestamp_pos_truthy by (simp add: exhausted_time_def)
  have c: "exhausted_time c = exhausted_time b" "recovered_time c = t2"
    using ev t2 timestamp_float by (simp_all add: c_def clear_image_quota_cooldown_def Let_def)
  have streak: "field c ''image_quota_exhausted_streak'' = (if success then PInt 0 else field b ''image_quota_exhausted_streak'')"
    using ev by (simp add: c_def clear_image_quota_cooldown_def Let_def)
  have until: "t1 + of_int (image_quota_cooldown_seconds env retry) \<le> image_quota_cooldown_until b"
    using image_quota_until_lower [of t1 env retry a] assms(1) unfolding b_def by simp
  have m: "max (recovered_time b) (recovered_time c) = t2" "max (recovered_time c) (recovered_time b) = t2"
    using r c assms(3,4) by auto
  have ex: "list_ex quota_event [b, c]" "list_ex quota_event [c, b]"
    using ev by (simp_all add: quota_event_def)
  show ?thesis
    using e r c pos assms(3,4) streak until m merge_quota_times [OF ex(1), of t] merge_quota_times [OF ex(2), of t]
    by (simp add: needs_verification_iff)
qed

theorem image_quota_lifecycle_witness:
  "image_quota_needs_verification (record_image_quota_exhaustion empty_env [] PNone 1700000000) \<and>
   \<not> image_quota_needs_verification
       (clear_image_quota_cooldown True 1700000001 (record_image_quota_exhaustion empty_env [] PNone 1700000000))"
proof -
  have "micros 1700000000 = 1700000000000000" by (simp add: micros_def py_round_def Let_def)
  moreover have "recovered_time [] = 0" by (simp add: recovered_time_def timestamp_falsy field_def)
  ultimately show ?thesis
    using image_quota_lifecycle [of 1700000000 1700000001 "[]" empty_env PNone True] by simp
qed

end
