(* ===== verification/Coordinator.thy ===== *)
theory Coordinator
  imports Credentials Cooldown
begin

text \<open>
  \<open>services/credential_coordinator.py\<close>: one gate per credential, edited in short
  transactions. A gate holds the live image leases (owner and expiry), the state of the
  refresh-token redemption with the owner of the attempt, and the cool-down fields. The
  table of gates is a dictionary; \<open>edit\<close> reads a gate, drops the leases that have run out,
  runs its body and writes the gate back, or writes nothing when the body raises. Whether the
  lock of a gate is taken (PostgreSQL's try-lock), the clock, the owner tokens (\<open>uuid4\<close>), the
  rows of the accounts and the digests are arguments.
\<close>

section \<open>Gates\<close>

text \<open>The exception: the reason and the seconds to wait.\<close>

datatype busy = CredentialBusy string "int option"

text \<open>What is computed outside: SHA-256 of a JSON list and of a text, the claims of a token.\<close>

record outside =
  json_digest :: "pyval list \<Rightarrow> string"
  text_digest :: "string \<Rightarrow> string"
  token_claims :: "string \<Rightarrow> pydict"

record gate =
  g_leases :: "(string \<times> rat) list"
  g_refresh_state :: "string option"
  g_owner :: "string option"
  g_generation :: "string option"
  g_started_at :: "rat option"
  g_fields :: pydict

type_synonym gates = "(string \<times> gate) list"

definition empty_gate :: gate where
  "empty_gate = \<lparr>g_leases = [], g_refresh_state = None, g_owner = None, g_generation = None,
     g_started_at = None, g_fields = []\<rparr>"

definition generation :: "outside \<Rightarrow> pydict \<Rightarrow> string" where
  "generation out account =
     json_digest out (map (\<lambda>k. py_or (field account k) (PStr [])) [''access_token'', ''refresh_token'', ''last_token_refresh_at''])"

definition resource :: "outside \<Rightarrow> pydict \<Rightarrow> string" where
  "resource out account =
     (let rt = field account ''refresh_token'' in
      (if truthy rt then ''rt:'' else ''at:'') @
      text_digest out (py_str (py_or (py_or rt (field account ''access_token'')) (PStr []))))"

definition open_gate :: "rat \<Rightarrow> string \<Rightarrow> gates \<Rightarrow> gate" where
  "open_gate now key gs =
     (let g = (case map_of gs key of None \<Rightarrow> empty_gate | Some g \<Rightarrow> g) in
      g\<lparr>g_leases := filter (\<lambda>(owner, until). now < until) (g_leases g)\<rparr>)"

definition edit :: "bool \<Rightarrow> rat \<Rightarrow> string \<Rightarrow> (gate \<Rightarrow> busy + 'r \<times> gate) \<Rightarrow> gates \<Rightarrow> (busy + 'r) \<times> gates" where
  "edit locked now key body gs =
     (if locked then (Inl (CredentialBusy ''credential_in_use'' None), gs)
      else case body (open_gate now key gs) of
        Inl e \<Rightarrow> (Inl e, gs)
      | Inr (r, g) \<Rightarrow> (Inr r, AList.update key g gs))"

text \<open>\<open>current\<close>: the stored row of the account's token, unless it has changed. The rows are
  given by token.\<close>

definition current :: "outside \<Rightarrow> (string \<Rightarrow> pydict option) \<Rightarrow> pydict \<Rightarrow> busy + pydict" where
  "current out rows account =
     (case rows (py_str (field account ''access_token'')) of
        None \<Rightarrow> Inl (CredentialBusy ''credential_changed'' None)
      | Some row \<Rightarrow>
          if row = [] \<or> generation out row \<noteq> generation out account
          then Inl (CredentialBusy ''credential_changed'' None) else Inr row)"

section \<open>Image leases\<close>

definition refresh_open :: "outside \<Rightarrow> gate \<Rightarrow> pydict \<Rightarrow> bool" where
  "refresh_open out g account \<longleftrightarrow>
     g_refresh_state g = Some ''sent'' \<or> g_refresh_state g = Some ''uncertain'' \<or>
     (g_refresh_state g = Some ''done'' \<and> g_generation g = Some (generation out account))"

definition acquire_image ::
  "outside \<Rightarrow> bool \<Rightarrow> rat \<Rightarrow> string \<Rightarrow> (string \<Rightarrow> pydict option) \<Rightarrow>
   pydict \<Rightarrow> rat \<Rightarrow> rat \<Rightarrow> int \<Rightarrow> bool \<Rightarrow> gates \<Rightarrow> (busy + string \<times> string) \<times> gates" where
  "acquire_image out locked now owner rows account minimum_validity duration limit requires_upload gs =
     (if account = [] \<or> \<not> truthy (field account ''access_token'')
      then (Inl (CredentialBusy ''credential_changed'' None), gs)
      else
        let key = resource out account in
        edit locked now key (\<lambda>data.
          case current out rows account of
            Inl e \<Rightarrow> Inl e
          | Inr row \<Rightarrow>
              (let quota_state = merge_image_quota_cooldown [] row (g_fields data);
                   until = max (upload_blocked_until row) (upload_blocked_until (g_fields data)) in
               if requires_upload \<and> now < until
               then Inl (CredentialBusy ''file_upload_throttled'' (Some \<lceil>until - now\<rceil>))
               else if pr_state (credential_readiness (token_claims out) row minimum_validity now) \<noteq> Ready \<or>
                 field row ''status'' = PStr st_limited \<or> image_quota_needs_verification row \<or>
                 image_quota_cooling quota_state now
               then Inl (CredentialBusy ''credential_not_ready'' None)
               else if refresh_open out data account
               then Inl (CredentialBusy ''credential_refresh_pending'' None)
               else if limit \<le> int (length (g_leases data))
               then Inl (CredentialBusy ''credential_in_use'' None)
               else Inr ((key, owner),
                 data\<lparr>g_fields := merge_image_quota_cooldown (g_fields data) row (g_fields data),
                   g_leases := AList.update owner (now + duration) (g_leases data)\<rparr>))) gs)"

definition cooldown_fields :: "pydict \<Rightarrow> pydict" where
  "cooldown_fields data =
     List.map_filter (\<lambda>f. map_option (\<lambda>v. (f, v)) (map_of data f)) (upload_cooldown_fields @ image_quota_cooldown_fields)"

definition release ::
  "environ \<Rightarrow> bool \<Rightarrow> rat \<Rightarrow> string \<Rightarrow> string \<Rightarrow> int \<Rightarrow> bool \<Rightarrow> bool \<Rightarrow> pyval \<Rightarrow> gates \<Rightarrow> (busy + pydict) \<times> gates" where
  "release env locked now key owner upload_seconds retry_after_missing quota_exhausted quota_retry_after gs =
     edit locked now key (\<lambda>data.
       let live = (map_of (g_leases data) owner \<noteq> None);
           f = g_fields data;
           f = (if live \<and> 0 < upload_seconds
                then record_upload_throttle env f (if retry_after_missing then None else Some upload_seconds) now else f);
           f = (if live \<and> quota_exhausted then record_image_quota_exhaustion env f quota_retry_after now else f) in
       Inr (cooldown_fields f, data\<lparr>g_fields := f, g_leases := AList.delete owner (g_leases data)\<rparr>)) gs"

text \<open>The ticket a client holds. A report is kept on the ticket, so that a repeated release
  publishes it again; the attempts of one release are given by whether the gate was locked and
  by the clock of each.\<close>

record ticket =
  tk_token :: string
  tk_key :: string
  tk_owner :: string
  tk_upload_seconds :: int
  tk_retry_missing :: bool
  tk_quota_exhausted :: bool
  tk_quota_retry_after :: pyval

definition new_ticket :: "string \<Rightarrow> string \<Rightarrow> string \<Rightarrow> ticket" where
  "new_ticket token key owner = \<lparr>tk_token = token, tk_key = key, tk_owner = owner, tk_upload_seconds = 0,
     tk_retry_missing = False, tk_quota_exhausted = False, tk_quota_retry_after = PNone\<rparr>"

fun release_attempts :: "environ \<Rightarrow> ticket \<Rightarrow> (bool \<times> rat) list \<Rightarrow> gates \<Rightarrow> (busy + pydict) \<times> gates" where
  "release_attempts env t [] gs = (Inl (CredentialBusy ''credential_in_use'' None), gs)"
| "release_attempts env t ((locked, now) # rest) gs =
     (case release env locked now (tk_key t) (tk_owner t) (tk_upload_seconds t) (tk_retry_missing t)
             (tk_quota_exhausted t) (tk_quota_retry_after t) gs of
        (Inr r, gs) \<Rightarrow> (Inr r, gs)
      | (Inl e, gs) \<Rightarrow> if rest = [] then (Inl e, gs) else release_attempts env t rest gs)"

definition ticket_release ::
  "environ \<Rightarrow> (bool \<times> rat) \<Rightarrow> (bool \<times> rat) \<Rightarrow> (bool \<times> rat) \<Rightarrow> int \<Rightarrow> bool \<Rightarrow> bool \<Rightarrow> pyval \<Rightarrow>
   ticket \<Rightarrow> gates \<Rightarrow> (busy + pydict) \<times> ticket \<times> gates" where
  "ticket_release env first second third upload_seconds retry_missing quota_exhausted quota_retry_after t gs =
     (let t = t\<lparr>tk_upload_seconds := max (tk_upload_seconds t) upload_seconds,
                tk_retry_missing := (tk_retry_missing t \<or> retry_missing),
                tk_quota_exhausted := (tk_quota_exhausted t \<or> quota_exhausted)\<rparr>;
          t = (if quota_exhausted then t\<lparr>tk_quota_retry_after := quota_retry_after\<rparr> else t);
          (r, gs) = release_attempts env t [first, second, third] gs in
      (r, t, gs))"

section \<open>The refresh fence\<close>

definition begin_refresh ::
  "outside \<Rightarrow> bool \<Rightarrow> rat \<Rightarrow> string \<Rightarrow> (string \<Rightarrow> pydict option) \<Rightarrow> pydict \<Rightarrow> bool \<Rightarrow> gates \<Rightarrow>
   (busy + string \<times> string) \<times> gates" where
  "begin_refresh out locked now owner rows account imported gs =
     (let key = resource out account in
      edit locked now key (\<lambda>data.
        case (if imported then Inr [] else current out rows account) of
          Inl e \<Rightarrow> Inl e
        | Inr _ \<Rightarrow>
            if g_leases data \<noteq> [] then Inl (CredentialBusy ''credential_in_use'' None)
            else if g_refresh_state data = Some ''sent'' \<or> g_refresh_state data = Some ''uncertain''
            then Inl (CredentialBusy ''refresh_outcome_uncertain'' None)
            else if g_refresh_state data = Some ''done'' \<and>
              (imported \<or> g_generation data = Some (generation out account))
            then Inl (CredentialBusy ''refresh_already_exchanged'' None)
            else Inr ((key, owner),
              data\<lparr>g_refresh_state := Some ''sent'', g_owner := Some owner,
                g_generation := Some (generation out account), g_started_at := Some now\<rparr>)) gs)"

definition blocked_states :: "rat \<Rightarrow> gates \<Rightarrow> (string \<times> string) list" where
  "blocked_states now gs =
     List.map_filter (\<lambda>(key, g).
       if g_refresh_state g = Some ''sent'' \<or> g_refresh_state g = Some ''uncertain''
       then Some (key,
         if g_refresh_state g = Some ''sent'' \<and> now - (case g_started_at g of None \<Rightarrow> 0 | Some t \<Rightarrow> t) < 120
         then ''refreshing'' else ''uncertain'')
       else None) gs"

definition finish_refresh :: "bool \<Rightarrow> rat \<Rightarrow> string \<times> string \<Rightarrow> string \<Rightarrow> gates \<Rightarrow> (busy + unit) \<times> gates" where
  "finish_refresh locked now tk st gs =
     edit locked now (fst tk) (\<lambda>data.
       if g_owner data \<noteq> Some (snd tk) then Inl (CredentialBusy ''refresh_fence_lost'' None)
       else Inr ((), data\<lparr>g_refresh_state := Some st\<rparr>)) gs"

section \<open>The coordinator as a machine\<close>

text \<open>One call with what it reads from outside: whether the lock was taken, the clock, a new
  owner token and the rows.\<close>

record world =
  w_locked :: bool
  w_now :: rat
  w_owner :: string
  w_rows :: "string \<Rightarrow> pydict option"

datatype coord_op =
    AcquireImage pydict rat rat int bool
  | ReleaseLease string string int bool bool pyval
  | BeginRefresh pydict bool
  | FinishRefresh string string string

fun coord_step :: "outside \<Rightarrow> environ \<Rightarrow> gates \<Rightarrow> world \<times> coord_op \<Rightarrow> gates" where
  "coord_step out env gs (w, AcquireImage a mv d l u) =
     snd (acquire_image out (w_locked w) (w_now w) (w_owner w) (w_rows w) a mv d l u gs)"
| "coord_step out env gs (w, ReleaseLease k ow us rm qe qr) =
     snd (release env (w_locked w) (w_now w) k ow us rm qe qr gs)"
| "coord_step out env gs (w, BeginRefresh a imported) =
     snd (begin_refresh out (w_locked w) (w_now w) (w_owner w) (w_rows w) a imported gs)"
| "coord_step out env gs (w, FinishRefresh k ow st) = snd (finish_refresh (w_locked w) (w_now w) (k, ow) st gs)"

section \<open>Lemmas\<close>

text \<open>An edit changes one gate, and only by its body.\<close>

lemma edit_cases:
  obtains (unchanged) e where "edit locked now key body gs = (Inl e, gs)"
  | (written) r g where "body (open_gate now key gs) = Inr (r, g)"
      "edit locked now key body gs = (Inr r, AList.update key g gs)"
  by (cases "locked"; cases "body (open_gate now key gs)") (auto simp: edit_def)

lemma edit_other_key:
  "k \<noteq> key \<Longrightarrow> map_of (snd (edit locked now key body gs)) k = map_of gs k"
  by (rule edit_cases [of locked now key body gs]) auto

lemma open_gate_frame [simp]:
  "g_refresh_state (open_gate now k gs) = (case map_of gs k of None \<Rightarrow> None | Some g \<Rightarrow> g_refresh_state g)"
  "g_owner (open_gate now k gs) = (case map_of gs k of None \<Rightarrow> None | Some g \<Rightarrow> g_owner g)"
  "g_fields (open_gate now k gs) = (case map_of gs k of None \<Rightarrow> [] | Some g \<Rightarrow> g_fields g)"
  "g_leases (open_gate now k gs) = (case map_of gs k of None \<Rightarrow> [] | Some g \<Rightarrow> filter (\<lambda>(ow, u). now < u) (g_leases g))"
  by (simp_all add: open_gate_def empty_gate_def split: option.split)

text \<open>The fence of an attempt: sent or of unknown outcome, by this owner, with no lease.\<close>

definition fenced :: "string \<Rightarrow> string \<Rightarrow> gates \<Rightarrow> bool" where
  "fenced key owner gs \<longleftrightarrow>
     (case map_of gs key of None \<Rightarrow> False
      | Some g \<Rightarrow> (g_refresh_state g = Some ''sent'' \<or> g_refresh_state g = Some ''uncertain'') \<and>
          g_owner g = Some owner \<and> g_leases g = [])"

definition not_settled_by :: "string \<Rightarrow> string \<Rightarrow> coord_op \<Rightarrow> bool" where
  "not_settled_by key owner x =
     (case x of FinishRefresh k ow st \<Rightarrow> k \<noteq> key \<or> ow \<noteq> owner \<or> st = ''uncertain'' | _ \<Rightarrow> True)"

lemma begin_refresh_fences:
  assumes "begin_refresh out locked now owner rows account imported gs = (Inr tk, gs2)"
  shows "tk = (resource out account, owner)" "fenced (resource out account) owner gs2"
  using assms
  by (auto simp: begin_refresh_def edit_def fenced_def Let_def split: sum.splits if_splits)

lemma begin_refresh_blocked:
  "fenced (resource out account) owner gs \<Longrightarrow> isl (fst (begin_refresh out locked now o2 rows account imported gs))"
  by (auto simp: begin_refresh_def edit_def fenced_def Let_def split: option.splits sum.splits)

lemma acquire_image_blocked:
  "fenced (resource out account) owner gs \<Longrightarrow>
   isl (fst (acquire_image out locked now o2 rows account mv d l u gs))"
  by (auto simp: acquire_image_def edit_def fenced_def refresh_open_def Let_def split: option.splits sum.splits)

lemma isl_edit_unchanged: "isl (fst (edit locked now key body gs)) \<Longrightarrow> snd (edit locked now key body gs) = gs"
  by (rule edit_cases [of locked now key body gs]) auto

lemma fenced_step:
  assumes "fenced key owner gs" and "not_settled_by key owner (snd x)"
  shows "fenced key owner (coord_step out env gs x)"
proof (cases x)
  case (Pair w op)
  show ?thesis
  proof (cases op)
    case (AcquireImage a mv d l u)
    show ?thesis
    proof (cases "resource out a = key")
      case True
      then have "isl (fst (acquire_image out (w_locked w) (w_now w) (w_owner w) (w_rows w) a mv d l u gs))"
        using assms(1) acquire_image_blocked by blast
      then have "snd (acquire_image out (w_locked w) (w_now w) (w_owner w) (w_rows w) a mv d l u gs) = gs"
        unfolding acquire_image_def Let_def using isl_edit_unchanged by (auto split: if_splits)
      with assms(1) Pair AcquireImage show ?thesis by simp
    next
      case False
      then show ?thesis
        using assms(1) Pair AcquireImage by (simp add: acquire_image_def fenced_def Let_def edit_other_key)
    qed
  next
    case (ReleaseLease k ow us rm qe qr)
    show ?thesis
    proof (cases "k = key")
      case True
      with assms(1) Pair ReleaseLease show ?thesis
        by (auto simp: release_def edit_def fenced_def Let_def split: option.splits)
    next
      case False
      with assms(1) Pair ReleaseLease show ?thesis by (simp add: release_def fenced_def edit_other_key)
    qed
  next
    case (BeginRefresh a imported)
    show ?thesis
    proof (cases "resource out a = key")
      case True
      then have "isl (fst (begin_refresh out (w_locked w) (w_now w) (w_owner w) (w_rows w) a imported gs))"
        using assms(1) begin_refresh_blocked by blast
      then have "snd (begin_refresh out (w_locked w) (w_now w) (w_owner w) (w_rows w) a imported gs) = gs"
        unfolding begin_refresh_def Let_def by (rule isl_edit_unchanged)
      with assms(1) Pair BeginRefresh show ?thesis by simp
    next
      case False
      with assms(1) Pair BeginRefresh show ?thesis by (simp add: begin_refresh_def fenced_def Let_def edit_other_key)
    qed
  next
    case (FinishRefresh k ow st)
    show ?thesis
    proof (cases "k = key")
      case True
      with assms Pair FinishRefresh show ?thesis
        by (auto simp: finish_refresh_def edit_def fenced_def not_settled_by_def split: option.splits)
    next
      case False
      with assms(1) Pair FinishRefresh show ?thesis by (simp add: finish_refresh_def fenced_def edit_other_key)
    qed
  qed
qed

interpretation fence: guarded_machine "coord_step out env" "\<lambda>gs x. not_settled_by key owner (snd x)" "fenced key owner"
  for out env key owner
  by unfold_locales (rule fenced_step)

text \<open>The number of leases of a gate.\<close>

definition leases_at_most :: "nat \<Rightarrow> gates \<Rightarrow> bool" where
  "leases_at_most n gs \<longleftrightarrow> (\<forall>k g. map_of gs k = Some g \<longrightarrow> length (g_leases g) \<le> n)"

definition limit_at_most :: "nat \<Rightarrow> coord_op \<Rightarrow> bool" where
  "limit_at_most n x = (case x of AcquireImage a mv d l u \<Rightarrow> l \<le> int n | _ \<Rightarrow> True)"

lemma length_update_le: "length (AList.update k v d) \<le> Suc (length d)"
  by (induction d) auto

lemma open_gate_leases: "leases_at_most n gs \<Longrightarrow> length (g_leases (open_gate now key gs)) \<le> n"
  by (auto simp: leases_at_most_def split: option.split intro: order_trans [OF length_filter_le])

lemma edit_leases:
  assumes "leases_at_most n gs"
    and "\<And>d r g. length (g_leases d) \<le> n \<Longrightarrow> body d = Inr (r, g) \<Longrightarrow> length (g_leases g) \<le> n"
  shows "leases_at_most n (snd (edit locked now key body gs))"
proof (rule edit_cases [of locked now key body gs])
  fix e
  assume "edit locked now key body gs = (Inl e, gs)"
  with assms(1) show ?thesis by simp
next
  fix r g
  assume b: "body (open_gate now key gs) = Inr (r, g)"
    and e: "edit locked now key body gs = (Inr r, AList.update key g gs)"
  have "length (g_leases g) \<le> n" using b open_gate_leases [OF assms(1)] assms(2) by blast
  with e assms(1) show ?thesis by (simp add: leases_at_most_def)
qed

lemma leases_step:
  assumes "leases_at_most n gs" and "limit_at_most n (snd x)"
  shows "leases_at_most n (coord_step out env gs x)"
proof (cases x)
  case (Pair w op)
  show ?thesis
  proof (cases op)
    case (AcquireImage a mv d l u)
    then have l: "l \<le> int n" using assms(2) Pair by (simp add: limit_at_most_def)
    have "length (AList.update ow v (g_leases g)) \<le> n" if "\<not> l \<le> int (length (g_leases g))" for ow v g
      using that l length_update_le [of ow v "g_leases g"] by linarith
    then show ?thesis
      using assms(1) Pair AcquireImage
      by (auto simp: acquire_image_def Let_def split: sum.splits if_splits intro!: edit_leases)
  next
    case (ReleaseLease k ow us rm qe qr)
    then show ?thesis
      using assms(1) Pair
      by (auto simp: release_def Let_def intro!: edit_leases intro: order_trans [OF length_delete_le])
  next
    case (BeginRefresh a imported)
    then show ?thesis
      using assms(1) Pair
      by (auto simp: begin_refresh_def Let_def split: sum.splits if_splits intro!: edit_leases)
  next
    case (FinishRefresh k ow st)
    then show ?thesis
      using assms(1) Pair by (auto simp: finish_refresh_def split: if_splits intro!: edit_leases)
  qed
qed

interpretation lease_limit: guarded_machine "coord_step out env" "\<lambda>gs x. limit_at_most n (snd x)" "leases_at_most n"
  for out env n
  by unfold_locales (rule leases_step)

lemma allowed_run_const: "allowed_run (\<lambda>s x. P x) step s xs \<longleftrightarrow> list_all P xs"
  by (induction xs arbitrary: s) auto

section \<open>Properties\<close>

text \<open>C5. A refresh token is not redeemed again while an attempt is open: after a successful
  \<open>begin_refresh\<close>, whatever calls other clients make, in any order and with any clocks, and
  even after the attempt's own owner reported an uncertain outcome, every other
  \<open>begin_refresh\<close> and every \<open>acquire_image\<close> on the same credential is refused, until the
  owner of the attempt settles it.\<close>

theorem refresh_fence_exclusive:
  fixes out :: outside and env :: environ and a b :: pydict and xs :: "(world \<times> coord_op) list"
  assumes "begin_refresh out lk now owner rows a imported gs = (Inr tk, gs1)"
    and "list_all (\<lambda>x. not_settled_by (resource out a) owner (snd x)) xs"
    and "resource out b = resource out a"
  defines "gs2 \<equiv> run (coord_step out env) gs1 xs"
  shows "isl (fst (begin_refresh out lk2 now2 owner2 rows2 b imported2 gs2)) \<and>
    isl (fst (acquire_image out lk2 now2 owner2 rows2 b mv d l u gs2))"
proof -
  have "fenced (resource out a) owner gs1" using assms(1) by (rule begin_refresh_fences)
  then have "fenced (resource out b) owner gs2"
    unfolding gs2_def assms(3) by (rule fence.run_inv) (use assms(2) in \<open>simp add: allowed_run_const\<close>)
  then show ?thesis by (simp add: begin_refresh_blocked acquire_image_blocked)
qed

definition demo_outside :: outside where
  "demo_outside = \<lparr>json_digest = (\<lambda>vs. concat (map py_str vs)), text_digest = (\<lambda>s. s),
     token_claims = (\<lambda>_. [(''exp'', PInt 1800000000)])\<rparr>"

definition demo_account :: pydict where
  "demo_account = [(''access_token'', PStr ''at1''), (''refresh_token'', PStr ''rt1'')]"

theorem refresh_fence_exclusive_witness:
  "isl (fst (begin_refresh demo_outside False 20 ''o2'' (\<lambda>_. Some demo_account) demo_account False
     (run (coord_step demo_outside empty_env)
        (snd (begin_refresh demo_outside False 10 ''o1'' (\<lambda>_. Some demo_account) demo_account False []))
        [(\<lparr>w_locked = False, w_now = 15, w_owner = ''x'', w_rows = (\<lambda>_. None)\<rparr>, FinishRefresh ''rt:rt1'' ''other'' ''idle'')])))"
proof -
  have r: "resource demo_outside demo_account = ''rt:rt1''"
    by (simp add: resource_def demo_outside_def demo_account_def field_def py_or_def Let_def)
  have b: "begin_refresh demo_outside False 10 ''o1'' (\<lambda>_. Some demo_account) demo_account False [] =
      (Inr (''rt:rt1'', ''o1''),
       snd (begin_refresh demo_outside False 10 ''o1'' (\<lambda>_. Some demo_account) demo_account False []))"
    by (simp add: begin_refresh_def r edit_def current_def open_gate_def empty_gate_def Let_def)
      (simp add: demo_account_def)
  show ?thesis
    using refresh_fence_exclusive [OF b, where xs =
      "[(\<lparr>w_locked = False, w_now = 15, w_owner = ''x'', w_rows = (\<lambda>_. None)\<rparr>, FinishRefresh ''rt:rt1'' ''other'' ''idle'')]"
      and b = demo_account and env = empty_env]
    by (simp add: r not_settled_by_def)
qed

text \<open>A credential is never leased more often than the limit: if every \<open>acquire_image\<close> of a
  run asks with a limit of at most \<open>n\<close>, no gate ever holds more than \<open>n\<close> leases, whatever
  the releases, refreshes and clocks.\<close>

theorem image_leases_bounded:
  assumes "list_all (\<lambda>x. limit_at_most n (snd x)) xs"
  shows "list_all (\<lambda>(k, g). length (g_leases (open_gate now k (run (coord_step out env) [] xs))) \<le> n)
    (run (coord_step out env) [] xs)"
proof -
  have "leases_at_most n []" by (simp add: leases_at_most_def)
  then have "leases_at_most n (run (coord_step out env) [] xs)"
    by (rule lease_limit.run_inv) (use assms in \<open>simp add: allowed_run_const\<close>)
  from open_gate_leases [OF this] show ?thesis
    by (simp add: list_all_iff split_beta del: open_gate_frame)
qed

theorem image_leases_bounded_witness:
  "list_all (\<lambda>(k, g). length (g_leases (open_gate 0 k (run (coord_step demo_outside empty_env) []
      [(\<lparr>w_locked = False, w_now = 15, w_owner = ''x'', w_rows = (\<lambda>_. Some demo_account)\<rparr>,
        AcquireImage demo_account 60 300 1 False)]))) \<le> 1)
    (run (coord_step demo_outside empty_env) []
      [(\<lparr>w_locked = False, w_now = 15, w_owner = ''x'', w_rows = (\<lambda>_. Some demo_account)\<rparr>,
        AcquireImage demo_account 60 300 1 False)])"
  by (rule image_leases_bounded) (simp add: limit_at_most_def)

text \<open>Releasing a lease frees exactly that lease, and a report (upload throttle or exhausted
  quota) is published only by an owner whose lease is still live: a repeated or late release
  leaves the cool-down fields as they were. A live owner's upload report blocks uploads for at
  least the reported time and never shortens an earlier block.\<close>

theorem release_publishes_once:
  fixes env :: environ and gs :: gates and key owner ow :: string and secs :: int and now :: rat
    and missing exhausted :: bool and retry :: pyval
  defines "g \<equiv> open_gate now key gs"
  defines "h \<equiv> open_gate now key (snd (release env False now key owner secs missing exhausted retry gs))"
  shows "map_of (g_leases h) ow = (if ow = owner then None else map_of (g_leases g) ow) \<and>
    (if map_of (g_leases g) owner = None \<or> (exhausted, max 0 secs) = (False, 0)
     then g_fields h = g_fields g
     else upload_blocked_until (g_fields g) \<le> upload_blocked_until (g_fields h) \<and>
       (if missing \<or> secs \<le> 0 then True else now + of_int secs \<le> upload_blocked_until (g_fields h)))"
proof -
  have frame: "upload_blocked_until (record_image_quota_exhaustion env f r t) = upload_blocked_until f" for f r t
    by (simp add: record_image_quota_exhaustion_def upload_blocked_until_def Let_def split: prod.split)
  have live: "filter (\<lambda>(ow, u). now < u) (AList.delete owner (g_leases g)) = AList.delete owner (g_leases g)"
    by (auto simp: g_def open_gate_def AList.delete_eq Let_def intro: filter_cong)
  have len: "now + of_int secs \<le> upload_blocked_until (record_upload_throttle env f (Some secs) now)" if "0 < secs" for f
    using upload_until_lower [of now env "Some secs" f] that by (simp add: upload_cooldown_seconds_def Let_def)
  have mono: "upload_blocked_until f \<le> upload_blocked_until (record_upload_throttle env f r now)" for f r
    using upload_until_bounds by (metis max.cobounded1)
  define f1 where "f1 = (if map_of (g_leases g) owner \<noteq> None \<and> 0 < secs
     then record_upload_throttle env (g_fields g) (if missing then None else Some secs) now else g_fields g)"
  define f2 where "f2 = (if map_of (g_leases g) owner \<noteq> None \<and> exhausted
     then record_image_quota_exhaustion env f1 retry now else f1)"
  have rel: "snd (release env False now key owner secs missing exhausted retry gs) =
      AList.update key (g\<lparr>g_fields := f2, g_leases := AList.delete owner (g_leases g)\<rparr>) gs"
    by (simp add: release_def edit_def g_def [symmetric] f1_def f2_def Let_def)
  have h: "g_fields h = f2" "g_leases h = AList.delete owner (g_leases g)"
    unfolding h_def rel by (simp_all add: live)
  show ?thesis
    using h frame len mono by (auto simp: f1_def f2_def)
qed

end
