(* ===== verification/Storage.thy ===== *)
theory Storage
  imports Prelude "HOL-Library.List_Lexorder" "HOL-Library.Char_ord"
begin

text \<open>
  \<open>services/storage/mutation.py\<close> and \<open>services/storage/database_storage.py\<close>: collections of
  JSON items with an identity field, batches of upserts and deletions, and the database
  adapter that applies a batch in one transaction under a revision check. A table is the list
  of its rows in the order of their ids; a row holds the item its text decodes to, or None
  when the text is not a JSON object. The commit hook of an import is an argument: its state
  (the checkpoint) is committed or rolled back together with the rows.
\<close>

section \<open>Equality of JSON values\<close>

text \<open>Python's equality does not see the order of the keys of a dictionary, nor whether a number
  is a boolean, an integer or a float. The canonical form makes it an equality of terms.\<close>

fun canon_number :: "pyfloat \<Rightarrow> pyval" where
  "canon_number (Fin q) = (if of_int \<lfloor>q\<rfloor> = q then PInt \<lfloor>q\<rfloor> else PFloat (Fin q))"
| "canon_number f = PFloat f"

primrec canon :: "pyval \<Rightarrow> pyval" where
  "canon PNone = PNone"
| "canon (PBool b) = PInt (if b then 1 else 0)"
| "canon (PInt i) = PInt i"
| "canon (PFloat f) = canon_number f"
| "canon (PStr s) = PStr s"
| "canon (PList xs) = PList (map canon xs)"
| "canon (PDict d) = PDict (sort_key fst (map (map_prod id canon) d))"

definition py_eq :: "pyval \<Rightarrow> pyval \<Rightarrow> bool" where
  "py_eq a b \<longleftrightarrow> canon a = canon b"

definition item_eq :: "pydict \<Rightarrow> pydict \<Rightarrow> bool" where
  "item_eq a b \<longleftrightarrow> py_eq (PDict a) (PDict b)"

lemma py_eq_refl [simp]: "py_eq a a"
  by (simp add: py_eq_def)

lemma item_eq_refl [simp]: "item_eq a a"
  by (simp add: item_eq_def)

lemma item_eq_sym: "item_eq a b \<Longrightarrow> item_eq b a"
  by (simp add: item_eq_def py_eq_def)

lemma item_eq_trans: "item_eq a b \<Longrightarrow> item_eq b c \<Longrightarrow> item_eq a c"
  by (simp add: item_eq_def py_eq_def)

section \<open>Collections and mutations\<close>

datatype collection = Accounts | AuthKeys

fun identity_field :: "collection \<Rightarrow> string" where
  "identity_field Accounts = ''access_token''"
| "identity_field AuthKeys = ''id''"

fun collection_name :: "collection \<Rightarrow> string" where
  "collection_name Accounts = ''accounts''"
| "collection_name AuthKeys = ''auth_keys''"

datatype storage_error =
    BadType
  | BadItem string
  | RevisionConflict string string
  | HookRaised

record mutation =
  upserts :: "pyval list"
  delete_keys :: "pyval list"
  expected_revision :: "string option"

record receipt =
  rc_revision :: string
  rc_inserted :: nat
  rc_updated :: nat
  rc_deleted :: nat

definition key_of :: "collection \<Rightarrow> pydict \<Rightarrow> string" where
  "key_of c item = clean (field item (identity_field c))"

definition item_key :: "collection \<Rightarrow> pydict \<Rightarrow> storage_error + string" where
  "item_key c item = (if key_of c item = [] then Inl (BadItem ''non-empty identity required'') else Inr (key_of c item))"

fun normalize_from :: "collection \<Rightarrow> string list \<Rightarrow> pyval list \<Rightarrow> storage_error + pydict list" where
  "normalize_from c seen [] = Inr []"
| "normalize_from c seen (raw # raws) =
     (case raw of
        PDict item \<Rightarrow>
          (case item_key c item of
             Inl e \<Rightarrow> Inl e
           | Inr key \<Rightarrow>
               if key \<in> set seen then Inl (BadItem ''duplicate identity'')
               else map_sum id (\<lambda>items. item # items) (normalize_from c (key # seen) raws))
      | _ \<Rightarrow> Inl BadType)"

definition normalize_items :: "collection \<Rightarrow> pyval list \<Rightarrow> storage_error + pydict list" where
  "normalize_items c raws = normalize_from c [] raws"

definition normalize_mutation :: "collection \<Rightarrow> mutation \<Rightarrow> storage_error + pydict list \<times> string list" where
  "normalize_mutation c m =
     (case normalize_items c (upserts m) of
        Inl e \<Rightarrow> Inl e
      | Inr items \<Rightarrow>
          (let dels = fromkeys (map clean (delete_keys m)) in
           if [] \<in> set dels then Inl (BadItem ''delete keys must be non-empty'')
           else if list_ex (\<lambda>item. key_of c item \<in> set dels) items
           then Inl (BadItem ''deleted and upserted together'')
           else Inr (items, dels)))"

text \<open>The reference implementation on a list of items: an ordered dictionary by key.\<close>

fun pop_keys :: "string list \<Rightarrow> (string \<times> 'v) list \<times> nat \<Rightarrow> (string \<times> 'v) list \<times> nat" where
  "pop_keys [] (d, n) = (d, n)"
| "pop_keys (k # ks) (d, n) = pop_keys ks (AList.delete k d, if map_of d k \<noteq> None then Suc n else n)"

fun put_items :: "collection \<Rightarrow> pydict list \<Rightarrow> (string \<times> pydict) list \<times> nat \<times> nat \<Rightarrow> (string \<times> pydict) list \<times> nat \<times> nat" where
  "put_items c [] (d, ins, upd) = (d, ins, upd)"
| "put_items c (item # items) (d, ins, upd) =
     (let key = key_of c item in
      case map_of d key of
        None \<Rightarrow> put_items c items (AList.update key item d, Suc ins, upd)
      | Some previous \<Rightarrow>
          if item_eq previous item then put_items c items (d, ins, upd)
          else put_items c items (AList.update key item d, ins, Suc upd))"

definition apply_mutation_to_items ::
  "collection \<Rightarrow> pyval list \<Rightarrow> mutation \<Rightarrow> storage_error + (pydict list \<times> nat \<times> nat \<times> nat)" where
  "apply_mutation_to_items c current m =
     (case normalize_mutation c m of
        Inl e \<Rightarrow> Inl e
      | Inr (ups, dels) \<Rightarrow>
          (case normalize_items c current of
             Inl e \<Rightarrow> Inl e
           | Inr items \<Rightarrow>
               (let (d, deleted) = pop_keys dels (map (\<lambda>i. (key_of c i, i)) items, 0);
                    (d, inserted, updated) = put_items c ups (d, 0, 0) in
                Inr (map snd d, inserted, updated, deleted))))"

text \<open>What a replacement would count.\<close>

fun current_rows :: "collection \<Rightarrow> pyval list \<Rightarrow> (string \<times> pydict) list \<times> nat \<Rightarrow> (string \<times> pydict) list \<times> nat" where
  "current_rows c [] (d, n) = (d, n)"
| "current_rows c (raw # raws) (d, n) =
     (case raw of
        PDict item \<Rightarrow>
          (let key = key_of c item in
           if key = [] then current_rows c raws (d, Suc n)
           else current_rows c raws (AList.update key item d, if map_of d key \<noteq> None then Suc n else n))
      | _ \<Rightarrow> current_rows c raws (d, Suc n))"

definition replacement_counts :: "collection \<Rightarrow> pyval list \<Rightarrow> pyval list \<Rightarrow> storage_error + (nat \<times> nat \<times> nat)" where
  "replacement_counts c current_items next_items =
     (let (current, discarded) = current_rows c current_items ([], 0) in
      case normalize_items c next_items of
        Inl e \<Rightarrow> Inl e
      | Inr items \<Rightarrow>
          (let desired = map (\<lambda>i. (key_of c i, i)) items in
           Inr (length (filter (\<lambda>(k, _). map_of current k = None) desired),
                length (filter (\<lambda>(k, v). case map_of desired k of None \<Rightarrow> False | Some i \<Rightarrow> \<not> item_eq v i) current),
                length (filter (\<lambda>(k, _). map_of desired k = None) current) + discarded)))"

section \<open>The database adapter\<close>

type_synonym rows = "(string \<times> pydict option) list"

record db =
  version :: nat
  rows :: rows

record 'x hook =
  hk_before :: "mutation \<Rightarrow> 'x \<Rightarrow> 'x option"
  hk_after :: "mutation \<Rightarrow> receipt \<Rightarrow> string list \<Rightarrow> 'x \<Rightarrow> 'x option"

definition revision_value :: "collection \<Rightarrow> nat \<Rightarrow> string" where
  "revision_value c v = collection_name c @ '':'' @ nat_text v"

definition check_revision :: "string option \<Rightarrow> string \<Rightarrow> bool" where
  "check_revision expected actual \<longleftrightarrow> (case expected of None \<Rightarrow> True | Some e \<Rightarrow> e = actual)"

definition conflict :: "string option \<Rightarrow> string \<Rightarrow> storage_error" where
  "conflict expected actual =
     RevisionConflict (case expected of None \<Rightarrow> ''checked rows'' | Some e \<Rightarrow> if e = [] then ''checked rows'' else e) actual"

text \<open>A snapshot: the items that decode, with the revision of the same statement.\<close>

definition load_snapshot :: "collection \<Rightarrow> db \<Rightarrow> pydict list \<times> string" where
  "load_snapshot c s = (List.map_filter snd (rows s), revision_value c (version s))"

definition load_accounts_subset_snapshot :: "string list \<Rightarrow> db \<Rightarrow> pydict list \<times> string" where
  "load_accounts_subset_snapshot tokens s =
     (let keys = fromkeys tokens in
      (List.map_filter snd (filter (\<lambda>(k, _). k \<in> set keys) (rows s)), revision_value Accounts (version s)))"

text \<open>A row equals an item when its text decodes to it.\<close>

definition row_matches :: "pydict option \<Rightarrow> pydict \<Rightarrow> bool" where
  "row_matches data item = (case data of None \<Rightarrow> False | Some i \<Rightarrow> item_eq i item)"

fun write_items :: "collection \<Rightarrow> rows \<Rightarrow> pydict list \<Rightarrow> rows \<times> string list \<times> nat \<Rightarrow> rows \<times> string list \<times> nat" where
  "write_items c existing [] (t, ins, upd) = (t, ins, upd)"
| "write_items c existing (item # items) (t, ins, upd) =
     (let key = key_of c item in
      case map_of existing key of
        None \<Rightarrow> write_items c existing items (AList.update key (Some item) t, ins @ [key], upd)
      | Some data \<Rightarrow>
          if row_matches data item then write_items c existing items (t, ins, upd)
          else write_items c existing items (AList.update key (Some item) t, ins, Suc upd))"

definition db_replace :: "collection \<Rightarrow> pyval list \<Rightarrow> string option \<Rightarrow> db \<Rightarrow> (storage_error + receipt) \<times> db" where
  "db_replace c raws expected s =
     (case normalize_items c raws of
        Inl e \<Rightarrow> (Inl e, s)
      | Inr items \<Rightarrow>
          if \<not> check_revision expected (revision_value c (version s))
          then (Inl (conflict expected (revision_value c (version s))), s)
          else
            (let keys = map (key_of c) items;
                 existing = rows s;
                 (t, deleted) = pop_keys (filter (\<lambda>k. k \<notin> set keys) (map fst existing)) (existing, 0);
                 (t, ins, upd) = write_items c existing items (t, [], 0);
                 v = (if ins \<noteq> [] \<or> 0 < upd \<or> 0 < deleted then Suc (version s) else version s) in
             (Inr \<lparr>rc_revision = revision_value c v, rc_inserted = length ins, rc_updated = upd, rc_deleted = deleted\<rparr>,
              \<lparr>version = v, rows = t\<rparr>)))"

text \<open>\<open>_mutate\<close>. The baseline of a checked mutation names every affected key; a baseline of None
  expects the row to be absent.\<close>

definition baseline_error :: "collection \<Rightarrow> string list \<Rightarrow> (string \<times> pydict option) list \<Rightarrow> storage_error option" where
  "baseline_error c targets expected =
     (if set (map fst expected) \<noteq> set targets then Some (BadItem ''baseline for every affected key'')
      else if list_ex (\<lambda>(k, i). case i of None \<Rightarrow> False | Some item \<Rightarrow> key_of c item \<noteq> k) expected
      then Some (BadItem ''baseline identity mismatch'') else None)"

definition rows_expected :: "rows \<Rightarrow> (string \<times> pydict option) list \<Rightarrow> bool" where
  "rows_expected existing expected =
     list_all (\<lambda>(k, i). case i of
         None \<Rightarrow> map_of existing k = None
       | Some item \<Rightarrow> (case map_of existing k of None \<Rightarrow> False | Some data \<Rightarrow> row_matches data item)) expected"

definition db_mutate ::
  "collection \<Rightarrow> 'x hook option \<Rightarrow> mutation \<Rightarrow> (string \<times> pydict option) list option \<Rightarrow> db \<times> 'x \<Rightarrow>
   (storage_error + receipt) \<times> db \<times> 'x" where
  "db_mutate c hook m expected st =
     (case st of (s, x) \<Rightarrow>
      case normalize_mutation c m of
        Inl e \<Rightarrow> (Inl e, s, x)
      | Inr (ups, dels) \<Rightarrow>
      case (case expected of None \<Rightarrow> None | Some b \<Rightarrow> baseline_error c (map (key_of c) ups @ dels) b) of
        Some e \<Rightarrow> (Inl e, s, x)
      | None \<Rightarrow>
      let actual = revision_value c (version s);
          hook = (if c = Accounts then hook else None) in
      if expected = None \<and> \<not> check_revision (expected_revision m) actual
      then (Inl (conflict (expected_revision m) actual), s, x)
      else
      case (case hook of None \<Rightarrow> Some x | Some h \<Rightarrow> hk_before h m x) of
        None \<Rightarrow> (Inl HookRaised, s, x)
      | Some x1 \<Rightarrow>
      if \<not> (case expected of None \<Rightarrow> True | Some b \<Rightarrow> rows_expected (rows s) b)
      then (Inl (conflict (expected_revision m) actual), s, x)
      else
        let (t, deleted) = pop_keys dels (rows s, 0);
            (t, ins, upd) = write_items c (rows s) ups (t, [], 0);
            v = (if ins \<noteq> [] \<or> 0 < upd \<or> 0 < deleted then Suc (version s) else version s);
            r = \<lparr>rc_revision = revision_value c v, rc_inserted = length ins, rc_updated = upd, rc_deleted = deleted\<rparr> in
        case (case hook of None \<Rightarrow> Some x1 | Some h \<Rightarrow> hk_after h m r ins x1) of
          None \<Rightarrow> (Inl HookRaised, s, x)
        | Some x2 \<Rightarrow> (Inr r, \<lparr>version = v, rows = t\<rparr>, x2))"

section \<open>Lemmas on normal forms\<close>

lemma normalize_from_Inr:
  "normalize_from c seen raws = Inr items \<Longrightarrow>
   raws = map PDict items \<and> distinct (map (key_of c) items) \<and>
   (\<forall>i\<in>set items. key_of c i \<notin> set seen \<and> key_of c i \<noteq> [])"
proof (induction c seen raws arbitrary: items rule: normalize_from.induct)
  case (2 c seen raw raws)
  from "2.prems" obtain i js where raw: "raw = PDict i" and key: "item_key c i = Inr (key_of c i)" "key_of c i \<noteq> []"
    and new: "key_of c i \<notin> set seen" and rest: "normalize_from c (key_of c i # seen) raws = Inr js" "items = i # js"
    by (auto simp: item_key_def split: pyval.splits sum.splits if_splits)
      (case_tac "normalize_from c (key_of c x7 # seen) raws"; auto)
  from "2.IH" [OF raw key(1) new rest(1)] raw key new rest show ?case by auto
qed simp

lemma normalize_items_Inr:
  "normalize_items c raws = Inr items \<Longrightarrow>
   raws = map PDict items \<and> distinct (map (key_of c) items) \<and> (\<forall>i\<in>set items. key_of c i \<noteq> [])"
  using normalize_from_Inr [of c "[]" raws items] by (simp add: normalize_items_def)

lemma normalize_mutation_Inr:
  "normalize_mutation c m = Inr (ups, dels) \<Longrightarrow>
   distinct (map (key_of c) ups) \<and> set (map (key_of c) ups) \<inter> set dels = {} \<and> distinct dels"
  using normalize_items_Inr [of c "upserts m"]
  by (auto simp: normalize_mutation_def Let_def list_ex_iff split: sum.splits if_splits)

section \<open>Lemmas on the loops\<close>

lemma pop_keys_lookup: "map_of (fst (pop_keys ks (d, n))) k = (if k \<in> set ks then None else map_of d k)"
  by (induction ks arbitrary: d n) auto

lemma pop_keys_keys: "distinct_keys d \<Longrightarrow> distinct_keys (fst (pop_keys ks (d, n)))"
  by (induction ks arbitrary: d n) auto

lemma pop_keys_count:
  "n \<le> snd (pop_keys ks (d, n)) \<and> (snd (pop_keys ks (d, n)) = n \<longrightarrow> fst (pop_keys ks (d, n)) = d)"
proof (induction ks arbitrary: d n)
  case (Cons k ks)
  show ?case
  proof (cases "map_of d k")
    case None
    then show ?thesis using Cons.IH [where d = d and n = n] by (simp add: delete_fresh)
  next
    case (Some v)
    then show ?thesis using Cons.IH [where d = "AList.delete k d" and n = "Suc n"] by auto
  qed
qed simp

lemma delete_map: "AList.delete k (map (map_prod id f) d) = map (map_prod id f) (AList.delete k d)"
  by (induction d) auto

lemma update_map: "AList.update k (f v) (map (map_prod id f) d) = map (map_prod id f) (AList.update k v d)"
  by (induction d) auto

lemma map_of_map_prod: "map_of (map (map_prod id f) d) k = map_option f (map_of d k)"
  by (induction d) auto

lemma pop_keys_map:
  "pop_keys ks (map (map_prod id f) d, n) = map_prod (map (map_prod id f)) id (pop_keys ks (d, n))"
  by (induction ks arbitrary: d n) (auto simp: delete_map map_of_map_prod)

definition find_item :: "collection \<Rightarrow> pydict list \<Rightarrow> string \<Rightarrow> pydict option" where
  "find_item c items k = map_of (map (\<lambda>i. (key_of c i, i)) items) k"

lemma find_item_Cons:
  "find_item c (i # items) k = (if key_of c i = k then Some i else find_item c items k)"
  by (simp add: find_item_def)

lemma find_item_None: "k \<notin> set (map (key_of c) items) \<Longrightarrow> find_item c items k = None"
  by (auto simp: find_item_def map_of_eq_None_iff)

text \<open>The writes of the adapter: the row of a written key matches its item, the others stay.\<close>

lemma write_items_lookup:
  "distinct (map (key_of c) items) \<Longrightarrow> (\<And>i. i \<in> set items \<Longrightarrow> map_of t (key_of c i) = map_of existing (key_of c i)) \<Longrightarrow>
   map_of (fst (write_items c existing items (t, ins, upd))) k =
     (case find_item c items k of
        None \<Rightarrow> map_of t k
      | Some item \<Rightarrow> (case map_of existing k of
          None \<Rightarrow> Some (Some item)
        | Some data \<Rightarrow> if row_matches data item then Some data else Some (Some item)))"
proof (induction items arbitrary: t ins upd)
  case Nil
  then show ?case by (simp add: find_item_def)
next
  case (Cons i items)
  have d: "distinct (map (key_of c) items)" and notin: "key_of c i \<notin> set (map (key_of c) items)"
    using Cons.prems(1) by simp_all
  have none: "find_item c items (key_of c i) = None" using notin by (rule find_item_None)
  have same: "map_of (AList.update (key_of c i) v t) (key_of c j) = map_of existing (key_of c j)" if "j \<in> set items" for j v
  proof -
    have "key_of c j \<noteq> key_of c i" using notin that by (metis image_eqI list.set_map)
    then show ?thesis using Cons.prems(2) [of j] that by auto
  qed
  have same0: "map_of t (key_of c j) = map_of existing (key_of c j)" if "j \<in> set items" for j
    using Cons.prems(2) that by simp
  have i: "map_of t (key_of c i) = map_of existing (key_of c i)" using Cons.prems(2) by simp
  show ?case
    using Cons.IH [OF d same0] Cons.IH [OF d same] i none
    by (auto simp: Let_def find_item_Cons split: option.split)
qed

lemma write_items_count:
  "length ins \<le> length (fst (snd (write_items c existing items (t, ins, upd)))) \<and>
   upd \<le> snd (snd (write_items c existing items (t, ins, upd))) \<and>
   (length (fst (snd (write_items c existing items (t, ins, upd)))) = length ins \<and>
    snd (snd (write_items c existing items (t, ins, upd))) = upd \<longrightarrow>
    fst (write_items c existing items (t, ins, upd)) = t)"
proof (induction items arbitrary: t ins upd)
  case (Cons i items)
  show ?case
    using Cons.IH [where t = t and ins = ins and upd = upd]
      Cons.IH [where t = "AList.update (key_of c i) (Some i) t" and ins = "ins @ [key_of c i]" and upd = upd]
      Cons.IH [where t = "AList.update (key_of c i) (Some i) t" and ins = ins and upd = "Suc upd"]
    by (auto simp: Let_def split: option.split)
qed simp

text \<open>The adapter's writes and the reference writes go together.\<close>

lemma write_put_items:
  "distinct (map (key_of c) items) \<Longrightarrow>
   (\<And>i. i \<in> set items \<Longrightarrow> map_of existing (key_of c i) = map_option Some (map_of d (key_of c i))) \<Longrightarrow>
   put_items c items (d, length ins, upd) = (d2, n, u) \<Longrightarrow>
   \<exists>ins2. write_items c existing items (map (map_prod id Some) d, ins, upd) = (map (map_prod id Some) d2, ins2, u) \<and>
     length ins2 = n"
proof (induction items arbitrary: d ins upd)
  case (Cons i items)
  have dist: "distinct (map (key_of c) items)" and notin: "key_of c i \<notin> set (map (key_of c) items)"
    using Cons.prems(1) by simp_all
  have same: "map_of existing (key_of c j) = map_option Some (map_of (AList.update (key_of c i) i d) (key_of c j))"
    if "j \<in> set items" for j
  proof -
    have "key_of c j \<noteq> key_of c i" using notin that by (metis image_eqI list.set_map)
    then show ?thesis using Cons.prems(2) [of j] that by auto
  qed
  have same0: "map_of existing (key_of c j) = map_option Some (map_of d (key_of c j))" if "j \<in> set items" for j
    using Cons.prems(2) that by simp
  have i: "map_of existing (key_of c i) = map_option Some (map_of d (key_of c i))" using Cons.prems(2) by simp
  show ?case
  proof (cases "map_of d (key_of c i)")
    case None
    then show ?thesis
      using Cons.IH [OF dist same, of "ins @ [key_of c i]" upd] Cons.prems(3) i
      by (simp add: Let_def update_map [unfolded id_def])
  next
    case (Some p)
    then show ?thesis
      using Cons.IH [OF dist same0, of ins upd] Cons.IH [OF dist same, of ins "Suc upd"] Cons.prems(3) i
      by (auto simp: Let_def update_map [unfolded id_def] row_matches_def split: if_splits)
  qed
qed auto

definition keyed :: "collection \<Rightarrow> (string \<times> pydict) list \<Rightarrow> bool" where
  "keyed c d \<longleftrightarrow> (\<forall>p\<in>set d. fst p = key_of c (snd p))"

lemma keyed_delete: "keyed c d \<Longrightarrow> keyed c (AList.delete k d)"
  by (auto simp: keyed_def AList.delete_eq)

lemma keyed_update: "keyed c d \<Longrightarrow> keyed c (AList.update (key_of c i) i d)"
  by (induction d) (auto simp: keyed_def)

lemma keyed_pop: "keyed c d \<Longrightarrow> keyed c (fst (pop_keys ks (d, n)))"
  by (induction ks arbitrary: d n) (auto simp: keyed_delete)

lemma keyed_put: "keyed c d \<Longrightarrow> keyed c (fst (put_items c items (d, i, u)))"
  by (induction items arbitrary: d i u) (auto simp: Let_def keyed_update split: option.split)

lemma keyed_rows: "keyed c d \<Longrightarrow> map (map_prod id Some) d = map (\<lambda>i. (key_of c i, Some i)) (map snd d)"
  by (auto simp: keyed_def)

section \<open>Revisions\<close>

lemma nat_text_read: "foldl (\<lambda>a c. a * 10 + digit_val c) 0 (nat_text n) = n"
proof (induction n rule: nat_text.induct)
  case (1 n)
  have d: "digit_val (digit_char k) = k" if "k < 10" for k
    using that by (simp add: digit_val_def digit_char_def)
  show ?case
  proof (cases "n < 10")
    case True
    then show ?thesis by (subst nat_text.simps) (simp add: d)
  next
    case False
    then show ?thesis using 1 by (subst nat_text.simps) (simp add: d)
  qed
qed

lemma nat_text_inj: "nat_text m = nat_text n \<Longrightarrow> m = n"
  by (metis nat_text_read)

lemma revision_value_inj [simp]: "revision_value c m = revision_value c n \<longleftrightarrow> m = n"
  using nat_text_inj by (auto simp: revision_value_def)

lemma pop_write_fresh:
  assumes "pop_keys dels (d, 0) = (t, deleted)" "write_items c existing ups (t, [], 0) = (t2, ins, upd)"
    and "ins = []" "upd = 0" "deleted = 0"
  shows "t2 = d"
  using pop_keys_count [of 0 dels d] write_items_count [of "[]" c existing ups t 0] assms by simp

text \<open>The table after the loops of a mutation.\<close>

lemma mutate_lookup:
  assumes n: "normalize_mutation c m = Inr (ups, dels)"
    and pk: "pop_keys dels (rows s, 0) = (t, deleted)" and w: "write_items c (rows s) ups (t, [], 0) = (t2, ins, upd)"
  shows "map_of t2 k = (case find_item c ups k of
        None \<Rightarrow> if k \<in> set dels then None else map_of (rows s) k
      | Some item \<Rightarrow> (case map_of (rows s) k of
          None \<Rightarrow> Some (Some item)
        | Some data \<Rightarrow> if row_matches data item then Some data else Some (Some item)))"
proof -
  note nm = normalize_mutation_Inr [OF n]
  have t: "map_of t j = (if j \<in> set dels then None else map_of (rows s) j)" for j
    using pop_keys_lookup [of dels "rows s" 0 j] pk by simp
  have "map_of t (key_of c i) = map_of (rows s) (key_of c i)" if "i \<in> set ups" for i
    using t [of "key_of c i"] nm that by auto
  then have "map_of t2 k = (case find_item c ups k of
        None \<Rightarrow> map_of t k
      | Some item \<Rightarrow> (case map_of (rows s) k of
          None \<Rightarrow> Some (Some item)
        | Some data \<Rightarrow> if row_matches data item then Some data else Some (Some item)))"
    using write_items_lookup [of c ups t "rows s" "[]" 0 k] nm w by simp
  then show ?thesis unfolding t [of k] .
qed

text \<open>A mutation either fails and leaves everything as it was, or is described by its loops.\<close>

lemma db_mutate_cases:
  obtains (failed) e where "db_mutate c h m expected (s, x) = (Inl e, s, x)"
  | (written) ups dels t deleted t2 ins upd x2 where "normalize_mutation c m = Inr (ups, dels)"
      "case expected of None \<Rightarrow> check_revision (expected_revision m) (revision_value c (version s))
        | Some b \<Rightarrow> baseline_error c (map (key_of c) ups @ dels) b = None \<and> rows_expected (rows s) b"
      "pop_keys dels (rows s, 0) = (t, deleted)" "write_items c (rows s) ups (t, [], 0) = (t2, ins, upd)"
      "db_mutate c h m expected (s, x) =
        (Inr \<lparr>rc_revision = revision_value c (if ins \<noteq> [] \<or> 0 < upd \<or> 0 < deleted then Suc (version s) else version s),
           rc_inserted = length ins, rc_updated = upd, rc_deleted = deleted\<rparr>,
         \<lparr>version = (if ins \<noteq> [] \<or> 0 < upd \<or> 0 < deleted then Suc (version s) else version s), rows = t2\<rparr>, x2)"
proof (cases "normalize_mutation c m")
  case (Inl e)
  then show ?thesis by (intro failed) (simp add: db_mutate_def)
next
  case (Inr p)
  obtain ups dels where n: "normalize_mutation c m = Inr (ups, dels)" using Inr by (cases p) simp
  obtain t deleted where pk: "pop_keys dels (rows s, 0) = (t, deleted)" by fastforce
  obtain t2 ins upd where w: "write_items c (rows s) ups (t, [], 0) = (t2, ins, upd)" by (metis prod_cases3)
  define v where "v = (if ins \<noteq> [] \<or> 0 < upd \<or> 0 < deleted then Suc (version s) else version s)"
  define r where "r = \<lparr>rc_revision = revision_value c v, rc_inserted = length ins, rc_updated = upd, rc_deleted = deleted\<rparr>"
  define hk where "hk = (if c = Accounts then h else None)"
  define base where "base = (case expected of None \<Rightarrow> None | Some b \<Rightarrow> baseline_error c (map (key_of c) ups @ dels) b)"
  have eq: "db_mutate c h m expected (s, x) =
     (case base of
        Some e \<Rightarrow> (Inl e, s, x)
      | None \<Rightarrow>
          if expected = None \<and> \<not> check_revision (expected_revision m) (revision_value c (version s))
          then (Inl (conflict (expected_revision m) (revision_value c (version s))), s, x)
          else case (case hk of None \<Rightarrow> Some x | Some f \<Rightarrow> hk_before f m x) of
            None \<Rightarrow> (Inl HookRaised, s, x)
          | Some x1 \<Rightarrow>
              if \<not> (case expected of None \<Rightarrow> True | Some b \<Rightarrow> rows_expected (rows s) b)
              then (Inl (conflict (expected_revision m) (revision_value c (version s))), s, x)
              else case (case hk of None \<Rightarrow> Some x1 | Some f \<Rightarrow> hk_after f m r ins x1) of
                None \<Rightarrow> (Inl HookRaised, s, x)
              | Some x2 \<Rightarrow> (Inr r, \<lparr>version = v, rows = t2\<rparr>, x2))"
    unfolding base_def hk_def r_def v_def db_mutate_def Let_def prod.case n sum.case pk w by (rule refl)
  show ?thesis
  proof (cases "\<exists>e. db_mutate c h m expected (s, x) = (Inl e, s, x)")
    case True
    then show ?thesis using failed by blast
  next
    case False
    then obtain x2 where "db_mutate c h m expected (s, x) = (Inr r, \<lparr>version = v, rows = t2\<rparr>, x2)" and "base = None"
      and "expected = None \<Longrightarrow> check_revision (expected_revision m) (revision_value c (version s))"
      and "case expected of None \<Rightarrow> True | Some b \<Rightarrow> rows_expected (rows s) b"
      unfolding eq by (auto split: option.splits if_splits)
    then show ?thesis
      by (intro written [OF n _ pk w, of x2]) (simp_all add: r_def v_def base_def split: option.splits)
  qed
qed

text \<open>The interface a compare-and-swap client relies on: a write against a stale revision is
  refused, and no write moves the version back.\<close>

locale revisioned_store =
  fixes version_of :: "'s \<Rightarrow> nat"
    and put :: "'w \<Rightarrow> 's \<Rightarrow> ('e + 'r) \<times> 's"
    and expects :: "'w \<Rightarrow> nat option"
  assumes refused: "isl (fst (put w s)) \<Longrightarrow> snd (put w s) = s"
    and stale: "expects w = Some v \<Longrightarrow> version_of s \<noteq> v \<Longrightarrow> isl (fst (put w s))"
    and moves: "version_of s \<le> version_of (snd (put w s))"
begin

lemma run_moves: "version_of s \<le> version_of (run (\<lambda>s w. snd (put w s)) s ws)"
proof (induction ws arbitrary: s)
  case (Cons w ws)
  from moves [of s w] Cons.IH [of "snd (put w s)"] show ?case by simp
qed simp

lemma no_lost_update:
  fixes ws :: "'w list"
  assumes "version_of (snd (put w s)) \<noteq> version_of s" and "expects w2 = Some (version_of s)"
  defines "u \<equiv> run (\<lambda>s w. snd (put w s)) (snd (put w s)) ws"
  shows "isl (fst (put w2 u)) \<and> snd (put w2 u) = u"
proof -
  have "version_of s < version_of u"
    using run_moves [of "snd (put w s)" ws] moves [of s w] assms(1) unfolding u_def by linarith
  then have "isl (fst (put w2 u))" using stale [OF assms(2)] by auto
  with refused show ?thesis by blast
qed

end

text \<open>The adapter as such a store, for mutations of one collection that carry a version.\<close>

definition versioned_write ::
  "collection \<Rightarrow> 'x hook option \<Rightarrow> mutation \<times> nat option \<Rightarrow> db \<times> 'x \<Rightarrow> (storage_error + receipt) \<times> db \<times> 'x" where
  "versioned_write c h w st =
     db_mutate c h ((fst w)\<lparr>expected_revision := map_option (revision_value c) (snd w)\<rparr>) None st"

lemma versioned_write_laws:
  "isl (fst (versioned_write c h w st)) \<Longrightarrow> snd (versioned_write c h w st) = st"
  "snd w = Some v \<Longrightarrow> version (fst st) \<noteq> v \<Longrightarrow> isl (fst (versioned_write c h w st))"
  "version (fst st) \<le> version (fst (snd (versioned_write c h w st)))"
  "rows (fst (snd (versioned_write c h w st))) \<noteq> rows (fst st) \<Longrightarrow>
   version (fst (snd (versioned_write c h w st))) \<noteq> version (fst st)"
proof -
  obtain s x where st: "st = (s, x)" by (cases st)
  let ?m = "(fst w)\<lparr>expected_revision := map_option (revision_value c) (snd w)\<rparr>"
  note cases = db_mutate_cases [of c h ?m None s x]
  show "isl (fst (versioned_write c h w st)) \<Longrightarrow> snd (versioned_write c h w st) = st"
    by (rule cases) (auto simp: versioned_write_def st)
  show "snd w = Some v \<Longrightarrow> version (fst st) \<noteq> v \<Longrightarrow> isl (fst (versioned_write c h w st))"
    by (rule cases) (auto simp: versioned_write_def st check_revision_def)
  show "version (fst st) \<le> version (fst (snd (versioned_write c h w st)))"
    by (rule cases) (auto simp: versioned_write_def st)
  show "rows (fst (snd (versioned_write c h w st))) \<noteq> rows (fst st) \<Longrightarrow>
   version (fst (snd (versioned_write c h w st))) \<noteq> version (fst st)"
    by (rule cases) (auto simp: versioned_write_def st split: if_splits dest: pop_write_fresh)
qed

interpretation db_store: revisioned_store "version \<circ> fst" "versioned_write c h" snd for c h
proof (unfold_locales, goal_cases)
  case (1 w s)
  then show ?case by (rule versioned_write_laws)
next
  case (2 w v s)
  then show ?case by (simp add: versioned_write_laws)
next
  case (3 s w)
  then show ?case by (simp add: versioned_write_laws)
qed

section \<open>Properties\<close>


text \<open>C7. The adapter refines the reference implementation: on a table whose rows are exactly
  the normalised items of a list, a mutation that passes the revision check succeeds exactly
  when \<open>apply_mutation_to_items\<close> does, with the same error otherwise, the same counts, and
  the resulting table is that of the resulting items, in the same order.\<close>

theorem db_mutate_refines_reference:
  assumes "normalize_items c (map PDict items) = Inr items"
    and "check_revision (expected_revision m) (revision_value c (version s))"
    and "rows s = map (\<lambda>i. (key_of c i, Some i)) items"
  shows "case apply_mutation_to_items c (map PDict items) m of
      Inl e \<Rightarrow> db_mutate c None m None (s, x) = (Inl e, s, x)
    | Inr (items2, ins, upd, del) \<Rightarrow>
        (let v = (if ins + upd + del = 0 then version s else Suc (version s)) in
         db_mutate c None m None (s, x) =
           (Inr \<lparr>rc_revision = revision_value c v, rc_inserted = ins, rc_updated = upd, rc_deleted = del\<rparr>,
            \<lparr>version = v, rows = map (\<lambda>i. (key_of c i, Some i)) items2\<rparr>, x))"
proof (cases "normalize_mutation c m")
  case (Inl e)
  then show ?thesis by (simp add: apply_mutation_to_items_def db_mutate_def)
next
  case (Inr p)
  then obtain ups dels where n: "normalize_mutation c m = Inr (ups, dels)" by (cases p) simp
  note nm = normalize_mutation_Inr [OF n]
  let ?d = "map (\<lambda>i. (key_of c i, i)) items"
  obtain d deleted where pk: "pop_keys dels (?d, 0) = (d, deleted)" by fastforce
  obtain d2 ins upd where put: "put_items c ups (d, length ([] :: string list), 0) = (d2, ins, upd)" by (metis prod_cases3)
  have rows: "rows s = map (map_prod id Some) ?d" using assms(3) by simp
  have del: "pop_keys dels (rows s, 0) = (map (map_prod id Some) d, deleted)"
    using pk unfolding rows pop_keys_map by simp
  have "map_of (rows s) (key_of c i) = map_option Some (map_of d (key_of c i))" if "i \<in> set ups" for i
  proof -
    have "key_of c i \<notin> set dels" using nm that by auto
    then show ?thesis using pop_keys_lookup [of dels ?d 0 "key_of c i"] pk unfolding rows map_of_map_prod by simp
  qed
  then obtain ins2 where w: "write_items c (rows s) ups (map (map_prod id Some) d, [], 0) = (map (map_prod id Some) d2, ins2, upd)"
    and len: "length ins2 = ins"
    using write_put_items [OF _ _ put, of "rows s"] nm by auto
  have "keyed c ?d" by (simp add: keyed_def)
  then have "keyed c d2"
    using keyed_pop [of c ?d dels 0] keyed_put [of c d ups 0 0] pk put by simp
  then have "map (map_prod id Some) d2 = map (\<lambda>i. (key_of c i, Some i)) (map snd d2)" by (rule keyed_rows)
  then show ?thesis
    using n assms(1,2) pk put del w len
    by (auto simp: apply_mutation_to_items_def db_mutate_def Let_def)
qed

definition demo_mutation :: mutation where
  "demo_mutation = \<lparr>upserts = [PDict [(''access_token'', PStr ''b'')]], delete_keys = [PStr ''a''], expected_revision = None\<rparr>"

theorem db_mutate_refines_reference_witness:
  "db_mutate Accounts None demo_mutation None (\<lparr>version = 4, rows = [(''a'', Some [(''access_token'', PStr ''a'')])]\<rparr>, ()) =
     (Inr \<lparr>rc_revision = revision_value Accounts 5, rc_inserted = 1, rc_updated = 0, rc_deleted = 1\<rparr>,
      \<lparr>version = 5, rows = [(''b'', Some [(''access_token'', PStr ''b'')])]\<rparr>, ())"
proof -
  have key: "key_of Accounts [(''access_token'', PStr [c])] = [c]" if "\<not> is_space c" for c
    using that by (simp add: key_of_def clean_def field_def py_or_def strip_def)
  have ns: "\<not> is_space CHR ''a''" "\<not> is_space CHR ''b''" by (simp_all add: is_space_def)
  have n: "normalize_items Accounts (map PDict [[(''access_token'', PStr ''a'')]]) = Inr [[(''access_token'', PStr ''a'')]]"
    using ns by (simp add: normalize_items_def item_key_def key)
  have cl: "clean (PStr ''a'') = ''a''" using ns by (simp add: clean_def py_or_def strip_def)
  have "apply_mutation_to_items Accounts (map PDict [[(''access_token'', PStr ''a'')]]) demo_mutation =
      Inr ([[(''access_token'', PStr ''b'')]], 1, 0, 1)"
    using ns by (simp add: apply_mutation_to_items_def normalize_mutation_def demo_mutation_def normalize_items_def
        item_key_def key cl fromkeys_def AList.delete_eq Let_def)
  then show ?thesis
    using db_mutate_refines_reference [OF n, of demo_mutation
        "\<lparr>version = 4, rows = [(''a'', Some [(''access_token'', PStr ''a'')])]\<rparr>" "()"] ns
    by (simp add: check_revision_def demo_mutation_def key)
qed

text \<open>No lost update: once a writer's batch has moved the version, every batch that another
  writer prepared against the version before it is refused and changes nothing, however many
  other batches are written in between.\<close>

theorem db_no_lost_update:
  fixes h :: "'x hook option" and st :: "db \<times> 'x" and c :: collection and w w2 :: "mutation \<times> nat option"
    and ws :: "(mutation \<times> nat option) list"
  assumes "version (fst (snd (versioned_write c h w st))) \<noteq> version (fst st)"
    and "snd w2 = Some (version (fst st))"
  defines "u \<equiv> run (\<lambda>st w. snd (versioned_write c h w st)) (snd (versioned_write c h w st)) ws"
  shows "isl (fst (versioned_write c h w2 u)) \<and> snd (versioned_write c h w2 u) = u"
  unfolding u_def by (rule db_store.no_lost_update) (use assms(1,2) in simp_all)

theorem db_no_lost_update_witness:
  "isl (fst (versioned_write Accounts None (demo_mutation, Some 4)
      (snd (versioned_write Accounts None (demo_mutation, Some 4)
         (\<lparr>version = 4, rows = [(''a'', Some [(''access_token'', PStr ''a'')])]\<rparr>, ())))))"
proof -
  let ?st = "(\<lparr>version = 4, rows = [(''a'', Some [(''access_token'', PStr ''a'')])]\<rparr> :: db, ())"
  have key: "key_of Accounts [(''access_token'', PStr [c])] = [c]" if "\<not> is_space c" for c
    using that by (simp add: key_of_def clean_def field_def py_or_def strip_def)
  have ns: "\<not> is_space CHR ''a''" "\<not> is_space CHR ''b''" by (simp_all add: is_space_def)
  have cl: "clean (PStr ''a'') = ''a''" using ns by (simp add: clean_def py_or_def strip_def)
  have "version (fst (snd (versioned_write Accounts None (demo_mutation, Some 4) ?st))) = 5"
    using ns by (simp add: versioned_write_def db_mutate_def normalize_mutation_def demo_mutation_def normalize_items_def
        item_key_def key cl fromkeys_def check_revision_def Let_def)
  then show ?thesis
    using db_no_lost_update [of Accounts None "(demo_mutation, Some 4)" ?st "(demo_mutation, Some 4)" "[]"] by simp
qed

end
