(* ===== verification/TokenAliases.thy ===== *)
theory TokenAliases
  imports Prelude
begin

text \<open>
  The aliases of rotated tokens in \<open>services/account_service.py\<close>: following them
  (\<open>_resolve_access_token_locked\<close>) and pruning them (\<open>_prune_token_aliases_locked\<close>), with what a
  rotation does to the tokens that resolve to the rotated account.
\<close>

section \<open>Following and pruning\<close>

text \<open>Following the aliases of a token that is no account; a token seen before ends the walk.\<close>

function follow_alias :: "string list \<Rightarrow> (string \<times> string) list \<Rightarrow> string list \<Rightarrow> string \<Rightarrow> string" where
  "follow_alias accounts aliases seen token =
     (if token \<in> set accounts \<or> token \<in> set seen then token
      else case map_of aliases token of
        None \<Rightarrow> token
      | Some next_token \<Rightarrow> follow_alias accounts aliases (token # seen) next_token)"
  by pat_completeness auto
termination
proof (relation "measure (\<lambda>(accounts, aliases, seen, token). card (set (map fst aliases) - set seen))", goal_cases)
  case (2 accounts aliases seen token next_token)
  then have "token \<in> set (map fst aliases)" "token \<notin> set seen"
    by (auto dest: map_of_SomeD intro: rev_image_eqI)
  then have "card (set (map fst aliases) - set (token # seen)) < card (set (map fst aliases) - set seen)"
    by (intro psubset_card_mono) auto
  then show ?case by simp
qed simp

declare follow_alias.simps [simp del]

definition prune_token_aliases :: "string list \<Rightarrow> (string \<times> string) list \<Rightarrow> (string \<times> string) list" where
  "prune_token_aliases accounts aliases =
     List.map_filter (\<lambda>(source, _).
       let token = follow_alias accounts aliases [] source in
       if token \<in> set accounts \<and> token \<noteq> source then Some (source, token) else None) aliases"

section \<open>Tokens that resolve to an account\<close>

text \<open>A walk of \<open>n\<close> aliases from a token to an account.\<close>

primrec alias_walk :: "nat \<Rightarrow> string list \<Rightarrow> (string \<rightharpoonup> string) \<Rightarrow> string \<Rightarrow> string \<Rightarrow> bool" where
  "alias_walk 0 K A t r = (t \<in> set K \<and> r = t)"
| "alias_walk (Suc n) K A t r = (t \<notin> set K \<and> (case A t of None \<Rightarrow> False | Some u \<Rightarrow> alias_walk n K A u r))"

definition leads_to :: "string list \<Rightarrow> (string \<rightharpoonup> string) \<Rightarrow> string \<Rightarrow> string \<Rightarrow> bool" where
  "leads_to K A t r \<longleftrightarrow> (\<exists>n. alias_walk n K A t r)"

lemma alias_walk_unique: "alias_walk n K A t r \<Longrightarrow> alias_walk m K A t q \<Longrightarrow> n = m \<and> r = q"
proof (induction n arbitrary: m t)
  case 0
  then show ?case by (cases m) auto
next
  case (Suc n)
  then show ?case by (cases m) (auto split: option.splits)
qed

lemma alias_walk_account: "alias_walk n K A t r \<Longrightarrow> r \<in> set K"
  by (induction n arbitrary: t) (auto split: option.splits)

lemma follow_alias_walk:
  "follow_alias K aliases seen t \<in> set K \<Longrightarrow> \<exists>n. alias_walk n K (map_of aliases) t (follow_alias K aliases seen t)"
proof (induction K aliases seen t rule: follow_alias.induct)
  case (1 K aliases seen t)
  show ?case
  proof (cases "t \<in> set K \<or> t \<in> set seen")
    case True
    then have "follow_alias K aliases seen t = t" by (simp add: follow_alias.simps)
    with "1.prems" have "alias_walk 0 K (map_of aliases) t (follow_alias K aliases seen t)" by simp
    then show ?thesis by blast
  next
    case False
    show ?thesis
    proof (cases "map_of aliases t")
      case None
      with False have "follow_alias K aliases seen t = t" by (simp add: follow_alias.simps)
      with "1.prems" False show ?thesis by simp
    next
      case (Some u)
      have eq: "follow_alias K aliases seen t = follow_alias K aliases (t # seen) u"
        using False Some by (subst follow_alias.simps) simp
      then obtain n where "alias_walk n K (map_of aliases) u (follow_alias K aliases (t # seen) u)"
        using "1.IH" [OF False Some] "1.prems" by auto
      then have "alias_walk (Suc n) K (map_of aliases) t (follow_alias K aliases seen t)" using False Some eq by simp
      then show ?thesis by blast
    qed
  qed
qed

lemma walk_follow_alias:
  "alias_walk n K (map_of aliases) t r \<Longrightarrow> (\<And>s. s \<in> set seen \<Longrightarrow> \<exists>m > n. alias_walk m K (map_of aliases) s r) \<Longrightarrow>
   follow_alias K aliases seen t = r"
proof (induction n arbitrary: seen t)
  case 0
  then show ?case by (simp add: follow_alias.simps)
next
  case (Suc n)
  have "t \<notin> set seen" using Suc.prems(2) [of t] alias_walk_unique [OF Suc.prems(1)] by auto
  moreover obtain u where u: "map_of aliases t = Some u" "t \<notin> set K" "alias_walk n K (map_of aliases) u r"
    using Suc.prems(1) by (auto split: option.splits)
  moreover have "follow_alias K aliases (t # seen) u = r"
  proof (rule Suc.IH [OF u(3)])
    fix s
    assume "s \<in> set (t # seen)"
    then consider "s = t" | "s \<in> set seen" by auto
    then show "\<exists>m > n. alias_walk m K (map_of aliases) s r"
    proof cases
      case 1
      with Suc.prems(1) show ?thesis by blast
    next
      case 2
      then obtain m where "Suc n < m" "alias_walk m K (map_of aliases) s r" using Suc.prems(2) by blast
      then show ?thesis using Suc_lessD by blast
    qed
  qed
  ultimately show ?case by (subst follow_alias.simps) simp
qed

lemma leads_to_follow: "leads_to K (map_of aliases) t r \<longleftrightarrow> follow_alias K aliases [] t = r \<and> r \<in> set K"
proof
  assume "leads_to K (map_of aliases) t r"
  then obtain n where n: "alias_walk n K (map_of aliases) t r" by (auto simp: leads_to_def)
  then show "follow_alias K aliases [] t = r \<and> r \<in> set K"
    using walk_follow_alias [OF n, of "[]"] alias_walk_account [OF n] by simp
qed (auto simp: leads_to_def dest: follow_alias_walk)

lemma leads_to_unique: "leads_to K A t r \<Longrightarrow> leads_to K A t q \<Longrightarrow> r = q"
  by (auto simp: leads_to_def dest: alias_walk_unique)

lemma leads_to_self: "t \<in> set K \<Longrightarrow> leads_to K A t t"
  unfolding leads_to_def by (rule exI [of _ 0]) simp

lemma leads_to_step: "t \<notin> set K \<Longrightarrow> A t = Some u \<Longrightarrow> leads_to K A u r \<Longrightarrow> leads_to K A t r"
  unfolding leads_to_def by (metis alias_walk.simps(2) option.simps(5))

text \<open>A rotation of \<open>old\<close> to \<open>new\<close>: the tokens that led to \<open>old\<close> now lead to \<open>new\<close>, all others lead where
  they led, unless \<open>new\<close> was itself an alias of another account.\<close>

lemma leads_to_rotated:
  assumes l: "leads_to K A t r" and "new \<notin> set K" and "new \<noteq> old"
    and K: "set K' = insert new (set K - {old})"
    and A: "\<And>s. A' s = (if s \<noteq> new \<and> leads_to K A s old then Some new else A s)"
    and new: "A new = None \<or> leads_to K A new old"
  shows "leads_to K' A' t (if r = old then new else r)"
proof (cases "r = old")
  case True
  show ?thesis
  proof (cases "t = new")
    case True
    with \<open>r = old\<close> K show ?thesis by (simp add: leads_to_self)
  next
    case False
    have "t \<notin> set K'"
    proof
      assume "t \<in> set K'"
      then have "t \<in> set K" "t \<noteq> old" using K False by auto
      with leads_to_unique [OF l leads_to_self [OF this(1)]] \<open>r = old\<close> show False by simp
    qed
    moreover have "A' t = Some new" using A l False True by simp
    moreover have "leads_to K' A' new new" using K by (simp add: leads_to_self)
    ultimately have "leads_to K' A' t new" by (rule leads_to_step)
    with True show ?thesis by simp
  qed
next
  case False
  obtain n where "alias_walk n K A t r" using l by (auto simp: leads_to_def)
  then have "leads_to K' A' t r"
  proof (induction n arbitrary: t)
    case 0
    then have "r = t" "t \<in> set K'" using False K by auto
    then show ?case by (simp add: leads_to_self)
  next
    case (Suc n)
    obtain u where u: "A t = Some u" "t \<notin> set K" "alias_walk n K A u r" using Suc.prems by (auto split: option.splits)
    have t: "leads_to K A t r" using Suc.prems by (auto simp: leads_to_def simp del: alias_walk.simps)
    then have "\<not> leads_to K A t old" using leads_to_unique False by blast
    moreover have "t \<noteq> new" using new t u(1) \<open>\<not> leads_to K A t old\<close> by auto
    ultimately have "t \<notin> set K'" "A' t = Some u" using K u A by auto
    then show ?case using Suc.IH [OF u(3)] by (rule leads_to_step)
  qed
  with False show ?thesis by simp
qed

lemma map_of_map_filter:
  "map_of (List.map_filter (\<lambda>(s, _). map_option (Pair s) (f s)) xs) t = (if t \<in> fst ` set xs then f t else None)"
  by (induction xs) (auto simp: map_filter_simps split: option.split)

lemma leads_to_pruned:
  assumes "leads_to K (map_of aliases) t r"
  shows "leads_to K (map_of (prune_token_aliases K aliases)) t r"
proof (cases "t \<in> set K")
  case True
  with leads_to_self leads_to_unique [OF assms leads_to_self [OF True]] show ?thesis by simp
next
  case False
  have r: "follow_alias K aliases [] t = r" "r \<in> set K" using assms by (simp_all add: leads_to_follow)
  then have "r \<noteq> t" using False by auto
  obtain n where n: "alias_walk n K (map_of aliases) t r" using assms by (auto simp: leads_to_def)
  have "map_of aliases t \<noteq> None" using n False by (cases n) (auto split: option.splits)
  then have "t \<in> fst ` set aliases" by (metis map_of_eq_None_iff)
  moreover have "prune_token_aliases K aliases =
    List.map_filter (\<lambda>(s, _). map_option (Pair s) (let u = follow_alias K aliases [] s in if u \<in> set K \<and> u \<noteq> s then Some u else None)) aliases"
    unfolding prune_token_aliases_def by (rule arg_cong [of _ _ "\<lambda>f. List.map_filter f aliases"]) (auto simp: Let_def fun_eq_iff)
  ultimately have "map_of (prune_token_aliases K aliases) t = Some r"
    using r \<open>r \<noteq> t\<close> by (simp add: map_of_map_filter)
  from False this leads_to_self [OF r(2)] show ?thesis by (rule leads_to_step)
qed

end
