(* ===== verification/AccountMerge.thy ===== *)
theory AccountMerge
  imports Storage Cooldown TokenAliases
begin

text \<open>
  The part of \<open>services/account_service.py\<close> that reconciles an in-memory view of the
  accounts with the stored rows: the mutation between two views (\<open>_account_mutation\<close>), the
  three-way merge of one account (\<open>_merge_account_fields\<close>) and of all accounts after a
  revision conflict (\<open>_merge_accounts_after_conflict\<close>). A view is a dictionary from token to account.
\<close>

type_synonym view = "(string \<times> pydict) list"

section \<open>The mutation between two views\<close>

definition account_mutation :: "view \<Rightarrow> view \<Rightarrow> string \<Rightarrow> mutation" where
  "account_mutation baseline desired revision =
     \<lparr>upserts = map (PDict \<circ> snd) (filter (\<lambda>(token, account).
         case map_of baseline token of None \<Rightarrow> True | Some b \<Rightarrow> \<not> item_eq b account) desired),
      delete_keys = map (PStr \<circ> fst) (filter (\<lambda>(token, _). map_of desired token = None) baseline),
      expected_revision = Some revision\<rparr>"

section \<open>One account\<close>

text \<open>\<open>_integer_field\<close>: None when the conversion raises.\<close>

definition integer_field :: "pyval \<Rightarrow> int option" where
  "integer_field v = (case py_int v of Inl _ \<Rightarrow> None | Inr n \<Rightarrow> Some n)"

definition additive_counter_fields :: "string list" where
  "additive_counter_fields = [''success'', ''fail'']"

definition merge_additive :: "string \<Rightarrow> pydict \<Rightarrow> pydict \<Rightarrow> pydict \<Rightarrow> int option" where
  "merge_additive f baseline local remote =
     (case (map_of baseline f, map_of local f, map_of remote f) of
        (Some b, Some l, Some r) \<Rightarrow>
          (case (integer_field b, integer_field l, integer_field r) of
             (Some b, Some l, Some r) \<Rightarrow> Some (max 0 (r + (l - b)))
           | _ \<Rightarrow> None)
      | _ \<Rightarrow> None)"

definition is_local_quota_consumption :: "pydict \<Rightarrow> pydict \<Rightarrow> bool" where
  "is_local_quota_consumption baseline local =
     (case (integer_field (field baseline ''quota''), integer_field (field local ''quota'')) of
        (Some b, Some l) \<Rightarrow> l < b \<and> \<not> py_eq (field local ''last_used_at'') (field baseline ''last_used_at'')
      | _ \<Rightarrow> False)"

text \<open>What one field of the loop does to the merged account.\<close>

datatype change = Keep | Put pyval | Pop

definition locally_unchanged :: "pydict \<Rightarrow> pydict \<Rightarrow> string \<Rightarrow> bool" where
  "locally_unchanged baseline local f =
     (case (map_of baseline f, map_of local f) of
        (None, None) \<Rightarrow> True
      | (Some b, Some l) \<Rightarrow> py_eq b l
      | _ \<Rightarrow> False)"

definition field_change :: "pydict \<Rightarrow> pydict \<Rightarrow> pydict \<Rightarrow> string \<Rightarrow> change" where
  "field_change baseline local remote f =
     (if locally_unchanged baseline local f then Keep
      else case map_of local f of
        None \<Rightarrow> Pop
      | Some l \<Rightarrow>
          (let additive = (if f \<in> set additive_counter_fields \<or>
                 (f = ''quota'' \<and> is_local_quota_consumption baseline local)
               then merge_additive f baseline local remote else None) in
           case additive of Some v \<Rightarrow> Put (PInt v) | None \<Rightarrow> Put l))"

fun apply_change :: "string \<Rightarrow> change \<Rightarrow> pydict \<Rightarrow> pydict" where
  "apply_change f Keep m = m"
| "apply_change f (Put v) m = AList.update f v m"
| "apply_change f Pop m = AList.delete f m"

definition merge_account_fields :: "pydict \<Rightarrow> pydict \<Rightarrow> pydict \<Rightarrow> pydict" where
  "merge_account_fields baseline local remote =
     (let merged = fold (\<lambda>f m. apply_change f (field_change baseline local remote f) m)
            (fromkeys (map fst baseline @ map fst local)) remote;
          merged = merge_upload_cooldown merged remote in
      merge_image_quota_cooldown merged local remote)"

section \<open>All accounts\<close>

definition rotated_account_token :: "view \<Rightarrow> view \<Rightarrow> string \<Rightarrow> pydict \<Rightarrow> string option" where
  "rotated_account_token accounts baseline old_token old_account =
     (let management_id = clean (field old_account ''management_id'') in
      if management_id = [] then None
      else map_option fst (find (\<lambda>(token, account).
             token \<noteq> old_token \<and> map_of baseline token = None \<and> clean (field account ''management_id'') = management_id)
           accounts))"

text \<open>The first loop: tokens that were removed locally, by a deletion or by a rotation.\<close>

definition merge_removed :: "view \<Rightarrow> view \<Rightarrow> view \<Rightarrow> string \<times> pydict \<Rightarrow> view \<times> string list \<Rightarrow> view \<times> string list" where
  "merge_removed baseline local remote entry st =
     (case (entry, st) of ((token, baseline_account), (merged, handled)) \<Rightarrow>
      if map_of local token \<noteq> None then (merged, handled)
      else
        case rotated_account_token local baseline token baseline_account of
          None \<Rightarrow>
            (let merged = AList.delete token merged in
             (case rotated_account_token remote baseline token baseline_account of
                None \<Rightarrow> merged
              | Some rotation \<Rightarrow> AList.delete rotation merged, handled))
        | Some rotation \<Rightarrow>
            (case (map_of remote token, map_of local rotation) of
               (Some remote_account, Some local_account) \<Rightarrow>
                 (AList.update rotation (merge_account_fields baseline_account local_account remote_account)
                    (AList.delete token merged), rotation # handled)
             | _ \<Rightarrow> (merged, rotation # handled)))"

definition overlay :: "pydict \<Rightarrow> pydict \<Rightarrow> pydict" where
  "overlay old new = fold (\<lambda>(k, v) d. AList.update k v d) new old"

text \<open>The second loop: tokens of the local view.\<close>

definition merge_local :: "view \<Rightarrow> view \<Rightarrow> string list \<Rightarrow> string \<times> pydict \<Rightarrow> view \<Rightarrow> view" where
  "merge_local baseline remote handled entry merged =
     (case entry of (token, local_account) \<Rightarrow>
      if token \<in> set handled then merged
      else
        case map_of baseline token of
          None \<Rightarrow>
            AList.update token
              (case map_of remote token of None \<Rightarrow> local_account | Some r \<Rightarrow> overlay r local_account) merged
        | Some baseline_account \<Rightarrow>
            if item_eq local_account baseline_account then merged
            else
              case map_of remote token of
                None \<Rightarrow>
                  (case rotated_account_token remote baseline token baseline_account of
                     None \<Rightarrow> AList.delete token merged
                   | Some rotation \<Rightarrow>
                       (case map_of remote rotation of
                          None \<Rightarrow> merged
                        | Some r \<Rightarrow> AList.delete token
                            (AList.update rotation (merge_account_fields baseline_account local_account r) merged)))
              | Some remote_account \<Rightarrow>
                  AList.update token (merge_account_fields baseline_account local_account remote_account) merged)"

definition merge_accounts_after_conflict :: "view \<Rightarrow> view \<Rightarrow> view \<Rightarrow> view" where
  "merge_accounts_after_conflict baseline local remote =
     (let (merged, handled) = fold (merge_removed baseline local remote) baseline (remote, []) in
      fold (merge_local baseline remote handled) local merged)"

section \<open>Lemmas\<close>

lemma apply_change_other: "g \<noteq> f \<Longrightarrow> map_of (apply_change f c m) g = map_of m g"
  by (cases c) auto

definition changed_lookup :: "change \<Rightarrow> pyval option \<Rightarrow> pyval option" where
  "changed_lookup c old = (case c of Keep \<Rightarrow> old | Put v \<Rightarrow> Some v | Pop \<Rightarrow> None)"

lemma apply_change_same: "map_of (apply_change f c m) f = changed_lookup c (map_of m f)"
  by (cases c) (auto simp: changed_lookup_def)

lemma fold_apply_change:
  "distinct fs \<Longrightarrow>
   map_of (fold (\<lambda>f m. apply_change f (ch f) m) fs m) g =
     (if g \<in> set fs then changed_lookup (ch g) (map_of m g) else map_of m g)"
proof (induction fs arbitrary: m)
  case (Cons f fs)
  then show ?case
    by (cases "g = f") (simp_all add: apply_change_other apply_change_same)
qed simp

definition cooldown_field :: "string \<Rightarrow> bool" where
  "cooldown_field f \<longleftrightarrow> f \<in> set upload_cooldown_fields \<or> f \<in> set image_quota_cooldown_fields"

lemma map_of_copy_fields:
  "map_of (copy_fields fs source target) f = (if f \<in> set fs then map_of source f else map_of target f)"
proof (induction fs arbitrary: target)
  case Nil
  then show ?case by (simp add: copy_fields_def)
next
  case (Cons g fs)
  have step: "copy_fields (g # fs) source target =
      copy_fields fs source (case map_of source g of None \<Rightarrow> AList.delete g target | Some v \<Rightarrow> AList.update g v target)"
    by (simp add: copy_fields_def)
  show ?case unfolding step Cons.IH by (auto split: option.split)
qed

lemma merge_upload_other: "\<not> cooldown_field f \<Longrightarrow> map_of (merge_upload_cooldown t s) f = map_of t f"
  by (simp add: merge_upload_cooldown_def map_of_copy_fields cooldown_field_def)

lemma merge_image_other:
  assumes "\<not> cooldown_field f"
  shows "map_of (merge_image_quota_cooldown t l r) f = map_of t f"
proof -
  have "f \<noteq> ''image_quota_exhausted_at''" "f \<noteq> ''image_quota_recovered_at''" "f \<notin> set image_quota_cooldown_fields"
    using assms by (auto simp: cooldown_field_def image_quota_cooldown_fields_def)
  then have "map_of (AList.update ''image_quota_exhausted_at'' v d) f = map_of d f"
    "map_of (AList.update ''image_quota_recovered_at'' v d) f = map_of d f"
    "map_of (copy_fields image_quota_cooldown_fields w d) f = map_of d f" for v d w
    by (simp_all add: map_of_copy_fields)
  then show ?thesis
    unfolding merge_image_quota_cooldown_def Let_def
    by (auto split: list.split)
qed

lemma merge_account_fields_lookup:
  assumes "\<not> cooldown_field f"
  shows "map_of (merge_account_fields b l r) f = changed_lookup (field_change b l r f) (map_of r f)"
proof -
  let ?fs = "fromkeys (map fst b @ map fst l)"
  have "field_change b l r f = Keep" if "f \<notin> set ?fs"
    using that by (simp add: field_change_def locally_unchanged_def map_of_eq_None_iff [THEN iffD2])
  then have "changed_lookup (field_change b l r f) (map_of r f) = map_of r f" if "f \<notin> set ?fs"
    using that by (simp add: changed_lookup_def)
  then show ?thesis
    unfolding merge_account_fields_def Let_def merge_image_other [OF assms] merge_upload_other [OF assms]
    by (subst fold_apply_change) auto
qed

lemma py_eq_PInt [simp]: "py_eq (PInt m) (PInt n) \<longleftrightarrow> m = n"
  by (simp add: py_eq_def)

lemma counter_not_cooldown: "f \<in> set additive_counter_fields \<Longrightarrow> \<not> cooldown_field f"
  by (auto simp: additive_counter_fields_def cooldown_field_def upload_cooldown_fields_def image_quota_cooldown_fields_def)

lemma merge_counter:
  assumes "f \<in> set additive_counter_fields" "map_of b f = Some (PInt n)" "map_of l f = Some (PInt (n + i))"
    "map_of r f = Some (PInt (n + j))" "0 \<le> n" "0 \<le> i" "0 \<le> j"
  shows "map_of (merge_account_fields b l r) f = Some (PInt (n + i + j))"
  using assms merge_account_fields_lookup [OF counter_not_cooldown [OF assms(1)], of b l r]
  by (auto simp: field_change_def locally_unchanged_def merge_additive_def integer_field_def changed_lookup_def Let_def)

text \<open>The merge of all accounts, token by token, when no baseline account can be rotated.\<close>

definition merged_row :: "view \<Rightarrow> view \<Rightarrow> view \<Rightarrow> string \<Rightarrow> pydict option" where
  "merged_row baseline local remote t =
     (case (map_of baseline t, map_of local t, map_of remote t) of
        (None, None, r) \<Rightarrow> r
      | (None, Some l, None) \<Rightarrow> Some l
      | (None, Some l, Some r) \<Rightarrow> Some (overlay r l)
      | (Some b, None, _) \<Rightarrow> None
      | (Some b, Some l, None) \<Rightarrow> None
      | (Some b, Some l, Some r) \<Rightarrow> Some (if item_eq l b then r else merge_account_fields b l r))"

lemma no_rotation: "clean (field a ''management_id'') = [] \<Longrightarrow> rotated_account_token accounts b t a = None"
  by (simp add: rotated_account_token_def)

lemma merge_removed_fold:
  assumes "\<forall>(t, a) \<in> set entries. clean (field a ''management_id'') = []"
  shows "snd (fold (merge_removed baseline local remote) entries (m, h)) = h \<and>
    map_of (fst (fold (merge_removed baseline local remote) entries (m, h))) t =
      (if t \<in> set (map fst entries) \<and> map_of local t = None then None else map_of m t)"
  using assms
proof (induction entries arbitrary: m)
  case (Cons e entries)
  obtain k a where e: "e = (k, a)" by (cases e)
  have "clean (field a ''management_id'') = []" using Cons.prems e by simp
  then have step: "merge_removed baseline local remote e (m, h) =
      (if map_of local k \<noteq> None then m else AList.delete k m, h)"
    by (simp add: merge_removed_def e no_rotation)
  show ?case
    using Cons.IH [of "if map_of local k \<noteq> None then m else AList.delete k m"] Cons.prems step e by auto
qed simp

lemma merge_local_fold:
  assumes "distinct_keys entries" and "\<forall>(t, a) \<in> set baseline. clean (field a ''management_id'') = []"
  shows "map_of (fold (merge_local baseline remote []) entries m) t =
     (case map_of entries t of
        None \<Rightarrow> map_of m t
      | Some l \<Rightarrow>
          (case (map_of baseline t, map_of remote t) of
             (None, None) \<Rightarrow> Some l
           | (None, Some r) \<Rightarrow> Some (overlay r l)
           | (Some b, None) \<Rightarrow> if item_eq l b then map_of m t else None
           | (Some b, Some r) \<Rightarrow> if item_eq l b then map_of m t else Some (merge_account_fields b l r)))"
  using assms(1)
proof (induction entries arbitrary: m)
  case (Cons e entries)
  obtain k l where e: "e = (k, l)" by (cases e)
  have fresh: "map_of entries k = None" using Cons.prems e by (simp add: distinct_keys_def map_of_eq_None_iff)
  have d: "distinct_keys entries" using Cons.prems by (simp add: distinct_keys_def)
  have nomid: "rotated_account_token remote baseline k b = None" if "map_of baseline k = Some b" for b
    using assms(2) that by (intro no_rotation) (auto dest: map_of_SomeD)
  have other: "map_of (merge_local baseline remote [] e m) t = map_of m t" if "t \<noteq> k"
    using that nomid by (auto simp: merge_local_def e split: option.split)
  show ?case
  proof (cases "t = k")
    case True
    then show ?thesis
      using Cons.IH [OF d, of "merge_local baseline remote [] e m"] fresh nomid
      by (auto simp: e merge_local_def split: option.split)
  next
    case False
    then show ?thesis
      using Cons.IH [OF d, of "merge_local baseline remote [] e m"] False
      unfolding other [OF False] by (simp add: e)
  qed
qed simp

lemma normalize_from_items:
  "distinct (map (key_of c) items) \<Longrightarrow> \<forall>i\<in>set items. key_of c i \<notin> set seen \<and> key_of c i \<noteq> [] \<Longrightarrow>
   normalize_from c seen (map PDict items) = Inr items"
proof (induction items arbitrary: seen)
  case (Cons i items)
  have "key_of c i \<notin> key_of c ` set items" using Cons.prems(1) by simp
  then have "key_of c j \<noteq> key_of c i" if "j \<in> set items" for j using that by (metis imageI)
  then have "\<forall>j\<in>set items. key_of c j \<notin> set (key_of c i # seen) \<and> key_of c j \<noteq> []"
    using Cons.prems(2) by auto
  with Cons.IH [of "key_of c i # seen"] Cons.prems show ?case by (simp add: item_key_def)
qed simp

declare clean_text [simp]

section \<open>Properties\<close>

text \<open>Concurrent results are all counted: when two processes start from the same row and add
  to its success or failure counter, merging either one's view onto the other's stored row
  gives the sum of both additions, and every field that the merging side left alone, the
  cool-down fields apart, keeps the stored value.\<close>

theorem merge_counts_both_writers:
  assumes "f \<in> set additive_counter_fields" "map_of b f = Some (PInt n)" "map_of x f = Some (PInt (n + i))"
    "map_of y f = Some (PInt (n + j))" "0 \<le> n" "0 \<le> i" "0 \<le> j"
    and "\<not> cooldown_field g" "locally_unchanged b x g"
  shows "map_of (merge_account_fields b x y) f = Some (PInt (n + i + j)) \<and>
    map_of (merge_account_fields b y x) f = Some (PInt (n + i + j)) \<and>
    map_of (merge_account_fields b x y) g = map_of y g"
  using assms merge_counter [OF assms(1-7)] merge_counter [OF assms(1,2,4,3,5,7,6)]
    merge_account_fields_lookup [OF assms(8), of b x y]
  by (simp add: field_change_def changed_lookup_def ac_simps)

theorem merge_counts_both_writers_witness:
  "map_of (merge_account_fields [(''success'', PInt 5)] [(''success'', PInt 7)] [(''success'', PInt 6), (''quota'', PInt 3)])
     ''success'' = Some (PInt 8)"
proof -
  have "\<not> cooldown_field ''quota''"
    by (simp add: cooldown_field_def upload_cooldown_fields_def image_quota_cooldown_fields_def)
  then show ?thesis
    using merge_counts_both_writers [of "''success''" "[(''success'', PInt 5)]" 5 "[(''success'', PInt 7)]" 2
        "[(''success'', PInt 6), (''quota'', PInt 3)]" 1 "''quota''"]
    by (simp add: additive_counter_fields_def locally_unchanged_def)
qed



text \<open>The mutation between two views does what it is for: on a table that holds the baseline
  view, the checked revision being current, it succeeds, and afterwards the table holds exactly
  the desired view.\<close>

theorem account_mutation_realises_view:
  assumes "distinct_keys baseline" "distinct_keys desired"
    and "\<forall>(t, a) \<in> set desired. key_of Accounts a = t \<and> t \<noteq> []"
    and "\<forall>(t, a) \<in> set baseline. strip t = t \<and> t \<noteq> []"
    and "rows s = map (map_prod id Some) baseline"
  shows "case db_mutate Accounts None (account_mutation baseline desired (revision_value Accounts (version s))) None (s, x) of
      (Inl e, _, _) \<Rightarrow> False
    | (Inr r, s2, _) \<Rightarrow>
        (case map_of desired k of
           None \<Rightarrow> map_of (rows s2) k = None
         | Some a \<Rightarrow> (case map_of (rows s2) k of None \<Rightarrow> False | Some data \<Rightarrow> row_matches data a))"
proof -
  let ?m = "account_mutation baseline desired (revision_value Accounts (version s))"
  let ?P = "\<lambda>(t, a). case map_of baseline t of None \<Rightarrow> True | Some b \<Rightarrow> \<not> item_eq b a"
  define ups where "ups = map snd (filter ?P desired)"
  define dels where "dels = map fst (filter (\<lambda>(t, _). map_of desired t = None) baseline)"
  have keys: "map (key_of Accounts) ups = map fst (filter ?P desired)"
    using assms(3) by (auto simp: ups_def)
  have dist: "distinct (map (key_of Accounts) ups)"
    unfolding keys using assms(2) by (auto simp: distinct_keys_def distinct_map_filter)
  have "\<forall>i\<in>set ups. key_of Accounts i \<noteq> []" using assms(3) by (auto simp: ups_def)
  then have n1: "normalize_items Accounts (upserts ?m) = Inr ups"
    using normalize_from_items [OF dist, of "[]"] by (simp add: normalize_items_def account_mutation_def ups_def comp_def)
  have del: "map clean (delete_keys ?m) = dels"
    using assms(4) by (auto simp: account_mutation_def dels_def)
  have "fromkeys dels = dels"
    using distinct_map_filter [of fst baseline] assms(1) by (simp add: distinct_keys_def dels_def fromkeys_distinct)
  moreover have "[] \<notin> set dels" using assms(4) by (auto simp: dels_def)
  moreover have "key_of Accounts i \<notin> set dels" if "i \<in> set ups" for i
  proof -
    have "set ups \<subseteq> snd ` set desired" unfolding ups_def set_map by (rule image_mono) (rule filter_is_subset)
    then have "i \<in> snd ` set desired" using that by (rule subsetD)
    then obtain p where "p \<in> set desired" "i = snd p" by blast
    then have "key_of Accounts i = fst p" using assms(3) by (auto simp: split_beta)
    moreover have "fst p \<in> fst ` set desired" using \<open>p \<in> set desired\<close> by (rule imageI)
    ultimately have "map_of desired (key_of Accounts i) \<noteq> None" by (simp add: map_of_eq_None_iff)
    then show ?thesis by (auto simp: dels_def)
  qed
  ultimately have n: "normalize_mutation Accounts ?m = Inr (ups, dels)"
    using n1 del by (auto simp: normalize_mutation_def Let_def list_ex_iff)
  have ok: "check_revision (expected_revision ?m) (revision_value Accounts (version s))"
    by (simp add: check_revision_def account_mutation_def)
  obtain t2 deleted where pk: "pop_keys dels (rows s, 0) = (t2, deleted)" by fastforce
  obtain t3 ins upd where w: "write_items Accounts (rows s) ups (t2, [], 0) = (t3, ins, upd)" by (metis prod_cases3)
  have written: "\<exists>r v. db_mutate Accounts None ?m None (s, x) = (Inr r, \<lparr>version = v, rows = t3\<rparr>, x)"
    using n ok pk w by (simp add: db_mutate_def Let_def)
  have found: "find_item Accounts ups k = map_of (filter ?P desired) k"
  proof -
    have "map (\<lambda>i. (key_of Accounts i, i)) ups = filter ?P desired"
      using assms(3) by (auto simp: ups_def intro!: map_idI)
    then show ?thesis by (simp add: find_item_def)
  qed
  have sel: "map_of (filter ?P desired) k = (case map_of desired k of None \<Rightarrow> None
      | Some a \<Rightarrow> if ?P (k, a) then Some a else None)"
    using map_of_filter_keys [OF assms(2), of "\<lambda>t a. ?P (t, a)" k] by simp
  have dk: "k \<in> set dels \<longleftrightarrow> map_of baseline k \<noteq> None \<and> map_of desired k = None"
    by (force simp: dels_def map_of_eq_None_iff)
  have "map_of (rows s) k = map_option Some (map_of baseline k)"
    unfolding assms(5) map_of_map_prod ..
  then show ?thesis
    using written mutate_lookup [OF n pk w, of k] unfolding found sel dk
    by (auto simp: row_matches_def split: option.splits if_splits)
qed

theorem account_mutation_realises_view_witness:
  "case db_mutate Accounts None (account_mutation [(''a'', [(''access_token'', PStr ''a'')])] [] (revision_value Accounts 4)) None
      (\<lparr>version = 4, rows = [(''a'', Some [(''access_token'', PStr ''a'')])]\<rparr>, ()) of
     (Inl e, _, _) \<Rightarrow> False | (Inr r, s2, _) \<Rightarrow> map_of (rows s2) ''a'' = None"
  using account_mutation_realises_view [of "[(''a'', [(''access_token'', PStr ''a'')])]" "[]"
      "\<lparr>version = 4, rows = [(''a'', Some [(''access_token'', PStr ''a'')])]\<rparr>" "''a''" "()"]
  by (simp add: distinct_keys_def strip_def is_space_def cong: sum.case_cong prod.case_cong)

end
