(* ===== verification/AccountDispatch.thy ===== *)
theory AccountDispatch
  imports Cooldown Credentials
begin

text \<open>
  The dispatch of \<open>services/account_service.py\<close>: which account serves a request. The tests of one
  account, the scan for an image token (\<open>_find_available_image_token_locked\<close>) with its round
  robin, its priorities and its 64-row window. \<open>AccountPool\<close> takes the slots and waits.

  The claims of tokens, the hashes, the clocks and the settings are \<open>surroundings\<close>. The number
  fields of a row in memory are integers, as \<open>_normalize_account\<close> leaves them.
\<close>

section \<open>Surroundings and state\<close>

record surroundings =
  sr_claims :: claims
  sr_shard_digest :: "string \<Rightarrow> nat"
  sr_token_digest :: "string \<Rightarrow> string"
  sr_env :: environ
  sr_concurrency :: int
  sr_now :: rat
  sr_monotonic :: rat
  sr_prewarmed :: "string list"

type_synonym cred_generation = "string \<times> string \<times> string"

record pool =
  accounts :: "(string \<times> pydict) list"
  image_inflight :: "(string \<times> int) list"
  image_index :: nat
  token_aliases :: "(string \<times> string) list"
  credential_blocked :: "(string \<times> rat \<times> cred_generation) list"
  refresh_flights :: "cred_generation list"
  text_index :: nat
  shard_count :: int
  shard_index :: int

record image_request =
  rq_excluded :: "string list"
  rq_plan_type :: string
  rq_source_type :: string
  rq_plan_types :: "string list"
  rq_requires_upload :: bool
  rq_validity :: "rat option"

section \<open>Tests of one account\<close>

definition text_of :: "pydict \<Rightarrow> string \<Rightarrow> string" where
  "text_of account k = py_str (py_or (field account k) (PStr []))"

text \<open>\<open>_parse_time\<close>: an ISO text, or \<open>strptime\<close> with \<open>%Y-%m-%d %H:%M:%S\<close>.\<close>

definition short_number :: "nat \<Rightarrow> nat \<Rightarrow> string \<Rightarrow> int option" where
  "short_number least most s = (if least \<le> length s \<and> length s \<le> most then number s else None)"

definition strptime_clock :: "string \<Rightarrow> int option" where
  "strptime_clock s =
     (case split_at (\<lambda>c. c = CHR '':'') s of
        (h, Some r) \<Rightarrow>
          (case split_at (\<lambda>c. c = CHR '':'') r of
             (m, Some sec) \<Rightarrow>
               (case (short_number 1 2 h, short_number 1 2 m, short_number 1 2 sec) of
                  (Some h, Some m, Some sec) \<Rightarrow>
                    if h < 24 \<and> m < 60 \<and> sec < 60 then Some (3600 * h + 60 * m + sec) else None
                | _ \<Rightarrow> None)
           | _ \<Rightarrow> None)
      | _ \<Rightarrow> None)"

definition strptime_day :: "string \<Rightarrow> int option" where
  "strptime_day s = (case s of c # cs \<Rightarrow> if c = CHR '' '' then short_number 1 1 cs else short_number 1 2 s | [] \<Rightarrow> None)"

definition strptime :: "string \<Rightarrow> rat option" where
  "strptime s =
     (case split_at (\<lambda>c. c = CHR ''-'') s of
        (y, Some r) \<Rightarrow>
          (case split_at (\<lambda>c. c = CHR ''-'') r of
             (m, Some r) \<Rightarrow>
               (let lead = (if r \<noteq> [] \<and> hd r = CHR '' '' then 1 else 0);
                    d = take lead r @ takeWhile (\<lambda>c. \<not> is_space c) (drop lead r);
                    rest = drop (length d) r in
                if rest = [] then None
                else case (short_number 4 4 y, short_number 1 2 m, strptime_day d, strptime_clock (dropWhile is_space rest)) of
                  (Some y, Some m, Some d, Some c) \<Rightarrow> map_option (\<lambda>n. of_int (86400 * n + c)) (day_number y m d)
                | _ \<Rightarrow> None)
           | _ \<Rightarrow> None)
      | _ \<Rightarrow> None)"

definition parse_account_time :: "pyval \<Rightarrow> rat option" where
  "parse_account_time v =
     (let raw = clean v in
      if raw = [] then None
      else case from_isoformat (replace_zulu raw) of Some t \<Rightarrow> Some t | None \<Rightarrow> strptime raw)"

definition recent_token_refresh_error :: "rat \<Rightarrow> pydict \<Rightarrow> bool" where
  "recent_token_refresh_error now account =
     (case parse_account_time (field account ''last_token_refresh_error_at'') of
        None \<Rightarrow> False
      | Some t \<Rightarrow> now - t < 300)"

definition is_account_selectable :: "surroundings \<Rightarrow> bool \<Rightarrow> bool \<Rightarrow> pydict \<Rightarrow> bool" where
  "is_account_selectable sr allow_limited allow_image_pending account =
     (if \<not> (field account ''status'' = PStr st_normal \<or> allow_limited \<and> field account ''status'' = PStr st_limited) then False
      else
        (let availability = project_upstream_credential_availability (sr_claims sr)
               (text_of account ''access_token'') (text_of account ''refresh_token'')
               (lower (strip (text_of account ''last_remote_check_result'')) = ''invalid'')
               (truthy (field account ''refresh_token_invalid_at'')) \<lfloor>sr_now sr\<rfloor> in
         if ca_status availability = Unavailable then False
         else if ca_status availability = Recoverable \<and> recent_token_refresh_error (sr_now sr) account then False
         else if field account ''last_remote_check_result'' \<noteq> PStr ''pending'' then True
         else allow_image_pending \<and> field account ''pending_auth_scope'' = PStr ''image''))"

definition quota_of :: "pydict \<Rightarrow> int" where
  "quota_of account = (case py_int (py_or (field account ''quota'') (PInt 0)) of Inl _ \<Rightarrow> 0 | Inr n \<Rightarrow> n)"

definition is_image_account_available :: "surroundings \<Rightarrow> pydict \<Rightarrow> bool" where
  "is_image_account_available sr account =
     (if image_quota_needs_verification account then False
      else if \<not> is_account_selectable sr False False account then False
      else if truthy (field account ''image_quota_unknown'') then True
      else field account ''status'' = PStr st_normal \<or> 0 < quota_of account)"

definition replace_char :: "char \<Rightarrow> string \<Rightarrow> string \<Rightarrow> string" where
  "replace_char c by s = concat (map (\<lambda>d. if d = c then by else [d]) s)"

definition type_aliases :: "(string \<times> string) list" where
  "type_aliases =
     [(''free'', ''free''), (''plus'', ''Plus''), (''pro'', ''Pro''), (''prolite'', ''ProLite''), (''team'', ''Team''),
      (''business'', ''Team''), (''enterprise'', ''Enterprise'')]"

definition normalize_account_type :: "pyval \<Rightarrow> string option" where
  "normalize_account_type v =
     (let raw = clean v in
      if raw = [] then None
      else
        (let key = replace_char (CHR '' '') ''_'' (replace_char (CHR ''-'') ''_'' (lower raw));
             compact = replace_char (CHR ''_'') [] key in
         case map_of type_aliases compact of Some t \<Rightarrow> Some t | None \<Rightarrow> map_of type_aliases key))"

definition normalize_source_type :: "pyval \<Rightarrow> string" where
  "normalize_source_type v =
     (if lower (clean v) \<in> {''codex'', ''cpa'', ''cpa_json'', ''remote_cpa'', ''sub2api''} then ''codex'' else ''web'')"

definition is_unlimited_image_quota_account :: "pydict \<Rightarrow> bool" where
  "is_unlimited_image_quota_account account =
     (if \<not> truthy (field account ''image_quota_unknown'') then False
      else case normalize_account_type (field account ''type'') of
        None \<Rightarrow> False
      | Some t \<Rightarrow> lower t \<in> {''pro'', ''prolite''})"

definition matches_plan_type :: "pydict \<Rightarrow> string \<Rightarrow> bool" where
  "matches_plan_type account plan =
     (if plan = [] then True
      else case (normalize_account_type (PStr plan), normalize_account_type (field account ''type'')) of
        (Some p, Some a) \<Rightarrow> lower p = lower a
      | _ \<Rightarrow> False)"

definition matches_source_type :: "pydict \<Rightarrow> string \<Rightarrow> bool" where
  "matches_source_type account source =
     (if source = [] then True
      else normalize_source_type (field account ''source_type'') = normalize_source_type (PStr source))"

definition matches_any_plan_type :: "pydict \<Rightarrow> string list \<Rightarrow> bool" where
  "matches_any_plan_type account plans =
     (if plans = [] then True
      else case normalize_account_type (field account ''type'') of
        None \<Rightarrow> False
      | Some a \<Rightarrow> list_ex (\<lambda>p. normalize_account_type (PStr p) = Some a) plans)"

definition stable_shard_index :: "surroundings \<Rightarrow> pyval \<Rightarrow> int \<Rightarrow> int" where
  "stable_shard_index sr v count =
     (let count = max 1 (if count = 0 then 1 else count) in int (sr_shard_digest sr (lower (clean v))) mod count)"

definition management_id_for_token :: "surroundings \<Rightarrow> string \<Rightarrow> string" where
  "management_id_for_token sr token = ''acct_'' @ take 24 (sr_token_digest sr token)"

definition belongs_to_instance :: "surroundings \<Rightarrow> pool \<Rightarrow> pydict \<Rightarrow> bool" where
  "belongs_to_instance sr p account =
     (if shard_count p \<le> 1 then True
      else
        (let stable_id = clean (field account ''management_id'');
             stable_id = (if stable_id = [] then management_id_for_token sr (text_of account ''access_token'') else stable_id) in
         stable_shard_index sr (PStr stable_id) (shard_count p) = shard_index p))"

definition credential_generation :: "string \<Rightarrow> pydict \<Rightarrow> cred_generation" where
  "credential_generation token account =
     (strip (py_str (py_or (py_or (field account ''access_token'') (PStr token)) (PStr []))),
      clean (field account ''refresh_token''), clean (field account ''last_token_refresh_at''))"

definition image_refresh_is_inflight :: "pool \<Rightarrow> string \<Rightarrow> pydict \<Rightarrow> bool" where
  "image_refresh_is_inflight p token account \<longleftrightarrow> credential_generation token account \<in> set (refresh_flights p)"

definition credential_temporarily_blocked :: "surroundings \<Rightarrow> pool \<Rightarrow> string \<Rightarrow> pydict \<Rightarrow> bool" where
  "credential_temporarily_blocked sr p token account =
     (case map_of (credential_blocked p) token of
        None \<Rightarrow> False
      | Some (until, credentials) \<Rightarrow> sr_monotonic sr < until \<and> credentials = credential_generation token account)"

definition token_needs_refresh :: "surroundings \<Rightarrow> string \<Rightarrow> bool" where
  "token_needs_refresh sr token =
     (case access_token_expires_in_seconds (sr_claims sr) token \<lfloor>sr_now sr\<rfloor> of
        None \<Rightarrow> False
      | Some n \<Rightarrow> n \<le> access_token_refresh_skew_seconds)"

definition image_token_needs_refresh :: "surroundings \<Rightarrow> string \<Rightarrow> rat \<Rightarrow> bool \<Rightarrow> bool" where
  "image_token_needs_refresh sr token validity has_refresh_token =
     (case access_token_expires_in_seconds (sr_claims sr) token \<lfloor>sr_now sr\<rfloor> of
        None \<Rightarrow> has_refresh_token \<and> token_needs_refresh sr token
      | Some n \<Rightarrow> of_int n \<le> validity)"

definition strict_admission :: "environ \<Rightarrow> bool" where
  "strict_admission env \<longleftrightarrow> env_int env ''CHATGPT2API_STRICT_IMAGE_CREDENTIALS'' 1 0 (Some 1) \<noteq> 0"

definition image_token_min_validity :: "environ \<Rightarrow> int" where
  "image_token_min_validity env = env_int env ''CHATGPT2API_IMAGE_TOKEN_MIN_VALIDITY_SECONDS'' 300 60 (Some 86400)"

definition image_token_validity_window :: "surroundings \<Rightarrow> rat option \<Rightarrow> rat \<Rightarrow> rat" where
  "image_token_validity_window sr deadline_monotonic timeout =
     (let budget = (case deadline_monotonic of None \<Rightarrow> timeout | Some d \<Rightarrow> max 0 (d - sr_monotonic sr)) in
      max (of_int (image_token_min_validity (sr_env sr))) (budget + 60))"

definition slot_limit :: "surroundings \<Rightarrow> int" where
  "slot_limit sr = max 1 (if sr_concurrency sr = 0 then 1 else sr_concurrency sr)"

definition inflight_of :: "pool \<Rightarrow> string \<Rightarrow> int" where
  "inflight_of p token = (case map_of (image_inflight p) token of None \<Rightarrow> 0 | Some n \<Rightarrow> n)"

section \<open>The scan for an image token\<close>

type_synonym row = "nat \<times> nat \<times> string \<times> pydict"

record scan =
  first_available :: "(string \<times> nat) option"
  first_warm :: "(string \<times> nat) option"
  maintenance_candidate :: "(string \<times> nat) option"
  maintenance_rank :: nat
  maintenance_offset :: nat
  sc_ready :: nat
  sc_matched :: nat
  sc_limited :: nat
  sc_busy :: nat
  sc_upload_limited :: nat

definition start_scan :: scan where
  "start_scan = \<lparr>first_available = None, first_warm = None, maintenance_candidate = None, maintenance_rank = 3,
     maintenance_offset = 0, sc_ready = 0, sc_matched = 0, sc_limited = 0, sc_busy = 0, sc_upload_limited = 0\<rparr>"

definition scan_validity :: "surroundings \<Rightarrow> image_request \<Rightarrow> rat" where
  "scan_validity sr rq = (case rq_validity rq of None \<Rightarrow> of_int (image_token_min_validity (sr_env sr)) | Some v \<Rightarrow> v)"

definition in_scope :: "surroundings \<Rightarrow> pool \<Rightarrow> image_request \<Rightarrow> bool \<Rightarrow> string \<Rightarrow> pydict \<Rightarrow> bool" where
  "in_scope sr p rq other token item \<longleftrightarrow> \<not> (token \<in> set (rq_excluded rq) \<or> belongs_to_instance sr p item = other)"

definition matches_filters :: "image_request \<Rightarrow> pydict \<Rightarrow> bool" where
  "matches_filters rq item \<longleftrightarrow>
     matches_plan_type item (rq_plan_type rq) \<and> matches_any_plan_type item (rq_plan_types rq) \<and>
     matches_source_type item (rq_source_type rq)"

definition strictly_ready :: "surroundings \<Rightarrow> pool \<Rightarrow> rat \<Rightarrow> string \<Rightarrow> pydict \<Rightarrow> bool" where
  "strictly_ready sr p validity token item \<longleftrightarrow>
     pr_state (credential_readiness (sr_claims sr) item validity (sr_now sr)) = Ready \<and>
     \<not> image_refresh_is_inflight p token item \<and> \<not> credential_temporarily_blocked sr p token item"

definition is_funded :: "pydict \<Rightarrow> bool" where
  "is_funded item \<longleftrightarrow>
     is_unlimited_image_quota_account item \<or> \<not> truthy (field item ''image_quota_unknown'') \<and> 0 < quota_of item"

definition is_warm :: "pydict \<Rightarrow> bool" where
  "is_warm item \<longleftrightarrow> truthy (field item ''image_quota_unknown'') \<and> truthy (field item ''last_image_success_at'')"

definition needs_maintenance :: "surroundings \<Rightarrow> pool \<Rightarrow> rat \<Rightarrow> string \<Rightarrow> pydict \<Rightarrow> bool" where
  "needs_maintenance sr p validity token item \<longleftrightarrow>
     image_refresh_is_inflight p token item \<or>
     image_token_needs_refresh sr token validity (truthy (field item ''refresh_token'')) \<or>
     field item ''last_remote_check_result'' = PStr ''invalid''"

definition candidate_rank :: "pydict \<Rightarrow> nat" where
  "candidate_rank item = (if is_funded item then 0 else if is_warm item then 1 else 2)"

text \<open>One turn of the loop: the new state of the scan, and whether the row is taken at once.\<close>

definition scan_row :: "surroundings \<Rightarrow> pool \<Rightarrow> image_request \<Rightarrow> bool \<Rightarrow> scan \<Rightarrow> row \<Rightarrow> scan \<times> bool" where
  "scan_row sr p rq other s x =
     (let (offset, ordinal, token, item) = x; validity = scan_validity sr rq in
      if \<not> in_scope sr p rq other token item then (s, False)
      else if \<not> matches_filters rq item then (s, False)
      else
        let s = s\<lparr>sc_matched := Suc (sc_matched s),
              sc_limited := sc_limited s + (if field item ''status'' = PStr st_limited then 1 else 0)\<rparr> in
        if \<not> is_image_account_available sr item then (s, False)
        else if rq_requires_upload rq \<and> upload_blocked item (sr_now sr)
        then (s\<lparr>sc_upload_limited := Suc (sc_upload_limited s)\<rparr>, False)
        else if strict_admission (sr_env sr) \<and> \<not> strictly_ready sr p validity token item then (s, False)
        else
          let s = s\<lparr>sc_ready := Suc (sc_ready s)\<rparr> in
          if slot_limit sr \<le> inflight_of p token then (s\<lparr>sc_busy := Suc (sc_busy s)\<rparr>, False)
          else if needs_maintenance sr p validity token item then
            (let rank = candidate_rank item; none = (maintenance_candidate s = None);
                 s = (if none then s\<lparr>maintenance_offset := offset\<rparr> else s) in
             if none \<or> rank < maintenance_rank s
             then (s\<lparr>maintenance_candidate := Some (token, ordinal), maintenance_rank := rank\<rparr>, False)
             else (s, False))
          else if is_funded item then (s, True)
          else
            (s\<lparr>first_available := (if first_available s = None then Some (token, ordinal) else first_available s),
               first_warm := (if first_warm s = None \<and> is_warm item then Some (token, ordinal) else first_warm s)\<rparr>, False))"

fun scan_rows :: "surroundings \<Rightarrow> pool \<Rightarrow> image_request \<Rightarrow> bool \<Rightarrow> scan \<Rightarrow> row list \<Rightarrow> scan \<times> (string \<times> nat) option" where
  "scan_rows sr p rq other s [] = (s, None)"
| "scan_rows sr p rq other s (x # xs) =
     (if maintenance_candidate s \<noteq> None \<and> maintenance_offset s + 64 \<le> fst x then (s, None)
      else case scan_row sr p rq other s x of
        (s, True) \<Rightarrow> (s, Some (fst (snd (snd x)), fst (snd x)))
      | (s, False) \<Rightarrow> scan_rows sr p rq other s xs)"

definition rotation :: "pool \<Rightarrow> row list" where
  "rotation p =
     (let count = length (accounts p); cursor = image_index p mod count in
      map (\<lambda>offset. let ordinal = (cursor + offset) mod count in (offset, ordinal, accounts p ! ordinal)) [0..<count])"

record selection =
  sel_token :: "string option"
  sel_ready :: nat
  sel_matched :: nat
  sel_limited :: nat
  sel_busy :: nat
  sel_upload_limited :: nat

text \<open>The prewarmed contexts that are tried first under strict admission.\<close>

definition prewarmed_usable :: "surroundings \<Rightarrow> pool \<Rightarrow> image_request \<Rightarrow> bool \<Rightarrow> string \<Rightarrow> bool" where
  "prewarmed_usable sr p rq other token =
     (case map_of (accounts p) token of
        None \<Rightarrow> False
      | Some item \<Rightarrow>
          item \<noteq> [] \<and> in_scope sr p rq other token item \<and> is_image_account_available sr item \<and> matches_filters rq item \<and>
          (rq_requires_upload rq \<longrightarrow> \<not> upload_blocked item (sr_now sr)) \<and>
          strictly_ready sr p
            (case rq_validity rq of
               None \<Rightarrow> of_int (image_token_min_validity (sr_env sr))
             | Some v \<Rightarrow> if v = 0 then of_int (image_token_min_validity (sr_env sr)) else v) token item \<and>
          inflight_of p token < slot_limit sr)"

definition find_available_image_token :: "surroundings \<Rightarrow> pool \<Rightarrow> image_request \<Rightarrow> bool \<Rightarrow> selection \<times> pool" where
  "find_available_image_token sr p rq other =
     (case (if strict_admission (sr_env sr) then List.find (prewarmed_usable sr p rq other) (sr_prewarmed sr) else None) of
        Some token \<Rightarrow>
          (\<lparr>sel_token = Some token, sel_ready = 1, sel_matched = 1, sel_limited = 0, sel_busy = 0, sel_upload_limited = 0\<rparr>, p)
      | None \<Rightarrow>
          if accounts p = []
          then (\<lparr>sel_token = None, sel_ready = 0, sel_matched = 0, sel_limited = 0, sel_busy = 0, sel_upload_limited = 0\<rparr>, p)
          else
            (let (s, found) = scan_rows sr p rq other start_scan (rotation p);
                 chosen = (if found \<noteq> None then found else if first_warm s \<noteq> None then first_warm s
                   else if first_available s \<noteq> None then first_available s else maintenance_candidate s);
                 p = (case chosen of
                   None \<Rightarrow> p
                 | Some (_, ordinal) \<Rightarrow> p\<lparr>image_index := (ordinal + 1) mod length (accounts p)\<rparr>) in
             (\<lparr>sel_token = map_option fst chosen, sel_ready = sc_ready s, sel_matched = sc_matched s,
               sel_limited = sc_limited s, sel_busy = sc_busy s, sel_upload_limited = sc_upload_limited s\<rparr>, p)))"

section \<open>What the scan chooses\<close>

text \<open>The reference: among the rows inside the window the first one of the best tier. Rows that can be
  used at once come before rs that need maintenance; within each, a known quota comes first,
  then a warm account, then any.\<close>

fun best_by :: "('a \<Rightarrow> nat) \<Rightarrow> 'a list \<Rightarrow> 'a option" where
  "best_by f [] = None"
| "best_by f (x # xs) = (case best_by f xs of None \<Rightarrow> Some x | Some y \<Rightarrow> if f y < f x then Some y else Some x)"

definition dispatchable :: "surroundings \<Rightarrow> pool \<Rightarrow> image_request \<Rightarrow> bool \<Rightarrow> string \<times> pydict \<Rightarrow> bool" where
  "dispatchable sr p rq other a =
     (case a of (token, item) \<Rightarrow>
        in_scope sr p rq other token item \<and> matches_filters rq item \<and> is_image_account_available sr item \<and>
        (rq_requires_upload rq \<longrightarrow> \<not> upload_blocked item (sr_now sr)) \<and>
        (strict_admission (sr_env sr) \<longrightarrow> strictly_ready sr p (scan_validity sr rq) token item) \<and>
        inflight_of p token < slot_limit sr)"

definition row_account :: "row \<Rightarrow> string \<times> pydict" where
  "row_account x = snd (snd x)"

definition row_maintenance :: "surroundings \<Rightarrow> pool \<Rightarrow> image_request \<Rightarrow> row \<Rightarrow> bool" where
  "row_maintenance sr p rq x = needs_maintenance sr p (scan_validity sr rq) (fst (row_account x)) (snd (row_account x))"

definition row_rank :: "row \<Rightarrow> nat" where
  "row_rank x = candidate_rank (snd (row_account x))"

definition row_tier :: "surroundings \<Rightarrow> pool \<Rightarrow> image_request \<Rightarrow> row \<Rightarrow> nat" where
  "row_tier sr p rq x = (if row_maintenance sr p rq x then 3 + row_rank x else row_rank x)"

definition row_pick :: "row \<Rightarrow> string \<times> nat" where
  "row_pick x = (fst (row_account x), fst (snd x))"

definition row_usable :: "surroundings \<Rightarrow> pool \<Rightarrow> image_request \<Rightarrow> bool \<Rightarrow> row \<Rightarrow> bool" where
  "row_usable sr p rq other x = dispatchable sr p rq other (row_account x)"

definition scan_window :: "surroundings \<Rightarrow> pool \<Rightarrow> image_request \<Rightarrow> bool \<Rightarrow> row list \<Rightarrow> row list" where
  "scan_window sr p rq other rs =
     (case List.find (\<lambda>x. row_usable sr p rq other x \<and> row_maintenance sr p rq x) rs of
        None \<Rightarrow> rs
      | Some m \<Rightarrow> takeWhile (\<lambda>x. fst x < fst m + 64) rs)"

lemma best_by_None [simp]: "best_by f xs = None \<longleftrightarrow> xs = []"
  by (cases xs) (auto split: option.split)

lemma best_by_in: "best_by f xs = Some x \<Longrightarrow> x \<in> set xs"
  by (induction xs arbitrary: x) (auto split: option.splits if_splits)

lemma best_by_least: "best_by f xs = Some x \<Longrightarrow> y \<in> set xs \<Longrightarrow> f x \<le> f y"
  by (induction xs arbitrary: x y) (fastforce split: option.splits if_splits)+

lemma best_by_append:
  "best_by f (xs @ [x]) = (case best_by f xs of None \<Rightarrow> Some x | Some y \<Rightarrow> if f x < f y then Some x else Some y)"
  by (induction xs) (auto split: option.splits)

lemma best_by_first:
  "(\<And>a. a \<in> set as \<Longrightarrow> f x < f a) \<Longrightarrow> (\<And>b. b \<in> set bs \<Longrightarrow> f x \<le> f b) \<Longrightarrow> best_by f (as @ x # bs) = Some x"
proof (induction as)
  case Nil
  then show ?case using best_by_in [of f bs] by (auto split: option.split simp: not_less [symmetric])
qed (auto split: option.split)

lemma best_by_shift: "best_by (\<lambda>x. k + f x) xs = best_by f xs"
  by (induction xs) (auto split: option.split)

lemma best_by_cong: "(\<And>x. x \<in> set xs \<Longrightarrow> f x = g x) \<Longrightarrow> best_by f xs = best_by g xs"
proof (induction xs)
  case (Cons x xs)
  then have "best_by f xs = best_by g xs" by simp
  with Cons.prems best_by_in [of g xs] show ?case by (auto split: option.split)
qed simp

lemma find_append_one:
  "List.find P (xs @ [x]) = (case List.find P xs of None \<Rightarrow> if P x then Some x else None | Some y \<Rightarrow> Some y)"
  by (induction xs) auto

definition scanned :: "surroundings \<Rightarrow> pool \<Rightarrow> image_request \<Rightarrow> bool \<Rightarrow> scan \<Rightarrow> row list \<Rightarrow> bool" where
  "scanned sr p rq other s rs \<longleftrightarrow>
     first_available s = map_option row_pick (List.find (\<lambda>x. row_usable sr p rq other x \<and> \<not> row_maintenance sr p rq x) rs) \<and>
     first_warm s = map_option row_pick
       (List.find (\<lambda>x. row_usable sr p rq other x \<and> \<not> row_maintenance sr p rq x \<and> is_warm (snd (row_account x))) rs) \<and>
     maintenance_candidate s = map_option row_pick
       (best_by row_rank (filter (\<lambda>x. row_usable sr p rq other x \<and> row_maintenance sr p rq x) rs)) \<and>
     maintenance_rank s =
       (case best_by row_rank (filter (\<lambda>x. row_usable sr p rq other x \<and> row_maintenance sr p rq x) rs) of
          None \<Rightarrow> 3 | Some y \<Rightarrow> row_rank y) \<and>
     maintenance_offset s =
       (case List.find (\<lambda>x. row_usable sr p rq other x \<and> row_maintenance sr p rq x) rs of None \<Rightarrow> 0 | Some y \<Rightarrow> fst y)"

text \<open>What one turn does, by the class of its row.\<close>

lemma scan_row_skip:
  assumes "\<not> row_usable sr p rq other x"
  shows "\<not> snd (scan_row sr p rq other s x) \<and>
    first_available (fst (scan_row sr p rq other s x)) = first_available s \<and>
    first_warm (fst (scan_row sr p rq other s x)) = first_warm s \<and>
    maintenance_candidate (fst (scan_row sr p rq other s x)) = maintenance_candidate s \<and>
    maintenance_rank (fst (scan_row sr p rq other s x)) = maintenance_rank s \<and>
    maintenance_offset (fst (scan_row sr p rq other s x)) = maintenance_offset s"
proof -
  obtain offset ordinal token item where x: "x = (offset, ordinal, token, item)" by (cases x)
  consider "\<not> in_scope sr p rq other token item"
    | "in_scope sr p rq other token item" "\<not> matches_filters rq item"
    | "in_scope sr p rq other token item" "matches_filters rq item" "\<not> is_image_account_available sr item"
    | "in_scope sr p rq other token item" "matches_filters rq item" "is_image_account_available sr item"
      "rq_requires_upload rq \<and> upload_blocked item (sr_now sr)"
    | "in_scope sr p rq other token item" "matches_filters rq item" "is_image_account_available sr item"
      "\<not> (rq_requires_upload rq \<and> upload_blocked item (sr_now sr))"
      "strict_admission (sr_env sr) \<and> \<not> strictly_ready sr p (scan_validity sr rq) token item"
    | "in_scope sr p rq other token item" "matches_filters rq item" "is_image_account_available sr item"
      "\<not> (rq_requires_upload rq \<and> upload_blocked item (sr_now sr))"
      "\<not> (strict_admission (sr_env sr) \<and> \<not> strictly_ready sr p (scan_validity sr rq) token item)"
      "slot_limit sr \<le> inflight_of p token"
    using assms by (fastforce simp: x row_usable_def row_account_def dispatchable_def not_less)
  then show ?thesis by cases (simp_all add: scan_row_def x Let_def)
qed

lemma scan_row_use:
  assumes "row_usable sr p rq other x"
  obtains t where "scan_row sr p rq other s x =
    (if row_maintenance sr p rq x then
       (let none = (maintenance_candidate s = None); t = (if none then t\<lparr>maintenance_offset := fst x\<rparr> else t) in
        if none \<or> row_rank x < maintenance_rank s
        then (t\<lparr>maintenance_candidate := Some (row_pick x), maintenance_rank := row_rank x\<rparr>, False) else (t, False))
     else if is_funded (snd (row_account x)) then (t, True)
     else (t\<lparr>first_available := (if first_available s = None then Some (row_pick x) else first_available s),
             first_warm := (if first_warm s = None \<and> is_warm (snd (row_account x)) then Some (row_pick x) else first_warm s)\<rparr>, False))"
    and "first_available t = first_available s" "first_warm t = first_warm s" "maintenance_candidate t = maintenance_candidate s"
      "maintenance_rank t = maintenance_rank s" "maintenance_offset t = maintenance_offset s"
proof -
  obtain offset ordinal token item where x: "x = (offset, ordinal, token, item)" by (cases x)
  let ?t = "s\<lparr>sc_matched := Suc (sc_matched s),
      sc_limited := sc_limited s + (if field item ''status'' = PStr st_limited then 1 else 0), sc_ready := Suc (sc_ready s)\<rparr>"
  show thesis
  proof (rule that [of ?t])
    show "scan_row sr p rq other s x =
      (if row_maintenance sr p rq x then
         (let none = (maintenance_candidate s = None); t = (if none then ?t\<lparr>maintenance_offset := fst x\<rparr> else ?t) in
          if none \<or> row_rank x < maintenance_rank s
          then (t\<lparr>maintenance_candidate := Some (row_pick x), maintenance_rank := row_rank x\<rparr>, False) else (t, False))
       else if is_funded (snd (row_account x)) then (?t, True)
       else (?t\<lparr>first_available := (if first_available s = None then Some (row_pick x) else first_available s),
               first_warm := (if first_warm s = None \<and> is_warm (snd (row_account x)) then Some (row_pick x) else first_warm s)\<rparr>, False))"
    proof -
      have u: "in_scope sr p rq other token item" "matches_filters rq item" "is_image_account_available sr item"
        "\<not> (rq_requires_upload rq \<and> upload_blocked item (sr_now sr))"
        "\<not> (strict_admission (sr_env sr) \<and> \<not> strictly_ready sr p (scan_validity sr rq) token item)"
        "\<not> slot_limit sr \<le> inflight_of p token"
        using assms by (auto simp: x row_usable_def row_account_def dispatchable_def)
      show ?thesis
        unfolding scan_row_def x row_account_def row_maintenance_def row_rank_def row_pick_def Let_def
        by (simp only: u if_True if_False not_True_eq_False not_False_eq_True prod.case fst_conv snd_conv,
            cases "maintenance_candidate s") simp_all
    qed
  qed simp_all
qed

lemma scan_row_taken:
  "snd (scan_row sr p rq other s x) \<longleftrightarrow>
   row_usable sr p rq other x \<and> \<not> row_maintenance sr p rq x \<and> is_funded (snd (row_account x))"
proof (cases "row_usable sr p rq other x")
  case True
  obtain t where t: "scan_row sr p rq other s x =
    (if row_maintenance sr p rq x then
       (let none = (maintenance_candidate s = None); t = (if none then t\<lparr>maintenance_offset := fst x\<rparr> else t) in
        if none \<or> row_rank x < maintenance_rank s
        then (t\<lparr>maintenance_candidate := Some (row_pick x), maintenance_rank := row_rank x\<rparr>, False) else (t, False))
     else if is_funded (snd (row_account x)) then (t, True)
     else (t\<lparr>first_available := (if first_available s = None then Some (row_pick x) else first_available s),
             first_warm := (if first_warm s = None \<and> is_warm (snd (row_account x)) then Some (row_pick x) else first_warm s)\<rparr>, False))"
    using scan_row_use [OF True] by blast
  show ?thesis unfolding t using True by (simp add: Let_def)
qed (simp add: scan_row_skip)

lemma scanned_step:
  assumes s: "scanned sr p rq other s rs" and "\<not> snd (scan_row sr p rq other s x)"
  shows "scanned sr p rq other (fst (scan_row sr p rq other s x)) (rs @ [x])"
proof (cases "row_usable sr p rq other x")
  case False
  with s scan_row_skip [OF False, of s] show ?thesis by (simp add: scanned_def find_append_one split: option.split)
next
  case True
  obtain t where t: "scan_row sr p rq other s x =
    (if row_maintenance sr p rq x then
       (let none = (maintenance_candidate s = None); t = (if none then t\<lparr>maintenance_offset := fst x\<rparr> else t) in
        if none \<or> row_rank x < maintenance_rank s
        then (t\<lparr>maintenance_candidate := Some (row_pick x), maintenance_rank := row_rank x\<rparr>, False) else (t, False))
     else if is_funded (snd (row_account x)) then (t, True)
     else (t\<lparr>first_available := (if first_available s = None then Some (row_pick x) else first_available s),
             first_warm := (if first_warm s = None \<and> is_warm (snd (row_account x)) then Some (row_pick x) else first_warm s)\<rparr>, False))"
    and same: "first_available t = first_available s" "first_warm t = first_warm s" "maintenance_candidate t = maintenance_candidate s"
      "maintenance_rank t = maintenance_rank s" "maintenance_offset t = maintenance_offset s"
    using scan_row_use [OF True] by blast
  note parts = s [unfolded scanned_def]
  show ?thesis
  proof (cases "row_maintenance sr p rq x")
    case False
    then have "\<not> is_funded (snd (row_account x))" using assms(2) True by (simp add: scan_row_taken)
    with False True parts show ?thesis unfolding t
      by (simp add: scanned_def same find_append_one split: option.split)
  next
    case maintain: True
    let ?M = "\<lambda>x. row_usable sr p rq other x \<and> row_maintenance sr p rq x"
    have "(List.find ?M rs = None) = (best_by row_rank (filter ?M rs) = None)"
      by (auto simp: find_None_iff filter_empty_conv)
    with maintain True parts show ?thesis unfolding t
      by (cases "List.find ?M rs"; cases "best_by row_rank (filter ?M rs)")
        (auto simp: scanned_def same find_append_one best_by_append Let_def split: option.split)
  qed
qed

lemma find_first: "List.find P xs = Some x \<Longrightarrow> \<exists>as bs. xs = as @ x # bs \<and> P x \<and> (\<forall>a \<in> set as. \<not> P a)"
proof (induction xs)
  case (Cons y xs)
  show ?case
  proof (cases "P y")
    case True
    with Cons.prems have "y # xs = [] @ x # xs \<and> P x \<and> (\<forall>a \<in> set []. \<not> P a)" by simp
    then show ?thesis by blast
  next
    case False
    with Cons obtain as bs where "xs = as @ x # bs \<and> P x \<and> (\<forall>a \<in> set as. \<not> P a)" by auto
    with False have "y # xs = (y # as) @ x # bs \<and> P x \<and> (\<forall>a \<in> set (y # as). \<not> P a)" by simp
    then show ?thesis by blast
  qed
qed simp

lemma best_filter_find:
  assumes "List.find P xs = Some x" and "\<And>y. y \<in> set xs \<Longrightarrow> P y \<Longrightarrow> Q y"
    and "\<And>y. y \<in> set xs \<Longrightarrow> Q y \<Longrightarrow> \<not> P y \<Longrightarrow> f x < f y" and "\<And>y. y \<in> set xs \<Longrightarrow> P y \<Longrightarrow> f x \<le> f y"
  shows "best_by f (filter Q xs) = Some x"
proof -
  obtain as bs where xs: "xs = as @ x # bs" and x: "P x" and as: "\<forall>a \<in> set as. \<not> P a"
    using find_first [OF assms(1)] by blast
  have "Q x" using assms(2) x xs by simp
  moreover have "f x < f a" if "a \<in> set (filter Q as)" for a using assms(3) as that xs by simp
  moreover have "f x \<le> f b" if "b \<in> set (filter Q bs)" for b
    using assms(3) [of b] assms(4) [of b] that xs by (cases "P b") auto
  ultimately have "best_by f (filter Q as @ x # filter Q bs) = Some x" by (intro best_by_first)
  with \<open>Q x\<close> show ?thesis unfolding xs by simp
qed

lemma find_none: "List.find P xs = None \<Longrightarrow> x \<in> set xs \<Longrightarrow> \<not> P x"
  by (auto simp: find_None_iff)

lemma find_some: "List.find P xs = Some x \<Longrightarrow> x \<in> set xs \<and> P x"
  by (induction xs) (auto split: if_splits)

text \<open>The priorities of the code are the tiers of the reference.\<close>

definition scan_choice :: "scan \<Rightarrow> (string \<times> nat) option \<Rightarrow> (string \<times> nat) option" where
  "scan_choice s found =
     (if found \<noteq> None then found else if first_warm s \<noteq> None then first_warm s
      else if first_available s \<noteq> None then first_available s else maintenance_candidate s)"

definition best_row :: "surroundings \<Rightarrow> pool \<Rightarrow> image_request \<Rightarrow> bool \<Rightarrow> row list \<Rightarrow> row option" where
  "best_row sr p rq other rs = best_by (row_tier sr p rq) (filter (row_usable sr p rq other) rs)"

lemma row_rank_cases: "row_rank x = (if is_funded (snd (row_account x)) then 0 else if is_warm (snd (row_account x)) then 1 else 2)"
  by (simp add: row_rank_def candidate_rank_def)

lemma choice_without_funded:
  assumes s: "scanned sr p rq other s rs"
    and none: "\<And>x. x \<in> set rs \<Longrightarrow> row_usable sr p rq other x \<Longrightarrow> \<not> row_maintenance sr p rq x \<Longrightarrow> \<not> is_funded (snd (row_account x))"
  shows "scan_choice s None = map_option row_pick (best_row sr p rq other rs)"
proof -
  let ?U = "row_usable sr p rq other" and ?M = "row_maintenance sr p rq" and ?W = "\<lambda>x. is_warm (snd (row_account x))"
  have warm: "first_warm s = map_option row_pick (List.find (\<lambda>x. ?U x \<and> \<not> ?M x \<and> ?W x) rs)"
    and any: "first_available s = map_option row_pick (List.find (\<lambda>x. ?U x \<and> \<not> ?M x) rs)"
    and maint: "maintenance_candidate s = map_option row_pick (best_by row_rank (filter (\<lambda>x. ?U x \<and> ?M x) rs))"
    using s by (simp_all add: scanned_def)
  show ?thesis
  proof (cases "List.find (\<lambda>x. ?U x \<and> \<not> ?M x \<and> ?W x) rs")
    case (Some x)
    have x: "x \<in> set rs" "?U x" "\<not> ?M x" "?W x" using find_first [OF Some] by auto
    have "best_row sr p rq other rs = Some x"
      unfolding best_row_def
      by (rule best_filter_find [OF Some]) (use x none in \<open>auto simp: row_tier_def row_rank_cases\<close>)
    with Some warm show ?thesis by (simp add: scan_choice_def)
  next
    case no_warm: None
    then have cold: "\<not> ?W x" if "x \<in> set rs" "?U x" "\<not> ?M x" for x using find_none [OF no_warm that(1)] that by blast
    show ?thesis
    proof (cases "List.find (\<lambda>x. ?U x \<and> \<not> ?M x) rs")
      case (Some x)
      have x: "x \<in> set rs" "?U x" "\<not> ?M x" using find_first [OF Some] by auto
      have "best_row sr p rq other rs = Some x"
        unfolding best_row_def
        by (rule best_filter_find [OF Some]) (use x none cold in \<open>auto simp: row_tier_def row_rank_cases\<close>)
      with Some no_warm warm any show ?thesis by (simp add: scan_choice_def)
    next
      case None
      then have "filter ?U rs = filter (\<lambda>x. ?U x \<and> ?M x) rs" using find_none [OF None] by (intro filter_cong) blast+
      moreover have "best_by (row_tier sr p rq) (filter (\<lambda>x. ?U x \<and> ?M x) rs) = best_by (\<lambda>x. 3 + row_rank x) (filter (\<lambda>x. ?U x \<and> ?M x) rs)"
        by (rule best_by_cong) (simp add: row_tier_def)
      ultimately have "best_row sr p rq other rs = best_by row_rank (filter (\<lambda>x. ?U x \<and> ?M x) rs)"
        by (simp add: best_row_def best_by_shift)
      with None no_warm warm any maint show ?thesis by (simp add: scan_choice_def)
    qed
  qed
qed

lemma scan_window_prefix:
  assumes "sorted_wrt (<) (map fst (rs @ xs))"
    and "\<And>m. List.find (\<lambda>x. row_usable sr p rq other x \<and> row_maintenance sr p rq x) (rs @ xs) = Some m \<Longrightarrow>
      m \<in> set rs \<Longrightarrow> list_all (\<lambda>x. fst x < fst m + 64) rs"
  shows "\<exists>ys. scan_window sr p rq other (rs @ xs) = rs @ ys \<and> set ys \<subseteq> set xs"
proof (cases "List.find (\<lambda>x. row_usable sr p rq other x \<and> row_maintenance sr p rq x) (rs @ xs)")
  case None
  then show ?thesis by (auto simp: scan_window_def)
next
  case (Some m)
  then have m: "m \<in> set (rs @ xs)" by (blast dest: find_some)
  have "fst x < fst m + 64" if "x \<in> set rs" for x
  proof (cases "m \<in> set rs")
    case True
    with assms(2) [OF Some] that show ?thesis by (simp add: list_all_iff)
  next
    case False
    with m have "m \<in> set xs" by simp
    then have "fst x < fst m" using assms(1) that by (auto simp: sorted_wrt_append)
    then show ?thesis by simp
  qed
  then have "scan_window sr p rq other (rs @ xs) = rs @ takeWhile (\<lambda>x. fst x < fst m + 64) xs"
    using Some by (simp add: scan_window_def)
  then show ?thesis using set_takeWhileD by fastforce
qed

lemma scan_window_subset: "set (scan_window sr p rq other rs) \<subseteq> set rs"
  by (auto simp: scan_window_def dest: set_takeWhileD split: option.splits)

lemma scan_rows_best:
  assumes "scanned sr p rq other s rs" and "sorted_wrt (<) (map fst (rs @ xs))"
    and "\<And>x. x \<in> set rs \<Longrightarrow> row_usable sr p rq other x \<Longrightarrow> \<not> row_maintenance sr p rq x \<Longrightarrow> \<not> is_funded (snd (row_account x))"
    and "\<And>m. List.find (\<lambda>x. row_usable sr p rq other x \<and> row_maintenance sr p rq x) rs = Some m \<Longrightarrow>
      list_all (\<lambda>x. fst x < fst m + 64) rs"
  shows "(case scan_rows sr p rq other s xs of (s', found) \<Rightarrow> scan_choice s' found) =
    map_option row_pick (best_row sr p rq other (scan_window sr p rq other (rs @ xs)))"
  using assms
proof (induction xs arbitrary: s rs)
  case Nil
  have "scan_window sr p rq other rs = rs"
    using Nil.prems(4) by (auto simp: scan_window_def list_all_iff takeWhile_eq_all_conv split: option.split)
  with choice_without_funded [OF Nil.prems(1,3)] show ?case by simp
next
  case (Cons x xs)
  let ?M = "\<lambda>x. row_usable sr p rq other x \<and> row_maintenance sr p rq x"
  have maint: "maintenance_candidate s = map_option row_pick (best_by row_rank (filter ?M rs))"
    and offset: "maintenance_offset s = (case List.find ?M rs of None \<Rightarrow> 0 | Some y \<Rightarrow> fst y)"
    using Cons.prems(1) by (simp_all add: scanned_def)
  have some: "maintenance_candidate s \<noteq> None \<longleftrightarrow> List.find ?M rs \<noteq> None"
  proof -
    have "(List.find ?M rs = None) = (filter ?M rs = [])"
      unfolding find_None_iff filter_empty_conv by blast
    then show ?thesis by (simp add: maint)
  qed
  show ?case
  proof (cases "maintenance_candidate s \<noteq> None \<and> maintenance_offset s + 64 \<le> fst x")
    case True
    then obtain m where m: "List.find ?M rs = Some m" and far: "fst m + 64 \<le> fst x" using some offset by auto
    have "List.find ?M (rs @ x # xs) = Some m" using m by (induction rs) auto
    moreover have "takeWhile (\<lambda>y. fst y < fst m + 64) (rs @ x # xs) = rs"
      using Cons.prems(4) [OF m] far by (simp add: list_all_iff)
    ultimately have "scan_window sr p rq other (rs @ x # xs) = rs" by (simp add: scan_window_def)
    with True choice_without_funded [OF Cons.prems(1,3)] show ?thesis by simp
  next
    case False
    have near: "fst x < fst m + 64" if "List.find ?M rs = Some m" for m
      using False some offset that by auto
    show ?thesis
    proof (cases "snd (scan_row sr p rq other s x)")
      case True
      then have x: "row_usable sr p rq other x" "\<not> row_maintenance sr p rq x" "is_funded (snd (row_account x))"
        by (simp_all add: scan_row_taken)
      have "List.find ?M ((rs @ [x]) @ xs) = Some m \<Longrightarrow> m \<in> set (rs @ [x]) \<Longrightarrow> list_all (\<lambda>y. fst y < fst m + 64) (rs @ [x])" for m
      proof -
        assume m: "List.find ?M ((rs @ [x]) @ xs) = Some m" "m \<in> set (rs @ [x])"
        have "?M m" using find_some [OF m(1)] by blast
        with m(2) x(2) have "m \<in> set rs" by auto
        then obtain y where y: "List.find ?M rs = Some y" using \<open>?M m\<close> find_none [of ?M rs m] by (cases "List.find ?M rs") blast+
        then have "List.find ?M ((rs @ [x]) @ xs) = Some y" by (induction rs) auto
        with m(1) have "y = m" by simp
        with y Cons.prems(4) [OF y] near [OF y] show "list_all (\<lambda>y. fst y < fst m + 64) (rs @ [x])" by simp
      qed
      then obtain ys where ys: "scan_window sr p rq other ((rs @ [x]) @ xs) = (rs @ [x]) @ ys"
        using scan_window_prefix [of "rs @ [x]" xs sr p rq other] Cons.prems(2) by auto
      have "row_tier sr p rq x = 0" using x by (simp add: row_tier_def row_rank_cases)
      moreover have "row_tier sr p rq x < row_tier sr p rq a" if "a \<in> set (filter (row_usable sr p rq other) rs)" for a
        using Cons.prems(3) [of a] that x by (auto simp: row_tier_def row_rank_cases)
      ultimately have "best_row sr p rq other (scan_window sr p rq other (rs @ x # xs)) = Some x"
        using ys x(1) best_by_first [of "filter (row_usable sr p rq other) rs" "row_tier sr p rq" x "filter (row_usable sr p rq other) ys"]
        by (simp add: best_row_def)
      with True False show ?thesis
        by (cases "scan_row sr p rq other s x") (auto simp: scan_choice_def row_pick_def row_account_def)
    next
      case skip: False
      then obtain t where step: "scan_row sr p rq other s x = (t, False)" by (cases "scan_row sr p rq other s x") auto
      have "(case scan_rows sr p rq other t xs of (s', found) \<Rightarrow> scan_choice s' found) =
        map_option row_pick (best_row sr p rq other (scan_window sr p rq other ((rs @ [x]) @ xs)))"
      proof (rule Cons.IH)
        show "scanned sr p rq other t (rs @ [x])" using scanned_step [OF Cons.prems(1) skip] by (simp add: step)
        show "sorted_wrt (<) (map fst ((rs @ [x]) @ xs))" using Cons.prems(2) by simp
        show "\<And>y. y \<in> set (rs @ [x]) \<Longrightarrow> row_usable sr p rq other y \<Longrightarrow> \<not> row_maintenance sr p rq y \<Longrightarrow> \<not> is_funded (snd (row_account y))"
          using Cons.prems(3) skip by (auto simp: scan_row_taken)
        show "\<And>m. List.find ?M (rs @ [x]) = Some m \<Longrightarrow> list_all (\<lambda>y. fst y < fst m + 64) (rs @ [x])"
        proof -
          fix m
          assume m: "List.find ?M (rs @ [x]) = Some m"
          show "list_all (\<lambda>y. fst y < fst m + 64) (rs @ [x])"
          proof (cases "List.find ?M rs")
            case None
            with m have "m = x" by (auto simp: find_append_one split: if_splits)
            moreover have "fst y < fst x" if "y \<in> set rs" for y using Cons.prems(2) that by (auto simp: sorted_wrt_append)
            ultimately show ?thesis by (auto simp: list_all_iff less_trans [OF _ less_add_same_cancel1 [THEN iffD2]])
          next
            case (Some y)
            with m have "y = m" by (simp add: find_append_one)
            with Some Cons.prems(4) near show ?thesis by simp
          qed
        qed
      qed
      moreover have "scan_rows sr p rq other s (x # xs) = scan_rows sr p rq other t xs"
        using False by (simp only: scan_rows.simps step if_False prod.case bool.case)
      ultimately show ?thesis by simp
    qed
  qed
qed

section \<open>The dispatch\<close>

lemma scanned_start: "scanned sr p rq other start_scan []"
  by (simp add: scanned_def start_scan_def)

lemma rotation_offsets: "map fst (rotation p) = [0..<length (accounts p)]"
  by (simp add: rotation_def Let_def comp_def)

lemma row_pick_ordinal: "row_pick x = (t, n) \<Longrightarrow> fst (snd x) = n \<and> fst (row_account x) = t"
  by (simp add: row_pick_def)

definition prewarmed_hit :: "surroundings \<Rightarrow> pool \<Rightarrow> image_request \<Rightarrow> bool \<Rightarrow> string option" where
  "prewarmed_hit sr p rq other =
     (if strict_admission (sr_env sr) then List.find (prewarmed_usable sr p rq other) (sr_prewarmed sr) else None)"

lemma find_available_eq:
  assumes "prewarmed_hit sr p rq other = None"
  shows "sel_token (fst (find_available_image_token sr p rq other)) =
      map_option (fst \<circ> row_account) (best_row sr p rq other (scan_window sr p rq other (rotation p))) \<and>
    snd (find_available_image_token sr p rq other) =
      (case best_row sr p rq other (scan_window sr p rq other (rotation p)) of
         None \<Rightarrow> p
       | Some x \<Rightarrow> p\<lparr>image_index := (fst (snd x) + 1) mod length (accounts p)\<rparr>)"
proof (cases "accounts p = []")
  case True
  then have "rotation p = []" by (simp add: rotation_def)
  with True assms show ?thesis
    by (simp add: find_available_image_token_def prewarmed_hit_def scan_window_def best_row_def)
next
  case False
  obtain s found where scan: "scan_rows sr p rq other start_scan (rotation p) = (s, found)" by fastforce
  have "scan_choice s found = map_option row_pick (best_row sr p rq other (scan_window sr p rq other (rotation p)))"
    using scan_rows_best [OF scanned_start [of sr p rq other], of "rotation p"] by (simp add: scan rotation_offsets)
  then show ?thesis using False assms scan
    by (cases "best_row sr p rq other (scan_window sr p rq other (rotation p))")
      (auto simp: find_available_image_token_def prewarmed_hit_def scan_choice_def row_pick_def Let_def)
qed

lemma rotation_accounts: "row_account ` set (rotation p) = set (accounts p)"
proof (cases "accounts p = []")
  case False
  let ?n = "length (accounts p)" and ?c = "image_index p mod length (accounts p)"
  have n: "0 < ?n" using False by simp
  have rows: "row_account ` set (rotation p) = (\<lambda>i. accounts p ! ((?c + i) mod ?n)) ` {0..<?n}"
    by (simp add: rotation_def Let_def image_image row_account_def)
  have "accounts p ! j \<in> (\<lambda>i. accounts p ! ((?c + i) mod ?n)) ` {0..<?n}" if "j < ?n" for j
  proof (rule rev_image_eqI)
    have "?c < ?n" using n by simp
    then have "(?c + (j + ?n - ?c) mod ?n) mod ?n = (?c + (j + ?n - ?c)) mod ?n" by (simp add: mod_add_right_eq)
    also have "\<dots> = j" using \<open>?c < ?n\<close> that by simp
    finally show "accounts p ! j = accounts p ! ((?c + (j + ?n - ?c) mod ?n) mod ?n)" by simp
    show "(j + ?n - ?c) mod ?n \<in> {0..<?n}" using n by simp
  qed
  then have "set (accounts p) \<subseteq> row_account ` set (rotation p)"
    unfolding rows by (metis (no_types, lifting) in_set_conv_nth subsetI)
  moreover have "row_account ` set (rotation p) \<subseteq> set (accounts p)" unfolding rows using n by auto
  ultimately show ?thesis by blast
qed (simp add: rotation_def)

lemma ready_weaker:
  assumes "pr_state (credential_readiness claims a m now) = Ready" and "m' \<le> m" and "0 \<le> m'"
  shows "pr_state (credential_readiness claims a m' now) = Ready"
  using assms by (auto simp: credential_readiness_def Let_def split: option.splits if_splits)

lemma prewarmed_dispatchable:
  assumes "prewarmed_hit sr p rq other = Some token"
  shows "\<exists>a \<in> set (accounts p). fst a = token \<and> dispatchable sr p rq other a"
proof -
  have strict: "strict_admission (sr_env sr)" and "List.find (prewarmed_usable sr p rq other) (sr_prewarmed sr) = Some token"
    using assms by (auto simp: prewarmed_hit_def split: if_splits)
  then have use: "prewarmed_usable sr p rq other token" by (blast dest: find_some)
  then obtain item where item: "map_of (accounts p) token = Some item" by (auto simp: prewarmed_usable_def split: option.splits)
  have "0 \<le> image_token_min_validity (sr_env sr)"
    using env_int_bounds [of 60 86400 "sr_env sr" "''CHATGPT2API_IMAGE_TOKEN_MIN_VALIDITY_SECONDS''" 300]
    by (simp add: image_token_min_validity_def)
  then have "strictly_ready sr p (scan_validity sr rq) token item"
    using use item ready_weaker [of "sr_claims sr" item "of_int (image_token_min_validity (sr_env sr))" "sr_now sr" 0]
    by (auto simp: prewarmed_usable_def strictly_ready_def scan_validity_def split: option.splits if_splits)
  then have "dispatchable sr p rq other (token, item)"
    using use item by (simp add: prewarmed_usable_def dispatchable_def)
  with item show ?thesis by (force dest: map_of_SomeD)
qed

lemma best_row_dispatchable:
  assumes "best_row sr p rq other (scan_window sr p rq other (rotation p)) = Some x"
  shows "row_account x \<in> set (accounts p) \<and> dispatchable sr p rq other (row_account x)"
proof -
  have "x \<in> set (filter (row_usable sr p rq other) (scan_window sr p rq other (rotation p)))"
    using assms unfolding best_row_def by (rule best_by_in)
  then have "x \<in> set (rotation p)" "row_usable sr p rq other x" using scan_window_subset [of sr p rq other "rotation p"] by auto
  then show ?thesis using rotation_accounts by (auto simp: row_usable_def)
qed

lemma best_row_none:
  assumes "best_row sr p rq other (scan_window sr p rq other (rotation p)) = None"
  shows "filter (dispatchable sr p rq other) (accounts p) = []"
proof -
  have none: "\<not> row_usable sr p rq other x" if "x \<in> set (scan_window sr p rq other (rotation p))" for x
    using assms that by (auto simp: best_row_def filter_empty_conv)
  have "scan_window sr p rq other (rotation p) = rotation p"
  proof (cases "List.find (\<lambda>x. row_usable sr p rq other x \<and> row_maintenance sr p rq x) (rotation p)")
    case (Some m)
    have "sorted_wrt (<) (map fst (rotation p))" by (simp add: rotation_offsets)
    moreover obtain as bs where "rotation p = as @ m # bs" and "row_usable sr p rq other m" using find_first [OF Some] by blast
    ultimately have "m \<in> set (scan_window sr p rq other (rotation p))"
      using Some by (fastforce simp: scan_window_def sorted_wrt_append takeWhile_append)
    with none \<open>row_usable sr p rq other m\<close> show ?thesis by blast
  qed (simp add: scan_window_def)
  then have "\<not> dispatchable sr p rq other (row_account x)" if "x \<in> set (rotation p)" for x
    using none that by (simp add: row_usable_def)
  then show ?thesis unfolding filter_empty_conv rotation_accounts [symmetric] by blast
qed

lemma dispatchable_normal:
  "dispatchable sr p rq other (token, item) \<Longrightarrow>
   field item ''status'' = PStr st_normal \<and> \<not> image_quota_needs_verification item \<and> inflight_of p token < slot_limit sr"
  by (auto simp: dispatchable_def is_image_account_available_def is_account_selectable_def split: if_splits)

lemma find_dispatchable:
  assumes "sel_token (fst (find_available_image_token sr p rq other)) = Some token"
  obtains item where "(token, item) \<in> set (accounts p)" "dispatchable sr p rq other (token, item)"
proof (cases "prewarmed_hit sr p rq other")
  case (Some t)
  then have "t = token" using assms by (simp add: find_available_image_token_def prewarmed_hit_def)
  with prewarmed_dispatchable [OF Some] that show thesis by fastforce
next
  case None
  then obtain x where x: "best_row sr p rq other (scan_window sr p rq other (rotation p)) = Some x" "fst (row_account x) = token"
    using find_available_eq [OF None] assms
    by (cases "best_row sr p rq other (scan_window sr p rq other (rotation p))") (simp, metis comp_apply option.map(2) option.inject)
  obtain item where "row_account x = (token, item)" using x(2) by (cases "row_account x") simp
  with best_row_dispatchable [OF x(1)] show thesis by (intro that [of item]) simp_all
qed

lemma find_complete:
  assumes "sel_token (fst (find_available_image_token sr p rq other)) = None"
  shows "filter (dispatchable sr p rq other) (accounts p) = []"
proof (cases "prewarmed_hit sr p rq other")
  case None
  with assms find_available_eq [OF None] show ?thesis by (intro best_row_none) simp
next
  case (Some t)
  with assms show ?thesis by (simp add: find_available_image_token_def prewarmed_hit_def)
qed

section \<open>Properties\<close>

text \<open>C21. The scan of the pool is the reference choice: a prewarmed account that passes every test
  wins; otherwise, with the rows in round-robin order from the cursor and cut 64 rows after the
  first one that needs maintenance, the first row of the best tier is taken (usable before
  maintenance, known quota before warm before any), and the cursor moves behind it. The one-pass
  loop with its three remembered candidates and its early exits computes exactly that.\<close>

theorem dispatch_picks_best:
  "case prewarmed_hit sr p rq other of
     Some token \<Rightarrow> sel_token (fst (find_available_image_token sr p rq other)) = Some token \<and>
       snd (find_available_image_token sr p rq other) = p
   | None \<Rightarrow>
       sel_token (fst (find_available_image_token sr p rq other)) =
         map_option (fst \<circ> row_account) (best_row sr p rq other (scan_window sr p rq other (rotation p))) \<and>
       snd (find_available_image_token sr p rq other) =
         (case best_row sr p rq other (scan_window sr p rq other (rotation p)) of
            None \<Rightarrow> p
          | Some x \<Rightarrow> p\<lparr>image_index := (fst (snd x) + 1) mod length (accounts p)\<rparr>)"
proof (cases "prewarmed_hit sr p rq other")
  case None
  from find_available_eq [OF this] None show ?thesis by simp
next
  case (Some token)
  then show ?thesis by (simp add: find_available_image_token_def prewarmed_hit_def)
qed

text \<open>The dispatch is sound and complete: a token that it returns belongs to an account that is
  not excluded, is of the right shard, plan and source, has normal status and credentials that
  serve, waits for no verification of its image quota, has a free slot, and under strict admission
  is ready for the request; and when it returns none, no account of the pool passes these tests.\<close>

theorem dispatch_sound_complete:
  "case sel_token (fst (find_available_image_token sr p rq other)) of
     Some token \<Rightarrow>
       list_ex (\<lambda>(t, item). t = token \<and> dispatchable sr p rq other (t, item) \<and>
         field item ''status'' = PStr st_normal \<and> \<not> image_quota_needs_verification item \<and>
         inflight_of p t < slot_limit sr) (accounts p)
   | None \<Rightarrow> filter (dispatchable sr p rq other) (accounts p) = []"
proof (cases "sel_token (fst (find_available_image_token sr p rq other))")
  case None
  with find_complete [OF None] show ?thesis by simp
next
  case (Some token)
  from find_dispatchable [OF Some] obtain item
    where "(token, item) \<in> set (accounts p)" "dispatchable sr p rq other (token, item)" .
  with Some dispatchable_normal [of sr p rq other token item] show ?thesis by (auto simp: list_ex_iff)
qed

end
