(* ===== verification/AccountPool.thy ===== *)
theory AccountPool
  imports AccountDispatch TokenAliases
begin

text \<open>
  The image slots of \<open>services/account_service.py\<close>: taking one (\<open>_acquire_next_candidate_token\<close>),
  giving it back (\<open>release_image_slot\<close>), and moving it when the token of its account is rotated
  (\<open>_move_account_runtime_token_locked\<close>); the lookup of a token for an image request
  (\<open>get_available_access_token\<close>) and for a text request (\<open>get_text_access_token\<close>).

  A section under the dispatch lock is one step. Between two turns of a loop the other threads
  have run: a turn gets the surroundings and the pool as it finds them. The sets of pending
  failure refreshes, which a rotation also moves, are not part of the state.
\<close>

section \<open>Slots\<close>

definition pool_tokens :: "pool \<Rightarrow> string list" where
  "pool_tokens p = map fst (accounts p)"

definition resolve_access_token :: "pool \<Rightarrow> string \<Rightarrow> string" where
  "resolve_access_token p token =
     (let token = strip token in
      if token = [] then [] else follow_alias (pool_tokens p) (token_aliases p) [] token)"

definition take_slot :: "string \<Rightarrow> pool \<Rightarrow> pool" where
  "take_slot token p = p\<lparr>image_inflight := AList.update token (inflight_of p token + 1) (image_inflight p)\<rparr>"

definition release_slot_locked :: "string \<Rightarrow> pool \<Rightarrow> pool" where
  "release_slot_locked token p =
     (if inflight_of p token \<le> 1 then p\<lparr>image_inflight := AList.delete token (image_inflight p)\<rparr>
      else p\<lparr>image_inflight := AList.update token (inflight_of p token - 1) (image_inflight p)\<rparr>)"

definition release_image_slot :: "string \<Rightarrow> pool \<Rightarrow> pool" where
  "release_image_slot token p = (if token = [] then p else release_slot_locked (resolve_access_token p token) p)"

text \<open>A rotation: the account moves to its new token (\<open>_apply_refreshed_tokens\<close>), then the aliases
  and the slots of every token that led to it.\<close>

definition alias_sources :: "pool \<Rightarrow> string \<Rightarrow> string list" where
  "alias_sources p old =
     filter (\<lambda>source. resolve_access_token p source = old) (remdups (old # map fst (token_aliases p)))"

definition move_runtime_token :: "string \<Rightarrow> string list \<Rightarrow> pool \<Rightarrow> pool" where
  "move_runtime_token new sources p =
     (let moved = filter (\<lambda>s. s \<noteq> new) sources;
          old_inflight = sum_list (map (inflight_of p) moved);
          rest = fold AList.delete moved (image_inflight p) in
      p\<lparr>token_aliases := fold (\<lambda>s. AList.update s new) moved (token_aliases p),
        image_inflight :=
          (if old_inflight \<noteq> 0
           then AList.update new ((case map_of rest new of None \<Rightarrow> 0 | Some n \<Rightarrow> n) + old_inflight) rest
           else rest)\<rparr>)"

definition rotate_token :: "string \<Rightarrow> string \<Rightarrow> pydict \<Rightarrow> pool \<Rightarrow> pool" where
  "rotate_token old new account p =
     move_runtime_token new (alias_sources p old) (p\<lparr>accounts := AList.update new account (AList.delete old (accounts p))\<rparr>)"

section \<open>One pass of the waiting loop\<close>

datatype selection_error = QuotaExhausted | PoolUnavailable | DeadlineExceeded

text \<open>\<open>ImageAccountSelectionError.DEFAULTS\<close>.\<close>

definition selection_status :: "selection_error \<Rightarrow> int \<times> string \<times> string" where
  "selection_status e =
     (case e of
        QuotaExhausted \<Rightarrow> (429, ''insufficient_quota'', ''insufficient_quota'')
      | PoolUnavailable \<Rightarrow> (503, ''server_error'', ''no_available_account'')
      | DeadlineExceeded \<Rightarrow> (503, ''server_error'', ''task_interrupted''))"

definition resolved_request :: "pool \<Rightarrow> image_request \<Rightarrow> image_request" where
  "resolved_request p rq =
     rq\<lparr>rq_excluded := map (resolve_access_token p) (filter (\<lambda>t. t \<noteq> []) (rq_excluded rq))\<rparr>"

text \<open>The scan of the own shard, and under strict admission with a coordinator that of the others.\<close>

definition scan_pool :: "surroundings \<Rightarrow> bool \<Rightarrow> image_request \<Rightarrow> pool \<Rightarrow> selection \<times> pool" where
  "scan_pool sr coordinated rq p =
     (let rq = resolved_request p rq; (own, p1) = find_available_image_token sr p rq False in
      if sel_token own = None \<and> 1 < shard_count p \<and> strict_admission (sr_env sr) \<and> coordinated then
        (let (others, p2) = find_available_image_token sr p1 rq True in
         (\<lparr>sel_token = sel_token others, sel_ready = sel_ready own + sel_ready others,
           sel_matched = sel_matched own + sel_matched others, sel_limited = sel_limited own + sel_limited others,
           sel_busy = sel_busy own + sel_busy others, sel_upload_limited = sel_upload_limited own + sel_upload_limited others\<rparr>, p2))
      else (own, p1))"

datatype pass = Selected string | EmptyPool | BusyPool | Failure selection_error

definition acquire_pass ::
  "surroundings \<Rightarrow> bool \<Rightarrow> image_request \<Rightarrow> rat option \<Rightarrow> rat \<Rightarrow> rat \<Rightarrow> pool \<Rightarrow> pass \<times> pool" where
  "acquire_pass sr coordinated rq deadline pool_wait_deadline busy_wait_deadline p =
     (if (case deadline of None \<Rightarrow> False | Some d \<Rightarrow> d \<le> sr_monotonic sr) then (Failure DeadlineExceeded, p)
      else
        (let (sel, p) = scan_pool sr coordinated rq p in
         if sel_ready sel = 0 then
           (if pool_wait_deadline \<le> sr_monotonic sr
            then (Failure (if 0 < sel_matched sel \<and> sel_limited sel = sel_matched sel then QuotaExhausted else PoolUnavailable), p)
            else (EmptyPool, p))
         else case sel_token sel of
           Some token \<Rightarrow> (Selected token, take_slot token p)
         | None \<Rightarrow> if busy_wait_deadline \<le> sr_monotonic sr then (Failure PoolUnavailable, p) else (BusyPool, p)))"

text \<open>\<open>_acquire_next_candidate_token\<close>: None when the turns given are used up.\<close>

definition pool_wait_seconds :: "environ \<Rightarrow> int" where
  "pool_wait_seconds env = env_int env ''CHATGPT2API_IMAGE_RETRY_AFTER_SECS'' 2 0 (Some 30)"

definition busy_wait_seconds :: "environ \<Rightarrow> int" where
  "busy_wait_seconds env = env_int env ''CHATGPT2API_IMAGE_BUSY_WAIT_SECONDS'' 30 0 (Some 120)"

definition wait_deadlines :: "environ \<Rightarrow> rat \<Rightarrow> rat option \<Rightarrow> rat option \<Rightarrow> rat \<times> rat" where
  "wait_deadlines env start deadline busy =
     (let pool_wait = start + of_int (pool_wait_seconds env) in
      (pool_wait,
       (case deadline of
          None \<Rightarrow> pool_wait
        | Some d \<Rightarrow> min d (case busy of
            None \<Rightarrow> start + max (of_int (pool_wait_seconds env)) (of_int (busy_wait_seconds env))
          | Some b \<Rightarrow> b))))"

fun acquire_turns ::
  "bool \<Rightarrow> image_request \<Rightarrow> rat option \<Rightarrow> rat \<times> rat \<Rightarrow> (surroundings \<times> pool) list \<Rightarrow> ((selection_error + string) \<times> pool) option" where
  "acquire_turns coordinated rq deadline waits [] = None"
| "acquire_turns coordinated rq deadline waits ((sr, p) # turns) =
     (case acquire_pass sr coordinated rq deadline (fst waits) (snd waits) p of
        (Selected token, p) \<Rightarrow> Some (Inr token, p)
      | (Failure e, p) \<Rightarrow> Some (Inl e, p)
      | _ \<Rightarrow> acquire_turns coordinated rq deadline waits turns)"

section \<open>After the slot is taken\<close>

text \<open>What the lease of the credential (under strict admission) or the maintenance of its token brings:
  the token to use, a busy credential with its reason and its retry time, any other failure that
  makes the request try another account, or an error that ends it.\<close>

datatype lease_outcome = Granted string | LeaseBusy string "int option" | LeaseFailed | LeaseAborted

datatype lookup = Acquired string | TryAnother | Refused selection_error | Aborted

text \<open>\<open>_require_usable_access_token\<close> and \<open>_validate_image_lease\<close>; None for their errors.\<close>

definition require_usable_access_token :: "surroundings \<Rightarrow> string \<Rightarrow> pydict \<Rightarrow> string option" where
  "require_usable_access_token sr access_token account =
     (let token = strip (py_str (py_or (py_or (field account ''access_token'') (PStr access_token)) (PStr [])));
          availability = project_upstream_credential_availability (sr_claims sr) token []
            (field account ''last_remote_check_result'' = PStr ''invalid'') False \<lfloor>sr_now sr\<rfloor> in
      if al_status (ca_access availability) = AccessInvalid then None else Some token)"

definition validate_image_lease :: "surroundings \<Rightarrow> bool \<Rightarrow> string \<Rightarrow> pool \<Rightarrow> string option" where
  "validate_image_lease sr requires_upload access_token p =
     (let token = resolve_access_token p access_token in
      case map_of (accounts p) token of
        None \<Rightarrow> None
      | Some account \<Rightarrow>
          if \<not> is_image_account_available sr account \<or> requires_upload \<and> upload_blocked account (sr_now sr) then None
          else require_usable_access_token sr token account)"

definition note_busy :: "surroundings \<Rightarrow> string \<Rightarrow> string \<Rightarrow> int option \<Rightarrow> pool \<Rightarrow> pool" where
  "note_busy sr token reason retry_after p =
     (case map_of (accounts p) token of
        None \<Rightarrow> p
      | Some current \<Rightarrow>
          if current = [] then p
          else if reason = ''file_upload_throttled'' then
            p\<lparr>accounts := AList.update token (AList.update ''file_upload_blocked_until''
                (PFloat (Fin (max (upload_blocked_until current)
                  (sr_now sr + of_int (upload_cooldown_seconds (sr_env sr) retry_after))))) current) (accounts p)\<rparr>
          else
            (let duration = (if reason \<in> {''refresh_outcome_uncertain'', ''credential_refresh_pending''} then 30 else 1) in
             p\<lparr>credential_blocked := AList.update token
                 (sr_monotonic sr + duration, credential_generation token current) (credential_blocked p)\<rparr>))"

definition finish_lookup ::
  "surroundings \<Rightarrow> bool \<Rightarrow> rat option \<Rightarrow> string \<Rightarrow> lease_outcome \<Rightarrow> pool \<Rightarrow> lookup \<times> pool" where
  "finish_lookup sr requires_upload deadline token outcome p =
     (let late = (case deadline of None \<Rightarrow> False | Some d \<Rightarrow> d \<le> sr_monotonic sr);
          outcome = (case outcome of
            Granted active \<Rightarrow>
              if late \<or> strict_admission (sr_env sr) then outcome
              else (case validate_image_lease sr requires_upload active p of None \<Rightarrow> LeaseFailed | Some t \<Rightarrow> Granted t)
          | _ \<Rightarrow> outcome) in
      case outcome of
        Granted active \<Rightarrow> if late then (Refused DeadlineExceeded, release_image_slot token p) else (Acquired active, p)
      | LeaseBusy reason retry_after \<Rightarrow>
          (if late then Refused DeadlineExceeded else TryAnother, note_busy sr token reason retry_after (release_image_slot token p))
      | LeaseFailed \<Rightarrow> (if late then Refused DeadlineExceeded else TryAnother, release_image_slot token p)
      | LeaseAborted \<Rightarrow> (Aborted, release_image_slot token p))"

section \<open>A token for a text request\<close>

datatype ensured = Ensured string | EnsureRetry | EnsureRaised

definition text_candidates :: "surroundings \<Rightarrow> string list \<Rightarrow> pool \<Rightarrow> string list" where
  "text_candidates sr attempted p =
     filter (\<lambda>token. token \<noteq> [] \<and> token \<notin> set attempted)
       (map (\<lambda>account. text_of account ''access_token'') (filter (is_account_selectable sr True True) (map snd (accounts p))))"

text \<open>\<open>get_text_access_token\<close> on an unchanging pool, with what \<open>ensure_access_token\<close> does for each token.\<close>

function text_lookup :: "surroundings \<Rightarrow> (string \<Rightarrow> ensured) \<Rightarrow> string list \<Rightarrow> pool \<Rightarrow> ensured \<times> pool" where
  "text_lookup sr ensure attempted p =
     (let cands = text_candidates sr attempted p in
      if cands = [] then (Ensured [], p)
      else
        (let token = cands ! (text_index p mod length cands); p = p\<lparr>text_index := text_index p + 1\<rparr> in
         case ensure token of
           EnsureRetry \<Rightarrow> text_lookup sr ensure (token # attempted) p
         | outcome \<Rightarrow> (outcome, p)))"
  by pat_completeness auto

lemma text_candidates_index [simp]: "text_candidates sr attempted (p\<lparr>text_index := n\<rparr>) = text_candidates sr attempted p"
  by (simp add: text_candidates_def)

lemma text_candidates_Cons:
  "text_candidates sr (t # attempted) p = filter (\<lambda>u. u \<noteq> t) (text_candidates sr attempted p)"
  by (auto simp: text_candidates_def intro: filter_cong)

lemma text_candidates_fewer:
  "t \<in> set (text_candidates sr attempted p) \<Longrightarrow>
   length (text_candidates sr (t # attempted) p) < length (text_candidates sr attempted p)"
  unfolding text_candidates_Cons by (rule length_filter_less) auto

termination text_lookup
  by (relation "measure (\<lambda>(sr, _, attempted, p). length (text_candidates sr attempted p))")
    (auto intro!: text_candidates_fewer)

declare text_lookup.simps [simp del]

section \<open>Slots and leases\<close>

text \<open>The pool with the tokens whose slots are held. Every change of the slots, of the aliases, and of
  the tokens of the accounts other than by import and removal is an operation.\<close>

record slot_state =
  sl_pool :: pool
  sl_leases :: "string list"

datatype slot_op =
    TakeSlot surroundings bool image_request "rat option" rat rat
  | FinishLookup surroundings bool "rat option" string lease_outcome
  | ReleaseSlot string
  | RotateToken string string pydict
  | PruneAliases
  | UpdateRow string pydict

fun slot_step :: "slot_state \<Rightarrow> slot_op \<Rightarrow> slot_state" where
  "slot_step s (TakeSlot sr coordinated rq deadline pw bw) =
     (case acquire_pass sr coordinated rq deadline pw bw (sl_pool s) of
        (Selected token, p) \<Rightarrow> s\<lparr>sl_pool := p, sl_leases := token # sl_leases s\<rparr>
      | (_, p) \<Rightarrow> s\<lparr>sl_pool := p\<rparr>)"
| "slot_step s (FinishLookup sr requires_upload deadline token outcome) =
     (case finish_lookup sr requires_upload deadline token outcome (sl_pool s) of
        (Acquired active, p) \<Rightarrow> s\<lparr>sl_pool := p, sl_leases := active # remove1 token (sl_leases s)\<rparr>
      | (_, p) \<Rightarrow> s\<lparr>sl_pool := p, sl_leases := remove1 token (sl_leases s)\<rparr>)"
| "slot_step s (ReleaseSlot token) =
     s\<lparr>sl_pool := release_image_slot token (sl_pool s), sl_leases := remove1 token (sl_leases s)\<rparr>"
| "slot_step s (RotateToken old new account) = s\<lparr>sl_pool := rotate_token old new account (sl_pool s)\<rparr>"
| "slot_step s PruneAliases =
     s\<lparr>sl_pool := (sl_pool s)\<lparr>token_aliases := prune_token_aliases (pool_tokens (sl_pool s)) (token_aliases (sl_pool s))\<rparr>\<rparr>"
| "slot_step s (UpdateRow token account) =
     s\<lparr>sl_pool := (sl_pool s)\<lparr>accounts := AList.update token account (accounts (sl_pool s))\<rparr>\<rparr>"

text \<open>A slot is given back by its holder, and the token that a lookup returns in place of the one whose
  slot it took is one of the same account; a rotation goes from a token of the pool to one that is none,
  and was none of another account before.\<close>

fun slot_allowed :: "int \<Rightarrow> slot_state \<Rightarrow> slot_op \<Rightarrow> bool" where
  "slot_allowed m s (TakeSlot sr coordinated rq deadline pw bw) = (slot_limit sr \<le> m)"
| "slot_allowed m s (FinishLookup sr requires_upload deadline token outcome) =
     (token \<in> set (sl_leases s) \<and>
      (case fst (finish_lookup sr requires_upload deadline token outcome (sl_pool s)) of
         Acquired active \<Rightarrow> resolve_access_token (sl_pool s) active = resolve_access_token (sl_pool s) token
       | _ \<Rightarrow> True))"
| "slot_allowed m s (ReleaseSlot token) = (token \<in> set (sl_leases s))"
| "slot_allowed m s (RotateToken old new account) =
     (let p = sl_pool s in
      old \<in> set (pool_tokens p) \<and> new \<notin> set (pool_tokens p) \<and> new \<noteq> [] \<and> strip new = new \<and>
      (map_of (token_aliases p) new = None \<or> resolve_access_token p new = old))"
| "slot_allowed m s PruneAliases = True"
| "slot_allowed m s (UpdateRow token account) = (token \<in> set (pool_tokens (sl_pool s)))"

definition token_word :: "string \<Rightarrow> bool" where
  "token_word t \<longleftrightarrow> t \<noteq> [] \<and> strip t = t"

definition tokens_ok :: "pool \<Rightarrow> bool" where
  "tokens_ok p \<longleftrightarrow> list_all token_word (pool_tokens p) \<and> list_all token_word (map fst (token_aliases p))"

definition slots_ok :: "int \<Rightarrow> slot_state \<Rightarrow> bool" where
  "slots_ok m s \<longleftrightarrow>
     tokens_ok (sl_pool s) \<and>
     (\<forall>l \<in> set (sl_leases s). resolve_access_token (sl_pool s) l \<in> set (pool_tokens (sl_pool s))) \<and>
     (\<forall>t. inflight_of (sl_pool s) t = int (count_list (map (resolve_access_token (sl_pool s)) (sl_leases s)) t)) \<and>
     (\<forall>t. inflight_of (sl_pool s) t \<le> m)"

abbreviation aliases_of :: "pool \<Rightarrow> string \<rightharpoonup> string" where
  "aliases_of p \<equiv> map_of (token_aliases p)"

lemma resolve_leads:
  assumes "tokens_ok p"
  shows "leads_to (pool_tokens p) (aliases_of p) (strip l) r \<longleftrightarrow>
    resolve_access_token p l = r \<and> r \<in> set (pool_tokens p)"
proof (cases "strip l = []")
  case True
  have empty: "[] \<notin> set (pool_tokens p)" "[] \<notin> set (map fst (token_aliases p))"
    using assms by (auto simp: tokens_ok_def token_word_def list_all_iff)
  then have "map_of (token_aliases p) [] = None" by (simp add: map_of_eq_None_iff)
  with empty have "\<not> leads_to (pool_tokens p) (aliases_of p) [] r"
    unfolding leads_to_follow by (simp add: follow_alias.simps)
  with True empty show ?thesis by (auto simp: resolve_access_token_def)
next
  case False
  then show ?thesis by (simp add: leads_to_follow resolve_access_token_def Let_def)
qed

lemma resolve_self: "tokens_ok p \<Longrightarrow> t \<in> set (pool_tokens p) \<Longrightarrow> resolve_access_token p t = t"
  using resolve_leads [of p t t] leads_to_self [of t "pool_tokens p" "aliases_of p"]
  by (auto simp: tokens_ok_def token_word_def list_all_iff)

lemma resolve_same_maps:
  "pool_tokens q = pool_tokens p \<Longrightarrow> token_aliases q = token_aliases p \<Longrightarrow> resolve_access_token q = resolve_access_token p"
  by (rule ext) (simp add: resolve_access_token_def Let_def)

lemma find_keeps:
  "accounts (snd (find_available_image_token sr p rq other)) = accounts p \<and>
   token_aliases (snd (find_available_image_token sr p rq other)) = token_aliases p \<and>
   image_inflight (snd (find_available_image_token sr p rq other)) = image_inflight p"
proof (cases "prewarmed_hit sr p rq other")
  case None
  from find_available_eq [OF None] show ?thesis by (simp split: option.split)
next
  case (Some t)
  then show ?thesis by (simp add: find_available_image_token_def prewarmed_hit_def)
qed

lemma scan_pool_keeps:
  assumes "scan_pool sr coordinated rq p = (sel, q)"
  shows "accounts q = accounts p" "token_aliases q = token_aliases p" "image_inflight q = image_inflight p"
  using assms find_keeps [of sr p "resolved_request p rq" False]
    find_keeps [of sr "snd (find_available_image_token sr p (resolved_request p rq) False)" "resolved_request p rq" True]
  by (auto simp: scan_pool_def Let_def split: prod.splits if_splits)

lemma found_in_pool:
  assumes "sel_token (fst (find_available_image_token sr p rq other)) = Some token"
  shows "token \<in> set (pool_tokens p) \<and> inflight_of p token < slot_limit sr"
proof -
  obtain item where "(token, item) \<in> set (accounts p)" "dispatchable sr p rq other (token, item)"
    by (rule find_dispatchable [OF assms])
  with dispatchable_normal show ?thesis by (force simp: pool_tokens_def)
qed

lemma scan_pool_token:
  assumes "scan_pool sr coordinated rq p = (sel, q)" and "sel_token sel = Some token"
  shows "token \<in> set (pool_tokens p) \<and> inflight_of p token < slot_limit sr"
proof -
  obtain own p1 where own: "find_available_image_token sr p (resolved_request p rq) False = (own, p1)" by fastforce
  obtain others p2 where others: "find_available_image_token sr p1 (resolved_request p rq) True = (others, p2)" by fastforce
  have p1: "accounts p1 = accounts p" "image_inflight p1 = image_inflight p" using find_keeps [of sr p "resolved_request p rq" False] own by simp_all
  consider "sel_token own = Some token" | "sel_token others = Some token"
    using assms own others by (auto simp: scan_pool_def Let_def split: if_splits)
  then show ?thesis
  proof cases
    case 1
    then show ?thesis using found_in_pool [of sr p "resolved_request p rq" False] own by simp
  next
    case 2
    then show ?thesis using found_in_pool [of sr p1 "resolved_request p rq" True] others p1
      by (simp add: pool_tokens_def inflight_of_def)
  qed
qed

section \<open>Every step keeps the books\<close>

lemma inflight_update: "inflight_of (p\<lparr>image_inflight := AList.update t n d\<rparr>) u = (if u = t then n else inflight_of (p\<lparr>image_inflight := d\<rparr>) u)"
  by (simp add: inflight_of_def)

lemma take_slot_parts [simp]:
  "pool_tokens (take_slot t p) = pool_tokens p" "token_aliases (take_slot t p) = token_aliases p"
  "inflight_of (take_slot t p) u = (if u = t then inflight_of p t + 1 else inflight_of p u)"
  by (simp_all add: take_slot_def pool_tokens_def inflight_of_def)

lemma release_parts [simp]:
  "pool_tokens (release_slot_locked t p) = pool_tokens p" "token_aliases (release_slot_locked t p) = token_aliases p"
  by (simp_all add: release_slot_locked_def pool_tokens_def)

lemma release_inflight:
  "0 < inflight_of p t \<Longrightarrow> inflight_of (release_slot_locked t p) u = (if u = t then inflight_of p t - 1 else inflight_of p u)"
  by (simp add: release_slot_locked_def inflight_of_def)

lemma slots_tokens: "slots_ok m s \<Longrightarrow> tokens_ok (sl_pool s)"
  and slots_live: "slots_ok m s \<Longrightarrow> l \<in> set (sl_leases s) \<Longrightarrow> resolve_access_token (sl_pool s) l \<in> set (pool_tokens (sl_pool s))"
  and slots_count: "slots_ok m s \<Longrightarrow>
    inflight_of (sl_pool s) t = int (count_list (map (resolve_access_token (sl_pool s)) (sl_leases s)) t)"
  and slots_bound: "slots_ok m s \<Longrightarrow> inflight_of (sl_pool s) t \<le> m"
  unfolding slots_ok_def by blast+

lemma slots_okI:
  assumes "tokens_ok (sl_pool s)"
    and "\<And>l. l \<in> set (sl_leases s) \<Longrightarrow> resolve_access_token (sl_pool s) l \<in> set (pool_tokens (sl_pool s))"
    and "\<And>t. inflight_of (sl_pool s) t = int (count_list (map (resolve_access_token (sl_pool s)) (sl_leases s)) t)"
    and "\<And>t. inflight_of (sl_pool s) t \<le> m"
  shows "slots_ok m s"
  unfolding slots_ok_def using assms by blast

text \<open>Changes of the aliases and the rows that leave the held tokens where they lead.\<close>

lemma slots_same_leads:
  assumes ok: "slots_ok m s" and q: "tokens_ok q" and infl: "image_inflight q = image_inflight (sl_pool s)"
    and leads: "\<And>l. resolve_access_token (sl_pool s) l \<in> set (pool_tokens (sl_pool s)) \<Longrightarrow>
      resolve_access_token q l = resolve_access_token (sl_pool s) l \<and> resolve_access_token q l \<in> set (pool_tokens q)"
  shows "slots_ok m (s\<lparr>sl_pool := q\<rparr>)"
proof -
  have same: "resolve_access_token q l = resolve_access_token (sl_pool s) l \<and> resolve_access_token q l \<in> set (pool_tokens q)"
    if "l \<in> set (sl_leases s)" for l
    using leads [OF slots_live [OF ok that]] .
  then have maps: "map (resolve_access_token q) (sl_leases s) = map (resolve_access_token (sl_pool s)) (sl_leases s)" by simp
  have i: "inflight_of q = inflight_of (sl_pool s)" using infl by (simp add: inflight_of_def fun_eq_iff)
  show ?thesis
  proof (rule slots_okI)
    show "tokens_ok (sl_pool (s\<lparr>sl_pool := q\<rparr>))" using q by simp
    show "resolve_access_token (sl_pool (s\<lparr>sl_pool := q\<rparr>)) l \<in> set (pool_tokens (sl_pool (s\<lparr>sl_pool := q\<rparr>)))"
      if "l \<in> set (sl_leases (s\<lparr>sl_pool := q\<rparr>))" for l
      using conjunct2 [OF same [of l]] that by simp
    show "inflight_of (sl_pool (s\<lparr>sl_pool := q\<rparr>)) t = int (count_list
        (map (resolve_access_token (sl_pool (s\<lparr>sl_pool := q\<rparr>))) (sl_leases (s\<lparr>sl_pool := q\<rparr>))) t)" for t
      using slots_count [OF ok, of t] by (simp add: i maps del: map_eq_conv)
    show "inflight_of (sl_pool (s\<lparr>sl_pool := q\<rparr>)) t \<le> m" for t using slots_bound [OF ok, of t] i by simp
  qed
qed

lemma slots_take:
  assumes ok: "slots_ok m s" and m: "slot_limit sr \<le> m"
  shows "slots_ok m (slot_step s (TakeSlot sr coordinated rq deadline pw bw))"
proof -
  let ?p = "sl_pool s"
  obtain out q where pass: "acquire_pass sr coordinated rq deadline pw bw ?p = (out, q)" by fastforce
  obtain sel r where scan: "scan_pool sr coordinated rq ?p = (sel, r)" by fastforce
  have r: "pool_tokens r = pool_tokens ?p" "token_aliases r = token_aliases ?p" "image_inflight r = image_inflight ?p"
    using scan_pool_keeps [OF scan] by (simp_all add: pool_tokens_def)
  have ir: "inflight_of r = inflight_of ?p" using r by (simp add: inflight_of_def fun_eq_iff)
  have res: "resolve_access_token r = resolve_access_token ?p" using r by (intro resolve_same_maps)
  have tr: "tokens_ok r" using slots_tokens [OF ok] r by (simp add: tokens_ok_def)
  have ok_r: "slots_ok m (s\<lparr>sl_pool := r\<rparr>)" using r res by (intro slots_same_leads [OF ok tr]) simp_all
  show ?thesis
  proof (cases out)
    case (Selected token)
    then have q: "q = take_slot token r" and sel: "sel_token sel = Some token"
      using pass scan by (auto simp: acquire_pass_def Let_def split: if_splits option.splits)
    have token: "token \<in> set (pool_tokens ?p)" "inflight_of ?p token < slot_limit sr"
      using scan_pool_token [OF scan sel] by simp_all
    have rq: "resolve_access_token q = resolve_access_token ?p" using q r by (intro resolve_same_maps) simp_all
    have self: "resolve_access_token ?p token = token" using slots_tokens [OF ok] token(1) by (rule resolve_self)
    have "slots_ok m (s\<lparr>sl_pool := q, sl_leases := token # sl_leases s\<rparr>)" (is "slots_ok m ?s'")
    proof (rule slots_okI)
      show "tokens_ok (sl_pool ?s')" using tr q by (simp add: tokens_ok_def)
      show "resolve_access_token (sl_pool ?s') l \<in> set (pool_tokens (sl_pool ?s'))" if "l \<in> set (sl_leases ?s')" for l
        using that token(1) self slots_live [OF ok, of l] rq q r by auto
      show "inflight_of (sl_pool ?s') t = int (count_list (map (resolve_access_token (sl_pool ?s')) (sl_leases ?s')) t)" for t
        using slots_count [OF ok, of t] rq self q ir by auto
      show "inflight_of (sl_pool ?s') t \<le> m" for t
        using slots_bound [OF ok, of t] token(2) m q ir by auto
    qed
    with Selected pass show ?thesis by simp
  next
    case (Failure e)
    with pass scan have "q = r \<or> q = ?p" by (auto simp: acquire_pass_def Let_def split: if_splits option.splits)
    with ok_r ok Failure pass show ?thesis by auto
  next
    case EmptyPool
    with pass scan have "q = r" by (auto simp: acquire_pass_def Let_def split: if_splits option.splits)
    with ok_r EmptyPool pass show ?thesis by simp
  next
    case BusyPool
    with pass scan have "q = r" by (auto simp: acquire_pass_def Let_def split: if_splits option.splits)
    with ok_r BusyPool pass show ?thesis by simp
  qed
qed

lemma count_map_member: "x \<in> set xs \<Longrightarrow> 0 < count_list (map f xs) (f x)"
  by (induction xs) auto

lemma count_map_remove1:
  "x \<in> set xs \<Longrightarrow> int (count_list (map f (remove1 x xs)) t) = int (count_list (map f xs) t) - (if f x = t then 1 else 0)"
  by (induction xs) auto

lemma slots_release:
  assumes ok: "slots_ok m s" and l: "l \<in> set (sl_leases s)"
  shows "slots_ok m (slot_step s (ReleaseSlot l))"
proof -
  let ?p = "sl_pool s" and ?r = "resolve_access_token (sl_pool s) l"
  have r: "?r \<in> set (pool_tokens ?p)" using ok l by (rule slots_live)
  then have "?r \<noteq> []" using slots_tokens [OF ok] by (auto simp: tokens_ok_def token_word_def list_all_iff)
  then have "l \<noteq> []" by (auto simp: resolve_access_token_def)
  have pos: "0 < inflight_of ?p ?r"
    using count_map_member [OF l, of "resolve_access_token ?p"] slots_count [OF ok, of ?r] by simp
  let ?q = "release_slot_locked ?r ?p"
  have res: "resolve_access_token ?q = resolve_access_token ?p" by (intro resolve_same_maps) simp_all
  have "slots_ok m (s\<lparr>sl_pool := ?q, sl_leases := remove1 l (sl_leases s)\<rparr>)" (is "slots_ok m ?s'")
  proof (rule slots_okI)
    show "tokens_ok (sl_pool ?s')" using slots_tokens [OF ok] by (simp add: tokens_ok_def)
    show "resolve_access_token (sl_pool ?s') k \<in> set (pool_tokens (sl_pool ?s'))" if "k \<in> set (sl_leases ?s')" for k
      using slots_live [OF ok, of k] that set_remove1_subset [of l "sl_leases s"] res by auto
    show "inflight_of (sl_pool ?s') t = int (count_list (map (resolve_access_token (sl_pool ?s')) (sl_leases ?s')) t)" for t
      using slots_count [OF ok, of t] count_map_remove1 [OF l, of "resolve_access_token ?p" t] res
      by (auto simp: release_inflight [OF pos])
    show "inflight_of (sl_pool ?s') t \<le> m" for t
      using slots_bound [OF ok, of t] slots_bound [OF ok, of ?r] by (simp add: release_inflight [OF pos])
  qed
  with \<open>l \<noteq> []\<close> show ?thesis by (simp add: release_image_slot_def)
qed

lemma slots_swap:
  assumes ok: "slots_ok m s" and l: "l \<in> set (sl_leases s)"
    and a: "resolve_access_token (sl_pool s) a = resolve_access_token (sl_pool s) l"
  shows "slots_ok m (s\<lparr>sl_leases := a # remove1 l (sl_leases s)\<rparr>)" (is "slots_ok m ?s'")
proof (rule slots_okI)
  show "tokens_ok (sl_pool ?s')" using slots_tokens [OF ok] by simp
  show "resolve_access_token (sl_pool ?s') k \<in> set (pool_tokens (sl_pool ?s'))" if "k \<in> set (sl_leases ?s')" for k
    using that slots_live [OF ok l] slots_live [OF ok, of k] a set_remove1_subset [of l "sl_leases s"] by auto
  show "inflight_of (sl_pool ?s') t = int (count_list (map (resolve_access_token (sl_pool ?s')) (sl_leases ?s')) t)" for t
    using slots_count [OF ok, of t] count_map_remove1 [OF l, of "resolve_access_token (sl_pool s)" t] a by auto
  show "inflight_of (sl_pool ?s') t \<le> m" for t using slots_bound [OF ok, of t] by simp
qed

lemma slots_note_busy:
  assumes ok: "slots_ok m s"
  shows "slots_ok m (s\<lparr>sl_pool := note_busy sr token reason retry_after (sl_pool s)\<rparr>)"
proof -
  let ?q = "note_busy sr token reason retry_after (sl_pool s)"
  have q: "pool_tokens ?q = pool_tokens (sl_pool s)" "token_aliases ?q = token_aliases (sl_pool s)"
    "image_inflight ?q = image_inflight (sl_pool s)"
    by (auto simp: note_busy_def pool_tokens_def update_keys Let_def dest: map_of_SomeD split: option.split
        intro: rev_image_eqI)
  have res: "resolve_access_token ?q = resolve_access_token (sl_pool s)" using q by (intro resolve_same_maps)
  have "tokens_ok ?q" using slots_tokens [OF ok] q by (simp add: tokens_ok_def)
  then show ?thesis using q res by (intro slots_same_leads [OF ok]) simp_all
qed

lemma finish_lookup_pool:
  assumes "finish_lookup sr u deadline token outcome p = (out, q)"
  shows "(\<exists>a. out = Acquired a) \<and> q = p \<or>
    (\<forall>a. out \<noteq> Acquired a) \<and> (q = release_image_slot token p \<or>
      (\<exists>reason after. q = note_busy sr token reason after (release_image_slot token p)))"
  using assms unfolding finish_lookup_def Let_def
  by (cases outcome) (auto split: if_splits option.splits)

lemma slots_finish:
  assumes ok: "slots_ok m s" and allowed: "slot_allowed m s (FinishLookup sr u deadline token outcome)"
  shows "slots_ok m (slot_step s (FinishLookup sr u deadline token outcome))"
proof -
  obtain out q where fin: "finish_lookup sr u deadline token outcome (sl_pool s) = (out, q)" by fastforce
  have l: "token \<in> set (sl_leases s)" using allowed by simp
  show ?thesis
  proof (cases "\<exists>a. out = Acquired a")
    case True
    then obtain a where a: "out = Acquired a" by blast
    with finish_lookup_pool [OF fin] have "q = sl_pool s" by blast
    moreover have "resolve_access_token (sl_pool s) a = resolve_access_token (sl_pool s) token" using allowed fin a by simp
    ultimately show ?thesis using slots_swap [OF ok l] fin a by simp
  next
    case False
    have released: "slots_ok m (slot_step s (ReleaseSlot token))" by (rule slots_release [OF ok l])
    have step: "slot_step s (FinishLookup sr u deadline token outcome) = s\<lparr>sl_pool := q, sl_leases := remove1 token (sl_leases s)\<rparr>"
      using False fin by (cases out) auto
    from False finish_lookup_pool [OF fin] consider "q = release_image_slot token (sl_pool s)"
      | reason after where "q = note_busy sr token reason after (release_image_slot token (sl_pool s))" by blast
    then show ?thesis
    proof cases
      case 1
      with released step show ?thesis by simp
    next
      case 2
      with slots_note_busy [OF released] step show ?thesis by (cases s) simp
    qed
  qed
qed

lemma list_all_subset: "set xs \<subseteq> set ys \<Longrightarrow> list_all P ys \<Longrightarrow> list_all P xs"
  by (auto simp: list_all_iff)

lemma slots_prune:
  assumes ok: "slots_ok m s"
  shows "slots_ok m (slot_step s PruneAliases)"
proof -
  let ?p = "sl_pool s"
  let ?q = "?p\<lparr>token_aliases := prune_token_aliases (pool_tokens ?p) (token_aliases ?p)\<rparr>"
  have t: "tokens_ok ?p" using ok by (rule slots_tokens)
  have keys: "set (map fst (prune_token_aliases (pool_tokens ?p) (token_aliases ?p))) \<subseteq> set (map fst (token_aliases ?p))"
    by (auto simp: prune_token_aliases_def map_filter_def Let_def split: if_splits intro: rev_image_eqI)
  have tq: "tokens_ok ?q"
    using t list_all_subset [OF keys] by (simp add: tokens_ok_def pool_tokens_def)
  have "slots_ok m (s\<lparr>sl_pool := ?q\<rparr>)"
  proof (rule slots_same_leads [OF ok tq])
    fix l
    assume "resolve_access_token ?p l \<in> set (pool_tokens ?p)"
    then have "leads_to (pool_tokens ?p) (aliases_of ?p) (strip l) (resolve_access_token ?p l)" using resolve_leads [OF t] by blast
    from leads_to_pruned [OF this]
    have "leads_to (pool_tokens ?q) (aliases_of ?q) (strip l) (resolve_access_token ?p l)" by (simp add: pool_tokens_def)
    then show "resolve_access_token ?q l = resolve_access_token ?p l \<and> resolve_access_token ?q l \<in> set (pool_tokens ?q)"
      using resolve_leads [OF tq] by auto
  qed simp
  then show ?thesis by simp
qed

lemma set_keys_update: "set (map fst (AList.update k v al)) = insert k (set (map fst al))"
  by (induction al) auto

lemma slots_row:
  assumes ok: "slots_ok m s" and "token \<in> set (pool_tokens (sl_pool s))"
  shows "slots_ok m (slot_step s (UpdateRow token account))"
proof -
  let ?q = "(sl_pool s)\<lparr>accounts := AList.update token account (accounts (sl_pool s))\<rparr>"
  have keys: "set (pool_tokens ?q) = set (pool_tokens (sl_pool s))"
    using insert_absorb [OF assms(2)] by (simp add: pool_tokens_def set_keys_update del: set_map)
  have t: "tokens_ok (sl_pool s)" using ok by (rule slots_tokens)
  then have tq: "tokens_ok ?q" using keys by (simp add: tokens_ok_def list_all_iff)
  have same: "leads_to (pool_tokens ?q) A l r" if w: "leads_to (pool_tokens (sl_pool s)) A l r" for A l r
  proof -
    obtain n where "alias_walk n (pool_tokens (sl_pool s)) A l r" using w by (auto simp: leads_to_def)
    then have "alias_walk n (pool_tokens ?q) A l r" using keys by (induction n arbitrary: l) (auto split: option.splits)
    then show ?thesis by (auto simp: leads_to_def)
  qed
  have "slots_ok m (s\<lparr>sl_pool := ?q\<rparr>)"
  proof (rule slots_same_leads [OF ok tq])
    fix l
    assume "resolve_access_token (sl_pool s) l \<in> set (pool_tokens (sl_pool s))"
    then have "leads_to (pool_tokens (sl_pool s)) (aliases_of (sl_pool s)) (strip l) (resolve_access_token (sl_pool s) l)"
      using resolve_leads [OF t] by blast
    from same [OF this] have "leads_to (pool_tokens ?q) (aliases_of ?q) (strip l) (resolve_access_token (sl_pool s) l)" by simp
    then show "resolve_access_token ?q l = resolve_access_token (sl_pool s) l \<and> resolve_access_token ?q l \<in> set (pool_tokens ?q)"
      using resolve_leads [OF tq] by auto
  qed simp
  then show ?thesis by simp
qed


subsection \<open>A rotation\<close>

lemma map_of_fold_update: "map_of (fold (\<lambda>s. AList.update s v) xs al) t = (if t \<in> set xs then Some v else map_of al t)"
  by (induction xs arbitrary: al) (auto simp: update_conv')

lemma map_of_fold_delete: "map_of (fold AList.delete xs al) t = (if t \<in> set xs then None else map_of al t)"
  by (induction xs arbitrary: al) (auto simp: delete_conv')

lemma set_keys_delete: "set (map fst (AList.delete k al)) = set (map fst al) - {k}"
  by (induction al) auto

lemma keys_fold_update: "set (map fst (fold (\<lambda>s. AList.update s v) xs al)) = set xs \<union> set (map fst al)"
  by (induction xs arbitrary: al) (auto simp: set_keys_update simp del: set_map)

lemma sum_single:
  "distinct xs \<Longrightarrow> x \<in> set xs \<Longrightarrow> (\<And>y. y \<in> set xs \<Longrightarrow> y \<noteq> x \<Longrightarrow> f y = (0 :: int)) \<Longrightarrow> sum_list (map f xs) = f x"
proof (induction xs)
  case (Cons y ys)
  show ?case
  proof (cases "x = y")
    case True
    with Cons.prems have "\<forall>z \<in> set ys. f z = 0" by auto
    then have "sum_list (map f ys) = 0" by (induction ys) auto
    with True show ?thesis by simp
  next
    case False
    with Cons show ?thesis by simp
  qed
qed simp

lemma count_renamed:
  "new \<notin> set xs \<Longrightarrow> new \<noteq> old \<Longrightarrow>
   count_list (map (\<lambda>x. if x = old then new else x) xs) t =
     (if t = new then count_list xs old else if t = old then 0 else count_list xs t)"
  by (induction xs) auto

definition moved_sources :: "pool \<Rightarrow> string \<Rightarrow> string \<Rightarrow> string list" where
  "moved_sources p old new = filter (\<lambda>s. s \<noteq> new) (alias_sources p old)"

lemma alias_sources_iff:
  "s \<in> set (alias_sources p old) \<longleftrightarrow>
   (s = old \<or> s \<in> set (map fst (token_aliases p))) \<and> resolve_access_token p s = old"
  unfolding alias_sources_def set_filter set_remdups by auto

lemma alias_source_word:
  assumes "tokens_ok p" and "old \<in> set (pool_tokens p)" and "s \<in> set (alias_sources p old)"
  shows "token_word s" "leads_to (pool_tokens p) (aliases_of p) s old"
proof -
  have "s = old \<or> s \<in> set (map fst (token_aliases p))" and res: "resolve_access_token p s = old"
    using assms(3) unfolding alias_sources_iff by blast+
  then show w: "token_word s" using assms(1,2) unfolding tokens_ok_def list_all_iff by blast
  from w resolve_leads [OF assms(1), of s old] res assms(2)
  show "leads_to (pool_tokens p) (aliases_of p) s old" by (simp add: token_word_def)
qed

lemma leads_to_source:
  assumes t: "tokens_ok p" and "leads_to (pool_tokens p) (aliases_of p) s old"
  shows "s \<in> set (alias_sources p old)"
proof -
  obtain n where n: "alias_walk n (pool_tokens p) (aliases_of p) s old" using assms(2) by (auto simp: leads_to_def)
  have key: "s = old \<or> s \<in> set (map fst (token_aliases p))"
    using n by (cases n) (auto split: option.splits dest!: map_of_SomeD intro: rev_image_eqI)
  have "s \<in> set (pool_tokens p) \<or> s \<in> set (map fst (token_aliases p))"
    using n by (cases n) (auto split: option.splits dest!: map_of_SomeD intro: rev_image_eqI)
  then have "token_word s" using t unfolding tokens_ok_def list_all_iff by blast
  then have "resolve_access_token p s = old" using resolve_leads [OF t, of s old] assms(2) by (simp add: token_word_def)
  with key show ?thesis unfolding alias_sources_iff by blast
qed

lemma rotated_aliases:
  assumes "tokens_ok p" and "old \<in> set (pool_tokens p)"
  shows "aliases_of (rotate_token old new account p) s =
    (if s \<noteq> new \<and> leads_to (pool_tokens p) (aliases_of p) s old then Some new else aliases_of p s)"
proof -
  have "s \<in> set (alias_sources p old) \<longleftrightarrow> leads_to (pool_tokens p) (aliases_of p) s old"
    using alias_source_word(2) [OF assms] leads_to_source [OF assms(1)] by blast
  then show ?thesis by (simp add: rotate_token_def move_runtime_token_def Let_def map_of_fold_update)
qed

lemma rotated_tokens: "set (pool_tokens (rotate_token old new account p)) = insert new (set (pool_tokens p) - {old})"
  by (simp add: rotate_token_def move_runtime_token_def Let_def pool_tokens_def set_keys_update set_keys_delete del: set_map)

lemma rotated_inflight:
  assumes moved: "sum_list (map (inflight_of p) (moved_sources p old new)) = n" and zero: "inflight_of p new = 0"
  shows "inflight_of (rotate_token old new account p) t =
    (if t = new then n else if t \<in> set (moved_sources p old new) then 0 else inflight_of p t)"
proof -
  have "inflight_of (p\<lparr>accounts := a\<rparr>) = inflight_of p" for a by (simp add: inflight_of_def fun_eq_iff)
  with moved have sum: "sum_list (map (inflight_of (p\<lparr>accounts := a\<rparr>)) (filter (\<lambda>s. s \<noteq> new) (alias_sources p old))) = n" for a
    by (simp add: moved_sources_def)
  have "new \<notin> set (moved_sources p old new)" by (simp add: moved_sources_def)
  moreover have "(case map_of (image_inflight p) new of None \<Rightarrow> 0 | Some n \<Rightarrow> n) = 0" using zero by (simp add: inflight_of_def)
  ultimately show ?thesis
    unfolding rotate_token_def move_runtime_token_def Let_def sum
    by (simp add: inflight_of_def map_of_fold_delete update_conv' flip: moved_sources_def)
qed

lemma slots_rotate:
  assumes ok: "slots_ok m s" and allowed: "slot_allowed m s (RotateToken old new account)"
  shows "slots_ok m (slot_step s (RotateToken old new account))"
proof -
  let ?p = "sl_pool s"
  let ?q = "rotate_token old new account ?p"
  let ?ren = "\<lambda>x. if x = old then new else x"
  have old: "old \<in> set (pool_tokens ?p)" and new: "new \<notin> set (pool_tokens ?p)" "token_word new"
    "aliases_of ?p new = None \<or> resolve_access_token ?p new = old"
    using allowed by (simp_all add: Let_def token_word_def)
  have t: "tokens_ok ?p" using ok by (rule slots_tokens)
  have "old \<noteq> new" using old new(1) by blast
  have newA: "aliases_of ?p new = None \<or> leads_to (pool_tokens ?p) (aliases_of ?p) new old"
    using new(2,3) old resolve_leads [OF t, of new old] by (simp add: token_word_def)
  have keys: "set (map fst (token_aliases ?q)) \<subseteq> set (alias_sources ?p old) \<union> set (map fst (token_aliases ?p))"
    unfolding rotate_token_def move_runtime_token_def Let_def by (auto simp: keys_fold_update simp del: set_map)
  have tq: "tokens_ok ?q"
  proof -
    have "token_word u" if "u \<in> set (pool_tokens ?q)" for u
      using that t new(2) unfolding rotated_tokens tokens_ok_def list_all_iff by blast
    moreover have "token_word u" if "u \<in> set (map fst (token_aliases ?q))" for u
      using that keys t alias_source_word(1) [OF t old] unfolding tokens_ok_def list_all_iff by blast
    ultimately show ?thesis unfolding tokens_ok_def list_all_iff by blast
  qed
  have res: "resolve_access_token ?q l = ?ren (resolve_access_token ?p l) \<and> resolve_access_token ?q l \<in> set (pool_tokens ?q)"
    if "resolve_access_token ?p l \<in> set (pool_tokens ?p)" for l
  proof -
    have "leads_to (pool_tokens ?p) (aliases_of ?p) (strip l) (resolve_access_token ?p l)"
      using that resolve_leads [OF t] by blast
    from leads_to_rotated [OF this new(1) \<open>old \<noteq> new\<close> [symmetric] rotated_tokens [where account = account]
        rotated_aliases [OF t old, where account = account] newA]
    have "leads_to (pool_tokens ?q) (aliases_of ?q) (strip l) (?ren (resolve_access_token ?p l))" .
    then show ?thesis by (simp only: resolve_leads [OF tq] simp_thms)
  qed
  have maps: "map (resolve_access_token ?q) (sl_leases s) = map ?ren (map (resolve_access_token ?p) (sl_leases s))"
    using res [OF slots_live [OF ok]] by simp
  have none: "inflight_of ?p u = 0" if "u \<notin> set (pool_tokens ?p)" for u
  proof -
    have "u \<notin> set (map (resolve_access_token ?p) (sl_leases s))" using slots_live [OF ok] that by auto
    then show ?thesis using slots_count [OF ok, of u] count_list_0_iff by fastforce
  qed
  have others: "inflight_of ?p u = 0" if "u \<in> set (moved_sources ?p old new)" "u \<noteq> old" for u
  proof (rule none)
    have "leads_to (pool_tokens ?p) (aliases_of ?p) u old"
      using that alias_source_word(2) [OF t old, of u] by (simp add: moved_sources_def)
    then show "u \<notin> set (pool_tokens ?p)" using leads_to_unique leads_to_self that(2) by metis
  qed
  have "sum_list (map (inflight_of ?p) (moved_sources ?p old new)) = inflight_of ?p old"
  proof (rule sum_single)
    show "distinct (moved_sources ?p old new)" by (simp add: moved_sources_def alias_sources_def)
    show "old \<in> set (moved_sources ?p old new)"
      using \<open>old \<noteq> new\<close> resolve_self [OF t old] by (simp add: moved_sources_def alias_sources_iff)
  qed (rule others)
  from rotated_inflight [OF this none [OF new(1)]]
  have infl: "inflight_of ?q u = (if u = new then inflight_of ?p old else if u = old then 0 else inflight_of ?p u)" for u
    using others [of u] resolve_self [OF t old] \<open>old \<noteq> new\<close> by (auto simp: moved_sources_def alias_sources_iff)
  have "slots_ok m (s\<lparr>sl_pool := ?q\<rparr>)" (is "slots_ok m ?s'")
  proof (rule slots_okI)
    show "tokens_ok (sl_pool ?s')" using tq by simp
    show "resolve_access_token (sl_pool ?s') l \<in> set (pool_tokens (sl_pool ?s'))" if "l \<in> set (sl_leases ?s')" for l
      using conjunct2 [OF res [OF slots_live [OF ok, of l]]] that by simp
    have "new \<notin> set (map (resolve_access_token ?p) (sl_leases s))" using slots_live [OF ok] new(1) by auto
    from count_renamed [OF this] \<open>old \<noteq> new\<close>
    show "inflight_of (sl_pool ?s') u = int (count_list (map (resolve_access_token (sl_pool ?s')) (sl_leases ?s')) u)" for u
      using infl [of u] slots_count [OF ok, of u] slots_count [OF ok, of old] by (simp add: maps del: map_map map_eq_conv)
    show "inflight_of (sl_pool ?s') u \<le> m" for u
      using infl [of u] slots_bound [OF ok, of u] slots_bound [OF ok, of old] slots_bound [OF ok, of new] none [OF new(1)]
      by (auto split: if_splits)
  qed
  then show ?thesis by simp
qed

interpretation slot_machine: guarded_machine slot_step "slot_allowed m" "slots_ok m" for m
proof
  fix s x
  assume "slots_ok m s" "slot_allowed m s x"
  then show "slots_ok m (slot_step s x)"
    by (cases x) (auto intro: slots_take slots_finish slots_release slots_rotate slots_prune slots_row simp del: slot_step.simps)
qed

section \<open>What the counts of a scan say\<close>

definition asked_for :: "surroundings \<Rightarrow> pool \<Rightarrow> image_request \<Rightarrow> bool \<Rightarrow> string \<times> pydict \<Rightarrow> bool" where
  "asked_for sr p rq other a \<longleftrightarrow> in_scope sr p rq other (fst a) (snd a) \<and> matches_filters rq (snd a)"

definition is_limited :: "string \<times> pydict \<Rightarrow> bool" where
  "is_limited a \<longleftrightarrow> field (snd a) ''status'' = PStr st_limited"

text \<open>The accounts a request may be served by: those of its shard, and those of the others where the
  loop looks there.\<close>

definition candidates :: "surroundings \<Rightarrow> bool \<Rightarrow> image_request \<Rightarrow> pool \<Rightarrow> (string \<times> pydict) list" where
  "candidates sr coordinated rq p =
     filter (\<lambda>a. asked_for sr p rq False a \<or>
       1 < shard_count p \<and> strict_admission (sr_env sr) \<and> coordinated \<and> asked_for sr p rq True a) (accounts p)"

lemma scan_row_counts:
  assumes "scan_row sr p rq other s x = (t, taken)"
  shows "sc_ready s \<le> sc_ready t"
    and "sc_ready t = sc_ready s \<Longrightarrow> \<not> taken \<and> maintenance_candidate t = maintenance_candidate s \<and>
      first_available t = first_available s \<and> first_warm t = first_warm s \<and>
      sc_matched t = sc_matched s + (if asked_for sr p rq other (row_account x) then 1 else 0) \<and>
      sc_limited t = sc_limited s + (if asked_for sr p rq other (row_account x) \<and> is_limited (row_account x) then 1 else 0)"
    and "sc_ready s < sc_ready t \<Longrightarrow> asked_for sr p rq other (row_account x) \<and> \<not> is_limited (row_account x)"
proof -
  obtain offset ordinal token item where x: "x = (offset, ordinal, token, item)" by (cases x)
  have normal: "is_image_account_available sr item \<Longrightarrow> \<not> is_limited (token, item)"
    by (auto simp: is_image_account_available_def is_account_selectable_def is_limited_def st_normal_def st_limited_def split: if_splits)
  note defs = scan_row_def Let_def asked_for_def row_account_def is_limited_def
  show "sc_ready s \<le> sc_ready t" using assms by (auto simp: x defs split: if_splits)
  show "\<not> taken \<and> maintenance_candidate t = maintenance_candidate s \<and>
      first_available t = first_available s \<and> first_warm t = first_warm s \<and>
      sc_matched t = sc_matched s + (if asked_for sr p rq other (row_account x) then 1 else 0) \<and>
      sc_limited t = sc_limited s + (if asked_for sr p rq other (row_account x) \<and> is_limited (row_account x) then 1 else 0)"
    if "sc_ready t = sc_ready s"
    using assms that by (auto simp: x defs split: if_splits)
  show "asked_for sr p rq other (row_account x) \<and> \<not> is_limited (row_account x)" if "sc_ready s < sc_ready t"
    using assms that normal by (auto simp: x defs split: if_splits)
qed

lemma scan_rows_ready_le: "scan_rows sr p rq other s xs = (t, found) \<Longrightarrow> sc_ready s \<le> sc_ready t"
proof (induction xs arbitrary: s)
  case (Cons x xs)
  obtain u taken where row: "scan_row sr p rq other s x = (u, taken)" by fastforce
  have "t = s \<or> t = u \<or> scan_rows sr p rq other u xs = (t, found)"
    using Cons.prems row by (auto split: if_splits bool.splits)
  with Cons.IH [of u] scan_row_counts(1) [OF row] show ?case by auto
qed simp

lemma scan_rows_counts:
  "scan_rows sr p rq other s xs = (t, found) \<Longrightarrow> maintenance_candidate s = None \<Longrightarrow> sc_ready t = sc_ready s \<Longrightarrow>
   found = None \<and> maintenance_candidate t = None \<and> first_available t = first_available s \<and> first_warm t = first_warm s \<and>
   sc_matched t = sc_matched s + length (filter (asked_for sr p rq other) (map row_account xs)) \<and>
   sc_limited t = sc_limited s + length (filter (\<lambda>a. asked_for sr p rq other a \<and> is_limited a) (map row_account xs))"
proof (induction xs arbitrary: s)
  case (Cons x xs)
  obtain u taken where row: "scan_row sr p rq other s x = (u, taken)" by fastforce
  have step: "(if taken then (u, Some (fst (snd (snd x)), fst (snd x))) else scan_rows sr p rq other u xs) = (t, found)"
    using Cons.prems(1,2) row by (auto split: bool.splits)
  then have "sc_ready u \<le> sc_ready t" using scan_rows_ready_le [of sr p rq other u xs t found] by (auto split: if_splits)
  then have same: "sc_ready u = sc_ready s" using scan_row_counts(1) [OF row] Cons.prems(3) by simp
  note counts = scan_row_counts(2) [OF row same]
  have "scan_rows sr p rq other u xs = (t, found)" using step counts by simp
  from Cons.IH [OF this] counts Cons.prems(2,3) same show ?case by auto
qed simp

lemma scan_rows_ready_some:
  "scan_rows sr p rq other s xs = (t, found) \<Longrightarrow> sc_ready s < sc_ready t \<Longrightarrow>
   \<exists>a \<in> set (map row_account xs). asked_for sr p rq other a \<and> \<not> is_limited a"
proof (induction xs arbitrary: s)
  case (Cons x xs)
  obtain u taken where row: "scan_row sr p rq other s x = (u, taken)" by fastforce
  show ?case
  proof (cases "sc_ready s < sc_ready u")
    case True
    from scan_row_counts(3) [OF row this] show ?thesis by simp
  next
    case False
    then have "scan_rows sr p rq other u xs = (t, found)" and "sc_ready u < sc_ready t"
      using Cons.prems row by (auto split: if_splits bool.splits)
    from Cons.IH [OF this] show ?thesis by auto
  qed
qed simp

lemma rotation_rotate: "map row_account (rotation p) = rotate (image_index p mod length (accounts p)) (accounts p)"
  by (rule nth_equalityI) (simp_all add: rotation_def Let_def row_account_def nth_rotate)

lemma length_filter_rotate: "length (filter P (rotate n xs)) = length (filter P xs)"
proof -
  have "length (filter P (rotate1 ys)) = length (filter P ys)" for ys by (cases ys) simp_all
  then show ?thesis by (induction n) simp_all
qed

lemma rotation_filter: "length (filter P (map row_account (rotation p))) = length (filter P (accounts p))"
  unfolding rotation_rotate by (rule length_filter_rotate)

text \<open>A scan without a ready account has counted every account that was asked for.\<close>

definition no_selection :: "scan \<Rightarrow> selection" where
  "no_selection t = \<lparr>sel_token = None, sel_ready = sc_ready t, sel_matched = sc_matched t, sel_limited = sc_limited t,
     sel_busy = sc_busy t, sel_upload_limited = sc_upload_limited t\<rparr>"

lemma find_scan:
  assumes "find_available_image_token sr p rq other = (sel, q)" and "prewarmed_hit sr p rq other = None"
    and "scan_rows sr p rq other start_scan (rotation p) = (t, found)"
  shows "sel_ready sel = sc_ready t" "sel_matched sel = sc_matched t" "sel_limited sel = sc_limited t"
    "found = None \<Longrightarrow> first_warm t = None \<Longrightarrow> first_available t = None \<Longrightarrow> maintenance_candidate t = None \<Longrightarrow> sel_token sel = None"
proof -
  have "sel_ready sel = sc_ready t \<and> sel_matched sel = sc_matched t \<and> sel_limited sel = sc_limited t \<and>
    (found = None \<longrightarrow> first_warm t = None \<longrightarrow> first_available t = None \<longrightarrow> maintenance_candidate t = None \<longrightarrow> sel_token sel = None)"
  proof (cases "accounts p = []")
    case True
    then have "rotation p = []" by (simp add: rotation_def)
    with True assms show ?thesis by (auto simp: find_available_image_token_def prewarmed_hit_def start_scan_def)
  next
    case False
    with assms show ?thesis by (auto simp: find_available_image_token_def prewarmed_hit_def Let_def)
  qed
  then show "sel_ready sel = sc_ready t" "sel_matched sel = sc_matched t" "sel_limited sel = sc_limited t"
    "found = None \<Longrightarrow> first_warm t = None \<Longrightarrow> first_available t = None \<Longrightarrow> maintenance_candidate t = None \<Longrightarrow> sel_token sel = None"
    by simp_all
qed

lemma find_counts:
  assumes f: "find_available_image_token sr p rq other = (sel, q)" and ready: "sel_ready sel = 0"
  shows "sel_token sel = None"
    and "sel_matched sel = length (filter (asked_for sr p rq other) (accounts p))"
    and "sel_limited sel = length (filter (\<lambda>a. asked_for sr p rq other a \<and> is_limited a) (accounts p))"
proof -
  have none: "prewarmed_hit sr p rq other = None"
    using f ready by (cases "prewarmed_hit sr p rq other") (auto simp: find_available_image_token_def prewarmed_hit_def)
  obtain t found where scan: "scan_rows sr p rq other start_scan (rotation p) = (t, found)" by fastforce
  note sel = find_scan [OF f none scan]
  have "sc_ready t = sc_ready start_scan" using ready sel(1) by (simp add: start_scan_def)
  from scan_rows_counts [OF scan _ this]
  have counts: "found = None \<and> maintenance_candidate t = None \<and> first_available t = None \<and> first_warm t = None \<and>
      sc_matched t = length (filter (asked_for sr p rq other) (accounts p)) \<and>
      sc_limited t = length (filter (\<lambda>a. asked_for sr p rq other a \<and> is_limited a) (accounts p))"
    unfolding rotation_filter by (simp add: start_scan_def)
  with sel show "sel_token sel = None" "sel_matched sel = length (filter (asked_for sr p rq other) (accounts p))"
    "sel_limited sel = length (filter (\<lambda>a. asked_for sr p rq other a \<and> is_limited a) (accounts p))" by simp_all
qed

lemma find_ready:
  assumes f: "find_available_image_token sr p rq other = (sel, q)" and "0 < sel_ready sel" and "sel_token sel = None"
  shows "\<exists>a \<in> set (accounts p). asked_for sr p rq other a \<and> \<not> is_limited a"
proof -
  have none: "prewarmed_hit sr p rq other = None"
    using f assms(3) by (cases "prewarmed_hit sr p rq other") (auto simp: find_available_image_token_def prewarmed_hit_def)
  obtain t found where scan: "scan_rows sr p rq other start_scan (rotation p) = (t, found)" by fastforce
  have "sc_ready start_scan < sc_ready t" using find_scan(1) [OF f none scan] assms(2) by (simp add: start_scan_def)
  from scan_rows_ready_some [OF scan this] show ?thesis by (simp only: set_map rotation_accounts)
qed

lemma find_none_pool:
  assumes "find_available_image_token sr p rq other = (sel, q)" and "sel_token sel = None"
  shows "q = p"
proof (cases "prewarmed_hit sr p rq other")
  case None
  with find_available_eq [OF None] assms show ?thesis by (simp split: option.splits)
qed (use assms in \<open>simp add: find_available_image_token_def prewarmed_hit_def\<close>)

lemma length_filter_either:
  "(\<And>a. P a \<Longrightarrow> \<not> Q a) \<Longrightarrow> length (filter (\<lambda>a. P a \<or> Q a) xs) = length (filter P xs) + length (filter Q xs)"
  by (induction xs) auto

lemma all_filtered_iff:
  "0 < length xs \<and> length (filter P xs) = length xs \<longleftrightarrow> xs \<noteq> [] \<and> filter (\<lambda>a. \<not> P a) xs = []"
  using sum_length_filter_compl [of P xs] by auto

lemma asked_apart: "asked_for sr p rq False a \<Longrightarrow> \<not> asked_for sr p rq True a"
  by (simp add: asked_for_def in_scope_def)

lemma scan_pool_idle:
  assumes "scan_pool sr coordinated rq p = (sel, q)" and "sel_token sel = None"
  shows "filter (dispatchable sr p (resolved_request p rq) False) (accounts p) = []"
proof -
  obtain own p1 where own: "find_available_image_token sr p (resolved_request p rq) False = (own, p1)" by fastforce
  then have "sel_token own = None" using assms by (auto simp: scan_pool_def Let_def split: if_splits prod.splits)
  with own find_complete [of sr p "resolved_request p rq" False] show ?thesis by simp
qed

lemma scan_pool_ready:
  assumes "scan_pool sr coordinated rq p = (sel, q)" and "sel_token sel = Some token"
  shows "0 < sel_ready sel"
proof -
  obtain own p1 where own: "find_available_image_token sr p (resolved_request p rq) False = (own, p1)" by fastforce
  obtain others p2 where others: "find_available_image_token sr p1 (resolved_request p rq) True = (others, p2)" by fastforce
  consider "sel = own" | "sel_token sel = sel_token others" "sel_ready others \<le> sel_ready sel"
    using assms(1) own others by (auto simp: scan_pool_def split: if_splits)
  then show ?thesis
  proof cases
    case 1
    with assms(2) find_counts(1) [OF own] show ?thesis by (cases "sel_ready own") auto
  next
    case 2
    with assms(2) find_counts(1) [OF others] show ?thesis by (cases "sel_ready others") auto
  qed
qed

lemma scan_pool_none:
  assumes scan: "scan_pool sr coordinated rq p = (sel, q)" and none: "sel_token sel = None"
  shows "(sel_ready sel = 0 \<longrightarrow>
      sel_matched sel = length (candidates sr coordinated (resolved_request p rq) p) \<and>
      sel_limited sel = length (filter is_limited (candidates sr coordinated (resolved_request p rq) p))) \<and>
    (0 < sel_ready sel \<longrightarrow> (\<exists>a \<in> set (candidates sr coordinated (resolved_request p rq) p). \<not> is_limited a))"
proof -
  let ?rq = "resolved_request p rq" and ?both = "1 < shard_count p \<and> strict_admission (sr_env sr) \<and> coordinated"
  obtain own p1 where own: "find_available_image_token sr p ?rq False = (own, p1)" by fastforce
  obtain others p2 where others: "find_available_image_token sr p1 ?rq True = (others, p2)" by fastforce
  have own_none: "sel_token own = None" using scan none own others by (auto simp: scan_pool_def Let_def split: if_splits)
  have p1: "p1 = p" using find_none_pool [OF own own_none] .
  show ?thesis
  proof (cases ?both)
    case False
    then have sel: "sel = own" and cands: "candidates sr coordinated ?rq p = filter (asked_for sr p ?rq False) (accounts p)"
      using scan own by (auto simp: scan_pool_def candidates_def)
    show ?thesis
      using find_counts [OF own] find_ready [OF own _ own_none] unfolding sel cands
      by (simp add: conj_commute Bex_def) blast
  next
    case True
    then have sel: "sel_ready sel = sel_ready own + sel_ready others" "sel_matched sel = sel_matched own + sel_matched others"
      "sel_limited sel = sel_limited own + sel_limited others" "sel_token others = None"
      using scan own others own_none none by (auto simp: scan_pool_def)
    have cands: "candidates sr coordinated ?rq p = filter (\<lambda>a. asked_for sr p ?rq False a \<or> asked_for sr p ?rq True a) (accounts p)"
      using True by (simp add: candidates_def)
    have f: "sel_ready own = 0 \<Longrightarrow> sel_matched own = length (filter (asked_for sr p ?rq False) (accounts p)) \<and>
      sel_limited own = length (filter (\<lambda>a. asked_for sr p ?rq False a \<and> is_limited a) (accounts p))"
      and t: "sel_ready others = 0 \<Longrightarrow> sel_matched others = length (filter (asked_for sr p ?rq True) (accounts p)) \<and>
      sel_limited others = length (filter (\<lambda>a. asked_for sr p ?rq True a \<and> is_limited a) (accounts p))"
      using find_counts [OF own] find_counts [OF others [unfolded p1]] by simp_all
    have ready: "\<exists>a \<in> set (accounts p). (asked_for sr p ?rq False a \<or> asked_for sr p ?rq True a) \<and> \<not> is_limited a"
      if "0 < sel_ready sel"
      using that find_ready [OF own _ own_none] find_ready [OF others [unfolded p1] _ sel(4)] unfolding sel(1) by fastforce
    have limited: "filter is_limited (candidates sr coordinated ?rq p) =
        filter (\<lambda>a. asked_for sr p ?rq False a \<and> is_limited a \<or> asked_for sr p ?rq True a \<and> is_limited a) (accounts p)"
      unfolding cands filter_filter by (rule filter_cong) auto
    have len: "length (candidates sr coordinated ?rq p) =
        length (filter (asked_for sr p ?rq False) (accounts p)) + length (filter (asked_for sr p ?rq True) (accounts p))"
      unfolding cands by (rule length_filter_either) (rule asked_apart)
    have len_limited: "length (filter is_limited (candidates sr coordinated ?rq p)) =
        length (filter (\<lambda>a. asked_for sr p ?rq False a \<and> is_limited a) (accounts p)) +
        length (filter (\<lambda>a. asked_for sr p ?rq True a \<and> is_limited a) (accounts p))"
      unfolding limited by (rule length_filter_either) (blast dest: asked_apart)
    have "\<exists>a \<in> set (candidates sr coordinated ?rq p). \<not> is_limited a" if "0 < sel_ready sel"
      using ready [OF that] unfolding cands set_filter by blast
    with f t show ?thesis unfolding len len_limited by (simp add: sel)
  qed
qed

section \<open>Properties\<close>


text \<open>C23. The slots are accounted for under every sequence of operations: for every token of the
  pool its in-flight count is the number of held slots whose token now resolves to it, however
  often the token has been rotated since, and it never exceeds the limit; every held slot still
  leads to an account, so giving it back frees the slot where it is now counted.\<close>

theorem slots_accounted:
  "if tokens_ok (sl_pool s) \<and> image_inflight (sl_pool s) = [] \<and> sl_leases s = [] \<and> 0 \<le> m \<and>
      allowed_run (slot_allowed m) slot_step s ops
   then
     (let t = run slot_step s ops; held = map (resolve_access_token (sl_pool t)) (sl_leases t) in
      inflight_of (sl_pool t) token = int (count_list held token) \<and> inflight_of (sl_pool t) token \<le> m \<and>
      set held \<subseteq> set (pool_tokens (sl_pool t)))
   else True"
proof -
  have "slots_ok m s"
    if "tokens_ok (sl_pool s)" "image_inflight (sl_pool s) = []" "sl_leases s = []" "0 \<le> m"
    using that by (simp add: slots_ok_def inflight_of_def)
  then have ok: "slots_ok m (run slot_step s ops)"
    if "tokens_ok (sl_pool s)" "image_inflight (sl_pool s) = []" "sl_leases s = []" "0 \<le> m"
      "allowed_run (slot_allowed m) slot_step s ops"
    using that slot_machine.run_inv by blast
  show ?thesis
    using slots_count [OF ok] slots_bound [OF ok] slots_live [OF ok] by (auto simp: Let_def)
qed


lemma text_lookup_result:
  "(case fst (text_lookup sr ensure attempted p) of
      Ensured t \<Rightarrow> (t = [] \<and> list_all (\<lambda>c. ensure c = EnsureRetry) (text_candidates sr attempted p)) \<or>
        list_ex (\<lambda>c. ensure c = Ensured t) (text_candidates sr attempted p)
    | EnsureRaised \<Rightarrow> list_ex (\<lambda>c. ensure c = EnsureRaised) (text_candidates sr attempted p)
    | EnsureRetry \<Rightarrow> False) \<and>
   text_index (snd (text_lookup sr ensure attempted p)) \<le> text_index p + length (text_candidates sr attempted p)"
proof (induction sr ensure attempted p rule: text_lookup.induct)
  case (1 sr ensure attempted p)
  let ?cands = "text_candidates sr attempted p"
  show ?case
  proof (cases "?cands = []")
    case True
    then show ?thesis by (subst (1 2) text_lookup.simps) simp
  next
    case False
    define t where "t = ?cands ! (text_index p mod length ?cands)"
    have t: "t \<in> set ?cands" using False by (simp add: t_def)
    show ?thesis
    proof (cases "ensure t")
      case EnsureRetry
      let ?q = "p\<lparr>text_index := text_index p + 1\<rparr>"
      have eq: "text_lookup sr ensure attempted p = text_lookup sr ensure (t # attempted) ?q"
        using False EnsureRetry by (subst text_lookup.simps) (simp add: Let_def t_def)
      have all: "list_all Q ?cands = list_all Q (text_candidates sr (t # attempted) p)" if "Q t" for Q
        using that t by (auto simp: text_candidates_Cons list_all_iff)
      have ex: "list_ex Q ?cands" if "list_ex Q (text_candidates sr (t # attempted) p)" for Q
        using that by (auto simp: text_candidates_Cons list_ex_iff)
      have IH: "(case fst (text_lookup sr ensure (t # attempted) ?q) of
          Ensured u \<Rightarrow> (u = [] \<and> list_all (\<lambda>c. ensure c = EnsureRetry) (text_candidates sr (t # attempted) p)) \<or>
            list_ex (\<lambda>c. ensure c = Ensured u) (text_candidates sr (t # attempted) p)
        | EnsureRaised \<Rightarrow> list_ex (\<lambda>c. ensure c = EnsureRaised) (text_candidates sr (t # attempted) p)
        | EnsureRetry \<Rightarrow> False) \<and>
        text_index (snd (text_lookup sr ensure (t # attempted) ?q))
          \<le> text_index p + 1 + length (text_candidates sr (t # attempted) p)"
        using "1.IH" [OF refl False refl refl] EnsureRetry unfolding text_candidates_index t_def [symmetric] by simp
      have "text_index (snd (text_lookup sr ensure (t # attempted) ?q)) \<le> text_index p + length ?cands"
        using IH text_candidates_fewer [OF t] by linarith
      with IH show ?thesis unfolding eq
        using all [of "\<lambda>c. ensure c = EnsureRetry"] ex EnsureRetry by (cases "fst (text_lookup sr ensure (t # attempted) ?q)") auto
    next
      case (Ensured u)
      with False t show ?thesis by (subst (1 2) text_lookup.simps) (auto simp: Let_def t_def list_ex_iff Suc_le_eq)
    next
      case EnsureRaised
      with False t show ?thesis by (subst (1 2) text_lookup.simps) (auto simp: Let_def t_def list_ex_iff Suc_le_eq)
    qed
  qed
qed


end
