(* ===== verification/ImageTasks.thy ===== *)
theory ImageTasks
  imports TaskRunner "HOL-Library.List_Lexorder" "HOL-Library.Char_ord"
begin

text \<open>
  \<open>services/image_task_service.py\<close>: the asynchronous image tasks. The state holds the tasks
  by key (\<open>owner:id\<close>), the submissions that are being made, the keys whose callback is
  running, the last file written and the task runner of theory \<open>TaskRunner\<close>; a job of the
  runner is a task or a resumed poll, its cancel handler is the key. Every section that the
  code does under \<open>_lock\<close> is one function; whether a write of the file succeeds is an
  argument. What the upstream handler returned or raised, the classification of failures and
  the parsing of stored timestamps are arguments. The spool directory of the edit inputs, the
  row view and the call log are left out.
\<close>

section \<open>Fields\<close>

definition task_detail_keys :: "string list" where
  "task_detail_keys =
     [''error_code'', ''error_message_version'', ''failure_scope'', ''failure_capability'', ''failure_retryable'',
      ''failure_account_failure'', ''failure_retry_after'', ''status_code'', ''error_type'', ''can_resume_poll'',
      ''poll_attempts'', ''poll_timeout_secs'', ''stream_timeout_secs'']"

definition admin_log_only_keys :: "string list" where
  "admin_log_only_keys =
     [''raw_error'', ''upstream_error'', ''upstream_error_type'', ''upstream_request_id'', ''raw_upstream_message'',
      ''raw_upstream_message_len'', ''raw_upstream_message_truncated'', ''upstream_message_preview'',
      ''upstream_message_len'', ''upstream_message_truncated'', ''tool_invoked'', ''terminal_message'', ''blocked'',
      ''diagnosis'', ''last_task_error'']"

definition blank :: "pyval \<Rightarrow> bool" where
  "blank v \<longleftrightarrow> v = PNone \<or> v = PStr []"

definition copy_task_details :: "pydict \<Rightarrow> pydict \<Rightarrow> pydict" where
  "copy_task_details source target =
     fold (\<lambda>k t. if blank (field source k) then t else AList.update k (field source k) t) task_detail_keys target"

definition task_detail_fields :: "pydict \<Rightarrow> pydict" where
  "task_detail_fields details = filter (\<lambda>(k, _). k \<in> set task_detail_keys) details"

definition clear_task_details :: pydict where
  "clear_task_details = map (\<lambda>k. (k, PStr [])) task_detail_keys"

text \<open>\<open>_clean(value, default)\<close>.\<close>

definition clean_or :: "pyval \<Rightarrow> string \<Rightarrow> string" where
  "clean_or v dflt = strip (py_str (py_or v (PStr dflt)))"

definition image_count :: "pyval \<Rightarrow> int" where
  "image_count v = min 4 (max 1 (case py_int (py_or v (PInt 1)) of Inl _ \<Rightarrow> 1 | Inr n \<Rightarrow> n))"

definition owner_id :: "pydict \<Rightarrow> string" where
  "owner_id identity = (let owner = clean (field identity ''id'') in if owner = [] then ''anonymous'' else owner)"

definition task_key :: "string \<Rightarrow> string \<Rightarrow> string" where
  "task_key owner task_id = owner @ '':'' @ task_id"

text \<open>\<open>_collect_image_urls\<close>: the urls of a result and of its nested data.\<close>

lemma size_field_data:
  assumes "map_of d k = Some v"
  shows "size v < size (PDict d)"
proof -
  have "(k, v) \<in> set d" using assms by (rule map_of_SomeD)
  then have "size v < size_list (size_prod (\<lambda>_. 0) size) d"
    by (induction d) auto
  then show ?thesis by simp
qed

function collect_image_urls :: "pyval \<Rightarrow> string list" where
  "collect_image_urls v =
     (case v of
        PDict d \<Rightarrow>
          fromkeys
            ((case field d ''url'' of PStr u \<Rightarrow> if strip u = [] then [] else [strip u] | _ \<Rightarrow> []) @
             (case field d ''_image_urls'' of
                PList xs \<Rightarrow> concat (map (\<lambda>x. case x of PStr u \<Rightarrow> if strip u = [] then [] else [strip u] | _ \<Rightarrow> []) xs)
              | _ \<Rightarrow> []) @
             (case map_of d ''data'' of Some (PList xs) \<Rightarrow> collect_image_urls (PList xs) | _ \<Rightarrow> []))
      | PList xs \<Rightarrow> fromkeys (concat (map collect_image_urls xs))
      | _ \<Rightarrow> [])"
  by pat_completeness auto
termination
  by (relation "measure size")
    (auto dest!: size_field_data simp: less_Suc_eq_le intro: size_list_estimation' order.strict_trans1)

declare collect_image_urls.simps [simp del]

definition present_text :: "pyval \<Rightarrow> bool" where
  "present_text v \<longleftrightarrow> v \<noteq> PNone \<and> strip (py_str v) \<noteq> []"

definition generation_push_metadata :: "pydict \<Rightarrow> pyval \<Rightarrow> pyval \<Rightarrow> pydict" where
  "generation_push_metadata result prompt model =
     (let created = (if field result ''created_at'' = PNone then field result ''created'' else field result ''created_at'') in
      (if present_text prompt then [(''prompt'', prompt)] else []) @
      (if present_text created then [(''created_at'', created)] else []) @
      (if present_text (field result ''date'') then [(''date'', field result ''date'')] else []) @
      (if present_text model then [(''model'', model)] else []))"

section \<open>State\<close>

datatype image_job = RunTask string string pydict | RunResume string string

record service =
  tasks :: "(string \<times> pydict) list"
  pending_submissions :: "string list"
  executing_keys :: "string list"
  batching :: bool
  batched_dirty :: bool
  private_details :: bool
  disk :: "pydict list"
  jobs :: "(image_job, string) runner"

text \<open>What an operation reads from outside: the local time as text, the clock, the parsed time of
  a stored text, the retention setting (None when reading it raises), and the public text and
  the details of an interruption.\<close>

record moment =
  m_iso :: string
  m_now :: rat
  m_time_of :: "pyval \<Rightarrow> rat"
  m_retention :: "int option"
  m_interrupt_error :: string
  m_interrupt_details :: pydict

text \<open>\<open>image_failure(code).code\<close> and the public message of a code, from
  \<open>services/image_failure.py\<close>.\<close>

record failure_catalog =
  fc_code :: "string \<Rightarrow> string"
  fc_message :: "string \<Rightarrow> string"

definition terminal_statuses :: "pyval list" where
  "terminal_statuses = [PStr ''success'', PStr ''error'']"

definition unfinished_statuses :: "pyval list" where
  "unfinished_statuses = [PStr ''queued'', PStr ''running'']"

definition all_statuses :: "string list" where
  "all_statuses = [''queued'', ''running'', ''success'', ''error'']"

section \<open>The file\<close>

text \<open>\<open>sorted(..., reverse=True)\<close> keeps the order of equal elements.\<close>

definition sort_desc :: "('a \<Rightarrow> 'k::linorder) \<Rightarrow> 'a list \<Rightarrow> 'a list" where
  "sort_desc f xs = rev (sort_key f (rev xs))"

definition updated_text :: "pydict \<Rightarrow> string" where
  "updated_text task = py_str (py_or (field task ''updated_at'') (PStr []))"

text \<open>\<open>_save_locked\<close>; a write that fails raises and leaves the old file.\<close>

definition save_locked :: "bool \<Rightarrow> service \<Rightarrow> bool \<times> service" where
  "save_locked ok s = (if ok then (True, s\<lparr>disk := sort_desc updated_text (map snd (tasks s))\<rparr>) else (False, s))"

definition cleanup_locked :: "moment \<Rightarrow> service \<Rightarrow> bool \<times> service" where
  "cleanup_locked m s =
     (let hours = (case m_retention m of None \<Rightarrow> 24 | Some h \<Rightarrow> max 1 h);
          cutoff = m_now m - of_int (hours * 3600);
          expired = (\<lambda>task. field task ''status'' \<in> set terminal_statuses \<and> m_time_of m (field task ''updated_at'') < cutoff);
          removed = filter (\<lambda>(k, task). expired task) (tasks s) in
      (removed \<noteq> [], s\<lparr>tasks := filter (\<lambda>(k, task). \<not> expired task) (tasks s)\<rparr>))"

definition recover_unfinished :: "moment \<Rightarrow> service \<Rightarrow> bool \<times> service" where
  "recover_unfinished m s =
     (let unfinished = (\<lambda>task. field task ''status'' \<in> set unfinished_statuses) in
      (list_ex (\<lambda>(k, task). unfinished task) (tasks s),
       s\<lparr>tasks := map (\<lambda>(k, task). (k,
           if unfinished task
           then AList.update ''updated_at'' (PStr (m_iso m))
             (copy_task_details (m_interrupt_details m)
               (AList.update ''error'' (PStr (m_interrupt_error m))
                 (AList.update ''status'' (PStr ''error'') task)))
           else task)) (tasks s)\<rparr>))"

text \<open>One item of the file; the second component says that the item has to be rewritten.\<close>

definition optional_field :: "string \<Rightarrow> bool \<Rightarrow> pyval \<Rightarrow> pydict \<Rightarrow> pydict" where
  "optional_field k present v d = (if present then AList.update k v d else d)"

definition load_item :: "moment \<Rightarrow> failure_catalog \<Rightarrow> pydict \<Rightarrow> (string \<times> pydict \<times> bool) option" where
  "load_item m fc item =
     (let private = list_ex (\<lambda>k. map_of item k \<noteq> None) admin_log_only_keys;
          task_id = clean (field item ''id''); owner = clean (field item ''owner_id'') in
      if task_id = [] \<or> owner = [] then None
      else
        (let status = clean (field item ''status'');
             status = (if status \<in> set all_statuses then status else ''error'');
             created = clean_or (field item ''created_at'') (m_iso m);
             task =
               [(''id'', PStr task_id), (''owner_id'', PStr owner), (''status'', PStr status),
                (''mode'', PStr (if field item ''mode'' = PStr ''edit'' then ''edit'' else ''generate'')),
                (''model'', PStr (clean_or (field item ''model'') ''gpt-image-2'')),
                (''n'', PInt (image_count (field item ''n''))),
                (''size'', PStr (clean (field item ''size''))),
                (''quality'', PStr (clean_or (field item ''quality'') ''auto'')),
                (''base_url'', PStr (clean (field item ''base_url''))),
                (''created_at'', PStr created),
                (''updated_at'', PStr (clean_or (field item ''updated_at'') created)),
                (''created_ts'', field item ''created_ts''), (''updated_ts'', field item ''updated_ts''),
                (''started_ts'', field item ''started_ts''), (''duration_ms'', field item ''duration_ms'')];
             task = optional_field ''data'' (is_list (field item ''data'')) (field item ''data'') task;
             task = optional_field ''extra_images'' (is_list (field item ''extra_images'')) (field item ''extra_images'') task;
             task = optional_field ''image_result_counts'' (is_dict (field item ''image_result_counts''))
               (field item ''image_result_counts'') task;
             task = optional_field ''call_id'' (truthy (field item ''call_id'')) (PStr (clean (field item ''call_id''))) task;
             task = optional_field ''usage'' (is_dict (field item ''usage'')) (field item ''usage'') task;
             task = copy_task_details item task in
         if status = ''error'' then
           (let stored_error = clean (field item ''error'');
                stored_version = clean (field item ''error_message_version'');
                code = fc_code fc (clean (field task ''error_code''));
                error = (if stored_version = ''1'' then stored_error else fc_message fc code);
                task = AList.update ''error_message_version'' (PInt 1)
                  (AList.update ''error_code'' (PStr code) (AList.update ''error'' (PStr error) task)) in
            Some (task_key owner task_id, task,
              private \<or> stored_error \<noteq> error \<or> clean (field item ''error_code'') \<noteq> code \<or> stored_version \<noteq> ''1''))
         else
           (let error = clean (field item ''error'') in
            Some (task_key owner task_id, optional_field ''error'' (error \<noteq> []) (PStr error) task, private))))"

definition load_entry ::
  "moment \<Rightarrow> failure_catalog \<Rightarrow> pyval \<Rightarrow> (string \<times> pydict) list \<times> bool \<Rightarrow> (string \<times> pydict) list \<times> bool" where
  "load_entry m fc item acc =
     (case item of
        PDict d \<Rightarrow>
          (let private = list_ex (\<lambda>k. map_of d k \<noteq> None) admin_log_only_keys in
           case load_item m fc d of
             None \<Rightarrow> (fst acc, snd acc \<or> private)
           | Some (key, task, changed) \<Rightarrow> (AList.update key task (fst acc), snd acc \<or> changed))
      | _ \<Rightarrow> acc)"

definition load_locked :: "moment \<Rightarrow> failure_catalog \<Rightarrow> pyval \<Rightarrow> (string \<times> pydict) list \<times> bool" where
  "load_locked m fc raw =
     (case (case raw of PDict d \<Rightarrow> field d ''tasks'' | v \<Rightarrow> v) of
        PList items \<Rightarrow> fold (load_entry m fc) items ([], False)
      | _ \<Rightarrow> ([], False))"

text \<open>The constructor: \<open>or\<close> does not evaluate its right-hand side when the left one holds.\<close>

definition init_service :: "moment \<Rightarrow> failure_catalog \<Rightarrow> bool \<Rightarrow> pyval \<Rightarrow> pydict list \<Rightarrow> (image_job, string) runner \<Rightarrow> bool \<times> service" where
  "init_service m fc save_ok raw file r =
     (let (ts, dirty) = load_locked m fc raw;
          s = \<lparr>tasks = ts, pending_submissions = [], executing_keys = [], batching = False, batched_dirty = False,
            private_details = dirty, disk = file, jobs = r\<rparr>;
          (changed, s) = (if private_details s then (True, s) else recover_unfinished m s);
          (removed, s) = cleanup_locked m s in
      if removed \<or> changed then save_locked save_ok s else (True, s))"

section \<open>Updates of a task\<close>

text \<open>\<open>_update_task\<close>: fields of details with no value are removed; the file is written when
  \<open>persist\<close>. The first component is False when the write raised.\<close>

definition apply_updates :: "pydict \<Rightarrow> pydict \<Rightarrow> pydict" where
  "apply_updates updates task =
     fold (\<lambda>(k, v) t. if k \<in> set task_detail_keys \<and> blank v then AList.delete k t else AList.update k v t) updates task"

definition update_task :: "moment \<Rightarrow> bool \<Rightarrow> bool \<Rightarrow> string \<Rightarrow> pydict \<Rightarrow> service \<Rightarrow> bool \<times> service" where
  "update_task m save_ok persist key updates s =
     (case map_of (tasks s) key of
        None \<Rightarrow> (True, s)
      | Some task \<Rightarrow>
          (let task = apply_updates updates task;
               task = AList.update ''updated_ts'' (PFloat (Fin (m_now m))) (AList.update ''updated_at'' (PStr (m_iso m)) task);
               s = s\<lparr>tasks := AList.update key task (tasks s)\<rparr> in
           if persist then save_locked save_ok s else (True, s)))"

definition mark_task_interrupted :: "moment \<Rightarrow> string \<Rightarrow> service \<Rightarrow> bool \<times> service" where
  "mark_task_interrupted m key s =
     (case map_of (tasks s) key of
        None \<Rightarrow> (False, s)
      | Some task \<Rightarrow>
          if field task ''status'' \<noteq> PStr ''queued'' \<or> key \<in> set (executing_keys s) then (False, s)
          else
            (let task = AList.update ''data'' (PList []) (AList.update ''error'' (PStr (m_interrupt_error m))
                   (AList.update ''status'' (PStr ''error'') task));
                 task = apply_updates (task_detail_fields (m_interrupt_details m)) task;
                 task = AList.update ''updated_ts'' (PFloat (Fin (m_now m))) (AList.update ''updated_at'' (PStr (m_iso m)) task) in
             (True, s\<lparr>tasks := AList.update key task (tasks s)\<rparr>)))"

definition mark_task_interrupted_safely :: "moment \<Rightarrow> bool \<Rightarrow> string \<Rightarrow> service \<Rightarrow> service" where
  "mark_task_interrupted_safely m save_ok key s =
     (case mark_task_interrupted m key s of
        (False, s) \<Rightarrow> s
      | (True, s) \<Rightarrow> if batching s then s\<lparr>batched_dirty := True\<rparr> else snd (save_locked save_ok s))"

section \<open>Submission\<close>

datatype submit_outcome =
    Existing pydict
  | MustWait
  | Claimed
  | InvalidId
  | SaveFailed
  | QueueFull
  | PrepareFailed
  | Submitted pydict

definition release_reservation :: "nat option \<Rightarrow> service \<Rightarrow> service" where
  "release_reservation rid s =
     (case rid of None \<Rightarrow> s | Some r \<Rightarrow> s\<lparr>jobs := snd (rollback r (jobs s))\<rparr>)"

definition submit_payload :: "pyval \<Rightarrow> pyval \<Rightarrow> pyval \<Rightarrow> pyval \<Rightarrow> pyval \<Rightarrow> pyval \<Rightarrow> pydict" where
  "submit_payload prompt model n sz quality base_url =
     [(''prompt'', prompt), (''model'', model), (''n'', PInt (image_count n)), (''size'', sz), (''quality'', quality),
      (''response_format'', PStr ''url''), (''base_url'', base_url)]"

definition submit_edit_payload :: "pyval \<Rightarrow> pyval \<Rightarrow> pyval \<Rightarrow> pyval \<Rightarrow> pyval \<Rightarrow> pyval \<Rightarrow> pyval \<Rightarrow> pyval \<Rightarrow> pydict" where
  "submit_edit_payload prompt images masks model n sz quality base_url =
     [(''prompt'', prompt), (''images'', py_or images (PList [])), (''mask'', py_or masks (PList [])), (''model'', model),
      (''n'', PInt (image_count n)), (''size'', sz), (''quality'', quality), (''response_format'', PStr ''url''),
      (''base_url'', base_url)]"

text \<open>One turn of the loop of \<open>_submit\<close>: a known task is returned, a submission of the same key
  in progress is waited for (without a reservation), otherwise the key is claimed.\<close>

definition submit_begin :: "moment \<Rightarrow> bool \<Rightarrow> pydict \<Rightarrow> pyval \<Rightarrow> nat option \<Rightarrow> service \<Rightarrow> submit_outcome \<times> service" where
  "submit_begin m save_ok identity client_task_id rid s =
     (let task_id = clean client_task_id; key = task_key (owner_id identity) task_id in
      if task_id = [] then (InvalidId, release_reservation rid s)
      else
        (let (cleaned, s) = cleanup_locked m s;
             (ok, s) = (if cleaned then save_locked save_ok s else (True, s)) in
         if \<not> ok then (SaveFailed, s)
         else case map_of (tasks s) key of
           Some task \<Rightarrow> (Existing task, release_reservation rid s)
         | None \<Rightarrow>
             if key \<in> set (pending_submissions s) then (MustWait, release_reservation rid s)
             else (Claimed, s\<lparr>pending_submissions := key # pending_submissions s\<rparr>)))"

definition submit_end :: "string \<Rightarrow> service \<Rightarrow> service" where
  "submit_end key s = s\<lparr>pending_submissions := removeAll key (pending_submissions s)\<rparr>"

definition submit_reserve :: "string \<Rightarrow> nat option \<Rightarrow> service \<Rightarrow> nat option \<times> service" where
  "submit_reserve key rid s =
     (case rid of
        Some r \<Rightarrow> (Some r, s)
      | None \<Rightarrow>
          (case reserve (jobs s) of
             (None, r) \<Rightarrow> (None, submit_end key (s\<lparr>jobs := r\<rparr>))
           | (Some n, r) \<Rightarrow> (Some n, s\<lparr>jobs := r\<rparr>)))"

text \<open>\<open>_prepare_queued_payload\<close>: the inputs of an edit are written to the spool; the result, None
  when that raises, is the argument \<open>spooled\<close>.\<close>

definition prepare_queued_payload :: "string \<Rightarrow> pydict \<Rightarrow> pydict option \<Rightarrow> pydict option" where
  "prepare_queued_payload kind payload spooled = (if kind \<noteq> ''edit'' then Some payload else spooled)"

definition new_task :: "moment \<Rightarrow> string \<Rightarrow> string \<Rightarrow> string \<Rightarrow> pydict \<Rightarrow> pydict" where
  "new_task m owner task_id kind payload =
     [(''id'', PStr task_id), (''owner_id'', PStr owner), (''status'', PStr ''queued''), (''mode'', PStr kind),
      (''model'', PStr (clean_or (field payload ''model'') ''gpt-image-2'')), (''n'', PInt (image_count (field payload ''n''))),
      (''size'', PStr (clean (field payload ''size''))), (''quality'', PStr (clean_or (field payload ''quality'') ''auto'')),
      (''base_url'', PStr (clean (field payload ''base_url''))), (''created_at'', PStr (m_iso m)),
      (''updated_at'', PStr (m_iso m)), (''created_ts'', PFloat (Fin (m_now m)))]"

definition restore_task :: "string \<Rightarrow> pydict option \<Rightarrow> service \<Rightarrow> service" where
  "restore_task key previous s =
     s\<lparr>tasks := (case previous of None \<Rightarrow> AList.delete key (tasks s) | Some p \<Rightarrow> AList.update key p (tasks s))\<rparr>"

definition commit_new_task ::
  "bool \<Rightarrow> bool \<Rightarrow> nat \<Rightarrow> string \<Rightarrow> pydict \<Rightarrow> pydict option \<Rightarrow> image_job \<Rightarrow> service \<Rightarrow> submit_outcome \<times> service" where
  "commit_new_task save_ok resave_ok rid key task previous job s =
     (case save_locked save_ok (s\<lparr>tasks := AList.update key task (tasks s)\<rparr>) of
        (False, s) \<Rightarrow> (SaveFailed, restore_task key previous s)
      | (True, s) \<Rightarrow>
          (case commit rid (job, Some key) (jobs s) of
             (True, r) \<Rightarrow> (Submitted task, s\<lparr>jobs := r\<rparr>)
           | (False, r) \<Rightarrow>
               (case save_locked resave_ok (restore_task key previous (s\<lparr>jobs := r\<rparr>)) of
                  (True, s) \<Rightarrow> (QueueFull, s)
                | (False, s) \<Rightarrow> (SaveFailed, s))))"

definition submit_commit ::
  "moment \<Rightarrow> bool \<Rightarrow> bool \<Rightarrow> string \<Rightarrow> string \<Rightarrow> string \<Rightarrow> pydict \<Rightarrow> pydict option \<Rightarrow> nat \<Rightarrow> service \<Rightarrow>
   submit_outcome \<times> service" where
  "submit_commit m save_ok resave_ok owner task_id kind payload spooled rid s =
     (let key = task_key owner task_id in
      case prepare_queued_payload kind payload spooled of
        None \<Rightarrow> (PrepareFailed, submit_end key (release_reservation (Some rid) s))
      | Some queued \<Rightarrow>
          (case commit_new_task save_ok resave_ok rid key (new_task m owner task_id kind payload) None
                  (RunTask key kind queued) s of
             (Submitted task, s) \<Rightarrow> (Submitted task, submit_end key s)
           | (out, s) \<Rightarrow> (out, submit_end key (release_reservation (Some rid) s))))"

definition list_tasks :: "moment \<Rightarrow> bool \<Rightarrow> pydict \<Rightarrow> pyval list \<Rightarrow> service \<Rightarrow> (pydict list \<times> string list) \<times> service" where
  "list_tasks m save_ok identity task_ids s =
     (let owner = owner_id identity;
          requested = filter (\<lambda>t. t \<noteq> []) (map clean task_ids);
          (cleaned, s) = cleanup_locked m s;
          s = (if cleaned then snd (save_locked save_ok s) else s) in
      (if requested = []
       then (sort_desc updated_text (filter (\<lambda>task. field task ''owner_id'' = PStr owner) (map snd (tasks s))), [])
       else (List.map_filter (\<lambda>t. map_of (tasks s) (task_key owner t)) requested,
             filter (\<lambda>t. map_of (tasks s) (task_key owner t) = None) requested), s))"

section \<open>Resuming a poll\<close>

datatype resume_outcome = ResumeError string | ResumeFull | ResumeSaveFailed | Resumed pydict

definition resume_poll ::
  "moment \<Rightarrow> failure_catalog \<Rightarrow> bool \<Rightarrow> bool \<Rightarrow> pydict \<Rightarrow> pyval \<Rightarrow> service \<Rightarrow> resume_outcome \<times> service" where
  "resume_poll m fc save_ok resave_ok identity task_id s =
     (let key = task_key (owner_id identity) (clean task_id) in
      case map_of (tasks s) key of
        None \<Rightarrow> (ResumeError ''task not found'', s)
      | Some task \<Rightarrow>
          if field task ''status'' \<noteq> PStr ''error'' then (ResumeError ''task is not in error state'', s)
          else if fc_code fc (clean (field task ''error_code'')) \<noteq> ''image_poll_timeout''
          then (ResumeError ''task error is not a timeout error'', s)
          else if clean (field task ''conversation_id'') = [] then (ResumeError ''task has no conversation_id'', s)
          else
            (case reserve (jobs s) of
               (None, r) \<Rightarrow> (ResumeFull, s\<lparr>jobs := r\<rparr>)
             | (Some rid, r) \<Rightarrow>
                 (let queued = AList.update ''updated_ts'' (PFloat (Fin (m_now m)))
                        (AList.update ''updated_at'' (PStr (m_iso m))
                          (AList.update ''error'' (PStr []) (AList.update ''status'' (PStr ''queued'') task)));
                      queued = filter (\<lambda>(k, _). k \<notin> set task_detail_keys) queued;
                      (out, s) = commit_new_task save_ok resave_ok rid key queued (Some task)
                        (RunResume key (clean (field task ''conversation_id''))) (s\<lparr>jobs := r\<rparr>);
                      s = release_reservation (Some rid) s in
                  (case out of Submitted t \<Rightarrow> Resumed t | QueueFull \<Rightarrow> ResumeFull | _ \<Rightarrow> ResumeSaveFailed, s))))"

section \<open>Running a task\<close>

definition callback_claim :: "string \<Rightarrow> service \<Rightarrow> bool \<times> service" where
  "callback_claim key s =
     (case map_of (tasks s) key of
        None \<Rightarrow> (False, s)
      | Some task \<Rightarrow>
          if field task ''status'' \<noteq> PStr ''queued'' then (False, s)
          else (True, s\<lparr>executing_keys := List.insert key (executing_keys s)\<rparr>))"

definition callback_release :: "string \<Rightarrow> service \<Rightarrow> service" where
  "callback_release key s = s\<lparr>executing_keys := removeAll key (executing_keys s)\<rparr>"

text \<open>A classified failure: the public text, all details and the conversation it belongs to.\<close>

record failure_info =
  fi_error :: string
  fi_details :: pydict
  fi_conversation :: string

definition failed_updates :: "failure_info \<Rightarrow> pydict" where
  "failed_updates f =
     [(''status'', PStr ''error''), (''error'', PStr (fi_error f)), (''data'', PList [])] @ task_detail_fields (fi_details f)"

text \<open>The handler of \<open>_run_callback_safely\<close> for what a callback raised.\<close>

definition callback_failed :: "moment \<Rightarrow> bool \<Rightarrow> string \<Rightarrow> failure_info \<Rightarrow> service \<Rightarrow> service" where
  "callback_failed m save_ok key f s = snd (update_task m save_ok True key (failed_updates f) s)"

definition run_task_start :: "moment \<Rightarrow> bool \<Rightarrow> string \<Rightarrow> string \<Rightarrow> service \<Rightarrow> bool \<times> service" where
  "run_task_start m save_ok key call_id s =
     update_task m save_ok True key [(''status'', PStr ''running''), (''error'', PStr []), (''call_id'', PStr call_id)] s"

definition run_task_progress :: "moment \<Rightarrow> string \<Rightarrow> string \<Rightarrow> service \<Rightarrow> service" where
  "run_task_progress m key step s =
     snd (update_task m True False key
       ((''progress'', PStr step) #
        (if step = ''image_stream_resolve_start'' then [(''started_ts'', PFloat (Fin (m_now m)))] else [])) s)"

definition run_task_partial :: "moment \<Rightarrow> bool \<Rightarrow> string \<Rightarrow> pyval list \<Rightarrow> service \<Rightarrow> service" where
  "run_task_partial m save_ok key items s =
     (let partial = filter is_dict items in
      if partial = [] then s else snd (update_task m save_ok True key [(''data'', PList partial)] s))"

text \<open>What the image handler did.\<close>

datatype handler_outcome = Returned pyval | Raised failure_info

definition handler_failure :: "(string \<Rightarrow> failure_info) \<Rightarrow> failure_info \<Rightarrow> handler_outcome \<Rightarrow> failure_info option" where
  "handler_failure no_image streaming out =
     (case out of
        Raised f \<Rightarrow> Some f
      | Returned (PDict r) \<Rightarrow>
          (case field r ''data'' of
             PList (_ # _) \<Rightarrow> None
           | _ \<Rightarrow> Some (no_image (clean (field r ''message''))))
      | Returned _ \<Rightarrow> Some streaming)"

text \<open>\<open>_image_extras\<close> is a list and \<open>_image_result_counts\<close> a dictionary wherever the handlers set them.\<close>

definition as_list :: "pyval \<Rightarrow> pyval" where
  "as_list v = (case v of PList xs \<Rightarrow> PList xs | _ \<Rightarrow> PList [])"

definition as_dict :: "pyval \<Rightarrow> pyval" where
  "as_dict v = (case v of PDict d \<Rightarrow> PDict d | _ \<Rightarrow> PDict [])"

definition success_updates :: "string \<Rightarrow> int \<Rightarrow> pydict \<Rightarrow> pydict" where
  "success_updates call_id duration_ms r =
     [(''status'', PStr ''success''), (''data'', field r ''data''), (''usage'', field r ''usage''),
      (''extra_images'', as_list (field r ''_image_extras'')),
      (''image_result_counts'', as_dict (field r ''_image_result_counts'')),
      (''call_id'', PStr call_id), (''error'', PStr []), (''duration_ms'', PInt duration_ms)] @ clear_task_details"

definition run_failed_updates :: "int \<Rightarrow> failure_info \<Rightarrow> pydict" where
  "run_failed_updates duration_ms f =
     [(''status'', PStr ''error''), (''error'', PStr (fi_error f)), (''data'', PList []), (''duration_ms'', PInt duration_ms)] @
     (if fi_conversation f = [] then [] else [(''conversation_id'', PStr (fi_conversation f))]) @
     task_detail_fields (fi_details f)"

text \<open>The end of \<open>_run_task\<close>. After the success was stored, the push of the images or the log may
  still raise (\<open>later\<close>), and then the task becomes an error, as it does when storing the
  success raises (\<open>unsaved\<close>). The first component is False when the update of an error raised.\<close>

definition run_task_finish ::
  "moment \<Rightarrow> bool \<Rightarrow> bool \<Rightarrow> (string \<Rightarrow> failure_info) \<Rightarrow> failure_info \<Rightarrow> failure_info \<Rightarrow> failure_info option \<Rightarrow>
   string \<Rightarrow> string \<Rightarrow> int \<Rightarrow> handler_outcome \<Rightarrow> service \<Rightarrow> bool \<times> service" where
  "run_task_finish m save_ok resave_ok no_image streaming unsaved later key call_id duration_ms out s =
     (case handler_failure no_image streaming out of
        Some f \<Rightarrow> update_task m resave_ok True key (run_failed_updates duration_ms f) s
      | None \<Rightarrow>
          (let r = (case out of Returned (PDict r) \<Rightarrow> r | _ \<Rightarrow> []);
               (ok, s) = update_task m save_ok True key (success_updates call_id duration_ms r) s in
           case (if ok then later else Some unsaved) of
             None \<Rightarrow> (True, s)
           | Some f \<Rightarrow> update_task m resave_ok True key (run_failed_updates duration_ms f) s))"

text \<open>\<open>_run_resume_poll\<close>: the poll of an existing conversation; \<open>out\<close> is the formatted result
  or the failure.\<close>

definition run_resume_start :: "moment \<Rightarrow> bool \<Rightarrow> string \<Rightarrow> string \<Rightarrow> service \<Rightarrow> bool \<times> service" where
  "run_resume_start m save_ok key call_id s =
     update_task m save_ok True key [(''status'', PStr ''running''), (''call_id'', PStr call_id)] s"

definition resume_success_updates :: "int \<Rightarrow> pydict \<Rightarrow> pydict" where
  "resume_success_updates duration_ms r =
     [(''status'', PStr ''success''), (''data'', field r ''data''), (''error'', PStr []), (''duration_ms'', PInt duration_ms),
      (''extra_images'', as_list (field r ''_image_extras'')),
      (''image_result_counts'', as_dict (field r ''_image_result_counts''))] @ clear_task_details"

definition resume_failed_updates :: "string \<Rightarrow> int \<Rightarrow> failure_info \<Rightarrow> pydict" where
  "resume_failed_updates conversation_id duration_ms f =
     (let details = (if field (fi_details f) ''error_code'' = PStr ''image_poll_timeout'' \<and> conversation_id \<noteq> []
        then AList.update ''can_resume_poll'' (PBool True) (fi_details f) else fi_details f) in
      [(''status'', PStr ''error''), (''error'', PStr (fi_error f)), (''data'', PList []), (''duration_ms'', PInt duration_ms)] @
      task_detail_fields details)"

definition run_resume_finish ::
  "moment \<Rightarrow> bool \<Rightarrow> bool \<Rightarrow> failure_info \<Rightarrow> failure_info option \<Rightarrow> string \<Rightarrow> string \<Rightarrow> int \<Rightarrow>
   failure_info + pydict \<Rightarrow> service \<Rightarrow> bool \<times> service" where
  "run_resume_finish m save_ok resave_ok unsaved later key conversation_id duration_ms out s =
     (case out of
        Inl f \<Rightarrow> update_task m resave_ok True key (resume_failed_updates conversation_id duration_ms f) s
      | Inr r \<Rightarrow>
          (let (ok, s) = update_task m save_ok True key (resume_success_updates duration_ms r) s in
           case (if ok then later else Some unsaved) of
             None \<Rightarrow> (True, s)
           | Some f \<Rightarrow> update_task m resave_ok True key (resume_failed_updates conversation_id duration_ms f) s))"

section \<open>Shutdown\<close>

text \<open>\<open>_cancel_pending_and_persist\<close>, before and after the wait for the running callbacks. The
  runner calls the cancel handlers of the tasks it drops.\<close>

definition run_handlers :: "moment \<Rightarrow> bool \<Rightarrow> string list \<Rightarrow> service \<Rightarrow> service" where
  "run_handlers m save_ok keys s = fold (mark_task_interrupted_safely m save_ok) keys s"

definition cancel_begin :: "moment \<Rightarrow> bool \<Rightarrow> service \<Rightarrow> service" where
  "cancel_begin m save_ok s =
     (let s = s\<lparr>batching := True, batched_dirty := False\<rparr>;
          r = shutdown_cancel_pending (\<lambda>_. False) (jobs s) in
      run_handlers m save_ok (drop (length (notified (jobs s))) (notified r)) (s\<lparr>jobs := r\<rparr>))"

definition mark_and_note :: "moment \<Rightarrow> string \<Rightarrow> service \<Rightarrow> service" where
  "mark_and_note m key s =
     (case mark_task_interrupted m key s of (marked, s) \<Rightarrow> if marked then s\<lparr>batched_dirty := True\<rparr> else s)"

definition cancel_finish :: "moment \<Rightarrow> bool \<Rightarrow> service \<Rightarrow> service" where
  "cancel_finish m save_ok s =
     (let s = fold (mark_and_note m) (map fst (tasks s)) s;
          s = (if batched_dirty s then snd (save_locked save_ok s) else s) in
      s\<lparr>batching := False, batched_dirty := False\<rparr>)"

text \<open>A step of the runner's workers or of its own shutdown, with the handlers it calls.\<close>

definition runner_event :: "moment \<Rightarrow> bool \<Rightarrow> (image_job, string) runner_op \<Rightarrow> service \<Rightarrow> service" where
  "runner_event m save_ok x s =
     (let r = runner_step (\<lambda>_. False) (jobs s) x in
      run_handlers m save_ok (drop (length (notified (jobs s))) (notified r)) (s\<lparr>jobs := r\<rparr>))"

section \<open>The service as a machine\<close>

text \<open>Outside world of one step: the moment, the failure catalog, and whether the first and the
  second write of the file succeed.\<close>

record image_world =
  iw_moment :: moment
  iw_catalog :: failure_catalog
  iw_save :: bool
  iw_resave :: bool

datatype image_op =
    SubmitBegin pydict pyval "nat option"
  | SubmitReserve string "nat option"
  | SubmitCommit string string string pydict "pydict option" nat
  | ResumePoll pydict pyval
  | ListTasks pydict "pyval list"
  | CallbackClaim string
  | CallbackRelease string
  | CallbackFailed string failure_info
  | RunStart string string
  | RunProgress string string
  | RunPartial string "pyval list"
  | RunFinish "string \<Rightarrow> failure_info" failure_info failure_info "failure_info option" string string int handler_outcome
  | ResumeStart string string
  | ResumeFinish failure_info "failure_info option" string string int "failure_info + pydict"
  | CancelBegin
  | CancelFinish
  | RunnerEvent "(image_job, string) runner_op"

fun image_step :: "service \<Rightarrow> image_world \<times> image_op \<Rightarrow> service" where
  "image_step s (w, SubmitBegin i c r) = snd (submit_begin (iw_moment w) (iw_save w) i c r s)"
| "image_step s (w, SubmitReserve k r) = snd (submit_reserve k r s)"
| "image_step s (w, SubmitCommit ow tid kind p sp r) =
     snd (submit_commit (iw_moment w) (iw_save w) (iw_resave w) ow tid kind p sp r s)"
| "image_step s (w, ResumePoll i c) = snd (resume_poll (iw_moment w) (iw_catalog w) (iw_save w) (iw_resave w) i c s)"
| "image_step s (w, ListTasks i cs) = snd (list_tasks (iw_moment w) (iw_save w) i cs s)"
| "image_step s (w, CallbackClaim k) = snd (callback_claim k s)"
| "image_step s (w, CallbackRelease k) = callback_release k s"
| "image_step s (w, CallbackFailed k f) = callback_failed (iw_moment w) (iw_save w) k f s"
| "image_step s (w, RunStart k c) = snd (run_task_start (iw_moment w) (iw_save w) k c s)"
| "image_step s (w, RunProgress k p) = run_task_progress (iw_moment w) k p s"
| "image_step s (w, RunPartial k d) = run_task_partial (iw_moment w) (iw_save w) k d s"
| "image_step s (w, RunFinish n st u l k c d out) =
     snd (run_task_finish (iw_moment w) (iw_save w) (iw_resave w) n st u l k c d out s)"
| "image_step s (w, ResumeStart k c) = snd (run_resume_start (iw_moment w) (iw_save w) k c s)"
| "image_step s (w, ResumeFinish u l k c d out) =
     snd (run_resume_finish (iw_moment w) (iw_save w) (iw_resave w) u l k c d out s)"
| "image_step s (w, CancelBegin) = cancel_begin (iw_moment w) (iw_save w) s"
| "image_step s (w, CancelFinish) = cancel_finish (iw_moment w) (iw_save w) s"
| "image_step s (w, RunnerEvent x) = runner_event (iw_moment w) (iw_save w) x s"

section \<open>Well-formed tasks\<close>

definition entry_ok :: "string \<Rightarrow> pydict \<Rightarrow> bool" where
  "entry_ok k t \<longleftrightarrow> field t ''status'' \<in> PStr ` set all_statuses \<and>
     (\<exists>ow i. field t ''owner_id'' = PStr ow \<and> field t ''id'' = PStr i \<and> k = task_key ow i)"

definition tasks_ok :: "(string \<times> pydict) list \<Rightarrow> bool" where
  "tasks_ok ts \<longleftrightarrow> distinct_keys ts \<and> (\<forall>k t. map_of ts k = Some t \<longrightarrow> entry_ok k t)"

definition service_wf :: "service \<Rightarrow> bool" where
  "service_wf s \<longleftrightarrow> tasks_ok (tasks s) \<and> runner_inv (jobs s)"

lemma tasks_ok_put: "tasks_ok ts \<Longrightarrow> entry_ok key t \<Longrightarrow> tasks_ok (AList.update key t ts)"
  by (simp add: tasks_ok_def)

lemma tasks_ok_delete: "tasks_ok ts \<Longrightarrow> tasks_ok (AList.delete key ts)"
  by (simp add: tasks_ok_def)

lemma tasks_ok_entry: "tasks_ok ts \<Longrightarrow> map_of ts k = Some t \<Longrightarrow> entry_ok k t"
  by (simp add: tasks_ok_def)

lemma tasks_ok_filter:
  assumes "tasks_ok ts"
  shows "tasks_ok (filter P ts)"
proof -
  have "entry_ok k t" if "map_of (filter P ts) k = Some t" for k t
  proof -
    have "(k, t) \<in> set ts" using that by (auto dest: map_of_SomeD)
    then have "map_of ts k = Some t" using assms by (auto simp: tasks_ok_def distinct_keys_def intro: map_of_is_SomeI)
    with assms show ?thesis by (simp add: tasks_ok_def)
  qed
  with assms show ?thesis by (simp add: tasks_ok_def)
qed

definition updates_ok :: "pydict \<Rightarrow> bool" where
  "updates_ok u \<longleftrightarrow> (\<forall>(k, v) \<in> set u. k \<noteq> ''id'' \<and> k \<noteq> ''owner_id'' \<and> (k = ''status'' \<longrightarrow> v \<in> PStr ` set all_statuses))"

lemma detail_keys_fresh:
  "''status'' \<notin> set task_detail_keys" "''id'' \<notin> set task_detail_keys" "''owner_id'' \<notin> set task_detail_keys"
  by (simp_all add: task_detail_keys_def)

lemma entry_ok_update:
  "entry_ok k t \<Longrightarrow> f \<noteq> ''id'' \<Longrightarrow> f \<noteq> ''owner_id'' \<Longrightarrow> (f = ''status'' \<Longrightarrow> v \<in> PStr ` set all_statuses) \<Longrightarrow>
   entry_ok k (AList.update f v t)"
  by (auto simp: entry_ok_def)

lemma entry_ok_delete: "entry_ok k t \<Longrightarrow> f \<in> set task_detail_keys \<Longrightarrow> entry_ok k (AList.delete f t)"
  using detail_keys_fresh by (auto simp: entry_ok_def)

lemma entry_ok_apply_updates: "entry_ok k t \<Longrightarrow> updates_ok u \<Longrightarrow> entry_ok k (apply_updates u t)"
proof (induction u arbitrary: t)
  case Nil
  then show ?case by (simp add: apply_updates_def)
next
  case (Cons p u)
  obtain f v where p: "p = (f, v)" by (cases p)
  have rest: "updates_ok u" using Cons.prems(2) by (simp add: updates_ok_def)
  have step: "apply_updates (p # u) t =
      apply_updates u (if f \<in> set task_detail_keys \<and> blank v then AList.delete f t else AList.update f v t)"
    by (simp add: apply_updates_def p)
  have "entry_ok k (if f \<in> set task_detail_keys \<and> blank v then AList.delete f t else AList.update f v t)"
    using Cons.prems p by (auto simp: updates_ok_def intro!: entry_ok_delete entry_ok_update)
  from Cons.IH [OF this rest] show ?case by (simp only: step)
qed

lemma updates_ok_append [simp]: "updates_ok (u @ v) \<longleftrightarrow> updates_ok u \<and> updates_ok v"
  by (auto simp: updates_ok_def)

lemma updates_ok_Cons [simp]:
  "updates_ok ((k, v) # u) \<longleftrightarrow>
     k \<noteq> ''id'' \<and> k \<noteq> ''owner_id'' \<and> (k = ''status'' \<longrightarrow> v \<in> PStr ` set all_statuses) \<and> updates_ok u"
  "updates_ok []"
  by (auto simp: updates_ok_def)

lemma updates_ok_details [simp]: "updates_ok (task_detail_fields d)" "updates_ok clear_task_details"
  using detail_keys_fresh by (auto simp: updates_ok_def task_detail_fields_def clear_task_details_def)

lemma updates_ok_runs:
  "updates_ok (success_updates c d r)" "updates_ok (run_failed_updates d f)" "updates_ok (failed_updates f)"
  "updates_ok (resume_success_updates d r)" "updates_ok (resume_failed_updates c d f)"
  by (simp_all add: success_updates_def run_failed_updates_def failed_updates_def resume_success_updates_def
      resume_failed_updates_def Let_def all_statuses_def)

lemma service_wf_put:
  "service_wf s \<Longrightarrow> entry_ok key t \<Longrightarrow> service_wf (s\<lparr>tasks := AList.update key t (tasks s)\<rparr>)"
  by (simp add: service_wf_def tasks_ok_put)

lemma save_locked_frame [simp]:
  "tasks (snd (save_locked ok s)) = tasks s" "jobs (snd (save_locked ok s)) = jobs s"
  "executing_keys (snd (save_locked ok s)) = executing_keys s" "batching (snd (save_locked ok s)) = batching s"
  "service_wf (snd (save_locked ok s)) = service_wf s" "fst (save_locked ok s) = ok"
  by (simp_all add: save_locked_def service_wf_def)

lemma update_task_wf:
  assumes "service_wf s" and "updates_ok u"
  shows "service_wf (snd (update_task m ok persist key u s))"
proof (cases "map_of (tasks s) key")
  case None
  with assms show ?thesis by (simp add: update_task_def)
next
  case (Some t)
  then have "entry_ok key t" using assms(1) by (auto simp: service_wf_def intro: tasks_ok_entry)
  then have "entry_ok key (AList.update ''updated_ts'' x (AList.update ''updated_at'' y (apply_updates u t)))" for x y
    using assms(2) by (intro entry_ok_update entry_ok_apply_updates) simp_all
  with Some assms(1) show ?thesis
    by (simp add: update_task_def Let_def service_wf_put)
qed

lemma cleanup_wf: "service_wf s \<Longrightarrow> service_wf (snd (cleanup_locked m s))"
  by (simp add: cleanup_locked_def Let_def service_wf_def tasks_ok_filter)

lemma release_reservation_wf: "service_wf s \<Longrightarrow> service_wf (release_reservation rid s)"
  by (auto simp: release_reservation_def service_wf_def rollback_inv split: option.split)

lemma mark_interrupted_wf: "service_wf s \<Longrightarrow> service_wf (snd (mark_task_interrupted m key s))"
proof (cases "map_of (tasks s) key")
  case None
  then show "service_wf s \<Longrightarrow> ?thesis" by (simp add: mark_task_interrupted_def)
next
  case (Some t)
  assume wf: "service_wf s"
  then have "entry_ok key t" using Some by (auto simp: service_wf_def intro: tasks_ok_entry)
  then have "entry_ok key (AList.update ''updated_ts'' a (AList.update ''updated_at'' b (apply_updates (task_detail_fields d)
      (AList.update ''data'' c (AList.update ''error'' e (AList.update ''status'' (PStr ''error'') t))))))" for a b c d e
    by (intro entry_ok_update entry_ok_apply_updates) (simp_all add: all_statuses_def)
  with Some wf show ?thesis
    by (simp add: mark_task_interrupted_def Let_def service_wf_put)
qed

lemma service_wf_flags [simp]:
  "service_wf (s\<lparr>batched_dirty := b\<rparr>) = service_wf s" "service_wf (s\<lparr>batching := b\<rparr>) = service_wf s"
  "service_wf (s\<lparr>pending_submissions := p\<rparr>) = service_wf s" "service_wf (s\<lparr>executing_keys := e\<rparr>) = service_wf s"
  by (simp_all add: service_wf_def)

lemma mark_safely_wf: "service_wf s \<Longrightarrow> service_wf (mark_task_interrupted_safely m ok key s)"
  using mark_interrupted_wf [of s m key]
  by (auto simp: mark_task_interrupted_safely_def split: prod.split bool.split)

lemma run_handlers_wf: "service_wf s \<Longrightarrow> service_wf (run_handlers m ok keys s)"
  unfolding run_handlers_def by (induction keys arbitrary: s) (simp_all add: mark_safely_wf)

lemma new_task_ok: "entry_ok (task_key owner tid) (new_task m owner tid kind payload)"
  by (simp add: entry_ok_def new_task_def field_def all_statuses_def)

lemma restore_ok:
  "tasks_ok ts \<Longrightarrow> tasks_ok us \<Longrightarrow> map_of us key = previous \<Longrightarrow>
   tasks_ok (case previous of None \<Rightarrow> AList.delete key ts | Some p \<Rightarrow> AList.update key p ts)"
  by (cases previous) (auto intro: tasks_ok_delete tasks_ok_put tasks_ok_entry)

lemma commit_new_task_wf:
  assumes "service_wf s" and "entry_ok key task" and "map_of (tasks s) key = previous"
  shows "service_wf (snd (commit_new_task ok1 ok2 rid key task previous job s))"
proof -
  have put: "tasks_ok (AList.update key task (tasks s))"
    using assms(1,2) by (simp add: service_wf_def tasks_ok_put)
  note restore = restore_ok [OF put _ assms(3)]
  have r: "runner_inv (snd (commit rid (job, Some key) (jobs s)))"
    using assms(1) by (simp add: service_wf_def commit_inv)
  show ?thesis
    using assms(1) put r
    by (cases "commit rid (job, Some key) (jobs s)"; cases previous)
      (use restore in \<open>auto simp: commit_new_task_def save_locked_def restore_task_def service_wf_def split: bool.split\<close>)
qed

lemma submit_wf:
  "service_wf s \<Longrightarrow> service_wf (snd (submit_begin m ok i c rid s))"
  "service_wf s \<Longrightarrow> service_wf (snd (submit_reserve k rid s))"
proof -
  show "service_wf (snd (submit_begin m ok i c rid s))" if wf: "service_wf s"
  proof -
    obtain b u where u: "cleanup_locked m s = (b, u)" by fastforce
    have "service_wf u" using cleanup_wf [OF wf, of m] u by simp
    then have "service_wf (snd (if b then save_locked ok u else (True, u)))" by simp
    then show ?thesis
      using wf u by (auto simp: submit_begin_def Let_def release_reservation_wf split: option.split prod.splits)
  qed
  show "service_wf (snd (submit_reserve k rid s))" if "service_wf s"
    using that reserve_inv [of "jobs s"]
    by (auto simp: submit_reserve_def submit_end_def service_wf_def split: option.split prod.split)
qed

lemma submit_commit_wf:
  assumes "service_wf s" and "map_of (tasks s) (task_key owner tid) = None"
  shows "service_wf (snd (submit_commit m ok1 ok2 owner tid kind p sp rid s))"
proof -
  have "service_wf (snd (commit_new_task ok1 ok2 rid (task_key owner tid) (new_task m owner tid kind p) None job s))" for job
    using assms new_task_ok by (intro commit_new_task_wf)
  then have "service_wf u" if "commit_new_task ok1 ok2 rid (task_key owner tid) (new_task m owner tid kind p) None job s = (x, u)" for job x u
    using that by (metis snd_conv)
  then show ?thesis
    using assms(1) release_reservation_wf
    by (auto simp: submit_commit_def Let_def submit_end_def split: option.split prod.split submit_outcome.split)
qed

lemma map_of_drop_keys: "map_of (filter (\<lambda>(k, _). k \<notin> S) d) j = (if j \<in> S then None else map_of d j)"
  by (induction d) auto

lemma resume_poll_wf:
  assumes "service_wf s"
  shows "service_wf (snd (resume_poll m fc ok1 ok2 i c s))"
proof -
  let ?key = "task_key (owner_id i) (clean c)"
  have keep: "entry_ok ?key (filter (\<lambda>(k, _). k \<notin> set task_detail_keys) t)" if "entry_ok ?key t" for t
    using that detail_keys_fresh by (simp add: entry_ok_def field_def map_of_drop_keys)
  obtain b r where r: "reserve (jobs s) = (b, r)" by fastforce
  have rw: "service_wf (s\<lparr>jobs := r\<rparr>)"
    using assms reserve_inv [of "jobs s"] r by (simp add: service_wf_def)
  show ?thesis
  proof (cases "map_of (tasks s) ?key")
    case None
    then show ?thesis using assms by (simp add: resume_poll_def Let_def)
  next
    case (Some t)
    then have "entry_ok ?key t" using assms by (auto simp: service_wf_def intro: tasks_ok_entry)
    then have "entry_ok ?key (filter (\<lambda>(k, _). k \<notin> set task_detail_keys)
        (AList.update ''updated_ts'' x (AList.update ''updated_at'' y (AList.update ''error'' z
          (AList.update ''status'' (PStr ''queued'') t)))))" for x y z
      by (intro keep entry_ok_update) (simp_all add: all_statuses_def)
    then have cw: "service_wf (snd (commit_new_task ok1 ok2 rid ?key (filter (\<lambda>(k, _). k \<notin> set task_detail_keys)
        (AList.update ''updated_ts'' x (AList.update ''updated_at'' y (AList.update ''error'' z
          (AList.update ''status'' (PStr ''queued'') t))))) (Some t) job (s\<lparr>jobs := r\<rparr>)))" for x y z rid job
      using rw Some by (intro commit_new_task_wf) simp_all
    have rel: "service_wf (release_reservation (Some rid) (snd (commit_new_task ok1 ok2 rid ?key
        (filter (\<lambda>(k, _). k \<notin> set task_detail_keys)
        (AList.update ''updated_ts'' x (AList.update ''updated_at'' y (AList.update ''error'' z
          (AList.update ''status'' (PStr ''queued'') t))))) (Some t) job (s\<lparr>jobs := r\<rparr>))))" for x y z rid job
      by (rule release_reservation_wf) (rule cw)
    show ?thesis
      using assms Some r rw rel
      by (simp add: resume_poll_def Let_def split_beta split: option.split)
  qed
qed

lemma run_updates_wf:
  assumes "service_wf s"
  shows "service_wf (snd (run_task_start m ok k c s))" "service_wf (run_task_progress m k p s)"
    "service_wf (run_task_partial m ok k d s)" "service_wf (callback_failed m ok k f s)"
    "service_wf (snd (run_task_finish m ok ok2 n st u l k c dur out s))"
    "service_wf (snd (run_resume_start m ok k c s))"
    "service_wf (snd (run_resume_finish m ok ok2 u l k c dur res s))"
proof -
  show "service_wf (snd (run_task_start m ok k c s))" "service_wf (snd (run_resume_start m ok k c s))"
    using assms by (simp_all add: run_task_start_def run_resume_start_def update_task_wf all_statuses_def)
  show "service_wf (run_task_progress m k p s)" "service_wf (run_task_partial m ok k d s)"
    "service_wf (callback_failed m ok k f s)"
    using assms
    by (simp_all add: run_task_progress_def run_task_partial_def callback_failed_def Let_def update_task_wf updates_ok_runs)
  have two: "service_wf (snd (case update_task m ok True k x s of (a, s) \<Rightarrow>
      case (if a then l else Some u) of None \<Rightarrow> (True, s) | Some f \<Rightarrow> update_task m ok2 True k (y f) s))"
    if "updates_ok x" "\<And>f. updates_ok (y f)" for x y
    using update_task_wf [OF assms that(1), of m ok True k] update_task_wf [OF _ that(2), of _ m ok2 True k]
    by (auto split: prod.split option.split)
  show "service_wf (snd (run_task_finish m ok ok2 n st u l k c dur out s))"
    using assms two by (simp add: run_task_finish_def Let_def update_task_wf updates_ok_runs split: option.split)
  show "service_wf (snd (run_resume_finish m ok ok2 u l k c dur res s))"
    using assms two by (simp add: run_resume_finish_def Let_def update_task_wf updates_ok_runs split: sum.split)
qed

lemma mark_and_note_wf: "service_wf s \<Longrightarrow> service_wf (mark_and_note m key s)"
  using mark_interrupted_wf [of s m key] by (auto simp: mark_and_note_def split: prod.split)

lemma shutdown_wf:
  assumes "service_wf s"
  shows "service_wf (cancel_begin m ok s)" "service_wf (cancel_finish m ok s)" "service_wf (runner_event m ok x s)"
proof -
  show "service_wf (cancel_begin m ok s)" "service_wf (runner_event m ok x s)"
    using assms shutdown_cancel_pending_inv runner_step_inv
    by (auto simp: cancel_begin_def runner_event_def Let_def service_wf_def [of "_\<lparr>jobs := _\<rparr>"]
        service_wf_def [of "_\<lparr>batching := _, batched_dirty := _, jobs := _\<rparr>"] service_wf_def [of s]
        intro!: run_handlers_wf)
  have "service_wf (fold (mark_and_note m) ks u)" if "service_wf u" for ks u
    using that by (induction ks arbitrary: u) (simp_all add: mark_and_note_wf)
  then show "service_wf (cancel_finish m ok s)"
    using assms by (simp add: cancel_finish_def Let_def)
qed

lemma list_tasks_wf: "service_wf s \<Longrightarrow> service_wf (snd (list_tasks m ok i cs s))"
  using cleanup_wf [of s m] by (auto simp: list_tasks_def Let_def split: prod.split)

section \<open>Claims\<close>

text \<open>A key that is being submitted has no task yet: no step but the commit of a submission adds
  a key.\<close>

definition no_new_keys :: "service \<Rightarrow> service \<Rightarrow> bool" where
  "no_new_keys s u \<longleftrightarrow> dom (map_of (tasks u)) \<subseteq> dom (map_of (tasks s)) \<and> pending_submissions u = pending_submissions s"

lemma no_new_keys_refl [simp]: "no_new_keys s s"
  by (simp add: no_new_keys_def)

lemma no_new_keys_trans: "no_new_keys s u \<Longrightarrow> no_new_keys u v \<Longrightarrow> no_new_keys s v"
  unfolding no_new_keys_def by (metis subset_trans)

lemma no_new_keys_save [simp]: "no_new_keys s (snd (save_locked ok u)) = no_new_keys s u"
  by (simp add: no_new_keys_def save_locked_def)

lemma no_new_keys_update: "no_new_keys s (snd (update_task m ok persist key u s))"
  by (auto simp: update_task_def Let_def save_locked_def no_new_keys_def split: option.split if_splits)

lemma no_new_keys_mark: "no_new_keys s (snd (mark_task_interrupted m key s))"
  by (auto simp: mark_task_interrupted_def Let_def no_new_keys_def split: option.split if_splits)

lemma no_new_keys_safely: "no_new_keys s (mark_task_interrupted_safely m ok key s)"
proof (cases "mark_task_interrupted m key s")
  case (Pair b u)
  then have "no_new_keys s u" using no_new_keys_mark [of s m key] by simp
  then show ?thesis
    using Pair by (cases b) (simp_all add: mark_task_interrupted_safely_def, simp add: no_new_keys_def)
qed

lemma no_new_keys_handlers: "no_new_keys s (run_handlers m ok keys s)"
proof -
  have "no_new_keys s (fold (mark_task_interrupted_safely m ok) keys u)" if "no_new_keys s u" for u
    using that
  proof (induction keys arbitrary: u)
    case (Cons k keys)
    then show ?case using no_new_keys_trans [OF Cons.prems no_new_keys_safely] by simp
  qed simp
  then show ?thesis by (simp add: run_handlers_def)
qed

lemma no_new_keys_cleanup: "no_new_keys s (snd (cleanup_locked m s))"
proof -
  have "map_of (filter P d) k = Some v \<Longrightarrow> map_of d k \<noteq> None" for P d k and v :: pydict
    by (metis map_of_SomeD filter_is_subset map_of_eq_None_iff fst_conv image_eqI subsetD)
  then show ?thesis by (force simp: cleanup_locked_def Let_def no_new_keys_def)
qed

definition claims_ok :: "service \<Rightarrow> bool" where
  "claims_ok s \<longleftrightarrow> service_wf s \<and> (\<forall>k \<in> set (pending_submissions s). map_of (tasks s) k = None)"

lemma claims_ok_step:
  assumes "claims_ok s" "service_wf u" "no_new_keys s u"
  shows "claims_ok u"
  using assms by (auto simp: claims_ok_def no_new_keys_def)

lemma claims_ok_fewer:
  "claims_ok s \<Longrightarrow> set p \<subseteq> set (pending_submissions s) \<Longrightarrow> claims_ok (s\<lparr>pending_submissions := p\<rparr>)"
  by (auto simp: claims_ok_def)

lemma claims_ok_jobs: "claims_ok s \<Longrightarrow> runner_inv r \<Longrightarrow> claims_ok (s\<lparr>jobs := r\<rparr>)"
  by (simp add: claims_ok_def service_wf_def)

lemma claims_ok_release: "claims_ok s \<Longrightarrow> claims_ok (release_reservation rid s)"
  using release_reservation_wf [of s rid]
  by (auto simp: claims_ok_def release_reservation_def split: option.splits)

lemma commit_new_task_keys:
  "dom (map_of (tasks (snd (commit_new_task ok1 ok2 rid key task previous job s)))) \<subseteq> insert key (dom (map_of (tasks s))) \<and>
   pending_submissions (snd (commit_new_task ok1 ok2 rid key task previous job s)) = pending_submissions s"
  by (cases "commit rid (job, Some key) (jobs s)"; cases previous)
    (auto simp: commit_new_task_def save_locked_def restore_task_def split: bool.split)

lemma claims_submit_begin: "claims_ok s \<Longrightarrow> claims_ok (snd (submit_begin m ok i c rid s))"
proof -
  assume s: "claims_ok s"
  obtain b u where u: "cleanup_locked m s = (b, u)" by fastforce
  have "claims_ok u"
    using claims_ok_step [OF s] cleanup_wf [of s m] no_new_keys_cleanup [of s m] s u by (simp add: claims_ok_def)
  moreover define v where "v = snd (if b then save_locked ok u else (True, u))"
  ultimately have v: "claims_ok v"
    by (auto simp: claims_ok_def save_locked_def service_wf_def)
  have "(if b then save_locked ok u else (True, u)) = (fst (if b then save_locked ok u else (True, u)), v)"
    by (simp add: v_def)
  then obtain w where w: "(if b then save_locked ok u else (True, u)) = (w, v)" by blast
  have "claims_ok (v\<lparr>pending_submissions := k # pending_submissions v\<rparr>)" if "map_of (tasks v) k = None" for k
    using v that by (simp add: claims_ok_def)
  then show ?thesis
    using s v w u by (auto simp: submit_begin_def Let_def claims_ok_release split: option.split)
qed

lemma claims_submit_commit:
  assumes s: "claims_ok s" and "task_key ow tid \<in> set (pending_submissions s)"
  shows "claims_ok (snd (submit_commit m ok1 ok2 ow tid kind p sp rid s))"
proof -
  have none: "map_of (tasks s) (task_key ow tid) = None" using assms by (simp add: claims_ok_def)
  then have wf: "service_wf (snd (submit_commit m ok1 ok2 ow tid kind p sp rid s))"
    using s submit_commit_wf by (simp add: claims_ok_def)
  have "dom (map_of (tasks (snd (submit_commit m ok1 ok2 ow tid kind p sp rid s)))) \<subseteq> insert (task_key ow tid) (dom (map_of (tasks s))) \<and>
      pending_submissions (snd (submit_commit m ok1 ok2 ow tid kind p sp rid s)) = removeAll (task_key ow tid) (pending_submissions s)"
  proof (cases "prepare_queued_payload kind p sp")
    case None
    then show ?thesis by (auto simp: submit_commit_def Let_def submit_end_def release_reservation_def)
  next
    case (Some q)
    obtain x u where c: "commit_new_task ok1 ok2 rid (task_key ow tid) (new_task m ow tid kind p) None (RunTask (task_key ow tid) kind q) s = (x, u)"
      by fastforce
    have "dom (map_of (tasks u)) \<subseteq> insert (task_key ow tid) (dom (map_of (tasks s)))" "pending_submissions u = pending_submissions s"
      using commit_new_task_keys [of ok1 ok2 rid "task_key ow tid" "new_task m ow tid kind p" None "RunTask (task_key ow tid) kind q" s] c
      by simp_all
    with Some c show ?thesis
      by (auto simp: submit_commit_def Let_def submit_end_def release_reservation_def split: submit_outcome.split)
  qed
  then show ?thesis using wf s by (auto simp: claims_ok_def)
qed

lemma no_new_keys_runs:
  "no_new_keys s (snd (run_task_start m ok k c s))" "no_new_keys s (run_task_progress m k p s)"
  "no_new_keys s (run_task_partial m ok k d s)" "no_new_keys s (callback_failed m ok k f s)"
  "no_new_keys s (snd (run_task_finish m ok ok2 n st u l k c dur out s))"
  "no_new_keys s (snd (run_resume_start m ok k c s))"
  "no_new_keys s (snd (run_resume_finish m ok ok2 u l k c dur res s))"
proof -
  show "no_new_keys s (snd (run_task_start m ok k c s))" "no_new_keys s (snd (run_resume_start m ok k c s))"
    by (simp_all add: run_task_start_def run_resume_start_def no_new_keys_update)
  show "no_new_keys s (run_task_progress m k p s)" "no_new_keys s (run_task_partial m ok k d s)"
    "no_new_keys s (callback_failed m ok k f s)"
    by (simp_all add: run_task_progress_def run_task_partial_def callback_failed_def Let_def no_new_keys_update)
  have two: "no_new_keys s (snd (case update_task m ok True k x s of (a, s) \<Rightarrow>
      case (if a then l else Some u) of None \<Rightarrow> (True, s) | Some f \<Rightarrow> update_task m ok2 True k (y f) s))" for x y
    using no_new_keys_update [of s m ok True k x] no_new_keys_update [of _ m ok2 True k]
    by (auto split: prod.split option.split intro: no_new_keys_trans)
  show "no_new_keys s (snd (run_task_finish m ok ok2 n st u l k c dur out s))"
    using two by (simp add: run_task_finish_def Let_def no_new_keys_update split: option.split)
  show "no_new_keys s (snd (run_resume_finish m ok ok2 u l k c dur res s))"
    using two by (simp add: run_resume_finish_def Let_def no_new_keys_update split: sum.split)
qed

lemma no_new_keys_same:
  "tasks u = tasks s \<Longrightarrow> pending_submissions u = pending_submissions s \<Longrightarrow> no_new_keys s u"
  by (simp add: no_new_keys_def)

lemma no_new_keys_shutdown:
  "no_new_keys s (cancel_begin m ok s)" "no_new_keys s (cancel_finish m ok s)" "no_new_keys s (runner_event m ok x s)"
proof -
  have h: "no_new_keys s (run_handlers m ok ks u)" if "tasks u = tasks s" "pending_submissions u = pending_submissions s"
    for ks u
    using no_new_keys_trans [OF no_new_keys_same [OF that] no_new_keys_handlers] .
  show "no_new_keys s (cancel_begin m ok s)" "no_new_keys s (runner_event m ok x s)"
    by (simp_all add: cancel_begin_def runner_event_def Let_def h)
  have noted: "no_new_keys u (mark_and_note m k u)" for k u
    using no_new_keys_mark [of u m k] by (cases "mark_task_interrupted m k u") (simp add: mark_and_note_def no_new_keys_def)
  have folded: "no_new_keys u (fold (mark_and_note m) ks u)" for ks u
  proof (induction ks arbitrary: u)
    case (Cons k ks)
    show ?case using no_new_keys_trans [OF noted Cons.IH] by simp
  qed simp
  have flags: "no_new_keys s (v\<lparr>batching := b, batched_dirty := d\<rparr>) = no_new_keys s v" for v b d
    by (simp add: no_new_keys_def)
  show "no_new_keys s (cancel_finish m ok s)"
    by (simp add: cancel_finish_def Let_def flags folded)
qed

lemma no_new_keys_release [simp]: "no_new_keys s (release_reservation rid u) = no_new_keys s u"
  by (simp add: no_new_keys_def release_reservation_def split: option.split)

lemma no_new_keys_resume: "no_new_keys s (snd (resume_poll m fc ok1 ok2 i c s))"
proof -
  let ?key = "task_key (owner_id i) (clean c)"
  have "no_new_keys s (snd (commit_new_task ok1 ok2 rid ?key q (Some t) job (s\<lparr>jobs := r\<rparr>)))"
    if "map_of (tasks s) ?key = Some t" for rid q t job r
    using commit_new_task_keys [of ok1 ok2 rid ?key q "Some t" job "s\<lparr>jobs := r\<rparr>"] that
    by (auto simp: no_new_keys_def insert_absorb domI)
  moreover have "no_new_keys s (s\<lparr>jobs := r\<rparr>)" for r by (simp add: no_new_keys_def)
  ultimately show ?thesis
    by (simp add: resume_poll_def Let_def split_beta split: option.split)
qed

lemma no_new_keys_list: "no_new_keys s (snd (list_tasks m ok i cs s))"
  using no_new_keys_cleanup [of s m] by (auto simp: list_tasks_def Let_def split_beta)

text \<open>The code commits a submission only after it claimed its key.\<close>

fun claimed :: "service \<Rightarrow> image_world \<times> image_op \<Rightarrow> bool" where
  "claimed s (w, SubmitCommit ow tid kind p sp r) \<longleftrightarrow> task_key ow tid \<in> set (pending_submissions s)"
| "claimed s _ \<longleftrightarrow> True"

lemma claims_callback:
  "claims_ok s \<Longrightarrow> claims_ok (snd (callback_claim k s))" "claims_ok s \<Longrightarrow> claims_ok (callback_release k s)"
  by (auto simp: callback_claim_def callback_release_def claims_ok_def service_wf_def split: option.split)

lemma claims_submit_reserve: "claims_ok s \<Longrightarrow> claims_ok (snd (submit_reserve k r s))"
  using submit_wf(2) [of s k r]
  by (auto simp: claims_ok_def submit_reserve_def submit_end_def split: option.splits prod.splits)

lemma image_step_claims: "claims_ok s \<Longrightarrow> claimed s x \<Longrightarrow> claims_ok (image_step s x)"
proof -
  assume s: "claims_ok s" and c: "claimed s x"
  note wf = s [unfolded claims_ok_def, THEN conjunct1]
  obtain w y where x: "x = (w, y)" by (cases x)
  show ?thesis
  proof (cases y)
    case SubmitBegin then show ?thesis using s x by (simp add: claims_submit_begin)
  next
    case SubmitReserve then show ?thesis using s x by (simp add: claims_submit_reserve)
  next
    case SubmitCommit then show ?thesis using s c x by (simp add: claims_submit_commit)
  next
    case CallbackClaim then show ?thesis using s x by (simp add: claims_callback)
  next
    case CallbackRelease then show ?thesis using s x by (simp add: claims_callback)
  qed (use x in \<open>simp_all add: claims_ok_step [OF s] no_new_keys_runs no_new_keys_shutdown no_new_keys_resume
    no_new_keys_list run_updates_wf [OF wf] shutdown_wf [OF wf] resume_poll_wf [OF wf] list_tasks_wf [OF wf]\<close>)
qed

interpretation image_service: guarded_machine image_step claimed claims_ok
  by unfold_locales (rule image_step_claims)

section \<open>Submission and shutdown\<close>

lemma commit_new_task_outcome:
  fixes ok1 ok2 rid key task job s
  assumes inv: "runner_inv (jobs s)" and new: "map_of (tasks s) key = None"
  defines "c \<equiv> commit_new_task ok1 ok2 rid key task None job s"
  defines "u \<equiv> release_reservation (Some rid) (snd c)"
  shows "case fst c of
      Submitted t \<Rightarrow> t = task \<and> map_of (tasks (snd c)) = (map_of (tasks s))(key \<mapsto> task) \<and>
        committed_log (jobs (snd c)) = committed_log (jobs s) @ [(job, Some key)] \<and>
        rid \<in> set (pending (jobs s)) \<and> rid \<notin> set (pending (jobs (snd c))) \<and>
        disk (snd c) = sort_desc updated_text (map snd (tasks (snd c)))
    | _ \<Rightarrow> map_of (tasks u) = map_of (tasks s) \<and> committed_log (jobs u) = committed_log (jobs s) \<and>
        rid \<notin> set (pending (jobs u))"
proof (cases ok1)
  case False
  have "map_of (AList.delete key (AList.update key task (tasks s))) = map_of (tasks s)"
    using new by (auto simp: fun_eq_iff)
  then show ?thesis
    using False rollback_facts [OF inv, of rid]
    by (simp add: c_def u_def commit_new_task_def save_locked_def restore_task_def release_reservation_def)
next
  case True
  obtain b r where b: "commit rid (job, Some key) (jobs s) = (b, r)" by fastforce
  note facts = slots.put_or_give_back [OF inv b]
  have "map_of (AList.delete key (AList.update key task (tasks s))) = map_of (tasks s)"
    using new by (auto simp: fun_eq_iff)
  then show ?thesis
    using True b facts
    by (cases b; cases ok2) (auto simp: c_def u_def commit_new_task_def save_locked_def restore_task_def release_reservation_def fun_eq_iff)
qed

text \<open>C9. Committing a submission whose key was claimed is all or nothing: when it answers with a
  task, that is the new queued task, it is stored under its key (and in the file) and no other
  task changed, and its job was given to the runner exactly once; on every failure (the inputs
  of an edit could not be stored, the file could not be written, the runner is full or closed)
  the tasks and the jobs of the runner are those from before. In either case the reservation is
  used up and the key is no longer claimed, so the submission can be repeated.\<close>

theorem submit_commit_atomic:
  assumes "claims_ok s" and "task_key owner tid \<in> set (pending_submissions s)"
  shows "case submit_commit m save_ok resave_ok owner tid kind payload spooled rid s of (out, u) \<Rightarrow>
      rid \<notin> set (pending (jobs u)) \<and>
      pending_submissions u = removeAll (task_key owner tid) (pending_submissions s) \<and>
      (case out of
         Submitted t \<Rightarrow>
           t = new_task m owner tid kind payload \<and>
           map_of (tasks u) = (map_of (tasks s))(task_key owner tid \<mapsto> t) \<and>
           disk u = sort_desc updated_text (map snd (tasks u)) \<and>
           rid \<in> set (pending (jobs s)) \<and>
           committed_log (jobs u) = committed_log (jobs s) @
             [(RunTask (task_key owner tid) kind (the (prepare_queued_payload kind payload spooled)),
               Some (task_key owner tid))]
       | _ \<Rightarrow> map_of (tasks u) = map_of (tasks s) \<and> committed_log (jobs u) = committed_log (jobs s))"
proof (cases "prepare_queued_payload kind payload spooled")
  case None
  have "runner_inv (jobs s)" using assms(1) by (simp add: claims_ok_def service_wf_def)
  with None show ?thesis
    using rollback_facts [of "jobs s" rid]
    by (simp add: submit_commit_def Let_def submit_end_def release_reservation_def)
next
  case (Some q)
  let ?key = "task_key owner tid"
  have inv: "runner_inv (jobs s)" and new: "map_of (tasks s) ?key = None"
    using assms by (simp_all add: claims_ok_def service_wf_def)
  obtain x u where c: "commit_new_task save_ok resave_ok rid ?key (new_task m owner tid kind payload) None
      (RunTask ?key kind q) s = (x, u)" by fastforce
  have "pending_submissions u = pending_submissions s"
    using commit_new_task_keys [of save_ok resave_ok rid ?key "new_task m owner tid kind payload" None "RunTask ?key kind q" s] c
    by simp
  moreover note commit_new_task_outcome [OF inv new, where ?ok1.0 = save_ok and ?ok2.0 = resave_ok and rid = rid
    and task = "new_task m owner tid kind payload" and job = "RunTask ?key kind q"]
  ultimately show ?thesis
    using Some c
    by (cases x) (auto simp: submit_commit_def Let_def submit_end_def release_reservation_def)
qed

lemma update_at_status [simp]:
  "field (copy_task_details d t) ''status'' = field t ''status''"
  "field (apply_updates (task_detail_fields d) t) ''status'' = field t ''status''"
proof -
  have "field (fold (\<lambda>k t. if blank (field d k) then t else AList.update k (field d k) t) ks t) ''status'' = field t ''status''"
    if "''status'' \<notin> set ks" for ks
    using that by (induction ks arbitrary: t) (auto simp: field_def)
  then show "field (copy_task_details d t) ''status'' = field t ''status''"
    using detail_keys_fresh by (simp add: copy_task_details_def)
  have updates: "field (fold (\<lambda>(k, v) t. if k \<in> set task_detail_keys \<and> blank v then AList.delete k t else AList.update k v t) us t) ''status'' = field t ''status''"
    if "''status'' \<notin> fst ` set us" for us
    using that by (induction us arbitrary: t) (auto simp: field_def)
  show "field (apply_updates (task_detail_fields d) t) ''status'' = field t ''status''"
    unfolding apply_updates_def task_detail_fields_def by (rule updates) (use detail_keys_fresh in auto)
qed

section \<open>Restart\<close>

lemma entry_ok_details: "entry_ok k t \<Longrightarrow> entry_ok k (copy_task_details d t)"
proof -
  assume t: "entry_ok k t"
  have "field (fold (\<lambda>k t. if blank (field d k) then t else AList.update k (field d k) t) ks t) j = field t j"
    if "j \<notin> set ks" for j ks
    using that by (induction ks arbitrary: t) (auto simp: field_def)
  then show ?thesis
    using t detail_keys_fresh by (simp add: entry_ok_def copy_task_details_def)
qed

lemma load_item_ok: "load_item m fc d = Some (key, task, changed) \<Longrightarrow> entry_ok key task"
proof -
  assume a: "load_item m fc d = Some (key, task, changed)"
  have opt: "entry_ok k (optional_field f p v t)" if "entry_ok k t" "f \<notin> {''id'', ''owner_id'', ''status''}" for k f p v t
    using that by (auto simp: optional_field_def entry_ok_def)
  show ?thesis
    using a
    by (auto simp: load_item_def Let_def split: if_splits intro!: opt entry_ok_details entry_ok_update)
      (auto simp: entry_ok_def field_def all_statuses_def)
qed

lemma load_entry_ok: "tasks_ok (fst acc) \<Longrightarrow> tasks_ok (fst (load_entry m fc item acc))"
  by (auto simp: load_entry_def Let_def split: pyval.split option.split intro: tasks_ok_put load_item_ok)

lemma tasks_ok_load: "tasks_ok (fst (load_locked m fc raw))"
proof -
  have "tasks_ok (fst (fold (load_entry m fc) items acc))" if "tasks_ok (fst acc)" for items acc
    using that by (induction items arbitrary: acc) (simp_all add: load_entry_ok)
  moreover have "tasks_ok []" by (simp add: tasks_ok_def)
  ultimately show ?thesis by (simp add: load_locked_def split: pyval.split)
qed

lemma tasks_ok_map:
  assumes "tasks_ok ts" "\<And>k t. entry_ok k t \<Longrightarrow> entry_ok k (f t)"
  shows "tasks_ok (map (\<lambda>(k, t). (k, f t)) ts)"
proof -
  have "map_of (map (\<lambda>(k, t). (k, f t)) ts) k = map_option f (map_of ts k)" for k
    by (induction ts) auto
  moreover have "map fst (map (\<lambda>(k, t). (k, f t)) ts) = map fst ts" by auto
  ultimately show ?thesis
    using assms unfolding tasks_ok_def distinct_keys_def by (simp only:) (auto simp: map_option_case split: option.splits)
qed

lemma recover_wf: "service_wf s \<Longrightarrow> service_wf (snd (recover_unfinished m s))"
  by (auto simp: recover_unfinished_def Let_def service_wf_def all_statuses_def
      intro!: tasks_ok_map entry_ok_update entry_ok_details)

text \<open>The service before the file is looked at for expired tasks.\<close>

definition loaded_service ::
  "moment \<Rightarrow> failure_catalog \<Rightarrow> pyval \<Rightarrow> pydict list \<Rightarrow> (image_job, string) runner \<Rightarrow> service" where
  "loaded_service m fc raw file r =
     \<lparr>tasks = fst (load_locked m fc raw), pending_submissions = [], executing_keys = [], batching = False,
      batched_dirty = False, private_details = snd (load_locked m fc raw), disk = file, jobs = r\<rparr>"

lemma init_service_eq:
  "init_service m fc ok raw file r =
     (let s = loaded_service m fc raw file r;
          c = (if private_details s then (True, s) else recover_unfinished m s);
          e = cleanup_locked m (snd c) in
      if fst e \<or> fst c then save_locked ok (snd e) else (True, snd e))"
  by (simp add: init_service_def loaded_service_def Let_def split_beta)

lemma loaded_wf: "runner_inv r \<Longrightarrow> service_wf (loaded_service m fc raw file r)"
  by (simp add: service_wf_def loaded_service_def tasks_ok_load)

lemma pending_frame [simp]:
  "pending_submissions (snd (save_locked ok s)) = pending_submissions s"
  "pending_submissions (snd (cleanup_locked m s)) = pending_submissions s"
  "pending_submissions (snd (recover_unfinished m s)) = pending_submissions s"
  "pending_submissions (loaded_service m fc raw file r) = []"
  by (simp_all add: save_locked_def cleanup_locked_def recover_unfinished_def loaded_service_def Let_def)

lemma claims_init: "claims_ok (snd (init_service m fc ok raw file (init_runner w q)))"
  using loaded_wf [OF runner_inv_init]
  by (simp add: init_service_eq Let_def claims_ok_def cleanup_wf recover_wf)


text \<open>A concrete run for the witnesses: one submission, claimed, reserved and committed.\<close>

definition sample_world :: image_world where
  "sample_world =
     \<lparr>iw_moment = \<lparr>m_iso = ''2026-01-01 00:00:00'', m_now = 0, m_time_of = (\<lambda>_. 0), m_retention = None,
        m_interrupt_error = ''interrupted'', m_interrupt_details = []\<rparr>,
      iw_catalog = \<lparr>fc_code = (\<lambda>c. c), fc_message = (\<lambda>c. c)\<rparr>, iw_save = True, iw_resave = True\<rparr>"

definition sample_start :: service where
  "sample_start = snd (init_service (iw_moment sample_world) (iw_catalog sample_world) True (PList []) [] (init_runner 1 1))"

definition sample_claim :: "(image_world \<times> image_op) list" where
  "sample_claim =
     [(sample_world, SubmitBegin [(''id'', PStr ''u'')] (PStr ''t'') None), (sample_world, SubmitReserve ''u:t'' None)]"

definition sample_commit :: "image_world \<times> image_op" where
  "sample_commit = (sample_world, SubmitCommit ''u'' ''t'' ''generate'' [(''prompt'', PStr ''cat'')] None 0)"

lemma sample_texts:
  "owner_id [(''id'', PStr ''u'')] = ''u''" "clean (PStr ''t'') = ''t''" "task_key ''u'' ''t'' = ''u:t''"
  by (simp_all add: owner_id_def clean_def field_def task_key_def py_or_def strip_def is_space_def)

lemma sample_claimed:
  "pending_submissions (run image_step sample_start sample_claim) = [''u:t'']"
  "allowed_run claimed image_step sample_start sample_claim"
  by (simp_all add: sample_claim_def sample_start_def init_service_def load_locked_def recover_unfinished_def
      cleanup_locked_def save_locked_def submit_begin_def submit_reserve_def Let_def sample_texts reserve_def
      init_runner_def run_of_def fresh_run_def start_locked_def)


theorem submit_commit_atomic_witness:
  "let s = run image_step sample_start sample_claim; u = image_step s sample_commit in
     claims_ok s \<and> 0 \<notin> set (pending (jobs u)) \<and> pending_submissions u = []"
proof -
  let ?s = "run image_step sample_start sample_claim"
  have c: "claims_ok ?s"
    using claims_init sample_claimed(2) unfolding sample_start_def by (rule image_service.run_inv)
  have k: "task_key ''u'' ''t'' \<in> set (pending_submissions ?s)" by (simp add: sample_claimed sample_texts)
  from submit_commit_atomic [OF c k, where m = "iw_moment sample_world" and save_ok = True and resave_ok = True
      and kind = "''generate''" and payload = "[(''prompt'', PStr ''cat'')]" and spooled = None and rid = 0]
  show ?thesis using c by (simp add: Let_def sample_commit_def sample_world_def sample_claimed sample_texts split_beta)
qed

lemma recovered_terminal:
  assumes "tasks_ok (tasks s)"
  shows "list_all (\<lambda>(k, t). field t ''status'' \<in> set terminal_statuses) (tasks (snd (recover_unfinished m s)))"
proof -
  have "field t ''status'' \<in> PStr ` set all_statuses" if "(k, t) \<in> set (tasks s)" for k t
    using assms that by (simp add: tasks_ok_def entry_ok_def distinct_keys_def)
  then have "field t ''status'' \<in> set terminal_statuses \<or> field t ''status'' \<in> set unfinished_statuses"
    if "(k, t) \<in> set (tasks s)" for k t
    using that by (fastforce simp: all_statuses_def terminal_statuses_def unfinished_statuses_def)
  moreover have "PStr ''error'' \<in> set terminal_statuses" by (simp add: terminal_statuses_def)
  ultimately show ?thesis
    by (auto simp: recover_unfinished_def Let_def list_all_iff split: prod.split)
qed

lemma cleanup_keeps_all: "list_all P (tasks s) \<Longrightarrow> list_all P (tasks (snd (cleanup_locked m s)))"
  by (auto simp: cleanup_locked_def Let_def list_all_iff)

lemma private_frame [simp]:
  "private_details (snd (cleanup_locked m s)) = private_details s" "private_details (snd (save_locked ok s)) = private_details s"
  "private_details (snd (recover_unfinished m s)) = private_details s"
  by (simp_all add: cleanup_locked_def save_locked_def recover_unfinished_def Let_def)

text \<open>C11. When the service starts on a file whose items hold nothing that has to be rewritten, no
  task is left queued or running: whatever was interrupted by the end of the previous process
  has become an error that its owner can see.\<close>

theorem restart_finishes_tasks:
  "case init_service m fc ok raw file r of (saved, s) \<Rightarrow>
     if private_details s then True
     else list_all (\<lambda>(k, t). field t ''status'' \<in> set terminal_statuses) (tasks s)"
proof -
  have "tasks_ok (tasks (loaded_service m fc raw file r))" by (simp add: loaded_service_def tasks_ok_load)
  from cleanup_keeps_all [OF recovered_terminal [OF this]] show ?thesis
    by (auto simp: init_service_eq Let_def split_beta)
qed

definition interrupted_item :: pydict where
  "interrupted_item =
     [(''id'', PStr ''t''), (''owner_id'', PStr ''u''), (''status'', PStr ''running''), (''raw_error'', PStr ''x'')]"

text \<open>C12. The recovery is skipped when the file holds one detail that only the administrator's log
  may show: the constructor evaluates \<open>self._loaded_private_task_details or
  self._recover_unfinished_locked()\<close>, and \<open>or\<close> does not call its right-hand side. The task that
  was running when the process ended stays \<open>running\<close> after the start, it cannot be resumed
  because it is not in error, and neither the retention nor the shutdown ever ends it.\<close>

theorem restart_skips_recovery:
  "let s = snd (init_service m fc ok (PList [PDict interrupted_item]) file r);
       state = (\<lambda>v. map_option (\<lambda>t. field t ''status'') (map_of (tasks v) ''u:t'')) in
   state s = Some (PStr ''running'') \<and>
   fst (resume_poll m2 fc ok2 ok3 [(''id'', PStr ''u'')] (PStr ''t'') s) = ResumeError ''task is not in error state'' \<and>
   state (snd (list_tasks m2 ok2 i cs s)) = Some (PStr ''running'') \<and>
   state (cancel_finish m2 ok2 s) = Some (PStr ''running'')"
proof -
  have l: "load_item m fc interrupted_item = Some (''u:t'', t, True) \<Longrightarrow> field t ''status'' = PStr ''running'' \<Longrightarrow>
      load_locked m fc (PList [PDict interrupted_item]) = ([(''u:t'', t)], True)" for t
    by (simp add: load_locked_def load_entry_def)
  have "\<exists>t. load_item m fc interrupted_item = Some (''u:t'', t, True) \<and> field t ''status'' = PStr ''running''"
  proof -
    have "clean (PStr ''running'') = ''running''" "clean (PStr ''u'') = ''u''" "clean PNone = []"
      by (simp_all add: clean_def py_or_def strip_def is_space_def)
    moreover have "map_of interrupted_item = [''id'' \<mapsto> PStr ''t'', ''owner_id'' \<mapsto> PStr ''u'',
        ''status'' \<mapsto> PStr ''running'', ''raw_error'' \<mapsto> PStr ''x'']"
      by (auto simp: interrupted_item_def fun_eq_iff)
    ultimately show ?thesis
      by (simp add: load_item_def Let_def field_def optional_field_def update_at_status [unfolded field_def] sample_texts
          all_statuses_def admin_log_only_keys_def)
  qed
  then obtain t where t: "load_locked m fc (PList [PDict interrupted_item]) = ([(''u:t'', t)], True)"
      "field t ''status'' = PStr ''running''" using l by blast
  have k: "PStr ''running'' \<notin> set terminal_statuses" by (simp add: terminal_statuses_def)
  define s where "s = snd (init_service m fc ok (PList [PDict interrupted_item]) file r)"
  have s: "tasks s = [(''u:t'', t)]"
    using t k by (simp add: s_def init_service_eq loaded_service_def cleanup_locked_def Let_def)
  have "tasks (snd (list_tasks m2 ok2 i cs s)) = [(''u:t'', t)]"
    using t k s by (simp add: list_tasks_def cleanup_locked_def Let_def)
  moreover have "tasks (cancel_finish m2 ok2 s) = [(''u:t'', t)]"
    using t s by (simp add: cancel_finish_def mark_and_note_def mark_task_interrupted_def Let_def)
  moreover have "fst (resume_poll m2 fc ok2 ok3 [(''id'', PStr ''u'')] (PStr ''t'') s) = ResumeError ''task is not in error state''"
    using t s by (simp add: resume_poll_def Let_def sample_texts)
  ultimately show ?thesis using t s by (simp add: Let_def flip: s_def)
qed

section \<open>The end of the service\<close>

text \<open>A task that waits and whose callback has not claimed it.\<close>

definition waiting :: "service \<Rightarrow> string \<Rightarrow> pydict \<Rightarrow> bool" where
  "waiting s k t \<longleftrightarrow> field t ''status'' = PStr ''queued'' \<and> k \<notin> set (executing_keys s)"

lemma mark_and_note_effect:
  "executing_keys (mark_and_note m k s) = executing_keys s"
  "map_of (tasks (mark_and_note m k s)) j =
     (if j = k \<and> (\<exists>t. map_of (tasks s) k = Some t \<and> waiting s k t)
      then Some (AList.update ''updated_ts'' (PFloat (Fin (m_now m))) (AList.update ''updated_at'' (PStr (m_iso m))
        (apply_updates (task_detail_fields (m_interrupt_details m))
          (AList.update ''data'' (PList []) (AList.update ''error'' (PStr (m_interrupt_error m))
            (AList.update ''status'' (PStr ''error'') (the (map_of (tasks s) k))))))))
      else map_of (tasks s) j)"
  by (auto simp: mark_and_note_def mark_task_interrupted_def waiting_def Let_def split: option.split)

definition ended :: "service \<Rightarrow> string \<Rightarrow> pydict option \<Rightarrow> bool" where
  "ended s k u \<longleftrightarrow>
     (case map_of (tasks s) k of
        None \<Rightarrow> u = None
      | Some t \<Rightarrow> if waiting s k t then (\<exists>v. u = Some v \<and> field v ''status'' = PStr ''error'') else u = Some t)"

lemma mark_all_effect:
  "executing_keys (fold (mark_and_note m) ks s) = executing_keys s"
  "j \<in> set ks \<Longrightarrow> ended s j (map_of (tasks (fold (mark_and_note m) ks s)) j)"
  "j \<notin> set ks \<Longrightarrow> map_of (tasks (fold (mark_and_note m) ks s)) j = map_of (tasks s) j"
proof (induction ks arbitrary: s)
  case (Cons k ks)
  { case 1 show ?case by (simp add: Cons.IH(1) mark_and_note_effect) }
  { case 3 then show ?case by (simp add: Cons.IH(3) mark_and_note_effect) }
  case 2
  let ?s = "mark_and_note m k s"
  have e: "executing_keys ?s = executing_keys s" by (rule mark_and_note_effect)
  note upd = mark_and_note_effect(2) [of m k s j]
  show ?case
  proof (cases "j \<in> set ks")
    case True
    from Cons.IH(2) [OF True, of ?s]
    have "ended ?s j (map_of (tasks (fold (mark_and_note m) ks ?s)) j)" .
    then show ?thesis
      using upd e by (auto simp: ended_def waiting_def split: if_splits option.splits)
  next
    case False
    with 2 Cons.IH(3) [OF False, of ?s] upd show ?thesis
      by (auto simp: ended_def waiting_def split: option.split)
  qed
qed simp_all

lemma mark_all_dirty:
  "\<not> batched_dirty (fold (mark_and_note m) ks s) \<Longrightarrow> fold (mark_and_note m) ks s = s \<and> \<not> batched_dirty s"
proof (induction ks arbitrary: s)
  case (Cons k ks)
  then have "fold (mark_and_note m) ks (mark_and_note m k s) = mark_and_note m k s" "\<not> batched_dirty (mark_and_note m k s)"
    using Cons.IH [of "mark_and_note m k s"] by simp_all
  moreover have "\<not> batched_dirty (mark_and_note m k s) \<Longrightarrow> mark_and_note m k s = s"
    by (auto simp: mark_and_note_def mark_task_interrupted_def Let_def split: option.splits if_splits)
  ultimately show ?case by simp
qed simp

text \<open>When the last part of the shutdown has run, in whatever state the wait for the active
  callbacks left the service: every waiting task whose callback never claimed it is an error,
  every other task is untouched, batching is switched off, and if a task was
  marked, here or by a cancel handler before, and the write succeeds, then the file holds
  exactly the tasks of the memory.\<close>

theorem shutdown_ends_waiting_tasks:
  "case cancel_finish m ok s of u \<Rightarrow>
     ended s k (map_of (tasks u) k) \<and> executing_keys u = executing_keys s \<and>
     \<not> batching u \<and> \<not> batched_dirty u \<and>
     (if ok \<and> (batched_dirty s \<or> (case map_of (tasks s) k of None \<Rightarrow> False | Some t \<Rightarrow> waiting s k t))
      then disk u = sort_desc updated_text (map snd (tasks u)) else True)"
proof -
  let ?v = "fold (mark_and_note m) (map fst (tasks s)) s"
  have e: "ended s k (map_of (tasks ?v) k)"
  proof (cases "k \<in> set (map fst (tasks s))")
    case True
    then show ?thesis by (rule mark_all_effect(2))
  next
    case False
    moreover have "map_of (tasks s) k = None" using False by (simp add: map_of_eq_None_iff)
    ultimately show ?thesis using mark_all_effect(3) [OF False] by (simp add: ended_def)
  qed
  have "batched_dirty ?v" if "batched_dirty s \<or> (case map_of (tasks s) k of None \<Rightarrow> False | Some t \<Rightarrow> waiting s k t)"
  proof (rule ccontr)
    assume "\<not> batched_dirty ?v"
    from mark_all_dirty [OF this] that e show False
      by (auto simp: ended_def waiting_def split: option.splits)
  qed
  then show ?thesis
    using e mark_all_effect(1) [of m "map fst (tasks s)" s]
    by (simp add: cancel_finish_def Let_def) (simp add: save_locked_def)
qed

end
