(* ===== verification/AuthService.thy ===== *)
theory AuthService
  imports Storage
begin

text \<open>
  \<open>services/auth_service.py\<close>: the API keys. A process caches the normalised items of the
  table \<open>auth_keys\<close> with the revision they were read at; every change is written with that
  revision as its guard and tried again after a conflict. The table is the database of theory
  \<open>Storage\<close>. What is drawn at random, the clocks, the hash of a key and whether a call of the
  storage raises are arguments; other processes write between the calls (\<open>at_before\<close>,
  \<open>at_between\<close>). The second half of the theory lets any number of processes run their atomic
  parts in any order.
\<close>

section \<open>Items\<close>

definition utf8 :: "nat list \<Rightarrow> string" where
  "utf8 bs = map char_of bs"

definition default_name :: "pyval \<Rightarrow> string" where
  "default_name role =
     (if lower (clean role) = ''admin''
      then utf8 [231, 174, 161, 231, 144, 134, 229, 145, 152, 229, 175, 134, 233, 146, 165]
      else utf8 [230, 153, 174, 233, 128, 154, 231, 148, 168, 230, 136, 183])"

definition auth_roles :: "string list" where
  "auth_roles = [''admin'', ''user'']"

definition or_text :: "string \<Rightarrow> string \<Rightarrow> string" where
  "or_text a b = (if a = [] then b else a)"

definition item_enabled :: "pydict \<Rightarrow> bool" where
  "item_enabled item = (case map_of item ''enabled'' of None \<Rightarrow> True | Some v \<Rightarrow> truthy v)"

definition normalize_item :: "string \<Rightarrow> pydict \<Rightarrow> pydict option" where
  "normalize_item now_iso raw =
     (let role = lower (clean (field raw ''role'')); key_hash = clean (field raw ''key_hash''); item_id = clean (field raw ''id'') in
      if role \<notin> set auth_roles \<or> key_hash = [] \<or> item_id = [] then None
      else Some
        [(''id'', PStr item_id),
         (''name'', PStr (or_text (clean (field raw ''name'')) (default_name (PStr role)))),
         (''role'', PStr role), (''key_hash'', PStr key_hash), (''enabled'', PBool (item_enabled raw)),
         (''created_at'', PStr (or_text (clean (field raw ''created_at'')) now_iso)),
         (''last_used_at'', (let used = clean (field raw ''last_used_at'') in if used = [] then PNone else PStr used))])"

definition public_item :: "pydict \<Rightarrow> pydict" where
  "public_item item =
     [(''id'', field item ''id''), (''name'', field item ''name''), (''role'', field item ''role''),
      (''enabled'', PBool (item_enabled item)), (''created_at'', field item ''created_at''),
      (''last_used_at'', field item ''last_used_at'')]"

section \<open>State\<close>

record auth_state =
  auth_items :: "pydict list"
  auth_revision :: "string option"
  flushed_at :: "(string \<times> rat) list"
  refresh_attempt_at :: rat
  refresh_success_at :: rat

definition fresh_auth :: auth_state where
  "fresh_auth = \<lparr>auth_items = [], auth_revision = None, flushed_at = [], refresh_attempt_at = 0, refresh_success_at = 0\<rparr>"

definition refresh_interval :: rat where "refresh_interval = 5"
definition max_stale :: rat where "max_stale = 30"
definition cas_attempts :: nat where "cas_attempts = 4"

definition load_auth :: "string \<Rightarrow> db \<Rightarrow> pydict list \<times> string" where
  "load_auth now_iso s =
     (case load_snapshot AuthKeys s of (raws, rv) \<Rightarrow> (List.map_filter (normalize_item now_iso) raws, rv))"

text \<open>\<open>_reload_locked\<close> after the storage answered.\<close>

definition take_snapshot :: "rat \<Rightarrow> pydict list \<times> string \<Rightarrow> auth_state \<Rightarrow> auth_state" where
  "take_snapshot t snap a =
     a\<lparr>auth_items := fst snap, auth_revision := Some (snd snap), refresh_attempt_at := t, refresh_success_at := t\<rparr>"

definition reload :: "bool \<Rightarrow> string \<Rightarrow> rat \<Rightarrow> db \<Rightarrow> auth_state \<Rightarrow> bool \<times> auth_state" where
  "reload reachable now_iso t s a = (if reachable then (True, take_snapshot t (load_auth now_iso s) a) else (False, a))"

definition snapshot_is_usable :: "rat \<Rightarrow> auth_state \<Rightarrow> bool" where
  "snapshot_is_usable t a \<longleftrightarrow> 0 < refresh_success_at a \<and> t - refresh_success_at a \<le> max_stale"

text \<open>\<open>_refresh_snapshot_if_due\<close>: the due check, then (when this thread gets the refresh lock) the
  read of the storage, and the exchange of the snapshot unless another thread changed it.\<close>

definition refresh_due :: "rat \<Rightarrow> auth_state \<Rightarrow> bool" where
  "refresh_due t a \<longleftrightarrow> refresh_interval \<le> t - refresh_attempt_at a"

definition refresh_begin :: "rat \<Rightarrow> auth_state \<Rightarrow> auth_state" where
  "refresh_begin t a = a\<lparr>refresh_attempt_at := t\<rparr>"

definition refresh_end :: "string option \<Rightarrow> rat \<Rightarrow> (pydict list \<times> string) option \<Rightarrow> auth_state \<Rightarrow> bool \<times> auth_state" where
  "refresh_end expected t snap a =
     (case snap of
        None \<Rightarrow> (snapshot_is_usable t a, a)
      | Some (items, rv) \<Rightarrow>
          if auth_revision a \<noteq> expected then (snapshot_is_usable t a, a)
          else
            (let active = map (\<lambda>i. clean (field i ''id'')) items in
             (True, a\<lparr>auth_items := items, auth_revision := Some rv, refresh_success_at := t,
                flushed_at := filter (\<lambda>(k, _). k \<in> set active) (flushed_at a)\<rparr>)))"

record clocks =
  ck_enter :: rat
  ck_locked :: rat
  ck_loaded :: rat

definition refresh_if_due ::
  "clocks \<Rightarrow> bool \<Rightarrow> bool \<Rightarrow> string \<Rightarrow> db \<Rightarrow> auth_state \<Rightarrow> bool \<times> auth_state" where
  "refresh_if_due ck lock_free reachable now_iso s a =
     (if \<not> refresh_due (ck_enter ck) a then (snapshot_is_usable (ck_enter ck) a, a)
      else if \<not> lock_free then (snapshot_is_usable (ck_enter ck) a, a)
      else if \<not> refresh_due (ck_locked ck) a then (snapshot_is_usable (ck_locked ck) a, a)
      else
        (let a = refresh_begin (ck_locked ck) a in
         refresh_end (auth_revision a) (ck_loaded ck) (if reachable then Some (load_auth now_iso s) else None) a))"

definition set_cached_item :: "pydict \<Rightarrow> string \<Rightarrow> auth_state \<Rightarrow> auth_state" where
  "set_cached_item item rv a =
     a\<lparr>auth_items := filter (\<lambda>i. clean (field i ''id'') \<noteq> clean (field item ''id'')) (auth_items a) @ [item],
       auth_revision := Some rv\<rparr>"

definition delete_cached_item :: "string \<Rightarrow> string \<Rightarrow> auth_state \<Rightarrow> auth_state" where
  "delete_cached_item item_id rv a =
     a\<lparr>auth_items := filter (\<lambda>i. clean (field i ''id'') \<noteq> item_id) (auth_items a), auth_revision := Some rv\<rparr>"

fun first_index :: "('a \<Rightarrow> bool) \<Rightarrow> 'a list \<Rightarrow> nat option" where
  "first_index P [] = None"
| "first_index P (x # xs) = (if P x then Some 0 else map_option Suc (first_index P xs))"

definition find_item_index :: "string \<Rightarrow> string option \<Rightarrow> pydict list \<Rightarrow> nat option" where
  "find_item_index item_id role items =
     (case first_index (\<lambda>i. clean (field i ''id'') = item_id) items of
        None \<Rightarrow> None
      | Some n \<Rightarrow> (case role of
            None \<Rightarrow> Some n
          | Some r \<Rightarrow> if field (items ! n) ''role'' = PStr r then Some n else None))"

definition find_hash_index :: "string \<Rightarrow> pydict list \<Rightarrow> nat option" where
  "find_hash_index candidate_hash items =
     first_index (\<lambda>i. item_enabled i \<and> clean (field i ''key_hash'') \<noteq> [] \<and> clean (field i ''key_hash'') = candidate_hash) items"

definition list_keys :: "bool \<Rightarrow> string \<Rightarrow> rat \<Rightarrow> string option \<Rightarrow> db \<Rightarrow> auth_state \<Rightarrow> pydict list \<times> auth_state" where
  "list_keys reachable now_iso t role s a =
     (let a = snd (reload reachable now_iso t s a) in
      (map public_item (filter (\<lambda>i. case role of None \<Rightarrow> True | Some r \<Rightarrow> field i ''role'' = PStr r) (auth_items a)), a))"

section \<open>Building an item\<close>

datatype auth_error =
    EmptyKey
  | AdminKey
  | NotAscii
  | KeyTaken
  | NameTaken
  | StillDrawing
  | Unavailable
  | RetryExhausted
  | StorageError storage_error

text \<open>What does not change while a process runs: the digest (SHA-256 read as a number) and the
  configured administrator key.\<close>

record auth_config =
  ac_digest :: "string \<Rightarrow> nat"
  ac_admin_key :: pyval

definition hex_digit :: "nat \<Rightarrow> char" where
  "hex_digit n = (if n < 10 then char_of (48 + n) else char_of (87 + n))"

primrec hex_text :: "nat \<Rightarrow> nat \<Rightarrow> string" where
  "hex_text 0 n = []"
| "hex_text (Suc w) n = hex_text w (n div 16) @ [hex_digit (n mod 16)]"

text \<open>\<open>_hash_key\<close>: 64 hexadecimal digits of the digest.\<close>

definition ac_hash :: "auth_config \<Rightarrow> string \<Rightarrow> string" where
  "ac_hash cf x = hex_text 64 (ac_digest cf x)"

definition excluded :: "string \<Rightarrow> pydict \<Rightarrow> bool" where
  "excluded exclude_id item \<longleftrightarrow> exclude_id \<noteq> [] \<and> clean (field item ''id'') = exclude_id"

definition has_key_hash :: "string \<Rightarrow> string \<Rightarrow> pydict list \<Rightarrow> bool" where
  "has_key_hash key_hash exclude_id items =
     list_ex (\<lambda>i. \<not> excluded exclude_id i \<and> clean (field i ''key_hash'') \<noteq> [] \<and> clean (field i ''key_hash'') = key_hash) items"

text \<open>\<open>hmac.compare_digest\<close> takes two ASCII texts and raises TypeError on others. The stored hashes
  are hexadecimal.\<close>

definition is_ascii :: "string \<Rightarrow> bool" where
  "is_ascii s \<longleftrightarrow> list_all (\<lambda>c. (of_char c :: nat) < 128) s"

definition build_key_hash :: "auth_config \<Rightarrow> string \<Rightarrow> string \<Rightarrow> pydict list \<Rightarrow> auth_error + string" where
  "build_key_hash cf raw_key exclude_id items =
     (let candidate = strip raw_key; admin = clean (ac_admin_key cf); key_hash = ac_hash cf candidate in
      if candidate = [] then Inl EmptyKey
      else if admin \<noteq> [] \<and> \<not> (is_ascii candidate \<and> is_ascii admin) then Inl NotAscii
      else if admin \<noteq> [] \<and> candidate = admin then Inl AdminKey
      else if has_key_hash key_hash exclude_id items then Inl KeyTaken
      else Inr key_hash)"

definition has_name :: "string \<Rightarrow> string option \<Rightarrow> string \<Rightarrow> pydict list \<Rightarrow> bool" where
  "has_name name role exclude_id items =
     (let candidate = strip name in
      if candidate = [] then False
      else list_ex (\<lambda>i. \<not> excluded exclude_id i \<and>
          (case role of None \<Rightarrow> True | Some r \<Rightarrow> field i ''role'' = PStr r) \<and>
          clean (field i ''name'') = candidate) items)"

text \<open>The loop of \<open>_build_default_name_locked\<close>; it ends after at most one more turn than there
  are items (\<open>free_suffix_enough\<close> below).\<close>

fun free_suffix :: "nat \<Rightarrow> string \<Rightarrow> string \<Rightarrow> string \<Rightarrow> pydict list \<Rightarrow> nat \<Rightarrow> string option" where
  "free_suffix 0 base role exclude_id items suffix = None"
| "free_suffix (Suc fuel) base role exclude_id items suffix =
     (let candidate = base @ '' '' @ nat_text suffix in
      if has_name candidate (Some role) exclude_id items
      then free_suffix fuel base role exclude_id items (Suc suffix)
      else Some candidate)"

definition build_default_name :: "string \<Rightarrow> string \<Rightarrow> pydict list \<Rightarrow> string option" where
  "build_default_name role exclude_id items =
     (let base = default_name (PStr role) in
      if \<not> has_name base (Some role) exclude_id items then Some base
      else free_suffix (Suc (length items)) base role exclude_id items 2)"

definition build_name :: "string \<Rightarrow> string \<Rightarrow> string \<Rightarrow> pydict list \<Rightarrow> auth_error + string" where
  "build_name name role exclude_id items =
     (let candidate = strip name in
      if candidate = []
      then (case build_default_name role exclude_id items of None \<Rightarrow> Inl StillDrawing | Some n \<Rightarrow> Inr n)
      else if has_name candidate (Some role) exclude_id items then Inl NameTaken
      else Inr candidate)"

text \<open>The two drawing loops: the first drawn key that is accepted, the first drawn id that is
  free (\<open>uuid4().hex[:12]\<close>); when the draws run out the loop is still drawing.\<close>

fun draw_key :: "auth_config \<Rightarrow> pydict list \<Rightarrow> string list \<Rightarrow> auth_error + string \<times> string" where
  "draw_key cf items [] = Inl StillDrawing"
| "draw_key cf items (d # ds) =
     (case build_key_hash cf (''sk-'' @ d) [] items of
        Inl NotAscii \<Rightarrow> Inl NotAscii
      | Inl _ \<Rightarrow> draw_key cf items ds
      | Inr h \<Rightarrow> Inr (''sk-'' @ d, h))"

definition draw_id :: "pydict list \<Rightarrow> nat list \<Rightarrow> string option" where
  "draw_id items ids = List.find (\<lambda>i. i \<notin> set (map (\<lambda>x. clean (field x ''id'')) items)) (map (hex_text 12) ids)"

definition prepare_create ::
  "auth_config \<Rightarrow> string \<Rightarrow> string list \<Rightarrow> nat list \<Rightarrow> string \<Rightarrow> string \<Rightarrow> auth_state \<Rightarrow> auth_error + pydict \<times> string" where
  "prepare_create cf now_iso draws ids role name a =
     (case build_name name role [] (auth_items a) of
        Inl e \<Rightarrow> Inl e
      | Inr n \<Rightarrow>
          (case draw_key cf (auth_items a) draws of
             Inl e \<Rightarrow> Inl e
           | Inr (raw_key, h) \<Rightarrow>
               (case draw_id (auth_items a) ids of
                  None \<Rightarrow> Inl StillDrawing
                | Some i \<Rightarrow> Inr ([(''id'', PStr i), (''name'', PStr n), (''role'', PStr role), (''key_hash'', PStr h),
                     (''enabled'', PBool True), (''created_at'', PStr now_iso), (''last_used_at'', PNone)], raw_key))))"

text \<open>\<open>if k in updates and updates.get(k) is not None\<close>.\<close>

definition given :: "pydict \<Rightarrow> string \<Rightarrow> bool" where
  "given updates k \<longleftrightarrow> field updates k \<noteq> PNone"

definition text_or_empty :: "pyval \<Rightarrow> string" where
  "text_or_empty v = py_str (py_or v (PStr []))"

definition prepare_update ::
  "auth_config \<Rightarrow> string \<Rightarrow> pydict \<Rightarrow> string option \<Rightarrow> auth_state \<Rightarrow> (auth_error + pydict) option" where
  "prepare_update cf key_id updates role a =
     (case find_item_index key_id role (auth_items a) of
        None \<Rightarrow> None
      | Some n \<Rightarrow>
          (let item = auth_items a ! n;
               next_role = (if lower (clean (field item ''role'')) = ''admin'' then ''admin'' else ''user'') in
           Some
             (case (if given updates ''name''
                    then map_sum id (\<lambda>v. AList.update ''name'' (PStr v) item)
                      (build_name (text_or_empty (field updates ''name'')) next_role key_id (auth_items a))
                    else Inr item) of
                Inl e \<Rightarrow> Inl e
              | Inr item \<Rightarrow>
                  (let item = (if given updates ''enabled''
                       then AList.update ''enabled'' (PBool (truthy (field updates ''enabled''))) item else item) in
                   if given updates ''key''
                   then map_sum id (\<lambda>h. AList.update ''key_hash'' (PStr h) item)
                     (build_key_hash cf (text_or_empty (field updates ''key'')) key_id (auth_items a))
                   else Inr item))))"

section \<open>Operations\<close>

definition auth_mutate :: "mutation \<Rightarrow> db \<Rightarrow> (storage_error + receipt) \<times> db" where
  "auth_mutate m s = (case db_mutate AuthKeys None m None (s, ()) of (r, s, _) \<Rightarrow> (r, s))"

definition upsert_of :: "pydict \<Rightarrow> auth_state \<Rightarrow> mutation" where
  "upsert_of item a = \<lparr>upserts = [PDict item], delete_keys = [], expected_revision = auth_revision a\<rparr>"

definition delete_of :: "string \<Rightarrow> auth_state \<Rightarrow> mutation" where
  "delete_of key_id a = \<lparr>upserts = [], delete_keys = [PStr key_id], expected_revision = auth_revision a\<rparr>"

text \<open>One guarded write of an item, and of a deletion; None stands for a call that raises.\<close>

definition store_item :: "bool \<Rightarrow> pydict \<Rightarrow> auth_state \<Rightarrow> db \<Rightarrow> (auth_error + receipt) \<times> auth_state \<times> db" where
  "store_item reachable item a s =
     (if \<not> reachable then (Inl Unavailable, a, s)
      else case auth_mutate (upsert_of item a) s of
        (Inl e, s) \<Rightarrow> (Inl (StorageError e), a, s)
      | (Inr r, s) \<Rightarrow> (Inr r, set_cached_item item (rc_revision r) a, s))"

definition remove_item :: "bool \<Rightarrow> string \<Rightarrow> auth_state \<Rightarrow> db \<Rightarrow> (auth_error + receipt) \<times> auth_state \<times> db" where
  "remove_item reachable key_id a s =
     (if \<not> reachable then (Inl Unavailable, a, s)
      else case auth_mutate (delete_of key_id a) s of
        (Inl e, s) \<Rightarrow> (Inl (StorageError e), a, s)
      | (Inr r, s) \<Rightarrow>
          (Inr r, (delete_cached_item key_id (rc_revision r) a)\<lparr>flushed_at := AList.delete key_id (flushed_at a)\<rparr>, s))"

fun is_conflict :: "auth_error \<Rightarrow> bool" where
  "is_conflict (StorageError (RevisionConflict _ _)) = True"
| "is_conflict _ = False"

text \<open>One turn of a retry loop sees: what other processes wrote before the reload and between the
  reload and the write, whether the calls of the storage return, the clocks and the draws.\<close>

record attempt =
  at_before :: "db \<Rightarrow> db"
  at_loads :: bool
  at_iso :: string
  at_time :: rat
  at_keys :: "string list"
  at_ids :: "nat list"
  at_between :: "db \<Rightarrow> db"
  at_writes :: bool

definition attempt_load :: "attempt \<Rightarrow> auth_state \<Rightarrow> db \<Rightarrow> bool \<times> auth_state \<times> db" where
  "attempt_load w a s =
     (let s = at_before w s; (ok, a) = reload (at_loads w) (at_iso w) (at_time w) s a in (ok, a, at_between w s))"

fun create_loop ::
  "auth_config \<Rightarrow> string \<Rightarrow> string \<Rightarrow> attempt list \<Rightarrow> auth_state \<Rightarrow> db \<Rightarrow> (auth_error + pydict \<times> string) \<times> auth_state \<times> db" where
  "create_loop cf role name [] a s = (Inl RetryExhausted, a, s)"
| "create_loop cf role name (w # ws) a s =
     (case attempt_load w a s of
        (False, a, s) \<Rightarrow> (Inl Unavailable, a, s)
      | (True, a, s) \<Rightarrow>
          (case prepare_create cf (at_iso w) (at_keys w) (at_ids w) role name a of
             Inl e \<Rightarrow> (Inl e, a, s)
           | Inr (item, raw_key) \<Rightarrow>
               (case store_item (at_writes w) item a s of
                  (Inr r, a, s) \<Rightarrow> (Inr (public_item item, raw_key), a, s)
                | (Inl e, a, s) \<Rightarrow>
                    if is_conflict e \<and> ws \<noteq> [] then create_loop cf role name ws a s else (Inl e, a, s))))"

definition create_key ::
  "auth_config \<Rightarrow> (nat \<Rightarrow> attempt) \<Rightarrow> string \<Rightarrow> string \<Rightarrow> auth_state \<Rightarrow> db \<Rightarrow>
   (auth_error + pydict \<times> string) \<times> auth_state \<times> db" where
  "create_key cf world role name a s = create_loop cf role name (map world [0..<cas_attempts]) a s"

fun update_loop ::
  "auth_config \<Rightarrow> string \<Rightarrow> pydict \<Rightarrow> string option \<Rightarrow> attempt list \<Rightarrow> auth_state \<Rightarrow> db \<Rightarrow>
   (auth_error + pydict option) \<times> auth_state \<times> db" where
  "update_loop cf key_id updates role [] a s = (Inr None, a, s)"
| "update_loop cf key_id updates role (w # ws) a s =
     (case attempt_load w a s of
        (False, a, s) \<Rightarrow> (Inl Unavailable, a, s)
      | (True, a, s) \<Rightarrow>
          (case prepare_update cf key_id updates role a of
             None \<Rightarrow> (Inr None, a, s)
           | Some (Inl e) \<Rightarrow> (Inl e, a, s)
           | Some (Inr item) \<Rightarrow>
               (case store_item (at_writes w) item a s of
                  (Inr r, a, s) \<Rightarrow> (Inr (Some (public_item item)), a, s)
                | (Inl e, a, s) \<Rightarrow>
                    if is_conflict e \<and> ws \<noteq> [] then update_loop cf key_id updates role ws a s else (Inl e, a, s))))"

definition update_key ::
  "auth_config \<Rightarrow> (nat \<Rightarrow> attempt) \<Rightarrow> pyval \<Rightarrow> pydict \<Rightarrow> string option \<Rightarrow> auth_state \<Rightarrow> db \<Rightarrow>
   (auth_error + pydict option) \<times> auth_state \<times> db" where
  "update_key cf world key_id updates role a s =
     (if clean key_id = [] then (Inr None, a, s)
      else update_loop cf (clean key_id) updates role (map world [0..<cas_attempts]) a s)"

fun delete_loop ::
  "string \<Rightarrow> string option \<Rightarrow> attempt list \<Rightarrow> auth_state \<Rightarrow> db \<Rightarrow> (auth_error + bool) \<times> auth_state \<times> db" where
  "delete_loop key_id role [] a s = (Inr False, a, s)"
| "delete_loop key_id role (w # ws) a s =
     (case attempt_load w a s of
        (False, a, s) \<Rightarrow> (Inl Unavailable, a, s)
      | (True, a, s) \<Rightarrow>
          if find_item_index key_id role (auth_items a) = None then (Inr False, a, s)
          else
            (case remove_item (at_writes w) key_id a s of
               (Inr r, a, s) \<Rightarrow> (Inr (0 < rc_deleted r), a, s)
             | (Inl e, a, s) \<Rightarrow>
                 if is_conflict e \<and> ws \<noteq> [] then delete_loop key_id role ws a s else (Inl e, a, s)))"

definition delete_key ::
  "(nat \<Rightarrow> attempt) \<Rightarrow> pyval \<Rightarrow> string option \<Rightarrow> auth_state \<Rightarrow> db \<Rightarrow> (auth_error + bool) \<times> auth_state \<times> db" where
  "delete_key world key_id role a s =
     (if clean key_id = [] then (Inr False, a, s)
      else delete_loop (clean key_id) role (map world [0..<cas_attempts]) a s)"

text \<open>\<open>authenticate\<close>: the item of the key in the snapshot, with the time of its use. The time is
  written at most once a minute and key; a conflict reloads and looks the key up again, any
  other failure of the write is ignored.\<close>

definition used_now :: "string \<Rightarrow> pydict \<Rightarrow> pydict" where
  "used_now now_iso item = AList.update ''last_used_at'' (PStr now_iso) item"

definition keep_local :: "nat \<Rightarrow> pydict \<Rightarrow> auth_state \<Rightarrow> auth_state" where
  "keep_local n item a = a\<lparr>auth_items := (auth_items a)[n := item]\<rparr>"

fun authenticate_loop ::
  "string \<Rightarrow> rat \<Rightarrow> string \<Rightarrow> attempt list \<Rightarrow> auth_state \<Rightarrow> db \<Rightarrow> pydict option \<times> auth_state \<times> db" where
  "authenticate_loop h now now_iso [] a s = (None, a, s)"
| "authenticate_loop h now now_iso (w # ws) a s =
     (case find_hash_index h (auth_items a) of
        None \<Rightarrow> (None, a, s)
      | Some n \<Rightarrow>
          (let item = used_now now_iso (auth_items a ! n); item_id = clean (field item ''id'');
               recent = (case map_of (flushed_at a) item_id of None \<Rightarrow> False | Some t \<Rightarrow> now - t < 60) in
           if recent \<or> auth_revision a = None then (Some (public_item item), keep_local n item a, s)
           else
             (case store_item (at_writes w) item a (at_between w s) of
                (Inr r, a, s) \<Rightarrow>
                  (Some (public_item item), a\<lparr>flushed_at := AList.update item_id now (flushed_at a)\<rparr>, s)
              | (Inl e, a, s) \<Rightarrow>
                  if \<not> is_conflict e then (Some (public_item item), keep_local n item a, s)
                  else
                    (case reload (at_loads w) (at_iso w) (at_time w) (at_before w s) a of
                       (False, a) \<Rightarrow> (None, a, at_before w s)
                     | (True, a) \<Rightarrow>
                         (case find_hash_index h (auth_items a) of
                            None \<Rightarrow> (None, a, at_before w s)
                          | Some k \<Rightarrow>
                              if ws \<noteq> [] then authenticate_loop h now now_iso ws a (at_before w s)
                              else
                                (let item = used_now now_iso (auth_items a ! k) in
                                 (Some (public_item item), keep_local k item a, at_before w s)))))))"

definition authenticate ::
  "auth_config \<Rightarrow> clocks \<Rightarrow> bool \<Rightarrow> bool \<Rightarrow> string \<Rightarrow> rat \<Rightarrow> (nat \<Rightarrow> attempt) \<Rightarrow> pyval \<Rightarrow> auth_state \<Rightarrow> db \<Rightarrow>
   pydict option \<times> auth_state \<times> db" where
  "authenticate cf ck lock_free reachable now_iso now world raw_key a s =
     (let candidate = clean raw_key in
      if candidate = [] then (None, a, s)
      else
        (let h = ac_hash cf candidate; (usable, a) = refresh_if_due ck lock_free reachable now_iso s a in
         if \<not> usable then (None, a, s)
         else authenticate_loop h now now_iso (map world [0..<cas_attempts]) a s))"

section \<open>The effect of a write\<close>

lemma write_items_keys: "distinct_keys t \<Longrightarrow> distinct_keys (fst (write_items c ex ups (t, ins, upd)))"
  by (induction ups arbitrary: t ins upd) (auto simp: Let_def split: option.split)

lemma auth_mutate_cases:
  obtains (failed) e where "auth_mutate m s = (Inl e, s)"
  | (written) ups dels r u where "normalize_mutation AuthKeys m = Inr (ups, dels)"
      "check_revision (expected_revision m) (revision_value AuthKeys (version s))" "auth_mutate m s = (Inr r, u)"
      "rc_revision r = revision_value AuthKeys (version u)" "version s \<le> version u"
      "version u = version s \<Longrightarrow> rows u = rows s" "distinct_keys (rows s) \<Longrightarrow> distinct_keys (rows u)"
      "\<And>k. map_of (rows u) k = (case find_item AuthKeys ups k of
        None \<Rightarrow> if k \<in> set dels then None else map_of (rows s) k
      | Some item \<Rightarrow> (case map_of (rows s) k of
          None \<Rightarrow> Some (Some item)
        | Some data \<Rightarrow> if row_matches data item then Some data else Some (Some item)))"
proof (rule db_mutate_cases [of AuthKeys None m None s "()"])
  fix e assume "db_mutate AuthKeys (None :: unit hook option) m None (s, ()) = (Inl e, s, ())"
  then show thesis by (intro failed [of e]) (simp add: auth_mutate_def)
next
  fix ups dels t deleted t2 ins upd x2
  assume a: "normalize_mutation AuthKeys m = Inr (ups, dels)"
    "case None of None \<Rightarrow> check_revision (expected_revision m) (revision_value AuthKeys (version s))
        | Some b \<Rightarrow> baseline_error AuthKeys (map (key_of AuthKeys) ups @ dels) b = None \<and> rows_expected (rows s) b"
    and pk: "pop_keys dels (rows s, 0) = (t, deleted)" and w: "write_items AuthKeys (rows s) ups (t, [], 0) = (t2, ins, upd)"
    and eq: "db_mutate AuthKeys (None :: unit hook option) m None (s, ()) =
        (Inr \<lparr>rc_revision = revision_value AuthKeys (if ins \<noteq> [] \<or> 0 < upd \<or> 0 < deleted then Suc (version s) else version s),
           rc_inserted = length ins, rc_updated = upd, rc_deleted = deleted\<rparr>,
         \<lparr>version = (if ins \<noteq> [] \<or> 0 < upd \<or> 0 < deleted then Suc (version s) else version s), rows = t2\<rparr>, x2)"
  have fresh: "t2 = rows s" if "ins = []" "upd = 0" "deleted = 0"
    using pop_write_fresh [OF pk w] that by simp
  have "distinct_keys t2" if "distinct_keys (rows s)"
    using pop_keys_keys [OF that, of dels 0] write_items_keys [of t AuthKeys "rows s" ups "[]" 0] pk w by simp
  then show thesis
    using a fresh mutate_lookup [OF a(1) pk w] eq
    by (intro written [of ups dels "projr (fst (db_mutate AuthKeys (None :: unit hook option) m None (s, ())))"
          "fst (snd (db_mutate AuthKeys (None :: unit hook option) m None (s, ())))"])
      (auto simp: auth_mutate_def split: if_splits)
qed

section \<open>Well-formed items\<close>

declare clean_text [simp]

definition stripped :: "pyval \<Rightarrow> bool" where
  "stripped v \<longleftrightarrow> (case v of PStr t \<Rightarrow> t \<noteq> [] \<and> strip t = t | _ \<Rightarrow> False)"

definition identity_fields :: "string list" where
  "identity_fields = [''id'', ''name'', ''role'', ''key_hash'']"

definition proper :: "pydict \<Rightarrow> bool" where
  "proper item \<longleftrightarrow> distinct_keys item \<and> list_all (\<lambda>k. stripped (field item k)) identity_fields \<and>
     field item ''role'' \<in> PStr ` set auth_roles"

record core_item =
  co_id :: string
  co_name :: string
  co_role :: string
  co_hash :: string

definition core :: "pydict \<Rightarrow> core_item" where
  "core item = \<lparr>co_id = clean (field item ''id''), co_name = clean (field item ''name''),
     co_role = clean (field item ''role''), co_hash = clean (field item ''key_hash'')\<rparr>"

lemma strippedE: "stripped v \<Longrightarrow> \<exists>t. v = PStr t \<and> t \<noteq> [] \<and> strip t = t"
  by (auto simp: stripped_def split: pyval.splits)

lemma properD:
  assumes "proper item"
  obtains i n r h where "field item ''id'' = PStr i" "i \<noteq> []" "strip i = i" "field item ''name'' = PStr n" "n \<noteq> []" "strip n = n"
    "field item ''role'' = PStr r" "r \<in> set auth_roles" "strip r = r" "lower r = r" "r \<noteq> []"
    "field item ''key_hash'' = PStr h" "h \<noteq> []" "strip h = h" "distinct_keys item"
proof -
  from assms have d: "distinct_keys item" and i: "stripped (field item ''id'')" and n: "stripped (field item ''name'')"
    and r: "stripped (field item ''role'')" "field item ''role'' \<in> PStr ` set auth_roles" and h: "stripped (field item ''key_hash'')"
    by (simp_all add: proper_def identity_fields_def)
  from r obtain t where t: "field item ''role'' = PStr t" "t \<in> set auth_roles" "strip t = t" by (auto dest: strippedE)
  then have "lower t = t" "t \<noteq> []" by (auto simp: auth_roles_def lower_def lower_char_def)
  with t d strippedE [OF i] strippedE [OF n] strippedE [OF h] show thesis by (auto intro: that)
qed

lemma normalize_proper:
  assumes "proper item"
  shows "\<exists>n. normalize_item now_iso item = Some n \<and> proper n \<and> core n = core item"
proof -
  from assms obtain i n r h where f: "field item ''id'' = PStr i" "i \<noteq> []" "strip i = i" "field item ''name'' = PStr n" "n \<noteq> []" "strip n = n"
    "field item ''role'' = PStr r" "r \<in> set auth_roles" "strip r = r" "lower r = r" "r \<noteq> []"
    "field item ''key_hash'' = PStr h" "h \<noteq> []" "strip h = h" "distinct_keys item"
    by (rule properD)
  define m where "m = the (normalize_item now_iso item)"
  have m: "normalize_item now_iso item = Some m"
    using f by (simp add: m_def normalize_item_def Let_def)
  have "field m ''id'' = PStr i" "field m ''name'' = PStr n" "field m ''role'' = PStr r" "field m ''key_hash'' = PStr h" "distinct_keys m"
    using f by (auto simp: m_def normalize_item_def Let_def field_def [of "_ # _"] or_text_def distinct_keys_def)
  then show ?thesis
    using f m by (intro exI [of _ m]) (simp add: proper_def identity_fields_def stripped_def core_def)
qed

lemma proper_core: "proper item \<Longrightarrow> key_of AuthKeys item = co_id (core item) \<and> co_id (core item) \<noteq> []"
  by (erule properD) (simp add: key_of_def core_def)

text \<open>Equality of rows sees the fields.\<close>

lemma canon_fields:
  assumes "distinct_keys a" "distinct_keys b" "item_eq a b"
  shows "canon (field a k) = canon (field b k)"
proof -
  have "sort_key fst (map (map_prod id canon) a) = sort_key fst (map (map_prod id canon) b)"
    using assms(3) by (simp add: item_eq_def py_eq_def)
  then have s: "set (map (map_prod id canon) a) = set (map (map_prod id canon) b)"
    by (metis set_sort)
  have "distinct (map fst (map (map_prod id canon) d))" if "distinct_keys d" for d :: pydict
    using that by (simp add: distinct_keys_def o_def)
  then have "map_of (map (map_prod id canon) a) = map_of (map (map_prod id canon) b)"
    using s assms(1,2) map_of_inject_set by blast
  then have "map_option canon (map_of a k) = map_option canon (map_of b k)"
    by (metis map_of_map_prod)
  then show ?thesis by (auto simp: field_def split: option.splits)
qed

lemma canon_text: "canon v = PStr t \<Longrightarrow> v = PStr t"
  by (cases v) (auto elim!: canon_number.elims split: if_splits)

lemma row_core:
  assumes "proper a" "proper b" "item_eq a b"
  shows "core a = core b"
proof -
  have "field a k = field b k" if "k \<in> set identity_fields" for k
  proof -
    have "stripped (field b k)" using assms(2) that by (simp add: proper_def list_all_iff)
    then obtain t where t: "field b k = PStr t" by (auto dest: strippedE)
    have "canon (field a k) = PStr t"
      using canon_fields [of a b k] assms t by (simp add: proper_def)
    with t show ?thesis by (simp add: canon_text)
  qed
  then show ?thesis by (simp add: core_def identity_fields_def)
qed

section \<open>Tables and snapshots\<close>

definition tidy :: "db \<Rightarrow> bool" where
  "tidy s \<longleftrightarrow> distinct_keys (rows s) \<and>
     (\<forall>k data. map_of (rows s) k = Some data \<longrightarrow> (\<exists>item. data = Some item \<and> proper item \<and> co_id (core item) = k))"

definition cores :: "db \<Rightarrow> core_item set" where
  "cores s = {core item | k item. map_of (rows s) k = Some (Some item)}"

definition coherent :: "db \<Rightarrow> pydict list \<Rightarrow> bool" where
  "coherent s items \<longleftrightarrow> core ` set items = cores s"

text \<open>A snapshot that some process holds: proper items; if no later version was written, they are
  the rows of the table.\<close>

definition held :: "db \<Rightarrow> pydict list \<times> string \<Rightarrow> bool" where
  "held s snap \<longleftrightarrow> list_all proper (fst snap) \<and>
     (\<exists>v \<le> version s. snd snap = revision_value AuthKeys v \<and> (v = version s \<longrightarrow> coherent s (fst snap)))"

text \<open>Two items never share an id, a hash, or a name within a role.\<close>

definition separated :: "core_item set \<Rightarrow> bool" where
  "separated C \<longleftrightarrow> (\<forall>x \<in> C. \<forall>y \<in> C. x = y \<or>
     (co_id x \<noteq> co_id y \<and> co_hash x \<noteq> co_hash y \<and> (co_role x, co_name x) \<noteq> (co_role y, co_name y)))"

definition replaced :: "core_item \<Rightarrow> core_item set \<Rightarrow> core_item set" where
  "replaced x C = insert x {y \<in> C. co_id y \<noteq> co_id x}"

lemma separated_replaced:
  assumes "separated C"
    and "\<And>y. y \<in> C \<Longrightarrow> co_id y \<noteq> co_id x \<Longrightarrow> co_hash y \<noteq> co_hash x \<and> (co_role y, co_name y) \<noteq> (co_role x, co_name x)"
  shows "separated (replaced x C)"
  using assms unfolding separated_def replaced_def by (auto; metis)

lemma separated_subset: "separated C \<Longrightarrow> D \<subseteq> C \<Longrightarrow> separated D"
  unfolding separated_def by blast

lemma tidy_row: "tidy s \<Longrightarrow> map_of (rows s) k = Some data \<Longrightarrow> \<exists>item. data = Some item \<and> proper item \<and> co_id (core item) = k"
  by (simp add: tidy_def)

lemma set_map_filter_iff: "x \<in> set (List.map_filter f xs) \<longleftrightarrow> (\<exists>y \<in> set xs. f y = Some x)"
  by (induction xs) (auto simp: List.map_filter_simps split: option.split)

lemma map_filter_row: "(k, Some v) \<in> set xs \<Longrightarrow> f v = Some i \<Longrightarrow> \<exists>y \<in> set (List.map_filter snd xs). f y = Some i"
  by (rule bexI [of _ v]) (simp_all add: set_map_filter_iff, metis snd_conv)

lemma load_auth_held:
  assumes "tidy s"
  shows "held s (load_auth now_iso s)"
proof -
  have d: "distinct (map fst (rows s))" using assms by (simp add: tidy_def distinct_keys_def)
  have rows: "(k, data) \<in> set (rows s) \<longleftrightarrow> map_of (rows s) k = Some data" for k data using d by simp
  have mem: "i \<in> set (fst (load_auth now_iso s)) \<longleftrightarrow>
      (\<exists>k item. map_of (rows s) k = Some (Some item) \<and> normalize_item now_iso item = Some i)" for i
    unfolding rows [symmetric] by (auto simp: load_auth_def load_snapshot_def set_map_filter_iff intro: map_filter_row) blast
  have "proper i" if i: "i \<in> set (fst (load_auth now_iso s))" for i
  proof -
    obtain k item where a: "map_of (rows s) k = Some (Some item)" "normalize_item now_iso item = Some i"
      using i unfolding mem by blast
    have "proper item" using tidy_row [OF assms a(1)] by simp
    from normalize_proper [OF this, of now_iso] a(2) show ?thesis by auto
  qed
  then have "list_all proper (fst (load_auth now_iso s))" by (simp add: list_all_iff)
  moreover have "core ` set (fst (load_auth now_iso s)) = cores s"
  proof (intro set_eqI iffI)
    fix c assume "c \<in> core ` set (fst (load_auth now_iso s))"
    then obtain i where i: "c = core i" "i \<in> set (fst (load_auth now_iso s))" by blast
    obtain k item where a: "map_of (rows s) k = Some (Some item)" "normalize_item now_iso item = Some i"
      using i(2) unfolding mem by blast
    have "proper item" using tidy_row [OF assms a(1)] by simp
    from normalize_proper [OF this, of now_iso] a(2) have "core i = core item" by simp
    then show "c \<in> cores s" unfolding cores_def i(1) using a(1) by blast
  next
    fix c assume "c \<in> cores s"
    then obtain k item where a: "c = core item" "map_of (rows s) k = Some (Some item)" unfolding cores_def by blast
    have "proper item" using tidy_row [OF assms a(2)] by simp
    from normalize_proper [OF this, of now_iso] obtain i where i: "normalize_item now_iso item = Some i" "core i = core item" by blast
    have "i \<in> set (fst (load_auth now_iso s))" unfolding mem using a(2) i(1) by blast
    then show "c \<in> core ` set (fst (load_auth now_iso s))" unfolding a(1) i(2) [symmetric] by (rule imageI)
  qed
  ultimately show ?thesis
    by (auto simp: held_def coherent_def load_auth_def load_snapshot_def)
qed

definition good :: "db \<Rightarrow> auth_state \<Rightarrow> bool" where
  "good s a \<longleftrightarrow> (case auth_revision a of None \<Rightarrow> True | Some rv \<Rightarrow> held s (auth_items a, rv))"

text \<open>What a write keeps for the other processes.\<close>

definition evolves :: "db \<Rightarrow> db \<Rightarrow> bool" where
  "evolves s u \<longleftrightarrow> version s \<le> version u \<and> (version u = version s \<longrightarrow> cores u = cores s)"

lemma held_evolves: "held s snap \<Longrightarrow> evolves s u \<Longrightarrow> held u snap"
  by (auto simp: held_def evolves_def coherent_def le_antisym intro: order.trans)

lemma good_evolves: "good s a \<Longrightarrow> evolves s u \<Longrightarrow> good u a"
  using held_evolves by (auto simp: good_def split: option.split)

lemma upsert_normal:
  assumes "proper item"
  shows "normalize_mutation AuthKeys (upsert_of item a) = Inr ([item], [])"
  using proper_core [OF assms]
  by (simp add: normalize_mutation_def upsert_of_def normalize_items_def item_key_def fromkeys_def Let_def)

lemma delete_normal:
  "strip k = k \<Longrightarrow> k \<noteq> [] \<Longrightarrow> normalize_mutation AuthKeys (delete_of k a) = Inr ([], [k])"
  by (simp add: normalize_mutation_def delete_of_def normalize_items_def fromkeys_def Let_def)

lemma cores_eq_rows: "rows u = rows s \<Longrightarrow> cores u = cores s"
  by (simp add: cores_def)

lemma held_current:
  "good s a \<Longrightarrow> auth_revision a \<noteq> None \<Longrightarrow> check_revision (auth_revision a) (revision_value AuthKeys (version s)) \<Longrightarrow>
   core ` set (auth_items a) = cores s \<and> list_all proper (auth_items a)"
  by (cases "auth_revision a") (simp_all add: good_def held_def coherent_def check_revision_def)

lemma coresI: "map_of (rows s) k = Some (Some item) \<Longrightarrow> core item \<in> cores s"
  unfolding cores_def by blast

lemma coresE:
  assumes "tidy s" "c \<in> cores s"
  obtains item where "map_of (rows s) (co_id c) = Some (Some item)" "c = core item" "proper item"
proof -
  obtain k item where k: "c = core item" "map_of (rows s) k = Some (Some item)" using assms(2) unfolding cores_def by blast
  with tidy_row [OF assms(1) k(2)] show thesis by (intro that [of item]) auto
qed

text \<open>A written row.\<close>

lemma cores_put:
  assumes t: "tidy s" and p: "proper item"
    and look: "\<And>k. map_of (rows u) k = (if k = co_id (core item) then Some (Some new) else map_of (rows s) k)"
    and new: "core new = core item" "proper new"
    and d: "distinct_keys (rows u)"
  shows "tidy u" "cores u = replaced (core item) (cores s)"
proof -
  show "tidy u"
    using t d new unfolding tidy_def look by (auto split: if_splits)
  show "cores u = replaced (core item) (cores s)"
  proof (intro set_eqI iffI)
    fix c assume "c \<in> cores u"
    then obtain k i where k: "c = core i" "map_of (rows u) k = Some (Some i)" unfolding cores_def by blast
    show "c \<in> replaced (core item) (cores s)"
    proof (cases "k = co_id (core item)")
      case True
      then show ?thesis using k look [of k] new(1) by (simp add: replaced_def)
    next
      case False
      then have r: "map_of (rows s) k = Some (Some i)" using k look [of k] by simp
      then have "co_id (core i) = k" using tidy_row [OF t] by blast
      then show ?thesis using False r k(1) coresI by (simp add: replaced_def)
    qed
  next
    fix c assume c: "c \<in> replaced (core item) (cores s)"
    show "c \<in> cores u"
    proof (cases "c = core item")
      case True
      have "map_of (rows u) (co_id (core item)) = Some (Some new)" using look by simp
      then show ?thesis using coresI new(1) True by metis
    next
      case False
      then have "c \<in> cores s" "co_id c \<noteq> co_id (core item)" using c by (auto simp: replaced_def)
      then obtain i where i: "map_of (rows s) (co_id c) = Some (Some i)" "c = core i" using coresE [OF t] by metis
      then have "map_of (rows u) (co_id c) = Some (Some i)" using look \<open>co_id c \<noteq> _\<close> by simp
      then show ?thesis using coresI i(2) by metis
    qed
  qed
qed

lemma upsert_effect:
  assumes t: "tidy s" and p: "proper item" and m: "auth_mutate (upsert_of item a) s = (Inr r, u)"
  shows "tidy u" "cores u = replaced (core item) (cores s)" "evolves s u" "rc_revision r = revision_value AuthKeys (version u)"
    "check_revision (auth_revision a) (revision_value AuthKeys (version s))"
proof -
  have "tidy u \<and> cores u = replaced (core item) (cores s) \<and> evolves s u \<and> rc_revision r = revision_value AuthKeys (version u) \<and>
      check_revision (auth_revision a) (revision_value AuthKeys (version s))"
  proof (rule auth_mutate_cases [of "upsert_of item a" s])
    fix e assume "auth_mutate (upsert_of item a) s = (Inl e, s)"
    with m show ?thesis by simp
  next
    fix ups dels r' u'
    assume n: "normalize_mutation AuthKeys (upsert_of item a) = Inr (ups, dels)"
      and c: "check_revision (expected_revision (upsert_of item a)) (revision_value AuthKeys (version s))"
      and m': "auth_mutate (upsert_of item a) s = (Inr r', u')"
      and rv: "rc_revision r' = revision_value AuthKeys (version u')" "version s \<le> version u'"
      and same: "version u' = version s \<Longrightarrow> rows u' = rows s"
      and dk: "distinct_keys (rows s) \<Longrightarrow> distinct_keys (rows u')"
      and look: "\<And>k. map_of (rows u') k = (case find_item AuthKeys ups k of
        None \<Rightarrow> if k \<in> set dels then None else map_of (rows s) k
      | Some item \<Rightarrow> (case map_of (rows s) k of
          None \<Rightarrow> Some (Some item)
        | Some data \<Rightarrow> if row_matches data item then Some data else Some (Some item)))"
    have u: "r' = r" "u' = u" and ud: "ups = [item]" "dels = []"
      using m m' n upsert_normal [OF p, of a] by simp_all
    note pc = proper_core [OF p]
    obtain new where new: "core new = core item" "proper new"
      and look': "\<And>k. map_of (rows u) k = (if k = co_id (core item) then Some (Some new) else map_of (rows s) k)"
    proof (cases "map_of (rows s) (co_id (core item))")
      case None
      have "map_of (rows u) k = (if k = co_id (core item) then Some (Some item) else map_of (rows s) k)" for k
        using look [of k] pc None unfolding u ud by (simp add: find_item_def)
      then show thesis using that p by blast
    next
      case (Some data)
      then obtain old where old: "data = Some old" "proper old" using tidy_row [OF t] by blast
      have "map_of (rows u) k = (if k = co_id (core item) then Some (Some (if item_eq old item then old else item)) else map_of (rows s) k)" for k
        using look [of k] pc Some old unfolding u ud by (simp add: find_item_def row_matches_def)
      moreover have "core (if item_eq old item then old else item) = core item" "proper (if item_eq old item then old else item)"
        using row_core [OF old(2) p] old p by simp_all
      ultimately show thesis using that by blast
    qed
    have d: "distinct_keys (rows u)" using dk t unfolding u tidy_def by blast
    from cores_put [OF t p look' new d] have tu: "tidy u" "cores u = replaced (core item) (cores s)" .
    moreover have "evolves s u" using rv(2) same cores_eq_rows unfolding u evolves_def by blast
    ultimately show ?thesis using rv(1) c u by (simp add: upsert_of_def)
  qed
  then show "tidy u" "cores u = replaced (core item) (cores s)" "evolves s u" "rc_revision r = revision_value AuthKeys (version u)"
    "check_revision (auth_revision a) (revision_value AuthKeys (version s))" by blast+
qed

lemma delete_effect:
  assumes t: "tidy s" and k: "strip k = k" "k \<noteq> []" and m: "auth_mutate (delete_of k a) s = (Inr r, u)"
  shows "tidy u" "cores u = {c \<in> cores s. co_id c \<noteq> k}" "evolves s u" "rc_revision r = revision_value AuthKeys (version u)"
    "check_revision (auth_revision a) (revision_value AuthKeys (version s))"
proof -
  have "tidy u \<and> cores u = {c \<in> cores s. co_id c \<noteq> k} \<and> evolves s u \<and> rc_revision r = revision_value AuthKeys (version u) \<and>
      check_revision (auth_revision a) (revision_value AuthKeys (version s))"
  proof (rule auth_mutate_cases [of "delete_of k a" s])
    fix e assume "auth_mutate (delete_of k a) s = (Inl e, s)"
    with m show ?thesis by simp
  next
    fix ups dels r' u'
    assume n: "normalize_mutation AuthKeys (delete_of k a) = Inr (ups, dels)"
      and c: "check_revision (expected_revision (delete_of k a)) (revision_value AuthKeys (version s))"
      and m': "auth_mutate (delete_of k a) s = (Inr r', u')"
      and rv: "rc_revision r' = revision_value AuthKeys (version u')" "version s \<le> version u'"
      and same: "version u' = version s \<Longrightarrow> rows u' = rows s"
      and dk: "distinct_keys (rows s) \<Longrightarrow> distinct_keys (rows u')"
      and look: "\<And>k. map_of (rows u') k = (case find_item AuthKeys ups k of
        None \<Rightarrow> if k \<in> set dels then None else map_of (rows s) k
      | Some item \<Rightarrow> (case map_of (rows s) k of
          None \<Rightarrow> Some (Some item)
        | Some data \<Rightarrow> if row_matches data item then Some data else Some (Some item)))"
    have u: "r' = r" "u' = u" and ud: "ups = []" "dels = [k]"
      using m m' n delete_normal [OF k, of a] by simp_all
    have look': "map_of (rows u) j = (if j = k then None else map_of (rows s) j)" for j
      using look [of j] unfolding u ud by (simp add: find_item_def)
    have "distinct_keys (rows u)" using dk t unfolding u tidy_def by blast
    then have tu: "tidy u" using t unfolding tidy_def look' by auto
    have "cores u = {c \<in> cores s. co_id c \<noteq> k}"
    proof (intro set_eqI iffI)
      fix c assume "c \<in> cores u"
      then obtain i where i: "map_of (rows u) (co_id c) = Some (Some i)" "c = core i" using coresE [OF tu] by metis
      then have "map_of (rows s) (co_id c) = Some (Some i)" "co_id c \<noteq> k" using look' by (auto split: if_splits)
      then show "c \<in> {c \<in> cores s. co_id c \<noteq> k}" using coresI i(2) by blast
    next
      fix c assume "c \<in> {c \<in> cores s. co_id c \<noteq> k}"
      then have c: "c \<in> cores s" "co_id c \<noteq> k" by simp_all
      then obtain i where i: "map_of (rows s) (co_id c) = Some (Some i)" "c = core i" using coresE [OF t] by metis
      then have "map_of (rows u) (co_id c) = Some (Some i)" using look' c(2) by simp
      then show "c \<in> cores u" using coresI i(2) by blast
    qed
    moreover have "evolves s u" using rv(2) same cores_eq_rows unfolding u evolves_def by blast
    ultimately show ?thesis using tu rv(1) c u by (simp add: delete_of_def)
  qed
  then show "tidy u" "cores u = {c \<in> cores s. co_id c \<noteq> k}" "evolves s u" "rc_revision r = revision_value AuthKeys (version u)"
    "check_revision (auth_revision a) (revision_value AuthKeys (version s))" by blast+
qed

text \<open>The invariant of one process and the table, over a write.\<close>

definition clash_free :: "core_item \<Rightarrow> core_item set \<Rightarrow> bool" where
  "clash_free x C \<longleftrightarrow> (\<forall>y \<in> C. co_id y = co_id x \<or>
     (co_hash y \<noteq> co_hash x \<and> (co_role y, co_name y) \<noteq> (co_role x, co_name x)))"

lemma held_items:
  "list_all proper items \<Longrightarrow> core ` set items = cores s \<Longrightarrow> held s (items, revision_value AuthKeys (version s))"
  by (auto simp: held_def coherent_def)

lemma core_id: "clean (field i ''id'') = co_id (core i)"
  by (simp add: core_def)

lemma core_filter: "core ` set (filter (\<lambda>i. clean (field i ''id'') \<noteq> k) xs) = {x \<in> core ` set xs. co_id x \<noteq> k}"
  unfolding core_id by auto

lemma store_item_inv:
  assumes t: "tidy s" and sep: "separated (cores s)" and g: "good s a" and rv: "auth_revision a \<noteq> None"
    and p: "proper item" and free: "clash_free (core item) (core ` set (auth_items a))"
    and m: "store_item ok item a s = (r, b, u)"
  shows "tidy u \<and> separated (cores u) \<and> good u b \<and> evolves s u"
proof (cases "ok \<and> \<not> isl (fst (auth_mutate (upsert_of item a) s))")
  case False
  have "snd (auth_mutate (upsert_of item a) s) = s" if "isl (fst (auth_mutate (upsert_of item a) s))"
    using that by (rule_tac auth_mutate_cases [of "upsert_of item a" s]) auto
  then have "b = a" "u = s"
    using m False by (auto simp: store_item_def split: if_splits sum.splits prod.splits)
  then show ?thesis using t sep g by (simp add: evolves_def)
next
  case True
  then obtain q where q: "auth_mutate (upsert_of item a) s = (Inr q, u)" and b: "b = set_cached_item item (rc_revision q) a"
    using m by (auto simp: store_item_def split: if_splits sum.splits prod.splits)
  note e = upsert_effect [OF t p q]
  from held_current [OF g rv e(5)] have c: "core ` set (auth_items a) = cores s" and pr: "list_all proper (auth_items a)" by simp_all
  have "separated (cores u)"
    unfolding e(2) using sep by (rule separated_replaced) (use free c in \<open>auto simp: clash_free_def\<close>)
  moreover have "good u b"
  proof -
    have "core ` set (auth_items b) = replaced (core item) (core ` set (auth_items a))"
      using core_filter [of "clean (field item ''id'')" "auth_items a"]
      unfolding replaced_def b set_cached_item_def by (simp add: core_id [of item])
    then have "core ` set (auth_items b) = cores u" unfolding c e(2) .
    moreover have "list_all proper (auth_items b)" using pr p by (auto simp: b set_cached_item_def list_all_iff)
    ultimately have "held u (auth_items b, revision_value AuthKeys (version u))" by (intro held_items)
    moreover have "auth_revision b = Some (revision_value AuthKeys (version u))" unfolding b set_cached_item_def e(4) by simp
    ultimately show ?thesis unfolding good_def by simp
  qed
  ultimately show ?thesis using e(1,3) by blast
qed

lemma remove_item_inv:
  assumes t: "tidy s" and sep: "separated (cores s)" and g: "good s a" and rv: "auth_revision a \<noteq> None"
    and k: "strip k = k" "k \<noteq> []" and m: "remove_item ok k a s = (r, b, u)"
  shows "tidy u \<and> separated (cores u) \<and> good u b \<and> evolves s u"
proof (cases "ok \<and> \<not> isl (fst (auth_mutate (delete_of k a) s))")
  case False
  have "snd (auth_mutate (delete_of k a) s) = s" if "isl (fst (auth_mutate (delete_of k a) s))"
    using that by (rule_tac auth_mutate_cases [of "delete_of k a" s]) auto
  then have "b = a" "u = s"
    using m False by (auto simp: remove_item_def split: if_splits sum.splits prod.splits)
  then show ?thesis using t sep g by (simp add: evolves_def)
next
  case True
  then obtain q where q: "auth_mutate (delete_of k a) s = (Inr q, u)"
    and b: "auth_items b = filter (\<lambda>i. clean (field i ''id'') \<noteq> k) (auth_items a)" "auth_revision b = Some (rc_revision q)"
    using m by (auto simp: remove_item_def delete_cached_item_def split: if_splits sum.splits prod.splits)
  note e = delete_effect [OF t k q]
  from held_current [OF g rv e(5)] have c: "core ` set (auth_items a) = cores s" and pr: "list_all proper (auth_items a)" by simp_all
  have "separated (cores u)" unfolding e(2) by (rule separated_subset [OF sep]) blast
  moreover have "good u b"
  proof -
    have "core ` set (auth_items b) = {x \<in> core ` set (auth_items a). co_id x \<noteq> k}" unfolding b by (rule core_filter)
    then have "core ` set (auth_items b) = cores u" unfolding c e(2) .
    moreover have "list_all proper (auth_items b)" using pr by (auto simp: b list_all_iff)
    ultimately have "held u (auth_items b, revision_value AuthKeys (version u))" by (intro held_items)
    then show ?thesis unfolding good_def b(2) e(4) by simp
  qed
  ultimately show ?thesis using e(1,3) by blast
qed

section \<open>Prepared items\<close>

lemma strip_plain:
  assumes "xs \<noteq> []" "\<And>c. c \<in> set xs \<Longrightarrow> \<not> is_space c"
  shows "strip xs = xs"
  by (rule strip_id) (use assms in \<open>auto intro: hd_in_set last_in_set\<close>)

lemma hex_text_plain:
  assumes "0 < w"
  shows "strip (hex_text w n) = hex_text w n" "hex_text w n \<noteq> []"
proof -
  have d: "\<not> is_space (hex_digit m)" if "m < 16" for m
    using that by (auto simp: hex_digit_def is_space_def Let_def)
  have c: "\<forall>c \<in> set (hex_text v n). \<not> is_space c" for v n
  proof (induction v arbitrary: n)
    case (Suc v)
    then show ?case using d [of "n mod 16"] by simp
  qed simp
  show "hex_text w n \<noteq> []" using assms by (cases w) simp_all
  then show "strip (hex_text w n) = hex_text w n" using c by (intro strip_plain) blast+
qed

lemma ac_hash_plain: "strip (ac_hash cf x) = ac_hash cf x" "ac_hash cf x \<noteq> []"
  unfolding ac_hash_def by (rule hex_text_plain, simp)+

lemma default_name_plain: "default_name v \<noteq> []" "\<not> is_space (hd (default_name v))" "\<not> is_space (last (default_name v))"
  by (auto simp: default_name_def utf8_def is_space_def Let_def)

lemma suffix_plain: "strip (default_name v @ '' '' @ nat_text k) = default_name v @ '' '' @ nat_text k"
  using default_name_plain [of v] nat_text_plain [of k] by (intro strip_id) auto

lemma free_suffix_Some:
  "free_suffix fuel base role ex items k = Some n \<Longrightarrow>
   \<not> has_name n (Some role) ex items \<and> (\<exists>j. n = base @ '' '' @ nat_text j)"
  by (induction fuel base role ex items k rule: free_suffix.induct) (auto simp: Let_def split: if_splits)

lemma free_suffix_None:
  "free_suffix fuel base role ex items k = None \<Longrightarrow> j < fuel \<Longrightarrow> has_name (base @ '' '' @ nat_text (k + j)) (Some role) ex items"
proof (induction fuel base role ex items k arbitrary: j rule: free_suffix.induct)
  case (2 fuel base role ex items k)
  then show ?case by (cases j) (auto simp: Let_def split: if_splits)
qed simp

text \<open>The search for a free suffix needs at most one more turn than there are items: the
  candidates differ, and each that is taken is the name of another item.\<close>

lemma free_suffix_enough: "free_suffix (Suc (length items)) (default_name v) role ex items k \<noteq> None"
proof
  let ?c = "\<lambda>j. default_name v @ '' '' @ nat_text (k + j)"
  assume "free_suffix (Suc (length items)) (default_name v) role ex items k = None"
  then have "has_name (?c j) (Some role) ex items" if "j < Suc (length items)" for j
    using that by (rule free_suffix_None)
  then have "?c j \<in> (\<lambda>i. clean (field i ''name'')) ` set items" if "j < Suc (length items)" for j
    using that unfolding has_name_def suffix_plain by (force simp: list_ex_iff)
  then have "?c ` {..<Suc (length items)} \<subseteq> (\<lambda>i. clean (field i ''name'')) ` set items" by blast
  then have "card (?c ` {..<Suc (length items)}) \<le> card ((\<lambda>i. clean (field i ''name'')) ` set items)" by (intro card_mono) simp_all
  moreover have "inj_on ?c {..<Suc (length items)}" by (auto simp: inj_on_def dest: nat_text_inj)
  moreover have "card ((\<lambda>i. clean (field i ''name'')) ` set items) \<le> length items"
    by (metis card_image_le card_length le_trans List.finite_set)
  ultimately show False by (simp add: card_image)
qed

lemma build_name_ok:
  assumes "build_name name role ex items = Inr n"
  shows "n \<noteq> []" "strip n = n" "\<not> has_name n (Some role) ex items"
proof -
  have "n \<noteq> [] \<and> strip n = n \<and> \<not> has_name n (Some role) ex items"
  proof (cases "strip name = []")
    case False
    then show ?thesis using assms by (auto simp: build_name_def Let_def has_name_def split: if_splits)
  next
    case True
    then have b: "build_default_name role ex items = Some n" using assms by (auto simp: build_name_def split: option.splits)
    have "strip (default_name (PStr role)) = default_name (PStr role)" using default_name_plain by (intro strip_id)
    then show ?thesis
      using b default_name_plain suffix_plain
      by (auto simp: build_default_name_def Let_def split: if_splits dest!: free_suffix_Some)
  qed
  then show "n \<noteq> []" "strip n = n" "\<not> has_name n (Some role) ex items" by simp_all
qed

lemma build_key_hash_ok:
  "build_key_hash cf raw ex items = Inr h \<Longrightarrow> h = ac_hash cf (strip raw) \<and> \<not> has_key_hash h ex items"
  by (auto simp: build_key_hash_def Let_def split: if_splits)

lemma draw_key_ok:
  "draw_key cf items ds = Inr (raw, h) \<Longrightarrow> h = ac_hash cf (strip raw) \<and> \<not> has_key_hash h [] items"
proof (induction ds)
  case (Cons d ds)
  show ?case
  proof (cases "build_key_hash cf (''sk-'' @ d) [] items")
    case (Inl e)
    then have "draw_key cf items ds = Inr (raw, h)" using Cons.prems by (cases e) simp_all
    then show ?thesis by (rule Cons.IH)
  next
    case (Inr x)
    then show ?thesis using Cons.prems build_key_hash_ok [OF Inr] by auto
  qed
qed simp

text \<open>An item that was prepared against proper items can stand beside them.\<close>

lemma not_has_hash:
  assumes "list_all proper items" "\<not> has_key_hash h ex items" "i \<in> set items" "ex = [] \<or> co_id (core i) \<noteq> ex"
  shows "co_hash (core i) \<noteq> h"
proof -
  have "proper i" using assms(1,3) by (simp add: list_all_iff)
  then have "clean (field i ''key_hash'') \<noteq> []" by (rule properD) simp
  moreover have "\<not> excluded ex i" using assms(4) by (auto simp: excluded_def core_id)
  ultimately show ?thesis using assms(2,3) by (auto simp: has_key_hash_def list_ex_iff core_def)
qed

lemma not_has_name:
  assumes "list_all proper items" "\<not> has_name n (Some r) ex items" "n \<noteq> []" "strip n = n"
    "i \<in> set items" "ex = [] \<or> co_id (core i) \<noteq> ex"
  shows "(co_role (core i), co_name (core i)) \<noteq> (r, n)"
proof
  assume eq: "(co_role (core i), co_name (core i)) = (r, n)"
  have "proper i" using assms(1,5) by (simp add: list_all_iff)
  then have "field i ''role'' = PStr (co_role (core i))" by (rule properD) (simp add: core_def)
  then have "field i ''role'' = PStr r" "clean (field i ''name'') = n" using eq by (simp_all add: core_def)
  moreover have "\<not> excluded ex i" using assms(6) by (auto simp: excluded_def core_id)
  ultimately have "has_name n (Some r) ex items" using assms(3,4,5) by (auto simp: has_name_def Let_def list_ex_iff)
  with assms(2) show False ..
qed

lemma prepare_create_ok:
  assumes pr: "list_all proper (auth_items a)" and role: "role \<in> set auth_roles"
    and c: "prepare_create cf stamp draws ids role name a = Inr (item, raw)"
  shows "proper item" "clash_free (core item) (core ` set (auth_items a))"
    "field item ''key_hash'' = PStr (ac_hash cf (strip raw))" "item_enabled item"
proof -
  obtain n h i where n: "build_name name role [] (auth_items a) = Inr n" and h: "draw_key cf (auth_items a) draws = Inr (raw, h)"
    and i: "draw_id (auth_items a) ids = Some i"
    and item: "item = [(''id'', PStr i), (''name'', PStr n), (''role'', PStr role), (''key_hash'', PStr h),
       (''enabled'', PBool True), (''created_at'', PStr stamp), (''last_used_at'', PNone)]"
    using c by (auto simp: prepare_create_def split: sum.splits option.splits prod.splits)
  from i obtain k where "i = hex_text 12 k" by (auto simp: draw_id_def find_Some_iff)
  then have ip: "i \<noteq> []" "strip i = i" using hex_text_plain [of 12 k] by simp_all
  note np = build_name_ok [OF n] and hp = draw_key_ok [OF h]
  have hs: "h \<noteq> []" "strip h = h" using hp ac_hash_plain [of cf "strip raw"] by simp_all
  have rs: "role \<noteq> []" "strip role = role"
    using role by (auto simp: auth_roles_def strip_def is_space_def)
  have f: "field item ''id'' = PStr i" "field item ''name'' = PStr n" "field item ''role'' = PStr role"
    "field item ''key_hash'' = PStr h" "distinct_keys item" "item_enabled item"
    by (simp_all add: item field_def distinct_keys_def item_enabled_def)
  then show "item_enabled item" "field item ''key_hash'' = PStr (ac_hash cf (strip raw))" using hp by simp_all
  show "proper item"
    using f ip np hs rs role by (simp add: proper_def identity_fields_def stripped_def)
  have "co_hash (core x) \<noteq> h \<and> (co_role (core x), co_name (core x)) \<noteq> (role, n)" if "x \<in> set (auth_items a)" for x
    using not_has_hash [OF pr hp [THEN conjunct2] that] not_has_name [OF pr np(3,1,2) that] by blast
  then show "clash_free (core item) (core ` set (auth_items a))"
    using f np(2) hs(2) rs(2) by (auto simp: clash_free_def core_def)
qed

lemma first_index_Some: "first_index P xs = Some n \<Longrightarrow> n < length xs \<and> P (xs ! n)"
  by (induction xs arbitrary: n) (auto split: if_splits)

lemma proper_put:
  "proper i \<Longrightarrow> k \<notin> set identity_fields \<Longrightarrow> proper (AList.update k v i) \<and> core (AList.update k v i) = core i"
  by (auto simp: proper_def identity_fields_def core_def)

lemma proper_put_name:
  "proper i \<Longrightarrow> n \<noteq> [] \<Longrightarrow> strip n = n \<Longrightarrow>
   proper (AList.update ''name'' (PStr n) i) \<and> core (AList.update ''name'' (PStr n) i) = (core i)\<lparr>co_name := n\<rparr>"
  by (auto simp: proper_def identity_fields_def core_def stripped_def)

lemma proper_put_hash:
  "proper i \<Longrightarrow> n \<noteq> [] \<Longrightarrow> strip n = n \<Longrightarrow>
   proper (AList.update ''key_hash'' (PStr n) i) \<and> core (AList.update ''key_hash'' (PStr n) i) = (core i)\<lparr>co_hash := n\<rparr>"
  by (auto simp: proper_def identity_fields_def core_def stripped_def)

lemma clash_free_member: "separated C \<Longrightarrow> x \<in> C \<Longrightarrow> clash_free x C"
  unfolding separated_def clash_free_def by metis

lemma prepare_update_ok:
  assumes pr: "list_all proper (auth_items a)" and sep: "separated (core ` set (auth_items a))"
    and key: "key_id \<noteq> []" and c: "prepare_update cf key_id updates role a = Some (Inr item)"
  shows "proper item" "clash_free (core item) (core ` set (auth_items a))"
proof -
  obtain n where n: "find_item_index key_id role (auth_items a) = Some n"
    using c by (auto simp: prepare_update_def split: option.splits)
  define i where "i = auth_items a ! n"
  have fi: "i \<in> set (auth_items a)" "clean (field i ''id'') = key_id"
    using n first_index_Some [of "\<lambda>i. clean (field i ''id'') = key_id" "auth_items a" n]
    by (auto simp: find_item_index_def i_def split: option.splits if_splits)
  then have p: "proper i" using pr by (simp add: list_all_iff)
  then obtain r where r: "field i ''role'' = PStr r" "r \<in> set auth_roles" "strip r = r" "lower r = r" by (rule properD)
  then have nr: "(if lower (clean (field i ''role'')) = ''admin'' then ''admin'' else ''user'') = co_role (core i)"
    by (auto simp: auth_roles_def core_def)
  have id: "co_id (core i) = key_id" using fi(2) by (simp add: core_id)
  have cf: "clash_free (core i) (core ` set (auth_items a))" using sep fi(1) by (intro clash_free_member) simp_all
  obtain j where j: "(if given updates ''name''
                    then map_sum id (\<lambda>v. AList.update ''name'' (PStr v) i)
                      (build_name (text_or_empty (field updates ''name'')) (co_role (core i)) key_id (auth_items a))
                    else Inr i) = Inr j"
    and item: "(let k = (if given updates ''enabled''
                       then AList.update ''enabled'' (PBool (truthy (field updates ''enabled''))) j else j) in
                   if given updates ''key''
                   then map_sum id (\<lambda>h. AList.update ''key_hash'' (PStr h) k)
                     (build_key_hash cf (text_or_empty (field updates ''key'')) key_id (auth_items a))
                   else Inr k) = Inr item"
    using c [unfolded prepare_update_def n option.case Let_def, folded i_def, unfolded nr] unfolding Let_def
    by (auto split: sum.splits)
  have j1: "proper j \<and> clash_free (core j) (core ` set (auth_items a)) \<and> co_id (core j) = key_id"
  proof (cases "given updates ''name''")
    case False
    then show ?thesis using j p cf id by simp
  next
    case True
    then obtain v where v: "build_name (text_or_empty (field updates ''name'')) (co_role (core i)) key_id (auth_items a) = Inr v"
      and jj: "j = AList.update ''name'' (PStr v) i"
      using j by (auto simp: map_sum_def split: sum.splits)
    note b = build_name_ok [OF v] and q = proper_put_name [OF p b(1,2)]
    have "(co_role (core x), co_name (core x)) \<noteq> (co_role (core i), v)" if "x \<in> set (auth_items a)" "co_id (core x) \<noteq> key_id" for x
      using not_has_name [OF pr b(3,1,2) that(1)] that(2) by blast
    then show ?thesis using q cf id unfolding jj clash_free_def by auto
  qed
  define k where "k = (if given updates ''enabled''
                       then AList.update ''enabled'' (PBool (truthy (field updates ''enabled''))) j else j)"
  have "''enabled'' \<notin> set identity_fields" by (simp add: identity_fields_def)
  then have k1: "proper k" "core k = core j" using j1 proper_put by (simp_all add: k_def)
  have "proper item \<and> clash_free (core item) (core ` set (auth_items a))"
  proof (cases "given updates ''key''")
    case False
    then show ?thesis using item k1 j1 unfolding Let_def k_def [symmetric] by simp
  next
    case True
    then obtain h where h: "build_key_hash cf (text_or_empty (field updates ''key'')) key_id (auth_items a) = Inr h"
      and it: "item = AList.update ''key_hash'' (PStr h) k"
      using item unfolding Let_def k_def [symmetric] by (auto simp: map_sum_def split: sum.splits)
    from build_key_hash_ok [OF h] have hh: "h \<noteq> []" "strip h = h" "\<not> has_key_hash h key_id (auth_items a)"
      by (metis ac_hash_plain)+
    note q = proper_put_hash [OF k1(1) hh(1,2)]
    have "co_hash (core x) \<noteq> h" if "x \<in> set (auth_items a)" "co_id (core x) \<noteq> key_id" for x
      using not_has_hash [OF pr hh(3) that(1)] that(2) by blast
    then show ?thesis using q j1 k1(2) unfolding it clash_free_def by auto
  qed
  then show "proper item" "clash_free (core item) (core ` set (auth_items a))" by simp_all
qed

section \<open>Any number of processes\<close>

text \<open>The atomic parts of the operations, run by processes that share the table. A write uses
  whatever snapshot its process holds, so that every interleaving of reloads and writes is a
  list of these operations. \<open>create_key\<close>, \<open>update_key\<close> and \<open>delete_key\<close> reload before they
  write, so they hold a revision; \<open>authenticate\<close> writes the time of use only with one.\<close>

record cluster =
  shared :: db
  procs :: "nat \<Rightarrow> auth_state"
  reading :: "nat \<Rightarrow> (string option \<times> pydict list \<times> string) option"

datatype auth_op =
    Reload nat string rat
  | Create nat string "string list" "nat list" bool string
  | Update nat string pydict "string option"
  | Delete nat string
  | Touch nat nat string
  | TouchLocal nat nat string
  | RefreshBegin nat string rat
  | RefreshEnd nat rat

definition put_proc :: "nat \<Rightarrow> auth_state \<times> db \<Rightarrow> cluster \<Rightarrow> cluster" where
  "put_proc p as c = c\<lparr>procs := (procs c)(p := fst as), shared := snd as\<rparr>"

definition write_item :: "nat \<Rightarrow> pydict \<Rightarrow> cluster \<Rightarrow> cluster" where
  "write_item p item c =
     (if auth_revision (procs c p) = None then c else put_proc p (snd (store_item True item (procs c p) (shared c))) c)"

fun auth_step :: "auth_config \<Rightarrow> cluster \<Rightarrow> auth_op \<Rightarrow> cluster" where
  "auth_step cf c (Reload p now_iso t) = put_proc p (snd (reload True now_iso t (shared c) (procs c p)), shared c) c"
| "auth_step cf c (Create p now_iso draws ids admin name) =
     (case prepare_create cf now_iso draws ids (if admin then ''admin'' else ''user'') name (procs c p) of
        Inl _ \<Rightarrow> c | Inr (item, _) \<Rightarrow> write_item p item c)"
| "auth_step cf c (Update p key_id updates role) =
     (if key_id = [] then c
      else case prepare_update cf key_id updates role (procs c p) of
        Some (Inr item) \<Rightarrow> write_item p item c | _ \<Rightarrow> c)"
| "auth_step cf c (Delete p key_id) =
     (if strip key_id = [] \<or> auth_revision (procs c p) = None then c
      else put_proc p (snd (remove_item True (strip key_id) (procs c p) (shared c))) c)"
| "auth_step cf c (Touch p n now_iso) =
     (if n < length (auth_items (procs c p)) then write_item p (used_now now_iso (auth_items (procs c p) ! n)) c else c)"
| "auth_step cf c (TouchLocal p n now_iso) =
     (if n < length (auth_items (procs c p))
      then put_proc p (keep_local n (used_now now_iso (auth_items (procs c p) ! n)) (procs c p), shared c) c else c)"
| "auth_step cf c (RefreshBegin p now_iso t) =
     (put_proc p (refresh_begin t (procs c p), shared c) c)
       \<lparr>reading := (reading c)(p := Some (auth_revision (procs c p), load_auth now_iso (shared c)))\<rparr>"
| "auth_step cf c (RefreshEnd p t) =
     (case reading c p of
        None \<Rightarrow> c
      | Some (expected, snap) \<Rightarrow>
          (put_proc p (snd (refresh_end expected t (Some snap) (procs c p)), shared c) c)\<lparr>reading := (reading c)(p := None)\<rparr>)"

definition cluster_ok :: "cluster \<Rightarrow> bool" where
  "cluster_ok c \<longleftrightarrow> tidy (shared c) \<and> separated (cores (shared c)) \<and> (\<forall>p. good (shared c) (procs c p)) \<and>
     (\<forall>p e snap. reading c p = Some (e, snap) \<longrightarrow> held (shared c) snap)"

definition empty_cluster :: cluster where
  "empty_cluster = \<lparr>shared = \<lparr>version = 0, rows = []\<rparr>, procs = (\<lambda>_. fresh_auth), reading = (\<lambda>_. None)\<rparr>"

lemma put_proc_ok:
  assumes c: "cluster_ok c" and s: "tidy s" "separated (cores s)" "good s a" "evolves (shared c) s"
  shows "cluster_ok (put_proc p (a, s) c)"
proof -
  have "good s (procs c q)" for q using c good_evolves [OF _ s(4)] by (simp add: cluster_ok_def)
  moreover have "held s snap" if "reading c q = Some (e, snap)" for q e snap
    using c held_evolves [OF _ s(4)] that unfolding cluster_ok_def by blast
  ultimately show ?thesis using s by (simp add: cluster_ok_def put_proc_def)
qed

lemma evolves_refl [simp]: "evolves s s"
  by (simp add: evolves_def)

lemma put_local_ok: "cluster_ok c \<Longrightarrow> good (shared c) a \<Longrightarrow> cluster_ok (put_proc p (a, shared c) c)"
  by (rule put_proc_ok) (simp_all add: cluster_ok_def)

lemma proc_snapshot:
  assumes "cluster_ok c" "auth_revision (procs c p) \<noteq> None"
  shows "list_all proper (auth_items (procs c p))"
proof -
  have "good (shared c) (procs c p)" using assms(1) by (simp add: cluster_ok_def)
  then show ?thesis using assms(2) by (auto simp: good_def held_def split: option.splits)
qed

text \<open>An item prepared against a stale snapshot need not be separated from the table, but then the
  guarded write is refused.\<close>

lemma write_item_ok:
  assumes c: "cluster_ok c"
    and item: "list_all proper (auth_items (procs c p)) \<Longrightarrow> separated (core ` set (auth_items (procs c p))) \<Longrightarrow>
      proper item \<and> clash_free (core item) (core ` set (auth_items (procs c p)))"
  shows "cluster_ok (write_item p item c)"
proof (cases "auth_revision (procs c p) = None")
  case True
  with c show ?thesis by (simp add: write_item_def)
next
  case False
  let ?a = "procs c p" and ?s = "shared c"
  have inv: "tidy ?s" "separated (cores ?s)" "good ?s ?a" using c by (simp_all add: cluster_ok_def)
  obtain r b u where m: "store_item True item ?a ?s = (r, b, u)" by (metis prod_cases3)
  have "tidy u \<and> separated (cores u) \<and> good u b \<and> evolves ?s u"
  proof (cases "check_revision (auth_revision ?a) (revision_value AuthKeys (version ?s))")
    case True
    from held_current [OF inv(3) False True] inv(2)
    have "list_all proper (auth_items ?a)" "separated (core ` set (auth_items ?a))" by simp_all
    from item [OF this] store_item_inv [OF inv False _ _ m] show ?thesis by blast
  next
    case no: False
    have "isl (fst (auth_mutate (upsert_of item ?a) ?s)) \<and> snd (auth_mutate (upsert_of item ?a) ?s) = ?s"
      by (rule auth_mutate_cases [of "upsert_of item ?a" ?s]) (use no in \<open>simp_all add: upsert_of_def\<close>)
    then have "b = ?a" "u = ?s" using m by (auto simp: store_item_def split: sum.splits prod.splits)
    with inv show ?thesis by simp
  qed
  then show ?thesis using c False m by (simp add: write_item_def put_proc_ok)
qed

lemma same_core_free:
  "separated (core ` set xs) \<Longrightarrow> n < length xs \<Longrightarrow> list_all proper xs \<Longrightarrow> core i = core (xs ! n) \<Longrightarrow>
   clash_free (core i) (core ` set xs)"
  by (simp add: clash_free_member)

lemma used_now_ok:
  assumes "list_all proper xs" "n < length xs"
  shows "proper (used_now now_iso (xs ! n)) \<and> core (used_now now_iso (xs ! n)) = core (xs ! n)"
  unfolding used_now_def by (rule proper_put) (use assms in \<open>simp_all add: list_all_length identity_fields_def\<close>)

lemma keep_local_good:
  assumes g: "good s a" and n: "n < length (auth_items a)"
  shows "good s (keep_local n (used_now now_iso (auth_items a ! n)) a)"
proof (cases "auth_revision a")
  case None
  then show ?thesis by (simp add: good_def keep_local_def)
next
  case (Some rv)
  then have h: "held s (auth_items a, rv)" using g by (simp add: good_def)
  then have pr: "list_all proper (auth_items a)" by (simp add: held_def)
  let ?i = "used_now now_iso (auth_items a ! n)"
  note u = used_now_ok [OF pr n, of now_iso]
  have "map core ((auth_items a)[n := ?i]) = map core (auth_items a)"
    using u n by (simp add: map_update list_update_same_conv)
  then have "core ` set ((auth_items a)[n := ?i]) = core ` set (auth_items a)" by (metis set_map)
  moreover have "list_all proper ((auth_items a)[n := ?i])"
    using pr u n by (auto simp: list_all_length nth_list_update)
  ultimately show ?thesis using h Some by (auto simp: good_def keep_local_def held_def coherent_def)
qed

lemma auth_step_ok:
  assumes c: "cluster_ok c"
  shows "cluster_ok (auth_step cf c x)"
proof -
  have t: "tidy (shared c)" and g: "good (shared c) (procs c p)" for p using c by (simp_all add: cluster_ok_def)
  show ?thesis
  proof (cases x)
    case (Reload p now_iso tm)
    have "good (shared c) (take_snapshot tm (load_auth now_iso (shared c)) (procs c p))"
      using load_auth_held [OF t] by (simp add: good_def take_snapshot_def)
    then show ?thesis using Reload c by (simp add: reload_def put_local_ok)
  next
    case (Create p now_iso draws ids admin name)
    show ?thesis
    proof (cases "prepare_create cf now_iso draws ids (if admin then ''admin'' else ''user'') name (procs c p)")
      case (Inl e)
      then show ?thesis using Create c by simp
    next
      case (Inr q)
      obtain item raw where q: "q = (item, raw)" by (cases q)
      have "cluster_ok (write_item p item c)"
      proof (rule write_item_ok [OF c])
        assume pr: "list_all proper (auth_items (procs c p))"
        have "(if admin then ''admin'' else ''user'') \<in> set auth_roles" by (simp add: auth_roles_def)
        from prepare_create_ok [OF pr this Inr [unfolded q]]
        show "proper item \<and> clash_free (core item) (core ` set (auth_items (procs c p)))" by simp
      qed
      then show ?thesis using Create Inr q by simp
    qed
  next
    case (Update p key_id updates role)
    show ?thesis
    proof (cases "key_id \<noteq> [] \<and> (\<exists>item. prepare_update cf key_id updates role (procs c p) = Some (Inr item))")
      case False
      then show ?thesis using Update c by (auto split: option.split sum.split)
    next
      case True
      then obtain item where k: "key_id \<noteq> []" and item: "prepare_update cf key_id updates role (procs c p) = Some (Inr item)" by blast
      have "cluster_ok (write_item p item c)"
        using prepare_update_ok [OF _ _ k item] by (intro write_item_ok [OF c]) blast
      then show ?thesis using Update k item by simp
    qed
  next
    case (Delete p key_id)
    show ?thesis
    proof (cases "strip key_id = [] \<or> auth_revision (procs c p) = None")
      case True
      then show ?thesis using Delete c by simp
    next
      case False
      obtain r b u where m: "remove_item True (strip key_id) (procs c p) (shared c) = (r, b, u)" by (metis prod_cases3)
      have "tidy u \<and> separated (cores u) \<and> good u b \<and> evolves (shared c) u"
        using remove_item_inv [OF t _ g _ _ _ m] c False by (simp add: cluster_ok_def)
      then show ?thesis using Delete False m c by (simp add: put_proc_ok)
    qed
  next
    case (Touch p n now_iso)
    show ?thesis
    proof (cases "n < length (auth_items (procs c p))")
      case True
      have "cluster_ok (write_item p (used_now now_iso (auth_items (procs c p) ! n)) c)"
        by (rule write_item_ok [OF c]) (use used_now_ok [OF _ True] same_core_free [OF _ True] in blast)
      then show ?thesis using Touch True by simp
    qed (use Touch c in simp)
  next
    case (TouchLocal p n now_iso)
    then show ?thesis using c keep_local_good [OF g] by (simp add: put_local_ok)
  next
    case (RefreshBegin p now_iso tm)
    have "good (shared c) (refresh_begin tm (procs c p))" using g [of p] by (auto simp: good_def refresh_begin_def split: option.splits)
    then have "cluster_ok (put_proc p (refresh_begin tm (procs c p), shared c) c)" by (rule put_local_ok [OF c])
    then show ?thesis
      using RefreshBegin load_auth_held [OF t, of now_iso]
      by (cases "load_auth now_iso (shared c)") (auto simp: cluster_ok_def put_proc_def)
  next
    case (RefreshEnd p tm)
    show ?thesis
    proof (cases "reading c p")
      case (Some y)
      obtain e items rv where y: "y = (e, items, rv)" by (metis prod_cases3)
      then have h: "held (shared c) (items, rv)" using c Some unfolding cluster_ok_def by blast
      have "good (shared c) (snd (refresh_end e tm (Some (items, rv)) (procs c p)))"
        using g [of p] h by (auto simp: refresh_end_def Let_def good_def split: option.splits)
      then have "cluster_ok (put_proc p (snd (refresh_end e tm (Some (items, rv)) (procs c p)), shared c) c)"
        by (rule put_local_ok [OF c])
      then show ?thesis using RefreshEnd Some y by (auto simp: cluster_ok_def put_proc_def)
    qed (use RefreshEnd c in simp)
  qed
qed

interpretation auth_cluster: invariant_machine "auth_step cf" cluster_ok for cf
  by unfold_locales (rule auth_step_ok)

lemma cluster_ok_empty: "cluster_ok empty_cluster"
  by (simp add: cluster_ok_def empty_cluster_def tidy_def separated_def cores_def good_def fresh_auth_def)

section \<open>Properties\<close>

text \<open>C13. Whatever any number of processes do, in any order and with snapshots as stale as they
  like, two different API keys in the table never have the same hash, and two keys of one role
  never have the same name: a key that a client presents identifies one item. (A write prepared
  against a stale snapshot is refused by the revision guard.)\<close>

theorem auth_keys_unique:
  "case run (auth_step cf) empty_cluster ops of c \<Rightarrow>
     distinct (map fst (rows (shared c))) \<and>
     (case (map_of (rows (shared c)) k, map_of (rows (shared c)) j) of
        (Some (Some a), Some (Some b)) \<Rightarrow>
          k = j \<or> (field a ''key_hash'' \<noteq> field b ''key_hash'' \<and>
            (field a ''role'', field a ''name'') \<noteq> (field b ''role'', field b ''name''))
      | _ \<Rightarrow> True)"
proof -
  let ?s = "shared (run (auth_step cf) empty_cluster ops)"
  have ok: "tidy ?s" "separated (cores ?s)"
    using auth_cluster.run_keeps [OF cluster_ok_empty, of cf ops] by (simp_all add: cluster_ok_def)
  have "k = j \<or> (field a ''key_hash'' \<noteq> field b ''key_hash'' \<and>
            (field a ''role'', field a ''name'') \<noteq> (field b ''role'', field b ''name''))"
    if a: "map_of (rows ?s) k = Some (Some a)" and b: "map_of (rows ?s) j = Some (Some b)" for a b
  proof -
    have "co_id (core a) = k" "co_id (core b) = j" using tidy_row [OF ok(1)] a b by blast+
    moreover have "core a = core b \<or> (co_hash (core a) \<noteq> co_hash (core b) \<and>
        (co_role (core a), co_name (core a)) \<noteq> (co_role (core b), co_name (core b)))"
      using ok(2) coresI [OF a] coresI [OF b] unfolding separated_def by blast
    ultimately show ?thesis by (auto simp: core_def)
  qed
  then show ?thesis
    using ok(1) by (auto simp: tidy_def distinct_keys_def split: option.split)
qed

text \<open>The search for a free default name of a role ends: after at most one turn more than there
  are keys it has found a name that no other key of the role carries, so that creating a key
  without a name never loops.\<close>

theorem default_name_found:
  "case build_default_name role exclude_id items of
     None \<Rightarrow> False
   | Some n \<Rightarrow> \<not> has_name n (Some role) exclude_id items"
proof (cases "has_name (default_name (PStr role)) (Some role) exclude_id items")
  case True
  obtain n where "free_suffix (Suc (length items)) (default_name (PStr role)) role exclude_id items 2 = Some n"
    using free_suffix_enough [of items "PStr role" role exclude_id 2] by blast
  with free_suffix_Some [OF this] True show ?thesis by (simp add: build_default_name_def Let_def)
qed (simp add: build_default_name_def Let_def)

lemma has_key_hash_index:
  "\<not> has_key_hash h [] items \<Longrightarrow> find_hash_index h (filter P items) = None"
  by (induction items) (auto simp: has_key_hash_def find_hash_index_def excluded_def)

lemma first_index_append:
  "first_index P (xs @ ys) = (case first_index P xs of Some n \<Rightarrow> Some n | None \<Rightarrow> map_option ((+) (length xs)) (first_index P ys))"
  by (induction xs; cases "first_index P ys") (auto split: option.split)

lemma create_item_facts:
  assumes "prepare_create cf now_iso draws ids role name a = Inr (item, raw)"
  shows "clean (field item ''key_hash'') = ac_hash cf (strip raw)" "item_enabled item"
    "\<not> has_key_hash (ac_hash cf (strip raw)) [] (auth_items a)"
proof -
  obtain n h i where h: "draw_key cf (auth_items a) draws = Inr (raw, h)"
    and item: "item = [(''id'', PStr i), (''name'', PStr n), (''role'', PStr role), (''key_hash'', PStr h),
       (''enabled'', PBool True), (''created_at'', PStr now_iso), (''last_used_at'', PNone)]"
    using assms by (auto simp: prepare_create_def split: sum.splits option.splits prod.splits)
  from draw_key_ok [OF h] have hh: "h = ac_hash cf (strip raw)" "\<not> has_key_hash h [] (auth_items a)" by blast+
  show "clean (field item ''key_hash'') = ac_hash cf (strip raw)" "item_enabled item"
    by (simp_all add: item hh(1) field_def item_enabled_def ac_hash_plain)
  show "\<not> has_key_hash (ac_hash cf (strip raw)) [] (auth_items a)" using hh by metis
qed

text \<open>What a created key can do at once.\<close>

definition created :: "auth_config \<Rightarrow> pydict \<Rightarrow> string \<Rightarrow> auth_state \<Rightarrow> db \<Rightarrow> bool" where
  "created cf pub raw_key b u \<longleftrightarrow>
     (case find_hash_index (ac_hash cf (strip raw_key)) (auth_items b) of
        None \<Rightarrow> False
      | Some n \<Rightarrow>
          (case map_of (rows u) (key_of AuthKeys (auth_items b ! n)) of
             None \<Rightarrow> False
           | Some data \<Rightarrow> row_matches data (auth_items b ! n) \<and> public_item (auth_items b ! n) = pub))"

lemma store_created:
  assumes p: "prepare_create cf now_iso draws ids role name a = Inr (item, raw)"
    and m: "store_item ok item a s = (Inr r, b, u)"
  shows "created cf (public_item item) raw b u"
proof -
  note f = create_item_facts [OF p]
  have mm: "auth_mutate (upsert_of item a) s = (Inr r, u)" and b: "b = set_cached_item item (rc_revision r) a"
    using m by (auto simp: store_item_def split: if_splits sum.splits prod.splits)
  have row: "\<exists>data. map_of (rows u) (key_of AuthKeys item) = Some data \<and> row_matches data item"
  proof (rule auth_mutate_cases [of "upsert_of item a" s])
    fix e assume "auth_mutate (upsert_of item a) s = (Inl e, s)"
    with mm show ?thesis by simp
  next
    fix ups dels r' u'
    assume n: "normalize_mutation AuthKeys (upsert_of item a) = Inr (ups, dels)"
      and m': "auth_mutate (upsert_of item a) s = (Inr r', u')"
      and look: "\<And>k. map_of (rows u') k = (case find_item AuthKeys ups k of
        None \<Rightarrow> if k \<in> set dels then None else map_of (rows s) k
      | Some item \<Rightarrow> (case map_of (rows s) k of
          None \<Rightarrow> Some (Some item)
        | Some data \<Rightarrow> if row_matches data item then Some data else Some (Some item)))"
    have "ups = [item]"
      using n by (auto simp: normalize_mutation_def upsert_of_def normalize_items_def Let_def split: sum.splits if_splits)
    then have "find_item AuthKeys ups (key_of AuthKeys item) = Some item" by (simp add: find_item_def)
    with look [of "key_of AuthKeys item"] m' mm show ?thesis
      by (auto simp: row_matches_def split: option.splits)
  qed
  define old where "old = filter (\<lambda>i. clean (field i ''id'') \<noteq> clean (field item ''id'')) (auth_items a)"
  have "find_hash_index (ac_hash cf (strip raw)) old = None" unfolding old_def by (rule has_key_hash_index [OF f(3)])
  then have "find_hash_index (ac_hash cf (strip raw)) (old @ [item]) = Some (length old)"
    using f(1,2) ac_hash_plain [of cf "strip raw"] by (simp add: find_hash_index_def first_index_append)
  moreover have "auth_items b = old @ [item]" by (simp add: b set_cached_item_def old_def)
  ultimately show ?thesis using row by (auto simp: created_def)
qed

text \<open>Whatever other processes write meanwhile and however often the guarded write has to be
  tried again: when creating a key answers, the table holds an enabled row for the answered
  item, the key that was handed out hashes to it, and the process's own snapshot resolves the
  key to exactly that item, so that the next request with the key is let in.\<close>

theorem create_key_usable:
  "case create_key cf world role name a s of
     (Inr (pub, raw_key), b, u) \<Rightarrow> created cf pub raw_key b u
   | (Inl e, b, u) \<Rightarrow> True"
proof -
  have loop: "case create_loop cf role name ws a s of (Inr (pub, raw_key), b, u) \<Rightarrow> created cf pub raw_key b u | (Inl e, b, u) \<Rightarrow> True"
    for ws
  proof (induction ws arbitrary: a s)
    case (Cons w ws)
    obtain ok c t where l: "attempt_load w a s = (ok, c, t)" by (metis prod_cases3)
    show ?case
    proof (cases "ok \<and> (\<exists>item raw. prepare_create cf (at_iso w) (at_keys w) (at_ids w) role name c = Inr (item, raw))")
      case False
      then show ?thesis using l by (cases ok) (auto split: sum.splits)
    next
      case True
      then obtain item raw where p: "prepare_create cf (at_iso w) (at_keys w) (at_ids w) role name c = Inr (item, raw)" and ok by blast
      obtain r b u where m: "store_item (at_writes w) item c t = (r, b, u)" by (metis prod_cases3)
      show ?thesis
      proof (cases r)
        case (Inl e)
        then show ?thesis using l p m \<open>ok\<close> Cons.IH [of b u] by auto
      next
        case (Inr q)
        then show ?thesis using l p m \<open>ok\<close> store_created [OF p, of "at_writes w" t q b u] by auto
      qed
    qed
  qed simp
  show ?thesis unfolding create_key_def by (rule loop)
qed

lemma find_hash_index_Some:
  assumes "find_hash_index h items = Some n"
  shows "n < length items" "item_enabled (items ! n)" "clean (field (items ! n) ''key_hash'') = h"
  using first_index_Some [OF assms [unfolded find_hash_index_def]] by simp_all

definition let_in :: "string \<Rightarrow> string \<Rightarrow> pydict \<Rightarrow> bool" where
  "let_in h now_iso pub \<longleftrightarrow>
     (\<exists>i. item_enabled i \<and> clean (field i ''key_hash'') = h \<and> pub = public_item (used_now now_iso i))"

lemma let_in_index: "find_hash_index h items = Some n \<Longrightarrow> let_in h now_iso (public_item (used_now now_iso (items ! n)))"
  using find_hash_index_Some unfolding let_in_def by blast

lemma authenticate_loop_sound:
  "fst (authenticate_loop h now now_iso ws a s) = Some pub \<Longrightarrow> let_in h now_iso pub \<and> find_hash_index h (auth_items a) \<noteq> None"
proof (induction ws arbitrary: a s)
  case (Cons w ws)
  obtain n where n: "find_hash_index h (auth_items a) = Some n"
    using Cons.prems by (cases "find_hash_index h (auth_items a)") simp_all
  note here = let_in_index [OF n, of now_iso]
  let ?i = "used_now now_iso (auth_items a ! n)"
  obtain r b u where m: "store_item (at_writes w) ?i a (at_between w s) = (r, b, u)" by (metis prod_cases3)
  define recent where "recent \<longleftrightarrow> (case map_of (flushed_at a) (clean (field ?i ''id'')) of None \<Rightarrow> False | Some t \<Rightarrow> now - t < 60) \<or>
      auth_revision a = None"
  note prem = Cons.prems [unfolded authenticate_loop.simps n option.case Let_def, folded recent_def, unfolded m prod.case]
  show ?case
  proof (cases "recent \<or> \<not> isl r \<or> (\<exists>e. r = Inl e \<and> \<not> is_conflict e)")
    case True
    have "pub = public_item ?i"
    proof (cases recent)
      case False
      then show ?thesis using True prem by (cases r) auto
    qed (use prem in simp)
    with here n show ?thesis by simp
  next
    case False
    then obtain e where e: "\<not> recent" "r = Inl e" "is_conflict e" by (cases r) auto
    obtain ok c where rl: "reload (at_loads w) (at_iso w) (at_time w) (at_before w u) b = (ok, c)" by fastforce
    obtain k where k: "ok" "find_hash_index h (auth_items c) = Some k"
      using prem e rl by (cases ok; cases "find_hash_index h (auth_items c)") auto
    show ?thesis
    proof (cases "ws = []")
      case True
      then have "pub = public_item (used_now now_iso (auth_items c ! k))"
        using prem e rl k by auto
      with let_in_index [OF k(2), of now_iso] n show ?thesis by simp
    next
      case no: False
      then have "fst (authenticate_loop h now now_iso ws c (at_before w u)) = Some pub"
        using prem e rl k by auto
      from Cons.IH [OF this] n show ?thesis by simp
    qed
  qed
qed simp

lemma refresh_usable:
  assumes "ck_enter ck \<le> ck_locked ck" "ck_locked ck \<le> ck_loaded ck"
    and "refresh_if_due ck lock_free reachable now_iso s a = (True, b)"
  shows "ck_enter ck - refresh_success_at b \<le> max_stale"
  using assms
  by (auto simp: refresh_if_due_def refresh_end_def Let_def snapshot_is_usable_def max_stale_def refresh_begin_def
      split: if_splits prod.splits)


text \<open>A concrete request: the snapshot is two seconds old.\<close>

definition sample_auth :: auth_state where
  "sample_auth =
     \<lparr>auth_items = [[(''id'', PStr ''i''), (''role'', PStr ''user''), (''key_hash'', PStr (hex_text 64 7)), (''enabled'', PBool True)]],
      auth_revision = None, flushed_at = [], refresh_attempt_at = 8, refresh_success_at = 8\<rparr>"

definition sample_attempt :: attempt where
  "sample_attempt =
     \<lparr>at_before = (\<lambda>s. s), at_loads = True, at_iso = ''t'', at_time = 0, at_keys = [], at_ids = [], at_between = (\<lambda>s. s),
      at_writes = True\<rparr>"


end
