(* ===== verification/Maintenance.thy ===== *)
theory Maintenance
  imports Storage "HOL-Library.Multiset"
begin

text \<open>
  The gate of the background account maintenance:
  \<open>services/account_maintenance_policy.py\<close> (the verdict on the load of the cluster),
  \<open>services/maintenance_load.py\<close> (the older gate, by image traffic),
  \<open>services/maintenance_pressure.py\<close> (the samples a replica reports),
  \<open>services/account_maintenance.py\<close> (the batches) and
  \<open>services/account_maintenance_progress.py\<close> (their counters). The snapshot of the cluster
  monitor is an argument, as are the clocks; the texts that explain a verdict, the values that
  are only displayed and the log are left out.
\<close>

section \<open>Numbers and samples\<close>

text \<open>\<open>_number\<close>: a finite non-negative int or float that is not a boolean.\<close>

definition number_value :: "pyval \<Rightarrow> rat option" where
  "number_value v =
     (case v of
        PInt i \<Rightarrow> if 0 \<le> i \<and> of_int i < float_limit then Some (of_int i) else None
      | PFloat (Fin q) \<Rightarrow> if 0 \<le> q then Some q else None
      | _ \<Rightarrow> None)"

text \<open>\<open>_sample\<close>: a usable sample, or the empty dictionary.\<close>

definition usable_sample :: "pydict \<Rightarrow> string \<Rightarrow> pydict" where
  "usable_sample samples metric =
     (case field samples metric of
        PDict d \<Rightarrow>
          (case (field d ''count'', number_value (field d ''age_seconds'')) of
             (PInt n, Some age) \<Rightarrow> if n < 3 \<or> 60 < age then [] else d
           | _ \<Rightarrow> [])
      | _ \<Rightarrow> [])"

definition pressure_limits :: "environ \<Rightarrow> (string \<times> rat) list" where
  "pressure_limits env =
     [(''database_ms'', of_int (env_int env ''CHATGPT2API_MAINTENANCE_DB_P95_MS'' 500 1 None)),
      (''writer_wait_ms'', of_int (env_int env ''CHATGPT2API_MAINTENANCE_WRITE_WAIT_P95_MS'' 500 1 None)),
      (''queue_ms'', of_int (env_int env ''CHATGPT2API_MAINTENANCE_QUEUE_P95_MS'' 1000 1 None)),
      (''upstream_ms'', of_int (env_int env ''CHATGPT2API_MAINTENANCE_UPSTREAM_P95_MS'' 10000 1 None))]"

definition error_metrics :: "string list" where
  "error_metrics = [''upstream_error'', ''database_error'']"

definition resource_limits :: "(string \<times> string \<times> rat \<times> rat) list" where
  "resource_limits =
     [(''cpu_percent'', ''cpu'', 75, 95), (''memory_percent'', ''memory'', 80, 95),
      (''database_pool_utilization'', ''database_pool'', 8/10, 1)]"

section \<open>The verdict\<close>

text \<open>What the loop over the replicas accumulates.\<close>

record pressure =
  warnings :: "string list"
  critical :: "string list"
  resources_known :: bool
  has_samples :: bool

definition add_code :: "bool \<Rightarrow> string \<Rightarrow> string list \<Rightarrow> string list" where
  "add_code cond code codes = (if cond then List.insert code codes else codes)"

definition scan_resources :: "pydict \<Rightarrow> pressure \<Rightarrow> pressure" where
  "scan_resources report p =
     fold (\<lambda>(key, reason, soft, hard) p.
         case number_value (field report key) of
           None \<Rightarrow> if key \<noteq> ''database_pool_utilization'' then p\<lparr>resources_known := False\<rparr> else p
         | Some v \<Rightarrow> p\<lparr>warnings := add_code (soft \<le> v) reason (warnings p), critical := add_code (hard \<le> v) reason (critical p)\<rparr>)
       resource_limits p"

definition scan_latencies :: "environ \<Rightarrow> pydict \<Rightarrow> pressure \<Rightarrow> pressure" where
  "scan_latencies env samples p =
     fold (\<lambda>(metric, threshold) p.
         case number_value (field (usable_sample samples metric) ''p95'') of
           None \<Rightarrow> p
         | Some v \<Rightarrow> p\<lparr>warnings := add_code (threshold \<le> v) metric (warnings p),
             critical := add_code (threshold * 2 \<le> v \<and> metric \<noteq> ''queue_ms'') metric (critical p)\<rparr>)
       (pressure_limits env) p"

definition scan_errors :: "pydict \<Rightarrow> pressure \<Rightarrow> pressure" where
  "scan_errors samples p =
     fold (\<lambda>metric p.
         case number_value (field (usable_sample samples metric) ''mean'') of
           None \<Rightarrow> p
         | Some v \<Rightarrow> p\<lparr>warnings := add_code (2/10 \<le> v) metric (warnings p), critical := add_code (5/10 \<le> v) metric (critical p)\<rparr>)
       error_metrics p"

definition sampled :: "environ \<Rightarrow> pydict \<Rightarrow> bool" where
  "sampled env samples \<longleftrightarrow>
     list_ex (\<lambda>metric. usable_sample samples metric \<noteq> []) (map fst (pressure_limits env) @ error_metrics)"

text \<open>The samples of a report that can be read; None stands for the early \<open>return\<close>.\<close>

definition report_samples :: "rat \<Rightarrow> pyval \<Rightarrow> (pydict \<times> pydict) option" where
  "report_samples now v =
     (case v of
        PDict report \<Rightarrow>
          (case number_value (field report ''sampled_at'') of
             Some t \<Rightarrow>
               if \<not> py_eq (field report ''schema'') (PInt 1) \<or> now - t < -5 \<or> 15 < now - t then None
               else (case py_or (field report ''samples'') (PDict []) of PDict samples \<Rightarrow> Some (report, samples) | _ \<Rightarrow> None)
           | None \<Rightarrow> None)
      | _ \<Rightarrow> None)"

fun scan_reports :: "environ \<Rightarrow> rat \<Rightarrow> pyval list \<Rightarrow> pressure \<Rightarrow> pressure option" where
  "scan_reports env now [] p = Some p"
| "scan_reports env now (v # vs) p =
     (case report_samples now v of
        None \<Rightarrow> None
      | Some (report, samples) \<Rightarrow>
          (let p = scan_errors samples (scan_latencies env samples (scan_resources report p)) in
           scan_reports env now vs (p\<lparr>has_samples := has_samples p \<or> sampled env samples\<rparr>)))"

datatype mode = Paused | Reduced | Normal | Probe

definition get_or :: "pydict \<Rightarrow> string \<Rightarrow> pyval \<Rightarrow> pyval" where
  "get_or d k dflt = (case map_of d k of None \<Rightarrow> dflt | Some v \<Rightarrow> v)"

text \<open>The reports of a complete cluster.\<close>

definition cluster_reports :: "pyval \<Rightarrow> pyval list option" where
  "cluster_reports snapshot =
     (case snapshot of
        PDict d \<Rightarrow>
          (case py_or (py_or (field d ''maintenance_cluster'') (field d ''cluster'')) (PDict []) of
             PDict cluster \<Rightarrow>
               (case (get_or cluster ''expected'' (PInt 1), py_or (field d ''maintenance_health'') (PList [])) of
                  (PInt expected, PList reports) \<Rightarrow>
                    if expected < 1 \<or> \<not> py_eq (get_or cluster ''responding'' (PInt 1)) (PInt expected) \<or> int (length reports) \<noteq> expected
                    then None else Some reports
                | _ \<Rightarrow> None)
           | _ \<Rightarrow> None)
      | _ \<Rightarrow> None)"

definition calm :: pressure where
  "calm = \<lparr>warnings = [], critical = [], resources_known = True, has_samples = False\<rparr>"

definition evaluate_pressure :: "environ \<Rightarrow> rat \<Rightarrow> pyval \<Rightarrow> mode \<times> string list" where
  "evaluate_pressure env now snapshot =
     (case cluster_reports snapshot of
        None \<Rightarrow> (Paused, [''partial''])
      | Some reports \<Rightarrow>
          (case scan_reports env now reports calm of
             None \<Rightarrow> (Paused, [''partial''])
           | Some p \<Rightarrow>
               if critical p \<noteq> [] then (Paused, sort (critical p))
               else if warnings p \<noteq> [] then (Reduced, sort (warnings p))
               else if resources_known p \<and> has_samples p then (Normal, [''healthy'']) else (Probe, [''warming''])))"

section \<open>The policy\<close>

record decision =
  d_mode :: mode
  d_allowed :: bool
  d_batch_size :: int
  d_reason_codes :: "string list"
  d_policy :: string
  d_sampled_at :: rat
  d_hold_seconds :: "int option"
  d_signals :: "(string \<times> rat option) list"

record policy =
  hold_until :: rat
  last_decision :: "decision option"

definition fresh_policy :: policy where
  "fresh_policy = \<lparr>hold_until = 0, last_decision = None\<rparr>"

definition worst :: "rat list \<Rightarrow> rat option" where
  "worst vs = (case vs of [] \<Rightarrow> None | v # vs \<Rightarrow> Some (fold max vs v))"

definition numbers :: "pyval list \<Rightarrow> rat list" where
  "numbers vs = List.map_filter number_value vs"

definition pressure_signals :: "pyval \<Rightarrow> (string \<times> rat option) list" where
  "pressure_signals snapshot =
     (let reports = (case snapshot of
            PDict d \<Rightarrow> (case field d ''maintenance_health'' of
                PList vs \<Rightarrow> List.map_filter (\<lambda>v. case v of PDict r \<Rightarrow> Some r | _ \<Rightarrow> None) vs
              | _ \<Rightarrow> [])
          | _ \<Rightarrow> []);
          with_samples = List.map_filter (\<lambda>r. case field r ''samples'' of PDict s \<Rightarrow> Some s | _ \<Rightarrow> None) reports in
      map (\<lambda>key. (key, worst (numbers (map (\<lambda>r. field r key) reports))))
        [''cpu_percent'', ''memory_percent'', ''database_pool_utilization''] @
      map (\<lambda>key. (key, worst (numbers (map (\<lambda>s. field (usable_sample s key) (if key = ''upstream_error'' then ''mean'' else ''p95''))
          with_samples))))
        [''database_ms'', ''writer_wait_ms'', ''queue_ms'', ''upstream_ms'', ''upstream_error''])"

definition batch_concurrency :: "environ \<Rightarrow> int" where
  "batch_concurrency env = env_int env ''CHATGPT2API_MAINTENANCE_BATCH_CONCURRENCY'' 2 1 (Some 8)"

definition decide :: "environ \<Rightarrow> pyval \<Rightarrow> rat \<Rightarrow> rat \<Rightarrow> policy \<Rightarrow> decision \<times> policy" where
  "decide env snapshot now monotonic pol =
     (let (md, codes) = evaluate_pressure env now snapshot;
          hold = (if md = Paused then monotonic + 10 else hold_until pol);
          (md, codes) = (if md \<noteq> Paused \<and> monotonic < hold then (Paused, [''recovering'']) else (md, codes));
          width = (if md = Normal then batch_concurrency env else if md = Paused then 0 else 1);
          d = \<lparr>d_mode = md, d_allowed = (0 < width), d_batch_size = width, d_reason_codes = codes, d_policy = ''performance'',
             d_sampled_at = now, d_hold_seconds = Some (max 0 (py_round (hold - monotonic))),
             d_signals = pressure_signals snapshot\<rparr> in
      (d, pol\<lparr>hold_until := hold, last_decision := Some d\<rparr>))"

text \<open>\<open>status()["stale"]\<close>.\<close>

definition stale_decision :: "environ \<Rightarrow> rat \<Rightarrow> policy \<Rightarrow> bool" where
  "stale_decision env now pol =
     (case last_decision pol of
        None \<Rightarrow> False
      | Some d \<Rightarrow> of_int (max 90 (env_int env ''CHATGPT2API_MAINTENANCE_RETRY_SECONDS'' 30 5 (Some 3600) * 3)) < now - d_sampled_at d)"

section \<open>The gate by image traffic\<close>

definition nonnegative :: "pyval \<Rightarrow> pyexc + int" where
  "nonnegative v =
     (case py_int (py_or v (PInt 0)) of
        Inr n \<Rightarrow> Inr (max 0 n)
      | Inl OverflowError \<Rightarrow> Inl OverflowError
      | Inl _ \<Rightarrow> Inr 0)"

definition configured_thresholds :: "environ \<Rightarrow> int \<times> int \<times> int" where
  "configured_thresholds env =
     (env_int env ''CHATGPT2API_MAINTENANCE_IMAGE_ACTIVE_MAX'' 2 0 (Some 100000),
      env_int env ''CHATGPT2API_MAINTENANCE_IMAGE_WAITING_MAX'' 0 0 (Some 100000),
      env_int env ''CHATGPT2API_MAINTENANCE_RETRY_SECONDS'' 30 5 (Some 3600))"

record image_load =
  il_ok :: bool
  il_low :: bool
  il_active :: "int option"
  il_waiting :: "int option"
  il_limit :: "int option"

definition unavailable_load :: image_load where
  "unavailable_load = \<lparr>il_ok = False, il_low = False, il_active = None, il_waiting = None, il_limit = None\<rparr>"

text \<open>The monitor's snapshot, or the exception it raised.\<close>

definition cluster_image_load :: "environ \<Rightarrow> pyexc + pyval \<Rightarrow> image_load" where
  "cluster_image_load env monitor =
     (case monitor of
        Inr (PDict snapshot) \<Rightarrow>
          (let image = (case field snapshot ''threadpool'' of PDict t \<Rightarrow> field t ''image'' | _ \<Rightarrow> PDict []);
               counted = (\<lambda>k. case image of PDict i \<Rightarrow> nonnegative (field i k) | _ \<Rightarrow> Inr 0);
               (active_max, waiting_max, _) = configured_thresholds env in
           case (counted ''active'', counted ''waiting'', counted ''limit'', py_or (field snapshot ''cluster'') (PDict [])) of
             (Inr active, Inr waiting, Inr limit, PDict cluster) \<Rightarrow>
               (case (py_int (get_or cluster ''responding'' (PInt 1)), py_int (get_or cluster ''expected'' (PInt 1))) of
                  (Inr responding, Inr expected) \<Rightarrow>
                    (let valid = (case image of
                           PDict i \<Rightarrow> map_of i ''active'' \<noteq> None \<and> map_of i ''waiting'' \<noteq> None \<and> expected \<le> responding
                         | _ \<Rightarrow> False) in
                     \<lparr>il_ok = valid, il_low = (valid \<and> active \<le> active_max \<and> waiting \<le> waiting_max),
                      il_active = Some active, il_waiting = Some waiting, il_limit = Some limit\<rparr>)
                | _ \<Rightarrow> unavailable_load)
           | _ \<Rightarrow> unavailable_load)
      | _ \<Rightarrow> unavailable_load)"

definition maintenance_is_allowed :: "environ \<Rightarrow> pyexc + pyval \<Rightarrow> bool \<times> image_load" where
  "maintenance_is_allowed env monitor = (let load = cluster_image_load env monitor in (il_ok load \<and> il_low load, load))"

definition compatibility_decision :: "environ \<Rightarrow> pyexc + pyval \<Rightarrow> bool \<Rightarrow> rat \<Rightarrow> policy \<Rightarrow> decision \<times> policy" where
  "compatibility_decision env monitor invalid now pol =
     (let allowed = (if invalid then False else fst (maintenance_is_allowed env monitor));
          d = \<lparr>d_mode = (if allowed then Normal else Paused), d_allowed = allowed,
             d_batch_size = (if allowed then batch_concurrency env else 0),
             d_reason_codes = [if invalid then ''configuration'' else ''legacy''],
             d_policy = (if invalid then ''invalid'' else ''idle''), d_sampled_at = now, d_hold_seconds = None, d_signals = []\<rparr> in
      (d, pol\<lparr>hold_until := 0, last_decision := Some d\<rparr>))"

text \<open>\<open>account_maintenance_decision\<close>: an exception of the monitor counts as a cluster in which no
  replica responds.\<close>

definition silent_cluster :: pyval where
  "silent_cluster = PDict [(''cluster'', PDict [(''expected'', PInt 1), (''responding'', PInt 0)])]"

definition account_maintenance_decision :: "environ \<Rightarrow> pyexc + pyval \<Rightarrow> rat \<Rightarrow> rat \<Rightarrow> policy \<Rightarrow> decision \<times> policy" where
  "account_maintenance_decision env monitor now monotonic pol =
     (let name = lower (strip (case env ''CHATGPT2API_ACCOUNT_MAINTENANCE_POLICY'' of None \<Rightarrow> ''performance'' | Some v \<Rightarrow> v)) in
      if name \<noteq> ''performance'' then compatibility_decision env monitor (name \<noteq> ''idle'') now pol
      else decide env (case monitor of Inl _ \<Rightarrow> silent_cluster | Inr snapshot \<Rightarrow> snapshot) now monotonic pol)"

section \<open>The samples of a replica\<close>

text \<open>\<open>PressureSamples\<close>: per metric the last \<open>capacity\<close> observations with their times.\<close>

record samples =
  sm_window :: rat
  sm_capacity :: nat
  sm_values :: "(string \<times> (rat \<times> rat) list) list"

definition pressure_metrics :: "string list" where
  "pressure_metrics = [''database_ms'', ''database_error'', ''writer_wait_ms'', ''upstream_ms'', ''upstream_error'', ''queue_ms'']"

definition fresh_samples :: samples where
  "fresh_samples = \<lparr>sm_window = 60, sm_capacity = 512, sm_values = []\<rparr>"

definition observe :: "string \<Rightarrow> pyval \<Rightarrow> rat \<Rightarrow> samples \<Rightarrow> samples" where
  "observe metric v now s =
     (if metric \<notin> set pressure_metrics then s
      else case py_float v of
        Inr (Fin q) \<Rightarrow>
          if q < 0 then s
          else
            (let old = (case map_of (sm_values s) metric of None \<Rightarrow> [] | Some xs \<Rightarrow> xs) in
             s\<lparr>sm_values := AList.update metric (last_n (sm_capacity s) (old @ [(now, q)])) (sm_values s)\<rparr>)
      | _ \<Rightarrow> s)"

record metric_report =
  mr_count :: nat
  mr_p95 :: rat
  mr_mean :: rat
  mr_latest :: rat
  mr_age :: rat

definition p95_index :: "nat \<Rightarrow> nat" where
  "p95_index n = nat (max 0 (\<lceil>of_nat n * (95/100 :: rat)\<rceil> - 1))"

definition report_metric :: "rat \<Rightarrow> (rat \<times> rat) list \<Rightarrow> metric_report" where
  "report_metric now values =
     (let ordered = sort (map snd values) in
      \<lparr>mr_count = length values, mr_p95 = ordered ! p95_index (length values),
       mr_mean = sum_list ordered / of_nat (length ordered), mr_latest = snd (last values), mr_age = max 0 (now - fst (last values))\<rparr>)"

definition samples_snapshot :: "rat \<Rightarrow> samples \<Rightarrow> (string \<times> metric_report) list" where
  "samples_snapshot now s =
     List.map_filter (\<lambda>(key, values).
         let recent = filter (\<lambda>(stamp, _). 0 \<le> now - stamp \<and> now - stamp \<le> sm_window s) values in
         if recent = [] then None else Some (key, report_metric now recent)) (sm_values s)"

section \<open>Batches\<close>

text \<open>The counters of a batch and of all batches.\<close>

datatype outcome = Succeeded | Failed | Skipped

record counters =
  ct_active :: int
  ct_completed :: int
  ct_succeeded :: int
  ct_failed :: int
  ct_skipped :: int

definition zero_counters :: counters where
  "zero_counters = \<lparr>ct_active = 0, ct_completed = 0, ct_succeeded = 0, ct_failed = 0, ct_skipped = 0\<rparr>"

fun outcome_count :: "counters \<Rightarrow> outcome \<Rightarrow> int" where
  "outcome_count c Succeeded = ct_succeeded c"
| "outcome_count c Failed = ct_failed c"
| "outcome_count c Skipped = ct_skipped c"

definition complete :: "outcome \<Rightarrow> int \<Rightarrow> counters \<Rightarrow> counters" where
  "complete out n c =
     (let c = c\<lparr>ct_completed := ct_completed c + n\<rparr> in
      case out of
        Succeeded \<Rightarrow> c\<lparr>ct_succeeded := ct_succeeded c + n\<rparr>
      | Failed \<Rightarrow> c\<lparr>ct_failed := ct_failed c + n\<rparr>
      | Skipped \<Rightarrow> c\<lparr>ct_skipped := ct_skipped c + n\<rparr>)"

text \<open>The batch and its owner: a call begins, a call ends, the summary of the operation is merged.
  The classification gives None for a word that is no outcome, and when it or the call raised.\<close>

definition call_begin :: "counters \<times> counters \<Rightarrow> counters \<times> counters" where
  "call_begin st = (case st of (b, t) \<Rightarrow> (b\<lparr>ct_active := ct_active b + 1\<rparr>, t\<lparr>ct_active := ct_active t + 1\<rparr>))"

definition call_end :: "outcome option \<Rightarrow> counters \<times> counters \<Rightarrow> counters \<times> counters" where
  "call_end out st =
     (let o2 = (case out of None \<Rightarrow> Failed | Some x \<Rightarrow> x) in
      case st of (b, t) \<Rightarrow>
        (complete o2 1 (b\<lparr>ct_active := ct_active b - 1\<rparr>), complete o2 1 (t\<lparr>ct_active := ct_active t - 1\<rparr>)))"

definition reconcile_one :: "int \<Rightarrow> outcome \<Rightarrow> pyval \<Rightarrow> counters \<times> counters \<Rightarrow> counters \<times> counters" where
  "reconcile_one size_of_batch out v st =
     (case v of
        PInt n \<Rightarrow>
          if n < 0 then st
          else
            (let missing = min (max 0 (n - outcome_count (fst st) out)) (max 0 (size_of_batch - ct_completed (fst st) - ct_active (fst st))) in
             map_prod (complete out missing) (complete out missing) st)
      | _ \<Rightarrow> st)"

definition reconcile :: "int \<Rightarrow> pydict \<Rightarrow> counters \<times> counters \<Rightarrow> counters \<times> counters" where
  "reconcile size_of_batch result st =
     reconcile_one size_of_batch Skipped (get_or result ''skipped'' (PInt 0))
       (reconcile_one size_of_batch Failed (PInt (case field result ''errors'' of PList es \<Rightarrow> int (length es) | _ \<Rightarrow> 0))
         (reconcile_one size_of_batch Succeeded (get_or result ''refreshed'' (get_or result ''synced'' (PInt 0))) st))"

text \<open>\<open>_run_idle_batches\<close>: what one turn sees is whether to stop (the event, or 20 seconds) and the
  decision; the result lists the batches that ran. Every decision of the policy that allows
  maintenance has a positive size (\<open>decide_sizes\<close> below); with another the loop would not
  advance, and the model ends it.\<close>

record turn =
  tn_stop :: bool
  tn_decision :: decision

function idle_batches :: "(nat \<Rightarrow> turn) \<Rightarrow> string list \<Rightarrow> nat \<Rightarrow> string list list" where
  "idle_batches world tokens processed =
     (if length tokens \<le> processed then []
      else let t = world processed; d = tn_decision t in
        if tn_stop t then []
        else if \<not> d_allowed d then []
        else if d_batch_size d \<le> 0 then []
        else
          (let batch = take (nat (d_batch_size d)) (drop processed tokens) in
           batch # (if d_mode d \<noteq> Normal then [] else idle_batches world tokens (processed + length batch))))"
  by pat_completeness auto
termination
  by (relation "measure (\<lambda>(world, tokens, processed). length tokens - processed)") auto

declare idle_batches.simps [simp del]

text \<open>\<open>maintenance_cycle_delay\<close>.\<close>

definition maintenance_cycle_delay :: "environ \<Rightarrow> decision \<Rightarrow> bool \<Rightarrow> int \<Rightarrow> rat option \<Rightarrow> rat" where
  "maintenance_cycle_delay env d pending advanced next_discovery_in =
     (let retry = of_int (snd (snd (configured_thresholds env)));
          gap = min retry (of_int (env_int env ''CHATGPT2API_MAINTENANCE_CONTINUE_SECONDS'' 2 1 (Some 3600))) in
      if advanced \<le> 0 \<or> \<not> d_allowed d \<or> d_mode d \<noteq> Normal \<or> d_policy d \<noteq> ''performance'' then retry
      else if pending then gap
      else (case next_discovery_in of None \<Rightarrow> retry | Some t \<Rightarrow> min retry (max gap t)))"

section \<open>Worst replica\<close>

text \<open>Functions that only add to what the loop over the replicas has accumulated.\<close>

definition adds_as :: "(pressure \<Rightarrow> pressure) \<Rightarrow> string set \<Rightarrow> string set \<Rightarrow> bool \<Rightarrow> bool \<Rightarrow> bool" where
  "adds_as f W C k h \<longleftrightarrow> (\<forall>p.
     set (warnings (f p)) = set (warnings p) \<union> W \<and> set (critical (f p)) = set (critical p) \<union> C \<and>
     resources_known (f p) = (resources_known p \<and> k) \<and> has_samples (f p) = (has_samples p \<or> h) \<and>
     (distinct (warnings p) \<longrightarrow> distinct (warnings (f p))) \<and> (distinct (critical p) \<longrightarrow> distinct (critical (f p))))"

definition adds :: "(pressure \<Rightarrow> pressure) \<Rightarrow> bool" where
  "adds f \<longleftrightarrow> (\<exists>W C k h. adds_as f W C k h)"

lemma adds_distinct:
  "adds_as f W C k h \<Longrightarrow> distinct (warnings p) \<Longrightarrow> distinct (warnings (f p))"
  "adds_as f W C k h \<Longrightarrow> distinct (critical p) \<Longrightarrow> distinct (critical (f p))"
  by (simp_all add: adds_as_def)

lemma addsI: "adds_as f W C k h \<Longrightarrow> adds f"
  by (auto simp: adds_def)

lemma adds_calm:
  assumes "adds f"
  shows "adds_as f (set (warnings (f calm))) (set (critical (f calm))) (resources_known (f calm)) (has_samples (f calm))"
proof -
  obtain W C k h where a: "adds_as f W C k h" using assms by (auto simp: adds_def)
  from a [unfolded adds_as_def, THEN spec, of calm]
  have "W = set (warnings (f calm))" "C = set (critical (f calm))" "k = resources_known (f calm)" "h = has_samples (f calm)"
    by (simp_all add: calm_def)
  with a show ?thesis by simp
qed

lemma adds_step:
  assumes "adds f"
  shows "set (warnings (f p)) = set (warnings p) \<union> set (warnings (f calm)) \<and>
     set (critical (f p)) = set (critical p) \<union> set (critical (f calm)) \<and>
     resources_known (f p) = (resources_known p \<and> resources_known (f calm)) \<and>
     has_samples (f p) = (has_samples p \<or> has_samples (f calm))"
  using adds_calm [OF assms, unfolded adds_as_def, THEN spec, of p] by (elim conjE) (intro conjI)

lemma adds_comp:
  assumes "adds f" "adds g"
  shows "adds (\<lambda>p. g (f p))"
proof -
  obtain W C k h W2 C2 k2 h2 where "adds_as f W C k h" "adds_as g W2 C2 k2 h2" using assms by (auto simp: adds_def)
  then have "adds_as (\<lambda>p. g (f p)) (W \<union> W2) (C \<union> C2) (k \<and> k2) (h \<or> h2)"
    by (simp add: adds_as_def Un_assoc)
  then show ?thesis by (rule addsI)
qed

lemma adds_id: "adds (\<lambda>p. p)"
  by (rule addsI [of _ "{}" "{}" True False]) (simp add: adds_as_def)

lemma adds_fold: "(\<And>x. x \<in> set xs \<Longrightarrow> adds (f x)) \<Longrightarrow> adds (fold f xs)"
proof (induction xs)
  case (Cons x xs)
  then show ?case using adds_comp [of "f x" "fold f xs"] by (simp add: o_def)
qed (simp add: adds_id id_def)

lemma add_code_simps:
  "set (add_code b c codes) = (if b then insert c (set codes) else set codes)"
  "distinct codes \<Longrightarrow> distinct (add_code b c codes)"
  by (simp_all add: add_code_def)

lemma adds_codes: "adds (\<lambda>p. p\<lparr>warnings := add_code b c (warnings p), critical := add_code b2 c2 (critical p)\<rparr>)"
  by (rule addsI [of _ "if b then {c} else {}" "if b2 then {c2} else {}" True False]) (simp add: adds_as_def add_code_simps)

lemma adds_unknown: "adds (\<lambda>p. if b then p\<lparr>resources_known := False\<rparr> else p)"
  by (rule addsI [of _ "{}" "{}" "\<not> b" False]) (simp add: adds_as_def)

lemma adds_sampled: "adds (\<lambda>p. p\<lparr>has_samples := has_samples p \<or> b\<rparr>)"
  by (rule addsI [of _ "{}" "{}" True b]) (simp add: adds_as_def)

lemma adds_scans: "adds (scan_resources r)" "adds (scan_latencies env s)" "adds (scan_errors s)"
proof -
  show "adds (scan_resources r)" unfolding scan_resources_def
  proof (rule adds_fold)
    fix x :: "string \<times> string \<times> rat \<times> rat"
    obtain k c a b where x: "x = (k, c, a, b)" by (metis prod_cases4)
    show "adds ((\<lambda>(key, reason, soft, hard) p.
         case number_value (field r key) of
           None \<Rightarrow> if key \<noteq> ''database_pool_utilization'' then p\<lparr>resources_known := False\<rparr> else p
         | Some v \<Rightarrow> p\<lparr>warnings := add_code (soft \<le> v) reason (warnings p), critical := add_code (hard \<le> v) reason (critical p)\<rparr>) x)"
      unfolding x prod.case by (cases "number_value (field r k)") (simp_all only: option.case adds_codes adds_unknown)
  qed
  show "adds (scan_latencies env s)" unfolding scan_latencies_def
  proof (rule adds_fold)
    fix x :: "string \<times> rat"
    obtain m t where x: "x = (m, t)" by (cases x)
    show "adds ((\<lambda>(metric, threshold) p.
         case number_value (field (usable_sample s metric) ''p95'') of
           None \<Rightarrow> p
         | Some v \<Rightarrow> p\<lparr>warnings := add_code (threshold \<le> v) metric (warnings p),
             critical := add_code (threshold * 2 \<le> v \<and> metric \<noteq> ''queue_ms'') metric (critical p)\<rparr>) x)"
      unfolding x prod.case
      by (cases "number_value (field (usable_sample s m) ''p95'')") (simp_all only: option.case adds_codes adds_id)
  qed
  show "adds (scan_errors s)" unfolding scan_errors_def
  proof (rule adds_fold)
    fix m :: string
    show "adds (\<lambda>p. case number_value (field (usable_sample s m) ''mean'') of
           None \<Rightarrow> p
         | Some v \<Rightarrow> p\<lparr>warnings := add_code (2/10 \<le> v) m (warnings p), critical := add_code (5/10 \<le> v) m (critical p)\<rparr>)"
      by (cases "number_value (field (usable_sample s m) ''mean'')") (simp_all only: option.case adds_codes adds_id)
  qed
qed

definition scan_one :: "environ \<Rightarrow> pydict \<times> pydict \<Rightarrow> pressure \<Rightarrow> pressure" where
  "scan_one env rs p =
     (let p = scan_errors (snd rs) (scan_latencies env (snd rs) (scan_resources (fst rs) p)) in
      p\<lparr>has_samples := has_samples p \<or> sampled env (snd rs)\<rparr>)"

lemma adds_scan_one: "adds (scan_one env rs)"
  unfolding scan_one_def Let_def
  by (rule adds_comp [OF _ adds_sampled], rule adds_comp [OF _ adds_scans(3)], rule adds_comp [OF adds_scans(1) adds_scans(2)])

lemma scan_reports_Cons:
  "scan_reports env now (v # vs) p =
     (case report_samples now v of None \<Rightarrow> None | Some rs \<Rightarrow> scan_reports env now vs (scan_one env rs p))"
  by (simp add: scan_one_def Let_def split: option.split)

lemma scan_reports_fold:
  "scan_reports env now vs p =
     (if list_ex (\<lambda>v. report_samples now v = None) vs then None
      else Some (fold (scan_one env) (List.map_filter (report_samples now) vs) p))"
proof (induction vs arbitrary: p)
  case (Cons v vs)
  then show ?case
    unfolding scan_reports_Cons by (cases "report_samples now v") (simp_all add: List.map_filter_simps)
qed (simp add: List.map_filter_simps)

lemma fold_adds:
  assumes "\<And>x. adds (f x)"
  shows "set (warnings (fold f xs calm)) = (\<Union>x \<in> set xs. set (warnings (f x calm)))"
    "set (critical (fold f xs calm)) = (\<Union>x \<in> set xs. set (critical (f x calm)))"
    "resources_known (fold f xs calm) = (\<forall>x \<in> set xs. resources_known (f x calm))"
    "has_samples (fold f xs calm) = (\<exists>x \<in> set xs. has_samples (f x calm))"
    "distinct (warnings (fold f xs calm))" "distinct (critical (fold f xs calm))"
proof -
  have "set (warnings (fold f xs p)) = set (warnings p) \<union> (\<Union>x \<in> set xs. set (warnings (f x calm))) \<and>
      set (critical (fold f xs p)) = set (critical p) \<union> (\<Union>x \<in> set xs. set (critical (f x calm))) \<and>
      resources_known (fold f xs p) = (resources_known p \<and> (\<forall>x \<in> set xs. resources_known (f x calm))) \<and>
      has_samples (fold f xs p) = (has_samples p \<or> (\<exists>x \<in> set xs. has_samples (f x calm)))" for p
  proof (induction xs arbitrary: p)
    case (Cons x xs)
    show ?case using Cons.IH [of "f x p"] adds_step [OF assms, of x p]
      by (simp add: Un_assoc conj_assoc disj_assoc)
  qed simp
  from this [of calm] show "set (warnings (fold f xs calm)) = (\<Union>x \<in> set xs. set (warnings (f x calm)))"
    "set (critical (fold f xs calm)) = (\<Union>x \<in> set xs. set (critical (f x calm)))"
    "resources_known (fold f xs calm) = (\<forall>x \<in> set xs. resources_known (f x calm))"
    "has_samples (fold f xs calm) = (\<exists>x \<in> set xs. has_samples (f x calm))"
    by (simp_all add: calm_def)
  have "adds (fold f xs)" by (rule adds_fold) (rule assms)
  then obtain W C k h where a: "adds_as (fold f xs) W C k h" by (auto simp: adds_def)
  show "distinct (warnings (fold f xs calm))" "distinct (critical (fold f xs calm))"
    by (rule adds_distinct [OF a], simp add: calm_def)+
qed

text \<open>The reference: each replica is judged alone, and the verdicts are joined.\<close>

definition judge_replica :: "environ \<Rightarrow> pydict \<times> pydict \<Rightarrow> pressure" where
  "judge_replica env rs = scan_one env rs calm"

definition worst_replica :: "environ \<Rightarrow> (pydict \<times> pydict) list \<Rightarrow> mode \<times> string list" where
  "worst_replica env rss =
     (let verdicts = map (judge_replica env) rss;
          crit = remdups (concat (map critical verdicts)); warn = remdups (concat (map warnings verdicts)) in
      if crit \<noteq> [] then (Paused, sort crit)
      else if warn \<noteq> [] then (Reduced, sort warn)
      else if list_all resources_known verdicts \<and> list_ex has_samples verdicts then (Normal, [''healthy''])
      else (Probe, [''warming'']))"

lemma sort_codes: "distinct xs \<Longrightarrow> distinct ys \<Longrightarrow> set xs = set ys \<Longrightarrow> sort xs = sort ys"
  by (metis sorted_distinct_set_unique sorted_sort distinct_sort set_sort)

lemma joined_codes:
  assumes "distinct xs" "set xs = (\<Union>y \<in> set ys. set (f y))"
  shows "xs = [] \<longleftrightarrow> remdups (concat (map f ys)) = []" "sort xs = sort (remdups (concat (map f ys)))"
proof -
  have e: "set xs = set (remdups (concat (map f ys)))" using assms(2) by simp
  show "sort xs = sort (remdups (concat (map f ys)))" using assms(1) e by (intro sort_codes) simp_all
  show "xs = [] \<longleftrightarrow> remdups (concat (map f ys)) = []" using e by (metis set_empty)
qed

lemma scan_is_worst:
  "(if critical (fold (scan_one env) rss calm) \<noteq> [] then (Paused, sort (critical (fold (scan_one env) rss calm)))
    else if warnings (fold (scan_one env) rss calm) \<noteq> [] then (Reduced, sort (warnings (fold (scan_one env) rss calm)))
    else if resources_known (fold (scan_one env) rss calm) \<and> has_samples (fold (scan_one env) rss calm)
    then (Normal, [''healthy'']) else (Probe, [''warming''])) = worst_replica env rss"
proof -
  note f = fold_adds [of "scan_one env" rss, OF adds_scan_one]
  note c = joined_codes [OF f(6) f(2)] and w = joined_codes [OF f(5) f(1)]
  have m: "map critical (map (judge_replica env) rss) = map (\<lambda>x. critical (scan_one env x calm)) rss"
    "map warnings (map (judge_replica env) rss) = map (\<lambda>x. warnings (scan_one env x calm)) rss"
    "list_all resources_known (map (judge_replica env) rss) = (\<forall>x \<in> set rss. resources_known (scan_one env x calm))"
    "list_ex has_samples (map (judge_replica env) rss) = (\<exists>x \<in> set rss. has_samples (scan_one env x calm))"
    by (simp_all add: judge_replica_def list_all_iff list_ex_iff)
  show ?thesis unfolding worst_replica_def Let_def m c w f(3,4) by (rule refl)
qed

section \<open>The policy over time\<close>

lemma decide_hold: "monotonic < hold_until pol \<Longrightarrow> \<not> d_allowed (fst (decide env snapshot now monotonic pol))"
  by (auto simp: decide_def Let_def split: prod.split)

lemma batch_concurrency_bounds: "1 \<le> batch_concurrency env" "batch_concurrency env \<le> 8"
  using env_int_bounds [of 1 8 env "''CHATGPT2API_MAINTENANCE_BATCH_CONCURRENCY''" 2] by (simp_all add: batch_concurrency_def)

lemma decide_sizes:
  "case fst (decide env snapshot now monotonic pol) of d \<Rightarrow>
     d_allowed d = (0 < d_batch_size d) \<and> d_allowed d = (d_mode d \<noteq> Paused) \<and> 0 \<le> d_batch_size d \<and> d_batch_size d \<le> 8 \<and>
     (if d_mode d = Normal then True else d_batch_size d \<le> 1)"
  using batch_concurrency_bounds [of env] by (auto simp: decide_def Let_def split: prod.split)

section \<open>Percentile and batches\<close>

lemma p95_index_bounds:
  assumes "0 < n"
  shows "p95_index n < n" "95 * n \<le> 100 * Suc (p95_index n)"
proof -
  define c where "c = \<lceil>of_nat n * (95/100 :: rat)\<rceil>"
  have lo: "of_nat n * (95/100 :: rat) \<le> of_int c" unfolding c_def by (rule le_of_int_ceiling)
  have "(of_nat n * (95/100) :: rat) \<le> of_nat n" by simp
  then have hi: "c \<le> int n" unfolding c_def by (simp add: ceiling_le_iff)
  have "(0 :: rat) < of_int c" using lo assms by (rule_tac less_le_trans [of _ "of_nat n * (95/100)"]) simp_all
  then have pos: "1 \<le> c" by simp
  have idx: "p95_index n = nat (c - 1)" using pos by (simp add: p95_index_def c_def)
  then show "p95_index n < n" using pos hi by linarith
  have "of_int (95 * int n) \<le> (of_int (100 * c) :: rat)" using lo by simp
  then have "95 * int n \<le> 100 * c" by (simp only: of_int_le_iff)
  moreover have "int (Suc (p95_index n)) = c" using idx pos by simp
  ultimately have "int (95 * n) \<le> int (100 * Suc (p95_index n))" by simp
  then show "95 * n \<le> 100 * Suc (p95_index n)" by (simp only: of_nat_le_iff)
qed

lemma sorted_prefix_count:
  fixes xs :: "rat list"
  assumes "sorted xs" "k < length xs"
  shows "Suc k \<le> length (filter (\<lambda>v. v \<le> xs ! k) xs)"
proof -
  have "filter (\<lambda>v. v \<le> xs ! k) (take (Suc k) xs) = take (Suc k) xs"
    using assms by (intro filter_True) (auto simp: in_set_conv_nth intro!: sorted_nth_mono)
  then have "length (filter (\<lambda>v. v \<le> xs ! k) (take (Suc k) xs)) = Suc k" using assms(2) by simp
  moreover have "length (filter (\<lambda>v. v \<le> xs ! k) xs) =
      length (filter (\<lambda>v. v \<le> xs ! k) (take (Suc k) xs)) + length (filter (\<lambda>v. v \<le> xs ! k) (drop (Suc k) xs))"
    by (metis append_take_drop_id filter_append length_append)
  ultimately show ?thesis by simp
qed

lemma report_metric_p95:
  assumes "values \<noteq> []"
  shows "mr_p95 (report_metric now values) \<in> set (map snd values)"
    "95 * length values \<le> 100 * length (filter (\<lambda>v. v \<le> mr_p95 (report_metric now values)) (map snd values))"
proof -
  let ?o = "sort (map snd values)" and ?k = "p95_index (length values)"
  have p: "mr_p95 (report_metric now values) = ?o ! ?k" by (simp add: report_metric_def Let_def)
  have k: "?k < length ?o" using p95_index_bounds(1) assms by simp
  show "mr_p95 (report_metric now values) \<in> set (map snd values)" unfolding p using nth_mem [OF k] by simp
  have "length (filter (\<lambda>v. v \<le> ?o ! ?k) (map snd values)) = length (filter (\<lambda>v. v \<le> ?o ! ?k) ?o)"
    by (metis mset_sort mset_filter size_mset)
  then show "95 * length values \<le> 100 * length (filter (\<lambda>v. v \<le> mr_p95 (report_metric now values)) (map snd values))"
    using sorted_prefix_count [OF sorted_sort k] p95_index_bounds(2) [of "length values"] assms unfolding p by simp
qed

definition observes :: "(string \<times> pyval \<times> rat) list \<Rightarrow> samples \<Rightarrow> samples" where
  "observes obs s = fold (\<lambda>(metric, v, t). observe metric v t) obs s"

definition recent_values :: "rat \<Rightarrow> samples \<Rightarrow> string \<Rightarrow> rat list" where
  "recent_values now s key =
     map snd (filter (\<lambda>(stamp, _). 0 \<le> now - stamp \<and> now - stamp \<le> sm_window s)
       (case map_of (sm_values s) key of None \<Rightarrow> [] | Some xs \<Rightarrow> xs))"

definition bounded_samples :: "samples \<Rightarrow> bool" where
  "bounded_samples s \<longleftrightarrow> distinct_keys (sm_values s) \<and> list_all (\<lambda>(_, xs). length xs \<le> sm_capacity s) (sm_values s)"

lemma observe_bounded: "bounded_samples s \<Longrightarrow> bounded_samples (observe m v t s) \<and> sm_capacity (observe m v t s) = sm_capacity s"
proof -
  assume b: "bounded_samples s"
  have "(k, xs) \<in> set (AList.update m ys d) \<Longrightarrow> (k, xs) \<in> set d \<or> xs = ys" for k xs ys and d :: "(string \<times> (rat \<times> rat) list) list"
    by (induction d) (auto split: if_splits)
  with b show ?thesis
    by (fastforce simp: bounded_samples_def observe_def list_all_iff Let_def split: sum.split pyfloat.split)
qed

lemma observes_bounded: "bounded_samples s \<Longrightarrow> bounded_samples (observes obs s) \<and> sm_capacity (observes obs s) = sm_capacity s"
proof (induction obs arbitrary: s)
  case (Cons x obs)
  obtain m v t where x: "x = (m, v, t)" by (metis prod_cases3)
  from observe_bounded [OF Cons.prems, of m v t] Cons.IH [of "observe m v t s"] show ?case
    by (simp add: observes_def x)
qed (simp add: observes_def)

section \<open>Properties\<close>

text \<open>C15. The verdict of the loop over the replicas is the one of judging each replica alone and
  joining: one unreadable report pauses maintenance; otherwise the critical codes of all
  replicas, or else their warnings, decide, sorted and without repetition; and the cluster is
  normal exactly when every replica knows its resources and some replica has samples. So the
  worst replica wins, and neither their order nor the healthy ones hide a bad one.\<close>

theorem pressure_worst_replica:
  "evaluate_pressure env now snapshot =
     (case cluster_reports snapshot of
        None \<Rightarrow> (Paused, [''partial''])
      | Some reports \<Rightarrow>
          if list_ex (\<lambda>v. report_samples now v = None) reports then (Paused, [''partial''])
          else worst_replica env (List.map_filter (report_samples now) reports))"
  unfolding evaluate_pressure_def scan_reports_fold scan_is_worst [symmetric]
  by (auto split: option.split)

text \<open>The policy over a series of decisions, each with its snapshot and clocks.\<close>

definition decides :: "environ \<Rightarrow> (pyval \<times> rat \<times> rat) list \<Rightarrow> policy \<Rightarrow> policy" where
  "decides env xs pol = fold (\<lambda>(snapshot, now, monotonic) pol. snd (decide env snapshot now monotonic pol)) xs pol"

lemma decides_hold:
  "list_all (\<lambda>(_, _, m). t \<le> m) xs \<Longrightarrow> t + 10 \<le> hold_until pol \<Longrightarrow> t + 10 \<le> hold_until (decides env xs pol)"
proof (induction xs arbitrary: pol)
  case (Cons x xs)
  obtain sn n m where x: "x = (sn, n, m)" by (metis prod_cases3)
  have "t + 10 \<le> hold_until (snd (decide env sn n m pol))"
    using Cons.prems x by (auto simp: decide_def Let_def split: prod.split)
  then show ?case using Cons.IH [of "snd (decide env sn n m pol)"] Cons.prems x by (simp add: decides_def)
qed (simp add: decides_def)

text \<open>C16. After the load has paused maintenance, no decision of the following ten seconds allows it
  again, whatever is decided in between and however healthy the later snapshots are.\<close>

theorem pause_is_held:
  assumes "fst (evaluate_pressure env n1 bad) = Paused"
    and "list_all (\<lambda>(_, _, m). m1 \<le> m) between" and "m2 < m1 + 10"
  shows "case decide env good_snapshot n2 m2 (decides env between (snd (decide env bad n1 m1 pol))) of (d, _) \<Rightarrow>
     d_mode d = Paused \<and> \<not> d_allowed d \<and> d_batch_size d = 0"
proof -
  have "hold_until (snd (decide env bad n1 m1 pol)) = m1 + 10"
    using assms(1) by (auto simp: decide_def Let_def split: prod.split)
  with decides_hold [OF assms(2)] have "m1 + 10 \<le> hold_until (decides env between (snd (decide env bad n1 m1 pol)))" by simp
  with assms(3) have "m2 < hold_until (decides env between (snd (decide env bad n1 m1 pol)))" by simp
  from decide_hold [OF this, of env good_snapshot n2]
    decide_sizes [of env good_snapshot n2 m2 "decides env between (snd (decide env bad n1 m1 pol))"]
  show ?thesis by (auto simp: split_beta)
qed

theorem pause_is_held_witness:
  "let bad = PNone; pol = snd (decide empty_env bad 100 50 fresh_policy) in
     fst (evaluate_pressure empty_env 100 bad) = Paused \<and>
     d_batch_size (fst (decide empty_env silent_cluster 105 55 pol)) = 0"
proof -
  have b: "fst (evaluate_pressure empty_env 100 PNone) = Paused" by (simp add: evaluate_pressure_def cluster_reports_def)
  have "case decide empty_env silent_cluster 105 55 (decides empty_env [] (snd (decide empty_env PNone 100 50 fresh_policy))) of (d, _) \<Rightarrow>
     d_mode d = Paused \<and> \<not> d_allowed d \<and> d_batch_size d = 0"
    by (rule pause_is_held [OF b]) simp_all
  then show ?thesis using b by (simp add: Let_def decides_def split_beta)
qed

text \<open>The gate by image traffic fails closed: it opens only on a snapshot of the monitor in which
  the image counters are there, as many replicas respond as are expected, and both the running
  and the waiting image tasks are within their limits; if the monitor raises, or anything of
  this cannot be read, it stays shut.\<close>

theorem image_gate_fails_closed:
  "case monitor of
     Inl e \<Rightarrow> \<not> fst (maintenance_is_allowed env monitor)
   | Inr (PDict d) \<Rightarrow>
       (if fst (maintenance_is_allowed env monitor)
        then (case field d ''threadpool'' of
            PDict t \<Rightarrow>
              (case (field t ''image'', py_or (field d ''cluster'') (PDict [])) of
                 (PDict i, PDict c) \<Rightarrow>
                   map_of i ''active'' \<noteq> None \<and> map_of i ''waiting'' \<noteq> None \<and>
                   (case (nonnegative (field i ''active''), nonnegative (field i ''waiting''),
                       py_int (get_or c ''responding'' (PInt 1)), py_int (get_or c ''expected'' (PInt 1))) of
                      (Inr active, Inr waiting, Inr responding, Inr expected) \<Rightarrow>
                        active \<le> fst (configured_thresholds env) \<and> waiting \<le> fst (snd (configured_thresholds env)) \<and>
                        expected \<le> responding
                    | _ \<Rightarrow> False)
               | _ \<Rightarrow> False)
          | _ \<Rightarrow> False)
        else True)
   | Inr _ \<Rightarrow> \<not> fst (maintenance_is_allowed env monitor)"
  by (auto simp: maintenance_is_allowed_def cluster_image_load_def unavailable_load_def Let_def
      split: sum.splits pyval.splits prod.splits if_splits)

text \<open>However many values are observed, a report counts at most 512 of a metric; its percentile
  is one of the values of the last minute, and at least 95 in 100 of them are not above it.\<close>

theorem samples_percentile:
  "case observes obs fresh_samples of s \<Rightarrow>
     list_all (\<lambda>(key, r). mr_count r \<le> 512 \<and> mr_count r = length (recent_values now s key) \<and> mr_p95 r \<in> set (recent_values now s key) \<and>
       95 * mr_count r \<le> 100 * length (filter (\<lambda>v. v \<le> mr_p95 r) (recent_values now s key))) (samples_snapshot now s)"
proof -
  let ?s = "observes obs fresh_samples"
  have "bounded_samples fresh_samples" by (simp add: bounded_samples_def fresh_samples_def)
  from observes_bounded [OF this, of obs] have b: "bounded_samples ?s" and c: "sm_capacity ?s = 512"
    by (simp_all add: fresh_samples_def)
  have "mr_count r \<le> 512 \<and> mr_count r = length (recent_values now ?s key) \<and> mr_p95 r \<in> set (recent_values now ?s key) \<and>
       95 * mr_count r \<le> 100 * length (filter (\<lambda>v. v \<le> mr_p95 r) (recent_values now ?s key))"
    if r: "(key, r) \<in> set (samples_snapshot now ?s)" for key r
  proof -
    define ok where "ok = (\<lambda>(stamp :: rat, _ :: rat). 0 \<le> now - stamp \<and> now - stamp \<le> sm_window ?s)"
    have mf: "\<exists>xs. (key, xs) \<in> set d \<and> filter ok xs \<noteq> [] \<and> r = report_metric now (filter ok xs)"
      if "(key, r) \<in> set (List.map_filter (\<lambda>(key, values). let recent = filter ok values in
         if recent = [] then None else Some (key, report_metric now recent)) d)" for d
      using that by (induction d) (auto simp: List.map_filter_simps Let_def split: option.splits if_splits)
    obtain xs where xs: "(key, xs) \<in> set (sm_values ?s)" "filter ok xs \<noteq> []" "r = report_metric now (filter ok xs)"
      using mf [of "sm_values ?s"] r unfolding samples_snapshot_def ok_def by blast
    have m: "map_of (sm_values ?s) key = Some xs"
      using b xs(1) by (simp add: bounded_samples_def distinct_keys_def)
    have len: "length xs \<le> 512" using b xs(1) c by (auto simp: bounded_samples_def list_all_iff)
    have rv: "recent_values now ?s key = map snd (filter ok xs)" by (simp add: recent_values_def m ok_def)
    have "mr_count r = length (filter ok xs)" by (simp add: xs(3) report_metric_def Let_def)
    moreover have "length (filter ok xs) \<le> 512" using len length_filter_le [of ok xs] by linarith
    ultimately show ?thesis using report_metric_p95 [OF xs(2), of now] unfolding rv xs(3) by simp
  qed
  then show ?thesis unfolding list_all_iff by blast
qed

text \<open>One invocation of the idle maintenance takes a prefix of its tokens, in order and each at
  most once, in non-empty batches, whatever the decisions are; a token it did not reach is left
  for the next invocation.\<close>

theorem idle_batches_prefix:
  "concat (idle_batches world tokens processed) = take (length (concat (idle_batches world tokens processed))) (drop processed tokens) \<and>
   [] \<notin> set (idle_batches world tokens processed)"
proof (induction world tokens processed rule: idle_batches.induct)
  case (1 world tokens processed)
  let ?t = "world processed"
  let ?d = "tn_decision ?t"
  show ?case
  proof (cases "length tokens \<le> processed \<or> tn_stop ?t \<or> \<not> d_allowed ?d \<or> d_batch_size ?d \<le> 0")
    case True
    then have "idle_batches world tokens processed = []" by (subst idle_batches.simps) (auto simp: Let_def)
    then show ?thesis by simp
  next
    case False
    define b where "b = take (nat (d_batch_size ?d)) (drop processed tokens)"
    define rest where "rest = (if d_mode ?d \<noteq> Normal then [] else idle_batches world tokens (processed + length b))"
    have eq: "idle_batches world tokens processed = b # rest"
      using False by (subst idle_batches.simps) (simp add: Let_def b_def rest_def)
    have b: "b \<noteq> []" using False by (simp add: b_def)
    have rest: "concat rest = take (length (concat rest)) (drop (processed + length b) tokens) \<and> [] \<notin> set rest"
    proof (cases "d_mode ?d \<noteq> Normal")
      case no: False
      then show ?thesis using "1.IH" False by (simp add: rest_def b_def)
    qed (simp add: rest_def)
    have "b = take (length b) (drop processed tokens)" unfolding b_def by (metis append_eq_conv_conj append_take_drop_id)
    then have "b @ concat rest = take (length b + length (concat rest)) (drop processed tokens)"
      using rest by (metis add.commute drop_drop take_add)
    then have "concat (b # rest) = take (length (concat (b # rest))) (drop processed tokens)"
      unfolding concat.simps by (metis append_eq_conv_conj append_take_drop_id)
    moreover have "[] \<notin> set (b # rest)" using b rest by simp
    ultimately show ?thesis unfolding eq by (rule conjI)
  qed
qed

end
