(* ===== verification/PagePrewarm.thy ===== *)
theory PagePrewarm
  imports Maintenance "HOL-Library.Multiset"
begin

text \<open>
  The page contexts that are built before their requests arrive (\<open>services/page_prewarm_pool.py\<close>),
  with the shard settings they are divided by (\<open>services/runtime_configuration.py\<close>).

  A backend object is a number; its account and proxy enter through the key that \<open>context_key\<close>
  (SHA-256 of sorted JSON) computes, which is an argument. Building a backend (\<open>_bootstrap\<close>) brings a
  new number or raises. A section under the lock is one step, so that the workers, the requests and
  \<open>stop\<close> interleave. Closed backends are remembered in a log.
\<close>

section \<open>Shares of the workers\<close>

definition account_shard_settings :: "environ \<Rightarrow> pyexc + int \<times> int" where
  "account_shard_settings env =
     (let count = env_int env ''CHATGPT2API_ACCOUNT_SHARD_COUNT'' 1 1 (Some 1024);
          index = env_int env ''CHATGPT2API_ACCOUNT_SHARD_INDEX'' 0 0 (Some 1023) in
      if count \<le> index then Inl RuntimeError else Inr (count, index))"

definition worker_share :: "int \<Rightarrow> int \<Rightarrow> int \<Rightarrow> int" where
  "worker_share total_workers shards index = total_workers div shards + (if index < total_workers mod shards then 1 else 0)"

definition prewarm_workers :: "environ \<Rightarrow> int" where
  "prewarm_workers env = env_int env ''CHATGPT2API_PAGE_PREWARM_WORKERS'' 8 0 (Some 64)"

section \<open>The pool\<close>

record counts =
  n_hit :: nat
  n_miss :: nat
  n_expired :: nat
  n_discarded :: nat
  n_failed :: nat
  n_built :: nat

type_synonym page_context = "string \<times> nat \<times> rat"

datatype worker = Exited | Resting | Owner string | Building string nat

record prewarm =
  pw_entries :: "(string \<times> page_context) list"
  pw_pending :: "string list"
  pw_workers :: "worker list"
  pw_stopped :: bool
  pw_mode :: mode
  pw_cooldown_until :: rat
  pw_counts :: counts
  pw_built :: "nat list"
  pw_handed :: "nat list"
  pw_closed :: "nat list"

record prewarm_config =
  pc_capacity :: nat
  pc_ttl :: rat

definition new_prewarm :: prewarm where
  "new_prewarm = \<lparr>pw_entries = [], pw_pending = [], pw_workers = [], pw_stopped = False, pw_mode = Normal, pw_cooldown_until = 0,
     pw_counts = \<lparr>n_hit = 0, n_miss = 0, n_expired = 0, n_discarded = 0, n_failed = 0, n_built = 0\<rparr>,
     pw_built = [], pw_handed = [], pw_closed = []\<rparr>"

definition is_fresh :: "prewarm_config \<Rightarrow> rat \<Rightarrow> page_context \<Rightarrow> bool" where
  "is_fresh cfg now e \<longleftrightarrow> now - snd (snd e) < pc_ttl cfg"

definition prewarm_candidates :: "prewarm_config \<Rightarrow> rat \<Rightarrow> prewarm \<Rightarrow> string list" where
  "prewarm_candidates cfg now s = map fst (filter (\<lambda>p. is_fresh cfg now (snd p)) (pw_entries s))"

definition close_backend :: "nat \<Rightarrow> prewarm \<Rightarrow> prewarm" where
  "close_backend b s = s\<lparr>pw_closed := b # pw_closed s\<rparr>"

definition prune :: "prewarm_config \<Rightarrow> rat \<Rightarrow> prewarm \<Rightarrow> prewarm" where
  "prune cfg now s =
     (let old = filter (\<lambda>p. \<not> is_fresh cfg now (snd p)) (pw_entries s) in
      s\<lparr>pw_entries := filter (\<lambda>p. is_fresh cfg now (snd p)) (pw_entries s),
        pw_counts := (pw_counts s)\<lparr>n_expired := n_expired (pw_counts s) + length old\<rparr>,
        pw_closed := map (\<lambda>p. fst (snd (snd p))) old @ pw_closed s\<rparr>)"

definition put :: "prewarm_config \<Rightarrow> string \<Rightarrow> string \<Rightarrow> nat \<Rightarrow> rat \<Rightarrow> prewarm \<Rightarrow> bool \<times> prewarm" where
  "put cfg token key b now s =
     (if \<not> pw_stopped s \<and> length (pw_entries s) < pc_capacity cfg \<and> token \<notin> set (map fst (pw_entries s))
      then (True, s\<lparr>pw_entries := AList.update token (key, b, now) (pw_entries s),
             pw_counts := (pw_counts s)\<lparr>n_built := n_built (pw_counts s) + 1\<rparr>\<rparr>)
      else (False, close_backend b s))"

text \<open>\<open>take\<close>: what is left after pruning is popped; another account or proxy than it was built for is
  no hit, and the context is destroyed.\<close>

definition note_take :: "bool \<Rightarrow> prewarm \<Rightarrow> prewarm" where
  "note_take hit s =
     s\<lparr>pw_counts := (if hit then (pw_counts s)\<lparr>n_hit := n_hit (pw_counts s) + 1\<rparr>
        else (pw_counts s)\<lparr>n_miss := n_miss (pw_counts s) + 1\<rparr>)\<rparr>"

definition take_context :: "prewarm_config \<Rightarrow> string \<Rightarrow> string \<Rightarrow> rat \<Rightarrow> prewarm \<Rightarrow> (nat \<times> int) option \<times> prewarm" where
  "take_context cfg token key now s =
     (let s = prune cfg now s; item = map_of (pw_entries s) token; s = s\<lparr>pw_entries := AList.delete token (pw_entries s)\<rparr> in
      case item of
        None \<Rightarrow> (None, note_take False s)
      | Some (k, b, stamp) \<Rightarrow>
          if k \<noteq> key then
            (None, note_take False ((close_backend b s)\<lparr>pw_counts := (pw_counts s)\<lparr>n_discarded := n_discarded (pw_counts s) + 1\<rparr>\<rparr>))
          else (Some (b, py_trunc ((now - stamp) * 1000)), note_take True (s\<lparr>pw_handed := b # pw_handed s\<rparr>)))"

definition start_workers :: "prewarm_config \<Rightarrow> bool \<Rightarrow> environ \<Rightarrow> int \<times> int \<Rightarrow> prewarm \<Rightarrow> prewarm" where
  "start_workers cfg strict env shard s =
     (if \<not> list_all (\<lambda>w. w = Exited) (pw_workers s) \<or> pc_capacity cfg = 0 \<or> \<not> strict then s
      else s\<lparr>pw_stopped := False,
             pw_workers := replicate (nat (worker_share (prewarm_workers env) (fst shard) (snd shard))) Resting\<rparr>)"

definition defer_failure :: "rat \<Rightarrow> pyval \<Rightarrow> prewarm \<Rightarrow> prewarm" where
  "defer_failure now retry_after s =
     (let retry = (case py_int (py_or retry_after (PInt 5)) of Inl e \<Rightarrow> 5 | Inr n \<Rightarrow> max 5 n) in
      s\<lparr>pw_cooldown_until := max (pw_cooldown_until s) (now + of_int retry),
        pw_counts := (pw_counts s)\<lparr>n_failed := n_failed (pw_counts s) + 1\<rparr>\<rparr>)"

section \<open>The steps of the workers\<close>

text \<open>A turn of \<open>_work\<close> up to the choice of a token: with the mode just judged, whether it goes on to ask
  for a candidate, and the tokens it excludes.\<close>

definition wants_candidate :: "prewarm_config \<Rightarrow> rat \<Rightarrow> mode \<Rightarrow> prewarm \<Rightarrow> string list option \<times> prewarm" where
  "wants_candidate cfg now judged s =
     (if pw_stopped s \<or> now < pw_cooldown_until s then (None, s)
      else
        (let s = (prune cfg now s)\<lparr>pw_mode := judged\<rparr>; excluded = remdups (map fst (pw_entries s) @ pw_pending s) in
         if judged = Paused \<or> judged = Reduced then (None, s)
         else if pc_capacity cfg \<le> length excluded then (None, s)
         else (Some excluded, s)))"

definition set_worker :: "nat \<Rightarrow> worker \<Rightarrow> prewarm \<Rightarrow> prewarm" where
  "set_worker i w s = s\<lparr>pw_workers := (pw_workers s)[i := w]\<rparr>"

definition claim :: "prewarm_config \<Rightarrow> nat \<Rightarrow> string \<Rightarrow> prewarm \<Rightarrow> prewarm" where
  "claim cfg i token s =
     (if token \<notin> set (pw_pending s) \<and> token \<notin> set (map fst (pw_entries s)) \<and>
         length (pw_entries s) + length (pw_pending s) < pc_capacity cfg
      then set_worker i (Owner token) (s\<lparr>pw_pending := token # pw_pending s\<rparr>) else s)"

text \<open>Publishing a built backend whose account kept its generation; otherwise it stays with the worker,
  and the \<open>finally\<close> part closes it and gives the token up.\<close>

definition publish :: "prewarm_config \<Rightarrow> nat \<Rightarrow> string \<Rightarrow> rat \<Rightarrow> prewarm \<Rightarrow> prewarm" where
  "publish cfg i key now s =
     (case pw_workers s ! i of
        Building token b \<Rightarrow> set_worker i (Owner token) (snd (put cfg token key b now s))
      | _ \<Rightarrow> s)"

definition finish_turn :: "nat \<Rightarrow> prewarm \<Rightarrow> prewarm" where
  "finish_turn i s =
     (case pw_workers s ! i of
        Building token b \<Rightarrow> set_worker i Resting ((close_backend b s)\<lparr>pw_pending := removeAll token (pw_pending s)\<rparr>)
      | Owner token \<Rightarrow> set_worker i Resting (s\<lparr>pw_pending := removeAll token (pw_pending s)\<rparr>)
      | _ \<Rightarrow> s)"

text \<open>\<open>stop\<close>: the event, and later the entries.\<close>

definition close_entries :: "prewarm \<Rightarrow> prewarm" where
  "close_entries s = s\<lparr>pw_entries := [], pw_closed := map (\<lambda>p. fst (snd (snd p))) (pw_entries s) @ pw_closed s\<rparr>"

datatype prewarm_op =
    Prune rat
  | TakeContext string string rat
  | StartPool bool environ "int \<times> int"
  | Look nat rat mode
  | Claim nat string
  | Build nat nat
  | Publish nat string rat
  | Fail rat pyval
  | FinishTurn nat
  | ExitWorker nat
  | StopEvent
  | StopEntries

fun prewarm_step :: "prewarm_config \<Rightarrow> prewarm \<Rightarrow> prewarm_op \<Rightarrow> prewarm" where
  "prewarm_step cfg s (Prune now) = prune cfg now s"
| "prewarm_step cfg s (TakeContext token key now) = snd (take_context cfg token key now s)"
| "prewarm_step cfg s (StartPool strict env shard) = start_workers cfg strict env shard s"
| "prewarm_step cfg s (Look i now judged) = snd (wants_candidate cfg now judged s)"
| "prewarm_step cfg s (Claim i token) = claim cfg i token s"
| "prewarm_step cfg s (Build i b) =
     (case pw_workers s ! i of
        Owner token \<Rightarrow> set_worker i (Building token b) (s\<lparr>pw_built := b # pw_built s\<rparr>)
      | _ \<Rightarrow> s)"
| "prewarm_step cfg s (Publish i key now) = publish cfg i key now s"
| "prewarm_step cfg s (Fail now retry_after) = defer_failure now retry_after s"
| "prewarm_step cfg s (FinishTurn i) = finish_turn i s"
| "prewarm_step cfg s (ExitWorker i) = set_worker i Exited s"
| "prewarm_step cfg s StopEvent = s\<lparr>pw_stopped := True\<rparr>"
| "prewarm_step cfg s StopEntries = close_entries s"

text \<open>A worker does what its place in the loop is; a built backend is a new object; the entries are
  closed after the event was set.\<close>

fun prewarm_allowed :: "prewarm \<Rightarrow> prewarm_op \<Rightarrow> bool" where
  "prewarm_allowed s (Claim i token) = (i < length (pw_workers s) \<and> pw_workers s ! i = Resting)"
| "prewarm_allowed s (Build i b) = (i < length (pw_workers s) \<and> b \<notin> set (pw_built s))"
| "prewarm_allowed s (Publish i key now) = (i < length (pw_workers s))"
| "prewarm_allowed s (FinishTurn i) = (i < length (pw_workers s))"
| "prewarm_allowed s (ExitWorker i) = (i < length (pw_workers s) \<and> pw_workers s ! i = Resting \<and> pw_stopped s)"
| "prewarm_allowed s StopEntries = pw_stopped s"
| "prewarm_allowed s _ = True"

section \<open>Every context is in one place\<close>

fun worker_tokens :: "worker \<Rightarrow> string list" where
  "worker_tokens (Owner t) = [t]"
| "worker_tokens (Building t b) = [t]"
| "worker_tokens _ = []"

fun worker_backends :: "worker \<Rightarrow> nat list" where
  "worker_backends (Building t b) = [b]"
| "worker_backends _ = []"

definition bag :: "('w \<Rightarrow> 'a list) \<Rightarrow> 'w list \<Rightarrow> 'a multiset" where
  "bag f ws = mset (concat (map f ws))"

lemma bag_update: "i < length ws \<Longrightarrow> bag f (ws[i := w]) + mset (f (ws ! i)) = bag f ws + mset (f w)"
proof (induction ws arbitrary: i)
  case (Cons v ws)
  then show ?case by (cases i) (simp_all add: bag_def ac_simps)
qed simp

definition entry_backends :: "prewarm \<Rightarrow> nat list" where
  "entry_backends s = map (\<lambda>p. fst (snd (snd p))) (pw_entries s)"

definition slots_used :: "prewarm \<Rightarrow> nat" where
  "slots_used s = length (remdups (map fst (pw_entries s) @ pw_pending s))"

definition prewarm_ok :: "prewarm_config \<Rightarrow> prewarm \<Rightarrow> bool" where
  "prewarm_ok cfg s \<longleftrightarrow>
     distinct_keys (pw_entries s) \<and> distinct (pw_pending s) \<and> distinct (pw_built s) \<and>
     mset (pw_pending s) = bag worker_tokens (pw_workers s) \<and>
     length (pw_entries s) \<le> pc_capacity cfg \<and> slots_used s \<le> pc_capacity cfg \<and>
     mset (pw_built s) = mset (entry_backends s) + bag worker_backends (pw_workers s) + mset (pw_handed s) + mset (pw_closed s)"

lemma slots_used_card: "slots_used s = card (set (map fst (pw_entries s)) \<union> set (pw_pending s))"
  by (simp add: slots_used_def length_remdups_card_conv)

lemma slots_used_mono:
  "set (map fst (pw_entries t)) \<union> set (pw_pending t) \<subseteq> set (map fst (pw_entries s)) \<union> set (pw_pending s) \<Longrightarrow> slots_used t \<le> slots_used s"
  unfolding slots_used_card by (rule card_mono) simp_all

text \<open>Changes of the entries alone: what is dropped is closed or handed out.\<close>

lemma prewarm_drop:
  assumes ok: "prewarm_ok cfg s" and "distinct_keys (pw_entries t)" and "set (map fst (pw_entries t)) \<subseteq> set (map fst (pw_entries s))"
    and "length (pw_entries t) \<le> length (pw_entries s)"
    and "mset (entry_backends s) + mset (pw_handed s) + mset (pw_closed s) = mset (entry_backends t) + mset (pw_handed t) + mset (pw_closed t)"
    and "pw_pending t = pw_pending s" "pw_workers t = pw_workers s" "pw_built t = pw_built s"
  shows "prewarm_ok cfg t"
proof -
  have "slots_used t \<le> slots_used s" using assms(3,6) by (intro slots_used_mono) auto
  with ok assms show ?thesis by (auto simp: prewarm_ok_def ac_simps)
qed

lemma prune_parts [simp]:
  "pw_pending (prune cfg now s) = pw_pending s" "pw_workers (prune cfg now s) = pw_workers s"
  "pw_built (prune cfg now s) = pw_built s" "pw_handed (prune cfg now s) = pw_handed s" "pw_stopped (prune cfg now s) = pw_stopped s"
  "pw_entries (prune cfg now s) = filter (\<lambda>p. is_fresh cfg now (snd p)) (pw_entries s)"
  by (simp_all add: prune_def Let_def)

lemma mset_filter_split: "mset (map f (filter P xs)) + mset (map f (filter (\<lambda>x. \<not> P x) xs)) = mset (map f xs)"
  by (induction xs) auto

lemma prune_ok: "prewarm_ok cfg s \<Longrightarrow> prewarm_ok cfg (prune cfg now s)"
proof (rule prewarm_drop [of cfg s])
  assume ok: "prewarm_ok cfg s"
  show "distinct_keys (pw_entries (prune cfg now s))" using ok by (simp add: prewarm_ok_def)
  show "mset (entry_backends s) + mset (pw_handed s) + mset (pw_closed s) =
      mset (entry_backends (prune cfg now s)) + mset (pw_handed (prune cfg now s)) + mset (pw_closed (prune cfg now s))"
    using mset_filter_split [of "\<lambda>p. fst (snd (snd p))" "\<lambda>p. is_fresh cfg now (snd p)" "pw_entries s"]
    by (simp add: entry_backends_def prune_def Let_def ac_simps)
qed auto

lemma entry_delete:
  "distinct_keys d \<Longrightarrow> map_of d t = Some (k, b, n) \<Longrightarrow>
   mset (map (\<lambda>p. fst (snd (snd p))) d) = mset (map (\<lambda>p. fst (snd (snd p))) (AList.delete t d)) + {#b#}"
proof (induction d)
  case (Cons p d)
  show ?case
  proof (cases "fst p = t")
    case True
    then have "map_of d t = None" using Cons.prems(1) by (simp add: distinct_keys_def map_of_eq_None_iff)
    with True Cons.prems(2) show ?thesis by (cases p) (simp add: delete_fresh)
  next
    case False
    with Cons show ?thesis by (cases p) (simp add: distinct_keys_def)
  qed
qed simp

lemma take_ok:
  assumes "prewarm_ok cfg s"
  shows "prewarm_ok cfg (snd (take_context cfg token key now s))"
proof -
  let ?p = "prune cfg now s"
  have ok: "prewarm_ok cfg ?p" using assms by (rule prune_ok)
  then have d: "distinct_keys (pw_entries ?p)" by (simp add: prewarm_ok_def)
  let ?q = "snd (take_context cfg token key now s)"
  have parts: "pw_pending ?q = pw_pending ?p" "pw_workers ?q = pw_workers ?p" "pw_built ?q = pw_built ?p"
    "pw_entries ?q = AList.delete token (pw_entries ?p)"
    by (simp_all add: take_context_def Let_def note_take_def close_backend_def split: option.split)
  have bags: "mset (entry_backends ?p) + mset (pw_handed ?p) + mset (pw_closed ?p) =
      mset (entry_backends ?q) + mset (pw_handed ?q) + mset (pw_closed ?q)"
  proof (cases "map_of (pw_entries ?p) token")
    case None
    then have "AList.delete token (pw_entries ?p) = pw_entries ?p" by (rule delete_fresh)
    with None parts(4) show ?thesis
      by (simp add: take_context_def Let_def note_take_def entry_backends_def del: prune_parts)
  next
    case (Some e)
    obtain k b n where e: "e = (k, b, n)" by (cases e)
    from entry_delete [OF d] Some e
    have "mset (entry_backends ?p) = mset (entry_backends ?q) + {#b#}" unfolding entry_backends_def parts(4) by simp
    with Some e show ?thesis
      by (auto simp: take_context_def Let_def note_take_def close_backend_def del: prune_parts)
  qed
  show ?thesis
  proof (rule prewarm_drop [OF ok _ _ _ bags parts(1-3)])
    show "distinct_keys (pw_entries ?q)" using d parts(4) by simp
    show "set (map fst (pw_entries ?q)) \<subseteq> set (map fst (pw_entries ?p))"
      unfolding parts(4) by (simp only: AList.delete_keys set_removeAll) blast
    show "length (pw_entries ?q) \<le> length (pw_entries ?p)" unfolding parts(4) by (rule length_delete_le)
  qed
qed

text \<open>Changes of one worker.\<close>

lemma set_worker_parts [simp]:
  "pw_entries (set_worker i w s) = pw_entries s" "pw_pending (set_worker i w s) = pw_pending s"
  "pw_workers (set_worker i w s) = (pw_workers s)[i := w]" "pw_built (set_worker i w s) = pw_built s"
  "pw_handed (set_worker i w s) = pw_handed s" "pw_closed (set_worker i w s) = pw_closed s" "pw_stopped (set_worker i w s) = pw_stopped s"
  by (simp_all add: set_worker_def)

lemma prewarm_okI:
  assumes "distinct_keys (pw_entries s)" "distinct (pw_pending s)" "distinct (pw_built s)"
    and "mset (pw_pending s) = bag worker_tokens (pw_workers s)" "length (pw_entries s) \<le> pc_capacity cfg"
    and "slots_used s \<le> pc_capacity cfg"
    and "mset (pw_built s) = mset (entry_backends s) + bag worker_backends (pw_workers s) + mset (pw_handed s) + mset (pw_closed s)"
  shows "prewarm_ok cfg s"
  using assms by (simp add: prewarm_ok_def)

lemma pending_of_worker:
  assumes "prewarm_ok cfg s" and "i < length (pw_workers s)" and "t \<in> set (worker_tokens (pw_workers s ! i))"
  shows "t \<in> set (pw_pending s)"
proof -
  have "set_mset (mset (pw_pending s)) = set_mset (bag worker_tokens (pw_workers s))" using assms(1) by (simp add: prewarm_ok_def)
  then have "set (pw_pending s) = set (concat (map worker_tokens (pw_workers s)))" by (simp only: set_mset_mset bag_def)
  with assms(2,3) show ?thesis by fastforce
qed

lemma claim_ok:
  assumes ok: "prewarm_ok cfg s" and "i < length (pw_workers s)" and "pw_workers s ! i = Resting"
  shows "prewarm_ok cfg (claim cfg i token s)"
proof (cases "token \<notin> set (pw_pending s) \<and> token \<notin> set (map fst (pw_entries s)) \<and>
    length (pw_entries s) + length (pw_pending s) < pc_capacity cfg")
  case True
  then have c: "claim cfg i token s = set_worker i (Owner token) (s\<lparr>pw_pending := token # pw_pending s\<rparr>)" by (simp add: claim_def)
  have room: "length (pw_entries s) + length (pw_pending s) < pc_capacity cfg" using True by blast
  note parts = ok [unfolded prewarm_ok_def]
  note bags = bag_update [OF assms(2), of worker_tokens "Owner token"] bag_update [OF assms(2), of worker_backends "Owner token"]
  have "slots_used (claim cfg i token s) \<le> length (map fst (pw_entries s) @ token # pw_pending s)"
  proof -
    have eq: "map fst (pw_entries (claim cfg i token s)) @ pw_pending (claim cfg i token s) = map fst (pw_entries s) @ token # pw_pending s"
      by (simp add: c)
    show ?thesis unfolding slots_used_def eq by (rule length_remdups_leq)
  qed
  then have used: "slots_used (claim cfg i token s) \<le> pc_capacity cfg" using room by simp
  show ?thesis
  proof (rule prewarm_okI)
    show "slots_used (claim cfg i token s) \<le> pc_capacity cfg" by (rule used)
    show "distinct (pw_pending (claim cfg i token s))" using True parts by (simp add: c)
    show "mset (pw_pending (claim cfg i token s)) = bag worker_tokens (pw_workers (claim cfg i token s))"
      using bags(1) parts assms(3) by (simp add: c)
    show "mset (pw_built (claim cfg i token s)) = mset (entry_backends (claim cfg i token s)) +
        bag worker_backends (pw_workers (claim cfg i token s)) + mset (pw_handed (claim cfg i token s)) + mset (pw_closed (claim cfg i token s))"
      using bags(2) parts assms(3) by (simp add: c entry_backends_def)
  qed (use parts in \<open>simp_all add: c\<close>)
next
  case False
  have "claim cfg i token s = s" unfolding claim_def if_not_P [OF False] ..
  with ok show ?thesis by simp
qed

lemma build_ok:
  assumes ok: "prewarm_ok cfg s" and "i < length (pw_workers s)" and "pw_workers s ! i = Owner token" and "b \<notin> set (pw_built s)"
  shows "prewarm_ok cfg (set_worker i (Building token b) (s\<lparr>pw_built := b # pw_built s\<rparr>))"
  using ok [unfolded prewarm_ok_def] assms(3,4) bag_update [OF assms(2), of worker_tokens "Building token b"]
    bag_update [OF assms(2), of worker_backends "Building token b"]
  by (intro prewarm_okI) (simp_all add: entry_backends_def slots_used_def)

lemma publish_ok:
  assumes ok: "prewarm_ok cfg s" and i: "i < length (pw_workers s)"
  shows "prewarm_ok cfg (publish cfg i key now s)"
proof (cases "pw_workers s ! i")
  case (Building token b)
  note parts = ok [unfolded prewarm_ok_def]
  note bags = bag_update [OF i, of worker_tokens "Owner token"] bag_update [OF i, of worker_backends "Owner token"]
  have pending: "token \<in> set (pw_pending s)" using pending_of_worker [OF ok i] Building by simp
  show ?thesis
  proof (cases "\<not> pw_stopped s \<and> length (pw_entries s) < pc_capacity cfg \<and> token \<notin> set (map fst (pw_entries s))")
    case True
    define t where "t = set_worker i (Owner token) (s\<lparr>pw_entries := pw_entries s @ [(token, key, b, now)],
      pw_counts := (pw_counts s)\<lparr>n_built := n_built (pw_counts s) + 1\<rparr>\<rparr>)"
    have fresh: "map_of (pw_entries s) token = None" using True by (simp add: map_of_eq_None_iff)
    have "put cfg token key b now s = (True, s\<lparr>pw_entries := pw_entries s @ [(token, key, b, now)],
        pw_counts := (pw_counts s)\<lparr>n_built := n_built (pw_counts s) + 1\<rparr>\<rparr>)"
      unfolding put_def if_P [OF True] update_fresh [OF fresh] ..
    then have p: "publish cfg i key now s = t" by (simp add: publish_def Building t_def)
    have "slots_used t \<le> slots_used s" using pending by (intro slots_used_mono) (auto simp: t_def)
    then show ?thesis unfolding p using parts bags Building True
      by (intro prewarm_okI) (simp_all add: t_def entry_backends_def distinct_keys_def)
  next
    case False
    have "put cfg token key b now s = (False, close_backend b s)" unfolding put_def if_not_P [OF False] ..
    then have p: "publish cfg i key now s = set_worker i (Owner token) (close_backend b s)" by (simp add: publish_def Building)
    show ?thesis unfolding p using parts bags Building
      by (intro prewarm_okI) (simp_all add: close_backend_def entry_backends_def slots_used_def)
  qed
qed (use ok in \<open>simp_all add: publish_def\<close>)

lemma finish_turn_ok:
  assumes ok: "prewarm_ok cfg s" and i: "i < length (pw_workers s)"
  shows "prewarm_ok cfg (finish_turn i s)"
proof -
  note parts = ok [unfolded prewarm_ok_def]
  note bags = bag_update [OF i, of worker_tokens Resting] bag_update [OF i, of worker_backends Resting]
  have main: "prewarm_ok cfg (set_worker i Resting (t\<lparr>pw_pending := removeAll token (pw_pending s)\<rparr>))"
    if t: "pw_entries t = pw_entries s" "pw_workers t = pw_workers s" "pw_built t = pw_built s" "pw_handed t = pw_handed s"
      "mset (pw_closed t) = mset (pw_closed s) + mset (worker_backends (pw_workers s ! i))"
      and w: "worker_tokens (pw_workers s ! i) = [token]" for t token
  proof -
    have pending: "token \<in> set (pw_pending s)" using pending_of_worker [OF ok i] w by simp
    have "removeAll token (pw_pending s) = remove1 token (pw_pending s)" using parts by (simp add: distinct_remove1_removeAll)
    then have "mset (removeAll token (pw_pending s)) + {#token#} = mset (pw_pending s)" using pending by simp
    then have "{#token#} + mset (removeAll token (pw_pending s)) = {#token#} + bag worker_tokens ((pw_workers s)[i := Resting])"
      using bags(1) parts w by simp
    then have tokens: "mset (removeAll token (pw_pending s)) = bag worker_tokens ((pw_workers s)[i := Resting])"
      by (rule add_left_imp_eq)
    have used: "slots_used (set_worker i Resting (t\<lparr>pw_pending := removeAll token (pw_pending s)\<rparr>)) \<le> slots_used s"
      by (rule slots_used_mono) (auto simp: t)
    show ?thesis
      using parts bags(2) t tokens used by (intro prewarm_okI) (simp_all add: entry_backends_def distinct_removeAll ac_simps)
  qed
  show ?thesis
  proof (cases "pw_workers s ! i")
    case (Owner token)
    with main [of s token] show ?thesis by (simp add: finish_turn_def)
  next
    case (Building token b)
    with main [of "close_backend b s" token] show ?thesis by (simp add: finish_turn_def close_backend_def)
  qed (use ok in \<open>simp_all add: finish_turn_def\<close>)
qed

lemma bag_plain: "list_all (\<lambda>w. f w = []) ws \<Longrightarrow> bag f ws = {#}"
  by (induction ws) (simp_all add: bag_def)

lemma start_ok:
  assumes ok: "prewarm_ok cfg s"
  shows "prewarm_ok cfg (start_workers cfg strict env shard s)"
proof (cases "\<not> list_all (\<lambda>w. w = Exited) (pw_workers s) \<or> pc_capacity cfg = 0 \<or> \<not> strict")
  case True
  have "start_workers cfg strict env shard s = s" unfolding start_workers_def if_P [OF True] ..
  with ok show ?thesis by simp
next
  case False
  let ?t = "start_workers cfg strict env shard s"
  have t: "?t = s\<lparr>pw_stopped := False,
      pw_workers := replicate (nat (worker_share (prewarm_workers env) (fst shard) (snd shard))) Resting\<rparr>"
    unfolding start_workers_def if_not_P [OF False] ..
  have "list_all (\<lambda>w. worker_tokens w = []) (pw_workers s)" "list_all (\<lambda>w. worker_backends w = []) (pw_workers s)"
    using False by (auto simp: list_all_iff)
  then have none: "bag worker_tokens (pw_workers s) = {#}" "bag worker_backends (pw_workers s) = {#}" by (simp_all add: bag_plain)
  have new: "bag worker_tokens (replicate n Resting) = {#}" "bag worker_backends (replicate n Resting) = {#}" for n
    by (simp_all add: bag_plain list_all_iff)
  show ?thesis using ok none new unfolding prewarm_ok_def t slots_used_card by (auto simp: entry_backends_def)
qed

lemma look_ok: "prewarm_ok cfg s \<Longrightarrow> prewarm_ok cfg (snd (wants_candidate cfg now judged s))"
proof -
  assume ok: "prewarm_ok cfg s"
  have "prewarm_ok cfg (prune cfg now s)" using ok by (rule prune_ok)
  then have "prewarm_ok cfg ((prune cfg now s)\<lparr>pw_mode := judged\<rparr>)" by (simp add: prewarm_ok_def entry_backends_def slots_used_def)
  with ok show ?thesis by (simp add: wants_candidate_def Let_def)
qed

lemma exit_ok:
  assumes ok: "prewarm_ok cfg s" and "i < length (pw_workers s)" and "pw_workers s ! i = Resting"
  shows "prewarm_ok cfg (set_worker i Exited s)"
  using ok bag_update [OF assms(2), of worker_tokens Exited] bag_update [OF assms(2), of worker_backends Exited] assms(3)
  by (simp add: prewarm_ok_def entry_backends_def slots_used_def)

lemma close_entries_ok: "prewarm_ok cfg s \<Longrightarrow> prewarm_ok cfg (close_entries s)"
  by (rule prewarm_drop [of cfg s]) (simp_all add: close_entries_def entry_backends_def)

interpretation prewarm_machine: guarded_machine "prewarm_step cfg" prewarm_allowed "prewarm_ok cfg" for cfg
proof
  fix s x
  assume ok: "prewarm_ok cfg s" and allowed: "prewarm_allowed s x"
  show "prewarm_ok cfg (prewarm_step cfg s x)"
  proof (cases x)
    case (Build i b)
    with ok allowed build_ok [OF ok, of i] show ?thesis by (cases "pw_workers s ! i") simp_all
  next
    case (Fail now retry_after)
    with ok show ?thesis by (simp add: prewarm_ok_def defer_failure_def Let_def entry_backends_def slots_used_def)
  next
    case StopEvent
    with ok show ?thesis by (simp add: prewarm_ok_def entry_backends_def slots_used_def)
  qed (use ok allowed in \<open>simp_all add: prune_ok take_ok start_ok look_ok claim_ok publish_ok finish_turn_ok exit_ok close_entries_ok\<close>)
qed

text \<open>A stopped pool without entries stays so until it is started.\<close>

fun is_start :: "prewarm_op \<Rightarrow> bool" where
  "is_start (StartPool strict env shard) = True"
| "is_start _ = False"

lemma stopped_step:
  "pw_stopped s \<and> pw_entries s = [] \<Longrightarrow> \<not> is_start x \<Longrightarrow> pw_stopped (prewarm_step cfg s x) \<and> pw_entries (prewarm_step cfg s x) = []"
  by (cases x) (auto simp: take_context_def wants_candidate_def claim_def publish_def put_def close_backend_def finish_turn_def
      defer_failure_def close_entries_def note_take_def Let_def split: option.split worker.split)

lemma stopped_run:
  "pw_stopped s \<and> pw_entries s = [] \<Longrightarrow> list_all (\<lambda>x. \<not> is_start x) ops \<Longrightarrow>
   pw_stopped (run (prewarm_step cfg) s ops) \<and> pw_entries (run (prewarm_step cfg) s ops) = []"
  using stopped_step by (induction ops arbitrary: s) auto

text \<open>The shares of the workers.\<close>

lemma sum_below: "0 \<le> r \<Longrightarrow> (\<Sum>i \<leftarrow> [0..<k]. if int i < r then 1 else 0 :: int) = min (int k) r"
  by (induction k) auto

lemma shares_sum:
  assumes "0 < shards"
  shows "(\<Sum>i \<leftarrow> [0..<nat shards]. worker_share n shards (int i)) = n"
proof -
  have "(\<Sum>i \<leftarrow> xs. worker_share n shards (int i)) =
      int (length xs) * (n div shards) + (\<Sum>i \<leftarrow> xs. if int i < n mod shards then 1 else 0)" for xs
    by (induction xs) (simp_all add: worker_share_def algebra_simps)
  moreover have "0 \<le> n mod shards" "n mod shards < shards" using assms by simp_all
  ultimately have "(\<Sum>i \<leftarrow> [0..<nat shards]. worker_share n shards (int i)) = shards * (n div shards) + n mod shards"
    using assms by (simp add: sum_below)
  then show ?thesis by simp
qed

section \<open>Properties\<close>

text \<open>C25. Every page context is in one place: over every interleaving of the workers, the requests and a stop,
  the contexts ever built are exactly the entries, those a worker still builds, those handed to a
  request and those closed, each once, so that none is used twice, used after it was closed, or
  lost; and the entries with the tokens being built never exceed the capacity.\<close>

theorem prewarm_contexts_conserved:
  "if allowed_run prewarm_allowed (prewarm_step cfg) new_prewarm ops then
     (let s = run (prewarm_step cfg) new_prewarm ops in
      distinct (pw_built s) \<and>
      mset (pw_built s) = mset (entry_backends s) + mset (concat (map worker_backends (pw_workers s))) + mset (pw_handed s) + mset (pw_closed s) \<and>
      card (set (map fst (pw_entries s)) \<union> set (pw_pending s)) \<le> pc_capacity cfg \<and> distinct (pw_pending s) \<and>
      mset (pw_pending s) = mset (concat (map worker_tokens (pw_workers s))))
   else True"
proof (cases "allowed_run prewarm_allowed (prewarm_step cfg) new_prewarm ops")
  case True
  have "prewarm_ok cfg new_prewarm" by (simp add: prewarm_ok_def new_prewarm_def entry_backends_def slots_used_def bag_def)
  from prewarm_machine.run_inv [OF this True] show ?thesis
    unfolding Let_def if_P [OF True] prewarm_ok_def slots_used_card bag_def by blast
next
  case False
  show ?thesis unfolding if_not_P [OF False] by (rule TrueI)
qed

text \<open>A request takes a context only for the account and proxy it was built for and before it is too old,
  and the context is gone from the pool whether it was taken or not; after a stop no builder that
  was under way refills the pool; and the shares of the workers over all shards are together the
  configured number.\<close>

theorem prewarm_take_and_stop:
  "(case take_context cfg token key now s of
      (Some (b, age), t) \<Rightarrow>
        (case map_of (pw_entries t) token of None \<Rightarrow> True | Some e \<Rightarrow> False) \<and>
        list_ex (\<lambda>(t', k, b', stamp). t' = token \<and> k = key \<and> b' = b \<and> now - stamp < pc_ttl cfg \<and> age = py_trunc ((now - stamp) * 1000)) (pw_entries s)
    | (None, t) \<Rightarrow> (case map_of (pw_entries t) token of None \<Rightarrow> pw_handed t = pw_handed s | Some e \<Rightarrow> False)) \<and>
   (if list_all (\<lambda>x. \<not> is_start x) ops
    then pw_entries (run (prewarm_step cfg) (close_entries (s\<lparr>pw_stopped := True\<rparr>)) ops) = [] else True) \<and>
   (if 0 < shards then (\<Sum>i \<leftarrow> [0..<nat shards]. worker_share n shards (int i)) = n else True)"
proof (intro conjI)
  let ?p = "prune cfg now s"
  show "case take_context cfg token key now s of
      (Some (b, age), t) \<Rightarrow>
        (case map_of (pw_entries t) token of None \<Rightarrow> True | Some e \<Rightarrow> False) \<and>
        list_ex (\<lambda>(t', k, b', stamp). t' = token \<and> k = key \<and> b' = b \<and> now - stamp < pc_ttl cfg \<and> age = py_trunc ((now - stamp) * 1000)) (pw_entries s)
    | (None, t) \<Rightarrow> (case map_of (pw_entries t) token of None \<Rightarrow> pw_handed t = pw_handed s | Some e \<Rightarrow> False)"
  proof (cases "map_of (pw_entries ?p) token")
    case None
    then show ?thesis by (simp add: take_context_def Let_def note_take_def del: prune_parts(6))
  next
    case (Some e)
    obtain k b stamp where e: "e = (k, b, stamp)" by (cases e)
    have "(token, k, b, stamp) \<in> set (pw_entries s) \<and> now - stamp < pc_ttl cfg"
      using map_of_SomeD [OF Some] e by (simp add: is_fresh_def)
    then have ex: "list_ex (\<lambda>(t', k', b', stamp'). t' = token \<and> k' = k \<and> b' = b \<and> now - stamp' < pc_ttl cfg \<and>
        py_trunc ((now - stamp) * 1000) = py_trunc ((now - stamp') * 1000)) (pw_entries s)"
      unfolding list_ex_iff by (intro bexI [of _ "(token, k, b, stamp)"]) simp_all
    show ?thesis
    proof (cases "k = key")
      case True
      with Some e ex show ?thesis by (simp add: take_context_def Let_def note_take_def del: prune_parts(6))
    next
      case False
      with Some e show ?thesis by (simp add: take_context_def Let_def note_take_def close_backend_def del: prune_parts(6))
    qed
  qed
  show "if list_all (\<lambda>x. \<not> is_start x) ops
    then pw_entries (run (prewarm_step cfg) (close_entries (s\<lparr>pw_stopped := True\<rparr>)) ops) = [] else True"
    using stopped_run [of "close_entries (s\<lparr>pw_stopped := True\<rparr>)" ops cfg] by (simp add: close_entries_def)
  show "if 0 < shards then (\<Sum>i \<leftarrow> [0..<nat shards]. worker_share n shards (int i)) = n else True"
    by (simp add: shares_sum)
qed

end
