(* ===== verification/Coordination.thy ===== *)
theory Coordination
  imports Storage
begin

text \<open>
  \<open>services/storage/coordination_repository.py\<close>: the JSON state that the processes share in one
  row, edited in a transaction under a lock, and the leases of a SQLite database, with their
  heartbeat. The advisory locks of PostgreSQL are left to the database. The clock, the result
  of the caller's code and the tokens (fresh for every lease) are arguments or part of the
  state.
\<close>

section \<open>The shared state\<close>

record state_row =
  sr_data :: pydict
  sr_revision :: int

text \<open>\<open>edit()\<close>: the body of the \<open>with\<close> gets the state and leaves a new one, or raises and the
  transaction is rolled back.\<close>

definition load_state :: "state_row option \<Rightarrow> pydict" where
  "load_state row = (case row of None \<Rightarrow> [] | Some r \<Rightarrow> sr_data r)"

definition edit_state :: "(pydict \<Rightarrow> pyexc + pydict) \<Rightarrow> state_row option \<Rightarrow> (pyexc + pydict) \<times> state_row option" where
  "edit_state body row =
     (case body (load_state row) of
        Inl e \<Rightarrow> (Inl e, row)
      | Inr payload \<Rightarrow>
          (Inr payload,
           (case row of
              None \<Rightarrow> Some \<lparr>sr_data = payload, sr_revision = 1\<rparr>
            | Some r \<Rightarrow>
                if \<not> item_eq payload (sr_data r) then Some \<lparr>sr_data = payload, sr_revision = max 0 (sr_revision r) + 1\<rparr>
                else row)))"

text \<open>\<open>update(updater)\<close>: the result of the updater must be an object.\<close>

definition as_object :: "pyval \<Rightarrow> pyexc + pydict" where
  "as_object v = (case v of PDict d \<Rightarrow> Inr d | _ \<Rightarrow> Inl TypeError)"

definition update_state :: "(pydict \<Rightarrow> pyexc + pyval) \<Rightarrow> state_row option \<Rightarrow> (pyexc + pydict) \<times> state_row option" where
  "update_state updater row = edit_state (\<lambda>d. case updater d of Inl e \<Rightarrow> Inl e | Inr v \<Rightarrow> as_object v) row"

definition replace_state :: "pyval \<Rightarrow> state_row option \<Rightarrow> (pyexc + pydict) \<times> state_row option" where
  "replace_state v row =
     (case as_object v of Inl e \<Rightarrow> (Inl e, row) | Inr d \<Rightarrow> update_state (\<lambda>_. Inr (PDict d)) row)"

section \<open>Leases\<close>

record lease_row =
  lr_owner :: nat
  lr_expires :: rat

definition lease_seconds :: "rat \<Rightarrow> rat" where
  "lease_seconds requested = max 1 requested"

definition heartbeat_interval :: "rat \<Rightarrow> rat" where
  "heartbeat_interval seconds = max (1/2) (seconds / 3)"

text \<open>\<open>_try_acquire_sqlite\<close>, one turn of \<open>_heartbeat_sqlite\<close>, and the deletion of
  \<open>_release_sqlite\<close>, on the row of the lease's name.\<close>

definition try_acquire :: "rat \<Rightarrow> rat \<Rightarrow> nat \<Rightarrow> lease_row option \<Rightarrow> bool \<times> lease_row option" where
  "try_acquire seconds now token row =
     (if (case row of None \<Rightarrow> False | Some r \<Rightarrow> now < lr_expires r) then (False, row)
      else (True, Some \<lparr>lr_owner = token, lr_expires = now + seconds\<rparr>))"

definition heartbeat :: "rat \<Rightarrow> rat \<Rightarrow> nat \<Rightarrow> lease_row option \<Rightarrow> bool \<times> lease_row option" where
  "heartbeat seconds now token row =
     (case row of
        None \<Rightarrow> (False, None)
      | Some r \<Rightarrow> if lr_owner r = token then (True, Some (r\<lparr>lr_expires := now + seconds\<rparr>)) else (False, row))"

definition release_lease :: "nat \<Rightarrow> lease_row option \<Rightarrow> lease_row option" where
  "release_lease token row = (case row of None \<Rightarrow> None | Some r \<Rightarrow> if lr_owner r = token then None else row)"

text \<open>\<open>_acquire_sqlite\<close>: what a turn sees is the wall clock, the row, and after a refusal the
  monotonic clock. None when the turns given are used up.\<close>

datatype acquisition = Acquired lease_row | BusyTimeout

definition deadline_of :: "rat option \<Rightarrow> rat \<Rightarrow> rat option" where
  "deadline_of timeout start = map_option (\<lambda>t. start + max 0 t) timeout"

definition timed_out :: "rat option \<Rightarrow> rat \<Rightarrow> bool" where
  "timed_out deadline monotonic \<longleftrightarrow> (case deadline of None \<Rightarrow> False | Some d \<Rightarrow> d \<le> monotonic)"

fun acquire_lease :: "rat \<Rightarrow> nat \<Rightarrow> rat option \<Rightarrow> (rat \<times> lease_row option \<times> rat) list \<Rightarrow> acquisition option" where
  "acquire_lease seconds token deadline [] = None"
| "acquire_lease seconds token deadline ((now, row, monotonic) # turns) =
     (case try_acquire seconds now token row of
        (True, Some r) \<Rightarrow> Some (Acquired r)
      | _ \<Rightarrow> if timed_out deadline monotonic then Some BusyTimeout else acquire_lease seconds token deadline turns)"

section \<open>Any number of holders\<close>

text \<open>The lease of one name with the holders that are inside its \<open>with\<close> block, each with the time
  up to which its last successful write made the lease valid. Time only moves forward. An attempt
  and a heartbeat read the clock before they wait for the transaction: the time they write may
  lag behind.\<close>

record lease_world =
  clock :: rat
  lease :: "lease_row option"
  inside :: "(nat \<times> rat) list"
  next_token :: nat

datatype lease_op =
    Elapse rat
  | Enter rat rat
  | Beat nat rat rat
  | Leave nat

fun lease_step :: "lease_world \<Rightarrow> lease_op \<Rightarrow> lease_world" where
  "lease_step w (Elapse d) = w\<lparr>clock := clock w + max 0 d\<rparr>"
| "lease_step w (Enter lag requested) =
     (let token = next_token w; s = lease_seconds requested; now = clock w - max 0 lag in
      case try_acquire s now token (lease w) of
        (True, row) \<Rightarrow> w\<lparr>lease := row, inside := (token, now + s) # inside w, next_token := Suc token\<rparr>
      | (False, row) \<Rightarrow> w\<lparr>lease := row, next_token := Suc token\<rparr>)"
| "lease_step w (Beat token lag requested) =
     (let s = lease_seconds requested; now = clock w - max 0 lag in
      if map_of (inside w) token = None then w
      else case heartbeat s now token (lease w) of
        (True, row) \<Rightarrow> w\<lparr>lease := row, inside := AList.update token (now + s) (inside w)\<rparr>
      | (False, row) \<Rightarrow> w\<lparr>lease := row\<rparr>)"
| "lease_step w (Leave token) = w\<lparr>lease := release_lease token (lease w), inside := AList.delete token (inside w)\<rparr>"

definition start_world :: "rat \<Rightarrow> lease_world" where
  "start_world t = \<lparr>clock = t, lease = None, inside = [], next_token = 0\<rparr>"

text \<open>A holder whose time has not run out is the owner in the row.\<close>

definition leases_ok :: "lease_world \<Rightarrow> bool" where
  "leases_ok w \<longleftrightarrow>
     (\<forall>k e. map_of (inside w) k = Some e \<longrightarrow>
        k < next_token w \<and> (clock w < e \<longrightarrow> lease w = Some \<lparr>lr_owner = k, lr_expires = e\<rparr>))"

lemma lease_step_ok: "leases_ok w \<Longrightarrow> leases_ok (lease_step w x)"
proof (cases x)
  case (Elapse d)
  assume "leases_ok w"
  then show ?thesis using Elapse by (fastforce simp: leases_ok_def)
next
  case (Enter lag requested)
  assume w: "leases_ok w"
  show ?thesis
  proof (cases "fst (try_acquire (lease_seconds requested) (clock w - max 0 lag) (next_token w) (lease w))")
    case True
    have "\<not> clock w < e" if "map_of (inside w) k = Some e" for k e
      using w that True by (fastforce simp: leases_ok_def try_acquire_def split: if_splits)
    then show ?thesis
      using w True Enter by (auto simp: leases_ok_def try_acquire_def Let_def less_Suc_eq split: if_splits)
  next
    case False
    then show ?thesis
      using w Enter by (auto simp: leases_ok_def try_acquire_def Let_def less_Suc_eq split: if_splits)
  qed
next
  case (Beat token lag requested)
  assume w: "leases_ok w"
  show ?thesis
  proof (cases "map_of (inside w) token = None \<or> \<not> fst (heartbeat (lease_seconds requested) (clock w - max 0 lag) token (lease w))")
    case True
    then show ?thesis using w Beat by (auto simp: leases_ok_def heartbeat_def Let_def split: option.splits if_splits)
  next
    case False
    then obtain r where r: "lease w = Some r" "lr_owner r = token" by (auto simp: heartbeat_def split: option.splits if_splits)
    have "k = token" if "map_of (inside w) k = Some e" "clock w < e" for k e
      using w that r by (auto simp: leases_ok_def)
    then show ?thesis
      using w False Beat r by (auto simp: leases_ok_def heartbeat_def Let_def)
  qed
next
  case (Leave token)
  assume w: "leases_ok w"
  show ?thesis
    using w Leave by (auto simp: leases_ok_def release_lease_def split: option.split)
qed

interpretation lease_machine: invariant_machine lease_step leases_ok
  by unfold_locales (rule lease_step_ok)

section \<open>Properties\<close>

text \<open>C17. Mutual exclusion: whatever processes enter, beat and leave, in any order and at any
  times, at every moment at most one of the holders inside the block has a lease that has not
  run out, and that holder is the owner of the row. A second process can be inside only when
  the first failed to beat until its lease ran out.\<close>

theorem lease_exclusive:
  "case run lease_step (start_world t) ops of w \<Rightarrow>
     (case (map_of (inside w) k, map_of (inside w) j) of
        (Some e, Some d) \<Rightarrow> k = j \<or> e \<le> clock w \<or> d \<le> clock w
      | _ \<Rightarrow> True) \<and>
     (case map_of (inside w) k of
        Some e \<Rightarrow> e \<le> clock w \<or> lease w = Some \<lparr>lr_owner = k, lr_expires = e\<rparr>
      | None \<Rightarrow> True)"
proof -
  have "leases_ok (start_world t)" by (simp add: leases_ok_def start_world_def)
  then have ok: "leases_ok (run lease_step (start_world t) ops)" by (rule lease_machine.run_keeps)
  obtain w where w: "run lease_step (start_world t) ops = w" by blast
  have owner: "e \<le> clock w \<or> lease w = Some \<lparr>lr_owner = i, lr_expires = e\<rparr>" if "map_of (inside w) i = Some e" for i e
    using ok [unfolded w leases_ok_def] that not_le by blast
  have one: "k = j \<or> e \<le> clock w \<or> d \<le> clock w" if "map_of (inside w) k = Some e" "map_of (inside w) j = Some d" for e d
    using owner [OF that(1)] owner [OF that(2)] by auto
  show ?thesis unfolding w using owner [of k] one by (simp split: option.split)
qed

text \<open>A holder that beats in time keeps the lease: the interval of the heartbeat is shorter than
  the lease, a beat within it finds the row its own and moves the end of the lease a full lease
  ahead, and until then every attempt of another process is refused.\<close>

theorem heartbeat_keeps_lease:
  assumes "lease_seconds requested = s" and "row = Some \<lparr>lr_owner = k, lr_expires = t + s\<rparr>"
    and "t \<le> b" and "b \<le> t + heartbeat_interval s" and "b \<le> a" and "a \<le> b + heartbeat_interval s" and "j \<noteq> k"
  shows "b < t + s \<and> heartbeat s b k row = (True, Some \<lparr>lr_owner = k, lr_expires = b + s\<rparr>) \<and>
    try_acquire s2 b j row = (False, row) \<and>
    try_acquire s2 a j (snd (heartbeat s b k row)) = (False, snd (heartbeat s b k row))"
proof -
  have "1 \<le> s" using assms(1) by (auto simp: lease_seconds_def)
  then have "heartbeat_interval s < s" by (simp add: heartbeat_interval_def)
  then have "b < t + s" "a < b + s" using assms by linarith+
  then show ?thesis by (simp add: heartbeat_def try_acquire_def assms(2))
qed

theorem heartbeat_keeps_lease_witness:
  "lease_seconds 5 = 5 \<and>
   heartbeat 5 101 0 (Some \<lparr>lr_owner = 0, lr_expires = 100 + 5\<rparr>) = (True, Some \<lparr>lr_owner = 0, lr_expires = 101 + 5\<rparr>)"
proof -
  have s: "lease_seconds 5 = 5" by (simp add: lease_seconds_def)
  have "(101 :: rat) < 100 + 5 \<and> heartbeat 5 101 0 (Some \<lparr>lr_owner = 0, lr_expires = 100 + 5\<rparr>) = (True, Some \<lparr>lr_owner = 0, lr_expires = 101 + 5\<rparr>) \<and>
    try_acquire 5 101 1 (Some \<lparr>lr_owner = 0, lr_expires = 100 + 5\<rparr>) = (False, Some \<lparr>lr_owner = 0, lr_expires = 100 + 5\<rparr>) \<and>
    try_acquire 5 102 1 (snd (heartbeat 5 101 0 (Some \<lparr>lr_owner = 0, lr_expires = 100 + 5\<rparr>))) =
      (False, snd (heartbeat 5 101 0 (Some \<lparr>lr_owner = 0, lr_expires = 100 + 5\<rparr>)))"
    by (rule heartbeat_keeps_lease [OF s refl]) (simp_all add: heartbeat_interval_def)
  with s show ?thesis by blast
qed

end
