(* ===== verification/CompletionCache.thy ===== *)
theory CompletionCache
  imports Prelude "HOL-Library.List_Lexorder" "HOL-Library.Char_ord"
begin

text \<open>
  \<open>services/protocol/chat_completion_cache.py\<close>, with the normalisation of its settings from
  \<open>services/config.py\<close>: the key of a request, the values without internal fields, the entries
  with their expiry and bound, and the calls in flight that callers with the same key share.

  A caller is a frame, advanced by threads in atomic steps; an operation that would have to wait
  for a lock leaves the state as it is. A generator that yields inside a \<open>with\<close> block keeps the
  lock between two steps, and its next step may run on another thread. Request bodies and
  responses are JSON, so \<open>bytes\<close> do not occur in them.
\<close>

section \<open>Settings\<close>

definition normalize_bool :: "pyval \<Rightarrow> bool \<Rightarrow> bool" where
  "normalize_bool v dflt =
     (case v of
        PStr s \<Rightarrow>
          (let lowered = lower (strip s) in
           if lowered \<in> {''1'', ''true'', ''yes'', ''on''} then True
           else if lowered \<in> {''0'', ''false'', ''no'', ''off''} then False
           else dflt)
      | PNone \<Rightarrow> dflt
      | _ \<Rightarrow> truthy v)"

definition normalize_positive_int :: "pyval \<Rightarrow> int \<Rightarrow> int \<Rightarrow> int" where
  "normalize_positive_int v dflt minimum = max minimum (case py_int v of Inl _ \<Rightarrow> dflt | Inr i \<Rightarrow> i)"

record cache_settings =
  enabled :: bool
  ttl_seconds :: int
  max_entries :: int
  dedupe_inflight :: bool
  stream_cache :: bool
  normalize_messages :: bool
  drop_adjacent_duplicates :: bool
  drop_assistant_history :: bool

definition default_cache_settings :: cache_settings where
  "default_cache_settings =
     \<lparr>enabled = True, ttl_seconds = 60, max_entries = 256, dedupe_inflight = True, stream_cache = True,
      normalize_messages = True, drop_adjacent_duplicates = True, drop_assistant_history = False\<rparr>"

definition normalize_cache_settings :: "pyval \<Rightarrow> cache_settings" where
  "normalize_cache_settings v =
     (let source = (case v of PDict d \<Rightarrow> d | _ \<Rightarrow> []); d = default_cache_settings in
      \<lparr>enabled = normalize_bool (field source ''enabled'') (enabled d),
       ttl_seconds = normalize_positive_int (field source ''ttl_seconds'') (ttl_seconds d) 0,
       max_entries = normalize_positive_int (field source ''max_entries'') (max_entries d) 1,
       dedupe_inflight = normalize_bool (field source ''dedupe_inflight'') (dedupe_inflight d),
       stream_cache = normalize_bool (field source ''stream_cache'') (stream_cache d),
       normalize_messages = normalize_bool (field source ''normalize_messages'') (normalize_messages d),
       drop_adjacent_duplicates = normalize_bool (field source ''drop_adjacent_duplicates'') (drop_adjacent_duplicates d),
       drop_assistant_history = normalize_bool (field source ''drop_assistant_history'') (drop_assistant_history d)\<rparr>)"

lemma normalized_max_entries: "1 \<le> max_entries (normalize_cache_settings v)"
  by (simp add: normalize_cache_settings_def normalize_positive_int_def Let_def)

section \<open>Keys\<close>

definition cacheable_text_keys :: "string list" where
  "cacheable_text_keys =
     [''frequency_penalty'', ''max_completion_tokens'', ''max_tokens'', ''metadata'', ''model'', ''presence_penalty'',
      ''reasoning'', ''reasoning_effort'', ''response_format'', ''seed'', ''stop'', ''temperature'', ''tool_choice'',
      ''tools'', ''top_p'', ''thinking_effort'', ''user'']"

definition canonical_body :: "pydict \<Rightarrow> pydict list \<Rightarrow> bool \<Rightarrow> pydict" where
  "canonical_body body messages stream =
     (let payload = map (\<lambda>k. (k, field body k)) (filter (\<lambda>k. map_of body k \<noteq> None) cacheable_text_keys);
          payload = AList.update ''messages'' (PList (map PDict messages)) payload in
      AList.update ''stream'' (PBool stream) payload)"

text \<open>\<open>json.dumps(..., sort_keys=True)\<close> reads an object by its sorted keys, at every depth. The
  text of the sorted value and its SHA-256 are the argument \<open>digest\<close>.\<close>

fun sorted_json :: "pyval \<Rightarrow> pyval" and sorted_items :: "pydict \<Rightarrow> pydict" and sorted_list :: "pyval list \<Rightarrow> pyval list" where
  "sorted_json (PDict d) = PDict (sort_key fst (sorted_items d))"
| "sorted_json (PList xs) = PList (sorted_list xs)"
| "sorted_json v = v"
| "sorted_items [] = []"
| "sorted_items ((k, v) # d) = (k, sorted_json v) # sorted_items d"
| "sorted_list [] = []"
| "sorted_list (v # xs) = sorted_json v # sorted_list xs"

definition cache_key :: "(pyval \<Rightarrow> string) \<Rightarrow> pydict \<Rightarrow> pydict list \<Rightarrow> bool \<Rightarrow> string" where
  "cache_key digest body messages stream = digest (sorted_json (PDict (canonical_body body messages stream)))"

text \<open>The messages that enter the key: repeats of the message kept before are dropped, and on
  request the turns of the assistant.\<close>

definition message_signature :: "pydict \<Rightarrow> pyval" where
  "message_signature m = sorted_json (PDict m)"

definition from_assistant :: "pydict \<Rightarrow> bool" where
  "from_assistant m \<longleftrightarrow> py_str (py_or (field m ''role'') (PStr [])) = ''assistant''"

fun normalize_loop :: "cache_settings \<Rightarrow> pyval option \<Rightarrow> pydict list \<Rightarrow> pydict list" where
  "normalize_loop st previous [] = []"
| "normalize_loop st previous (m # ms) =
     (if drop_assistant_history st \<and> from_assistant m then normalize_loop st previous ms
      else if drop_adjacent_duplicates st \<and> previous = Some (message_signature m) then normalize_loop st previous ms
      else m # normalize_loop st (Some (message_signature m)) ms)"

definition normalize_text_messages :: "cache_settings \<Rightarrow> pydict list \<Rightarrow> pydict list" where
  "normalize_text_messages st ms = (if normalize_messages st then normalize_loop st None ms else ms)"

section \<open>Values without internal fields\<close>

definition internal_response_keys :: "string list" where
  "internal_response_keys = [''_account_email'', ''_conversation_id'', ''_call_id'', ''_image_urls'', ''_image_attempts'']"

fun strip_internal :: "pyval \<Rightarrow> pyval" and strip_items :: "pydict \<Rightarrow> pydict" and strip_list :: "pyval list \<Rightarrow> pyval list" where
  "strip_internal (PDict d) = PDict (strip_items d)"
| "strip_internal (PList xs) = PList (strip_list xs)"
| "strip_internal v = v"
| "strip_items [] = []"
| "strip_items ((k, v) # d) =
     (if k \<in> set internal_response_keys then strip_items d else (k, strip_internal v) # strip_items d)"
| "strip_list [] = []"
| "strip_list (v # xs) = strip_internal v # strip_list xs"

fun is_public :: "pyval \<Rightarrow> bool" and public_items :: "pydict \<Rightarrow> bool" and public_list :: "pyval list \<Rightarrow> bool" where
  "is_public (PDict d) = public_items d"
| "is_public (PList xs) = public_list xs"
| "is_public v = True"
| "public_items [] = True"
| "public_items ((k, v) # d) = (k \<notin> set internal_response_keys \<and> is_public v \<and> public_items d)"
| "public_list [] = True"
| "public_list (v # xs) = (is_public v \<and> public_list xs)"

lemma strip_public [simp]:
  "is_public (strip_internal v)" "public_items (strip_items d)" "public_list (strip_list xs)"
  by (induction v and d and xs rule: strip_internal_strip_items_strip_list.induct) auto

lemma public_list_iff: "public_list xs = list_all is_public xs"
  by (induction xs) auto

section \<open>Entries\<close>

record cache_entry =
  entry_expires :: rat
  entry_value :: pyval

type_synonym entries = "(string \<times> cache_entry) list"

fun oldest_key :: "string \<Rightarrow> rat \<Rightarrow> entries \<Rightarrow> string" where
  "oldest_key k e [] = k"
| "oldest_key k e ((j, x) # es) = (if entry_expires x < e then oldest_key j (entry_expires x) es else oldest_key k e es)"

definition oldest :: "entries \<Rightarrow> string" where
  "oldest es = (case es of [] \<Rightarrow> [] | (k, x) # rest \<Rightarrow> oldest_key k (entry_expires x) rest)"

lemma oldest_key_in: "oldest_key k e es \<in> insert k (fst ` set es)"
  by (induction k e es rule: oldest_key.induct) auto

lemma oldest_in: "es \<noteq> [] \<Longrightarrow> oldest es \<in> fst ` set es"
proof (induction es)
  case (Cons p r)
  obtain k x where "p = (k, x)" by (cases p)
  then show ?case using oldest_key_in [of k "entry_expires x" r] by (simp add: oldest_def)
qed simp

lemma length_delete_less: "k \<in> fst ` set d \<Longrightarrow> length (AList.delete k d) < length d"
proof (induction d)
  case (Cons p d)
  then show ?case using length_delete_le [of k d] by (cases "fst p = k") (auto simp: AList.delete_eq less_Suc_eq_le)
qed simp

text \<open>\<open>while len(entries) > max_entries: pop(min(...))\<close>, for the bounds of at least 1 that the
  settings give.\<close>

function prune_size :: "nat \<Rightarrow> entries \<Rightarrow> entries" where
  "prune_size n es = (if length es \<le> n then es else prune_size n (AList.delete (oldest es) es))"
  by pat_completeness auto

termination prune_size
proof (relation "measure (length \<circ> snd)")
  fix n and es :: entries
  assume "\<not> length es \<le> n"
  then have "es \<noteq> []" by auto
  from length_delete_less [OF oldest_in [OF this]]
  show "((n, AList.delete (oldest es) es), n, es) \<in> measure (length \<circ> snd)" by simp
qed simp

declare prune_size.simps [simp del]

definition prune_locked :: "rat \<Rightarrow> int \<Rightarrow> entries \<Rightarrow> entries" where
  "prune_locked now maximum es = prune_size (nat maximum) (filter (\<lambda>(k, x). \<not> entry_expires x \<le> now) es)"

definition live_entry :: "rat \<Rightarrow> string \<Rightarrow> entries \<Rightarrow> pyval option" where
  "live_entry now key es =
     (case map_of es key of None \<Rightarrow> None | Some x \<Rightarrow> if now < entry_expires x then Some (entry_value x) else None)"

definition entries_ok :: "entries \<Rightarrow> bool" where
  "entries_ok es \<longleftrightarrow> list_all (\<lambda>(k, x). is_public (entry_value x)) es"

lemma prune_size_bound: "length (prune_size n es) \<le> n"
proof (induction n es rule: prune_size.induct)
  case (1 n es)
  then show ?case by (cases "length es \<le> n") (simp_all add: prune_size.simps [of n es])
qed

lemma set_delete: "set (AList.delete k d) \<subseteq> set d"
  by (auto simp: AList.delete_eq)

lemma set_prune_size: "set (prune_size n es) \<subseteq> set es"
proof (induction n es rule: prune_size.induct)
  case (1 n es)
  then show ?case using set_delete [of "oldest es" es] by (cases "length es \<le> n") (auto simp: prune_size.simps [of n es])
qed

lemma entries_ok_prune [simp]: "entries_ok es \<Longrightarrow> entries_ok (prune_locked now m es)"
  using set_prune_size [of "nat m" "filter (\<lambda>(k, x). \<not> entry_expires x \<le> now) es"]
  by (auto simp: entries_ok_def list_all_iff prune_locked_def)

lemma set_update: "set (AList.update k v d) \<subseteq> insert (k, v) (set d)"
  by (induction d) auto

lemma entries_ok_update [simp]: "entries_ok es \<Longrightarrow> is_public (entry_value x) \<Longrightarrow> entries_ok (AList.update k x es)"
  using set_update [of k x es] by (auto simp: entries_ok_def list_all_iff)

lemma live_entry_public: "entries_ok es \<Longrightarrow> live_entry now key es = Some v \<Longrightarrow> is_public v"
  by (auto simp: entries_ok_def list_all_iff live_entry_def dest!: map_of_SomeD split: option.splits if_splits)

section \<open>Calls in flight, frames and locks\<close>

text \<open>An exception: of the computation, the \<open>GeneratorExit\<close> of a closed generator, or the
  \<open>RuntimeError\<close> of a lock released by a thread that does not own it.\<close>

datatype raised = Raised string | GeneratorExit | ReleaseError

text \<open>\<open>InflightCall\<close>: None until \<open>done\<close>, then the error or the value.\<close>

type_synonym inflight_call = "(raised + pyval) option"

datatype lock_id = CacheLock | CallLock nat

datatype outcome = Returned pyval | Ended | Failed raised

text \<open>Where a caller is: in its own \<open>compute\<close> without the cache; in the \<open>compute\<close> of a response or
  of a stream that it owns; between the two critical sections at its end; waiting for the owner;
  handing out chunks inside the \<open>with\<close> block of a lock; finished.\<close>

datatype frame =
    Direct
  | Computing string nat cache_settings
  | Streaming string nat cache_settings "pyval list"
  | Announcing nat "raised + pyval" outcome
  | Waiting nat bool
  | Draining lock_id "pyval list"
  | Finished outcome

record cache =
  entries :: entries
  inflight :: "(string \<times> nat) list"
  calls :: "(nat \<times> inflight_call) list"
  next_call :: nat
  frames :: "(nat \<times> frame) list"
  held :: "(lock_id \<times> nat \<times> nat) list"
  delivered :: "pyval list"

definition empty_cache :: cache where
  "empty_cache = \<lparr>entries = [], inflight = [], calls = [], next_call = 0, frames = [], held = [], delivered = []\<rparr>"

definition put_frame :: "nat \<Rightarrow> frame \<Rightarrow> cache \<Rightarrow> cache" where
  "put_frame i f s = s\<lparr>frames := AList.update i f (frames s)\<rparr>"

text \<open>Reentrant locks: the owner and its count.\<close>

definition lock_open :: "cache \<Rightarrow> lock_id \<Rightarrow> nat \<Rightarrow> bool" where
  "lock_open s l t \<longleftrightarrow> (case map_of (held s) l of None \<Rightarrow> True | Some (u, _) \<Rightarrow> u = t)"

definition lock_enter :: "lock_id \<Rightarrow> nat \<Rightarrow> cache \<Rightarrow> cache" where
  "lock_enter l t s =
     s\<lparr>held := AList.update l (t, case map_of (held s) l of None \<Rightarrow> 1 | Some (_, n) \<Rightarrow> Suc n) (held s)\<rparr>"

definition lock_leave :: "lock_id \<Rightarrow> nat \<Rightarrow> cache \<Rightarrow> cache option" where
  "lock_leave l t s =
     (case map_of (held s) l of
        None \<Rightarrow> None
      | Some (u, n) \<Rightarrow>
          if u \<noteq> t then None
          else Some (s\<lparr>held := (if n \<le> 1 then AList.delete l (held s) else AList.update l (u, n - 1) (held s))\<rparr>))"

text \<open>\<open>yield from\<close> a list inside \<open>with\<close>: the first chunk, and the end of the block, by whatever
  thread comes there.\<close>

definition chunks_of :: "pyval \<Rightarrow> pyval list" where
  "chunks_of v = (case v of PList xs \<Rightarrow> xs | _ \<Rightarrow> [])"

definition drain :: "lock_id \<Rightarrow> nat \<Rightarrow> nat \<Rightarrow> pyval list \<Rightarrow> cache \<Rightarrow> cache" where
  "drain l t i chunks s =
     (case chunks of
        [] \<Rightarrow> put_frame i (Finished Ended) s
      | c # cs \<Rightarrow> put_frame i (Draining l cs) (lock_enter l t s\<lparr>delivered := delivered s @ [c]\<rparr>))"

definition leave_drain :: "lock_id \<Rightarrow> nat \<Rightarrow> nat \<Rightarrow> outcome \<Rightarrow> cache \<Rightarrow> cache" where
  "leave_drain l t i end_of s =
     (case lock_leave l t s of
        None \<Rightarrow> put_frame i (Finished (Failed ReleaseError)) s
      | Some s' \<Rightarrow> put_frame i (Finished end_of) s')"

section \<open>The operations\<close>

definition caching :: "bool \<Rightarrow> cache_settings \<Rightarrow> bool" where
  "caching stream st \<longleftrightarrow> enabled st \<and> (stream \<longrightarrow> stream_cache st) \<and> 0 < ttl_seconds st"

definition new_call :: "bool \<Rightarrow> cache_settings \<Rightarrow> string \<Rightarrow> nat \<Rightarrow> cache \<Rightarrow> cache" where
  "new_call stream st key i s =
     (let c = next_call s in
      put_frame i (if stream then Streaming key c st [] else Computing key c st)
        (s\<lparr>calls := AList.update c None (calls s), next_call := Suc c,
           inflight := if dedupe_inflight st then AList.update key c (inflight s) else inflight s\<rparr>))"

text \<open>The beginning of \<open>get_or_compute_response\<close> and \<open>get_or_compute_stream\<close>, by thread \<open>t\<close>, up to
  the end of the first critical section.\<close>

definition request :: "bool \<Rightarrow> cache_settings \<Rightarrow> rat \<Rightarrow> string \<Rightarrow> nat \<Rightarrow> nat \<Rightarrow> cache \<Rightarrow> cache" where
  "request stream st now key i t s =
     (if map_of (frames s) i \<noteq> None then s
      else if \<not> caching stream st then put_frame i Direct s
      else if \<not> lock_open s CacheLock t then s
      else
        let s = s\<lparr>entries := prune_locked now (max_entries st) (entries s)\<rparr> in
        case live_entry now key (entries s) of
          Some v \<Rightarrow>
            if stream then drain CacheLock t i (chunks_of v) s
            else put_frame i (Finished (Returned v)) (s\<lparr>delivered := delivered s @ [v]\<rparr>)
        | None \<Rightarrow>
            (case (if dedupe_inflight st then map_of (inflight s) key else None) of
               Some c \<Rightarrow> put_frame i (Waiting c stream) s
             | None \<Rightarrow> new_call stream st key i s))"

text \<open>The critical section at the end of \<open>compute\<close>: an error is only handed to the followers, a
  value is stored without its internal fields.\<close>

definition give_up :: "string \<Rightarrow> nat \<Rightarrow> raised \<Rightarrow> nat \<Rightarrow> cache \<Rightarrow> cache" where
  "give_up key c e i s =
     put_frame i (Announcing c (Inl e) (Failed e)) (s\<lparr>inflight := AList.delete key (inflight s)\<rparr>)"

definition store :: "string \<Rightarrow> nat \<Rightarrow> cache_settings \<Rightarrow> rat \<Rightarrow> rat \<Rightarrow> pyval \<Rightarrow> outcome \<Rightarrow> nat \<Rightarrow> cache \<Rightarrow> cache" where
  "store key c st wrote now v end_of i s =
     put_frame i (Announcing c (Inr v) end_of)
       (s\<lparr>entries := prune_locked now (max_entries st)
             (AList.update key \<lparr>entry_expires = wrote + of_int (ttl_seconds st), entry_value = v\<rparr> (entries s)),
          inflight := AList.delete key (inflight s)\<rparr>)"

definition finish_response :: "rat \<Rightarrow> rat \<Rightarrow> raised + pyval \<Rightarrow> nat \<Rightarrow> nat \<Rightarrow> cache \<Rightarrow> cache" where
  "finish_response wrote now computed i t s =
     (case map_of (frames s) i of
        Some (Computing key c st) \<Rightarrow>
          if \<not> lock_open s CacheLock t then s
          else (case computed of
            Inl e \<Rightarrow> give_up key c e i s
          | Inr v \<Rightarrow> store key c st wrote now (strip_internal v) (Returned v) i s)
      | _ \<Rightarrow> s)"

definition stream_chunk :: "pyval \<Rightarrow> nat \<Rightarrow> cache \<Rightarrow> cache" where
  "stream_chunk v i s =
     (case map_of (frames s) i of
        Some (Streaming key c st chunks) \<Rightarrow> put_frame i (Streaming key c st (chunks @ [strip_internal v])) s
      | _ \<Rightarrow> s)"

text \<open>The end of the stream: of itself, by an error, or closed by its consumer (\<open>GeneratorExit\<close>).\<close>

definition finish_stream :: "rat \<Rightarrow> rat \<Rightarrow> raised option \<Rightarrow> nat \<Rightarrow> nat \<Rightarrow> cache \<Rightarrow> cache" where
  "finish_stream wrote now failure i t s =
     (case map_of (frames s) i of
        Some (Streaming key c st chunks) \<Rightarrow>
          if \<not> lock_open s CacheLock t then s
          else (case failure of
            Some e \<Rightarrow> give_up key c e i s
          | None \<Rightarrow> store key c st wrote now (PList chunks) Ended i s)
      | _ \<Rightarrow> s)"

definition announce :: "nat \<Rightarrow> nat \<Rightarrow> cache \<Rightarrow> cache" where
  "announce i t s =
     (case map_of (frames s) i of
        Some (Announcing c result end_of) \<Rightarrow>
          if \<not> lock_open s (CallLock c) t then s
          else put_frame i (Finished end_of) (s\<lparr>calls := AList.update c (Some result) (calls s)\<rparr>)
      | _ \<Rightarrow> s)"

text \<open>A follower that is woken, and the next chunk of a shared stream.\<close>

definition resume :: "nat \<Rightarrow> nat \<Rightarrow> cache \<Rightarrow> cache" where
  "resume i t s =
     (case map_of (frames s) i of
        Some (Waiting c stream) \<Rightarrow>
          if \<not> lock_open s (CallLock c) t then s
          else (case map_of (calls s) c of
            Some (Some (Inl e)) \<Rightarrow> put_frame i (Finished (Failed e)) s
          | Some (Some (Inr v)) \<Rightarrow>
              if stream then drain (CallLock c) t i (chunks_of v) s
              else put_frame i (Finished (Returned v)) (s\<lparr>delivered := delivered s @ [v]\<rparr>)
          | _ \<Rightarrow> s)
      | Some (Draining l (c # cs)) \<Rightarrow> put_frame i (Draining l cs) (s\<lparr>delivered := delivered s @ [c]\<rparr>)
      | Some (Draining l []) \<Rightarrow> leave_drain l t i Ended s
      | _ \<Rightarrow> s)"

definition close_reader :: "nat \<Rightarrow> nat \<Rightarrow> cache \<Rightarrow> cache" where
  "close_reader i t s =
     (case map_of (frames s) i of
        Some (Draining l cs) \<Rightarrow> leave_drain l t i (Failed GeneratorExit) s
      | _ \<Rightarrow> s)"

definition clear_cache :: "nat \<Rightarrow> cache \<Rightarrow> cache" where
  "clear_cache t s = (if lock_open s CacheLock t then s\<lparr>entries := [], inflight := []\<rparr> else s)"

text \<open>Each operation with its frame and its thread.\<close>

datatype cache_op =
    Request bool cache_settings rat string nat nat
  | FinishResponse rat rat "raised + pyval" nat nat
  | StreamChunk pyval nat nat
  | FinishStream rat rat "raised option" nat nat
  | Announce nat nat
  | Resume nat nat
  | CloseReader nat nat
  | ClearCache nat

fun cache_step :: "cache \<Rightarrow> cache_op \<Rightarrow> cache" where
  "cache_step s (Request stream st now key i t) = request stream st now key i t s"
| "cache_step s (FinishResponse wrote now computed i t) = finish_response wrote now computed i t s"
| "cache_step s (StreamChunk v i t) = stream_chunk v i s"
| "cache_step s (FinishStream wrote now failure i t) = finish_stream wrote now failure i t s"
| "cache_step s (Announce i t) = announce i t s"
| "cache_step s (Resume i t) = resume i t s"
| "cache_step s (CloseReader i t) = close_reader i t s"
| "cache_step s (ClearCache t) = clear_cache t s"

fun op_thread :: "cache_op \<Rightarrow> nat" where
  "op_thread (Request stream st now key i t) = t"
| "op_thread (FinishResponse wrote now computed i t) = t"
| "op_thread (StreamChunk v i t) = t"
| "op_thread (FinishStream wrote now failure i t) = t"
| "op_thread (Announce i t) = t"
| "op_thread (Resume i t) = t"
| "op_thread (CloseReader i t) = t"
| "op_thread (ClearCache t) = t"

section \<open>What the cache holds\<close>

fun frame_public :: "frame \<Rightarrow> bool" where
  "frame_public (Streaming key c st chunks) = public_list chunks"
| "frame_public (Announcing c (Inr v) end_of) = is_public v"
| "frame_public (Draining l chunks) = public_list chunks"
| "frame_public _ = True"

definition cache_public :: "cache \<Rightarrow> bool" where
  "cache_public s \<longleftrightarrow>
     entries_ok (entries s) \<and> list_all is_public (delivered s) \<and>
     (\<forall>c v. map_of (calls s) c = Some (Some (Inr v)) \<longrightarrow> is_public v) \<and>
     (\<forall>i f. map_of (frames s) i = Some f \<longrightarrow> frame_public f)"

lemma public_put: "cache_public s \<Longrightarrow> frame_public f \<Longrightarrow> cache_public (put_frame i f s)"
  by (simp add: cache_public_def put_frame_def)

lemma public_deliver: "cache_public s \<Longrightarrow> is_public v \<Longrightarrow> cache_public (s\<lparr>delivered := delivered s @ [v]\<rparr>)"
  by (simp add: cache_public_def)

lemma public_locks: "cache_public s \<Longrightarrow> cache_public (lock_enter l t s)"
  by (simp add: cache_public_def lock_enter_def)

lemma public_leave: "cache_public s \<Longrightarrow> lock_leave l t s = Some s' \<Longrightarrow> cache_public s'"
  by (auto simp: cache_public_def lock_leave_def split: option.splits if_splits)

lemma public_entries: "cache_public s \<Longrightarrow> entries_ok es \<Longrightarrow> cache_public (s\<lparr>entries := es\<rparr>)"
  by (simp add: cache_public_def)

lemma public_inflight: "cache_public s \<Longrightarrow> cache_public (s\<lparr>inflight := x\<rparr>)"
  by (simp add: cache_public_def)

lemma public_chunks: "is_public v \<Longrightarrow> public_list (chunks_of v)"
  by (cases v) (simp_all add: chunks_of_def)

lemma public_append [simp]: "public_list (xs @ ys) \<longleftrightarrow> public_list xs \<and> public_list ys"
  by (simp add: public_list_iff)

lemmas public_rules = public_put public_deliver public_locks public_entries public_inflight

lemma public_drain: "cache_public s \<Longrightarrow> public_list chunks \<Longrightarrow> cache_public (drain l t i chunks s)"
  using public_deliver [OF public_locks]
  by (auto simp: drain_def lock_enter_def intro!: public_put split: list.split)

lemma public_leave_drain: "cache_public s \<Longrightarrow> cache_public (leave_drain l t i end_of s)"
  by (auto simp: leave_drain_def intro!: public_put dest: public_leave split: option.split)

lemma public_new_call:
  assumes "cache_public s"
  shows "cache_public (new_call stream st key i s)"
proof -
  have "cache_public (s\<lparr>calls := AList.update c None (calls s), next_call := n, inflight := g\<rparr>)"
    "cache_public (s\<lparr>calls := AList.update c None (calls s), next_call := n\<rparr>)" for c n g
    using assms by (simp_all add: cache_public_def)
  then show ?thesis by (auto simp: new_call_def Let_def intro!: public_put)
qed

lemma public_request:
  assumes "cache_public s"
  shows "cache_public (request stream st now key i t s)"
proof -
  let ?s = "s\<lparr>entries := prune_locked now (max_entries st) (entries s)\<rparr>"
  have ok: "entries_ok (prune_locked now (max_entries st) (entries s))" using assms by (simp add: cache_public_def)
  then have s: "cache_public ?s" using assms by (simp add: public_entries)
  have "is_public v" if "live_entry now key (entries ?s) = Some v" for v
    using live_entry_public [OF ok] that by simp
  then show ?thesis using assms s public_drain [OF s public_chunks] public_new_call [OF s] public_deliver [OF s]
    by (auto simp: request_def Let_def intro!: public_put split: option.split)
qed

lemma public_give_up: "cache_public s \<Longrightarrow> cache_public (give_up key c e i s)"
  by (simp add: give_up_def public_put public_inflight)

lemma public_store:
  assumes "cache_public s" and "is_public v"
  shows "cache_public (store key c st wrote now v end_of i s)"
proof -
  have "entries_ok (prune_locked now (max_entries st)
      (AList.update key \<lparr>entry_expires = wrote + of_int (ttl_seconds st), entry_value = v\<rparr> (entries s)))"
    using assms by (simp add: cache_public_def)
  then have "cache_public (s\<lparr>entries := prune_locked now (max_entries st)
      (AList.update key \<lparr>entry_expires = wrote + of_int (ttl_seconds st), entry_value = v\<rparr> (entries s)), inflight := x\<rparr>)" for x
    using assms by (simp add: cache_public_def)
  then show ?thesis using assms by (simp add: store_def public_put)
qed

lemma public_frame: "cache_public s \<Longrightarrow> map_of (frames s) i = Some f \<Longrightarrow> frame_public f"
  by (simp add: cache_public_def)

lemma public_announce:
  assumes "cache_public s"
  shows "cache_public (announce i t s)"
proof (cases "map_of (frames s) i")
  case (Some f)
  show ?thesis
  proof (cases f)
    case (Announcing c r end_of)
    with Some public_frame [OF assms Some] have "is_public v" if "r = Inr v" for v using that by simp
    then have "cache_public (s\<lparr>calls := AList.update c (Some r) (calls s)\<rparr>)" using assms by (simp add: cache_public_def)
    then show ?thesis using assms Some Announcing by (simp add: announce_def public_put)
  qed (use Some assms in \<open>simp_all add: announce_def\<close>)
qed (use assms in \<open>simp add: announce_def\<close>)

lemma public_resume:
  assumes "cache_public s"
  shows "cache_public (resume i t s)"
proof (cases "map_of (frames s) i")
  case (Some f)
  show ?thesis
  proof (cases f)
    case (Waiting c stream)
    have "is_public v" if "map_of (calls s) c = Some (Some (Inr v))" for v using assms that by (simp add: cache_public_def)
    then show ?thesis using Some Waiting assms public_drain [OF assms public_chunks]
      by (auto simp: resume_def intro!: public_put public_deliver split: option.split sum.split)
  next
    case (Draining l chunks)
    with Some public_frame [OF assms Some] show ?thesis using assms
      by (cases chunks) (simp_all add: resume_def public_leave_drain public_put public_deliver)
  qed (use Some assms in \<open>simp_all add: resume_def\<close>)
qed (use assms in \<open>simp add: resume_def\<close>)

lemma cache_step_public: "cache_public s \<Longrightarrow> cache_public (cache_step s x)"
proof (cases x)
  case (StreamChunk v i t)
  assume s: "cache_public s"
  show ?thesis using StreamChunk s public_frame [OF s, of i]
    by (auto simp: stream_chunk_def intro!: public_put split: option.split frame.split)
next
  case (FinishResponse wrote now computed i t)
  assume "cache_public s"
  then show ?thesis using FinishResponse
    by (auto simp: finish_response_def public_give_up public_store split: option.split frame.split sum.split)
next
  case (FinishStream wrote now failure i t)
  assume s: "cache_public s"
  then show ?thesis using FinishStream public_frame [OF s, of i]
    by (auto simp: finish_stream_def public_give_up public_store split: option.split frame.split)
next
  case (CloseReader i t)
  assume "cache_public s"
  then show ?thesis using CloseReader by (auto simp: close_reader_def public_leave_drain split: option.split frame.split)
next
  case (ClearCache t)
  assume "cache_public s"
  then show ?thesis using ClearCache by (simp add: clear_cache_def cache_public_def entries_ok_def)
qed (simp_all add: public_request public_announce public_resume)

interpretation public_machine: invariant_machine cache_step cache_public
  by unfold_locales (rule cache_step_public)

section \<open>Owners and followers\<close>

fun flight :: "frame \<Rightarrow> (string \<times> nat) option" where
  "flight (Computing key c st) = Some (key, c)"
| "flight (Streaming key c st chunks) = Some (key, c)"
| "flight _ = None"

fun owned_call :: "frame \<Rightarrow> nat option" where
  "owned_call (Announcing c r end_of) = Some c"
| "owned_call f = map_option snd (flight f)"

fun awaited_call :: "frame \<Rightarrow> nat option" where
  "awaited_call (Waiting c stream) = Some c"
| "awaited_call _ = None"

text \<open>No call has two owners, every registered call has its computation, and a follower waits for a
  call that has its result or an owner that will give it.\<close>

definition owners_ok ::
  "(nat \<Rightarrow> nat option) \<Rightarrow> (nat \<Rightarrow> (string \<times> nat) option) \<Rightarrow> (nat \<Rightarrow> nat option) \<Rightarrow>
   (string \<Rightarrow> nat option) \<Rightarrow> (nat \<Rightarrow> inflight_call option) \<Rightarrow> nat \<Rightarrow> bool" where
  "owners_ok Q L W I C n \<longleftrightarrow>
     (\<forall>i j c. Q i = Some c \<and> Q j = Some c \<longrightarrow> i = j) \<and>
     (\<forall>i k c. L i = Some (k, c) \<longrightarrow> Q i = Some c) \<and>
     (\<forall>k c. I k = Some c \<longrightarrow> (\<exists>i. L i = Some (k, c))) \<and>
     (\<forall>i c. W i = Some c \<longrightarrow> (\<exists>r. C c = Some (Some r)) \<or> (\<exists>j. Q j = Some c)) \<and>
     (\<forall>i c. Q i = Some c \<longrightarrow> c < n) \<and>
     (\<forall>c. n \<le> c \<longrightarrow> C c = None)"

lemma owners_registered: "owners_ok Q L W I C n \<Longrightarrow> I k = Some c \<Longrightarrow> \<exists>i. L i = Some (k, c)"
  unfolding owners_ok_def by blast

lemma owners_flight: "owners_ok Q L W I C n \<Longrightarrow> L i = Some (k, c) \<Longrightarrow> Q i = Some c"
  unfolding owners_ok_def by blast

lemma owners_follower:
  "owners_ok Q L W I C n \<Longrightarrow> W i = Some c \<Longrightarrow> (\<exists>r. C c = Some (Some r)) \<or> (\<exists>j. Q j = Some c)"
  unfolding owners_ok_def by blast

lemma owners_inert:
  assumes ok: "owners_ok Q L W I C n" and "Q i = None"
  shows "owners_ok (Q(i := None)) (L(i := None)) (W(i := None)) I C n"
proof -
  have "L i = None" using assms by (cases "L i") (auto simp: owners_ok_def)
  then have "Q(i := None) = Q" "L(i := None) = L" using assms(2) by (simp_all add: fun_upd_idem)
  then show ?thesis using ok by (auto simp: owners_ok_def)
qed

lemma owners_wait:
  assumes ok: "owners_ok Q L W I C n" and "Q i = None" and "I k = Some c"
  shows "owners_ok (Q(i := None)) (L(i := None)) (W(i := Some c)) I C n"
proof -
  have "L i = None" using assms by (cases "L i") (auto simp: owners_ok_def)
  then have "Q(i := None) = Q" "L(i := None) = L" using assms(2) by (simp_all add: fun_upd_idem)
  moreover have "\<exists>j. Q j = Some c" using owners_registered [OF ok assms(3)] owners_flight [OF ok] by blast
  ultimately show ?thesis using ok by (auto simp: owners_ok_def)
qed

lemma owners_new:
  assumes ok: "owners_ok Q L W I C n" and "Q i = None" and "W i = None" and "J = I \<or> J = I(k := Some n)"
  shows "owners_ok (Q(i := Some n)) (L(i := Some (k, n))) (W(i := None)) J (C(n := Some None)) (Suc n)"
proof -
  have fresh: "Q j \<noteq> Some n" for j using ok by (auto simp: owners_ok_def)
  have "\<exists>m. (L(i := Some (k, n))) m = Some (j, c)" if "J j = Some c" for j c
  proof (cases "J = I \<or> j \<noteq> k")
    case True
    then have "I j = Some c" using that assms(4) by auto
    then obtain m where m: "L m = Some (j, c)" using owners_registered [OF ok] by blast
    then have "Q m = Some c" using ok by (auto simp: owners_ok_def)
    then have "m \<noteq> i" using assms(2) by auto
    with m show ?thesis by auto
  next
    case False
    then have "c = n" using that assms(4) by auto
    with False show ?thesis by auto
  qed
  moreover have "(\<exists>r. (C(n := Some None)) c = Some (Some r)) \<or> (\<exists>m. (Q(i := Some n)) m = Some c)" if "(W(i := None)) j = Some c" for j c
  proof -
    have "W j = Some c" using that by (auto split: if_splits)
    then consider r where "C c = Some (Some r)" | m where "Q m = Some c" using owners_follower [OF ok] by blast
    then show ?thesis
    proof cases
      case 1
      then have "c \<noteq> n" using ok by (auto simp: owners_ok_def)
      with 1 show ?thesis by auto
    next
      case 2
      then have "m \<noteq> i" using assms(2) by auto
      with 2 show ?thesis by auto
    qed
  qed
  ultimately show ?thesis using ok fresh unfolding owners_ok_def by (auto simp: less_Suc_eq)
qed

lemma owners_chunk:
  assumes ok: "owners_ok Q L W I C n" and "L i = Some (k, c)" and "W i = None"
  shows "owners_ok (Q(i := Some c)) (L(i := Some (k, c))) (W(i := None)) I C n"
proof -
  have "Q i = Some c" using assms by (auto simp: owners_ok_def)
  then have "Q(i := Some c) = Q" "L(i := Some (k, c)) = L" "W(i := None) = W" using assms by (simp_all add: fun_upd_idem)
  with ok show ?thesis by simp
qed

lemma owners_settle:
  assumes ok: "owners_ok Q L W I C n" and "L i = Some (k, c)" and "W i = None"
  shows "owners_ok (Q(i := Some c)) (L(i := None)) (W(i := None)) (I(k := None)) C n"
proof -
  have "Q i = Some c" using assms by (auto simp: owners_ok_def)
  then have "Q(i := Some c) = Q" "W(i := None) = W" using assms by (simp_all add: fun_upd_idem)
  moreover have "\<exists>m. (L(i := None)) m = Some (j, d)" if "(I(k := None)) j = Some d" for j d
  proof -
    have "I j = Some d" "j \<noteq> k" using that by (auto split: if_splits)
    then obtain m where "L m = Some (j, d)" using owners_registered [OF ok] by blast
    moreover from this have "m \<noteq> i" using \<open>j \<noteq> k\<close> assms(2) by auto
    ultimately show ?thesis by auto
  qed
  ultimately show ?thesis using ok unfolding owners_ok_def by (auto split: if_splits)
qed

lemma owners_announce:
  assumes ok: "owners_ok Q L W I C n" and "Q i = Some c" and "L i = None"
  shows "owners_ok (Q(i := None)) (L(i := None)) (W(i := None)) I (C(c := Some (Some r))) n"
proof -
  have "(\<exists>r'. (C(c := Some (Some r))) d = Some (Some r')) \<or> (\<exists>m. (Q(i := None)) m = Some d)" if "(W(i := None)) j = Some d" for j d
  proof -
    have "W j = Some d" using that by (auto split: if_splits)
    then consider r where "C d = Some (Some r)" | m where "Q m = Some d" using owners_follower [OF ok] by blast
    then show ?thesis
    proof cases
      case 2
      then show ?thesis using assms(2) by (cases "m = i") auto
    qed auto
  qed
  moreover have "L(i := None) = L" using assms(3) by (simp add: fun_upd_idem)
  moreover have "m \<noteq> i" if "L m = Some x" for m x using that assms(3) by auto
  moreover have "(C(c := Some (Some r))) d = None" if "n \<le> d" for d
  proof -
    have "c < n" "C d = None" using ok assms(2) that unfolding owners_ok_def by blast+
    with that show ?thesis by auto
  qed
  ultimately show ?thesis using ok assms(2) unfolding owners_ok_def by (auto split: if_splits)
qed

lemma owners_clear: "owners_ok Q L W I C n \<Longrightarrow> owners_ok Q L W (\<lambda>_. None) C n"
  by (auto simp: owners_ok_def)

section \<open>The owners of a cache\<close>

definition part :: "(frame \<Rightarrow> 'a option) \<Rightarrow> (nat \<times> frame) list \<Rightarrow> nat \<Rightarrow> 'a option" where
  "part g fr i = Option.bind (map_of fr i) g"

lemma part_update [simp]: "part g (AList.update i f fr) = (part g fr)(i := g f)"
  by (rule ext) (simp add: part_def)

lemma part_Some [simp]: "map_of fr i = Some f \<Longrightarrow> part g fr i = g f"
  by (simp add: part_def)

lemma part_None [simp]: "map_of fr i = None \<Longrightarrow> part g fr i = None"
  by (simp add: part_def)

definition cache_owned :: "cache \<Rightarrow> bool" where
  "cache_owned s \<longleftrightarrow>
     owners_ok (part owned_call (frames s)) (part flight (frames s)) (part awaited_call (frames s))
       (map_of (inflight s)) (map_of (calls s)) (next_call s)"

lemma owned_other [simp]:
  "cache_owned (s\<lparr>entries := es\<rparr>) = cache_owned s"
  "cache_owned (s\<lparr>delivered := ds\<rparr>) = cache_owned s"
  "cache_owned (s\<lparr>held := hs\<rparr>) = cache_owned s"
  by (simp_all add: cache_owned_def)

definition inert :: "frame \<Rightarrow> bool" where
  "inert f \<longleftrightarrow> owned_call f = None \<and> flight f = None \<and> awaited_call f = None"

lemma inert_simps [simp]: "inert Direct" "inert (Draining l cs)" "inert (Finished end_of)"
  by (simp_all add: inert_def)

lemma owned_inert:
  "cache_owned s \<Longrightarrow> part owned_call (frames s) i = None \<Longrightarrow> inert f \<Longrightarrow> cache_owned (put_frame i f s)"
  by (simp add: cache_owned_def put_frame_def inert_def owners_inert)

lemma put_parts [simp]:
  "entries (put_frame i f s) = entries s" "inflight (put_frame i f s) = inflight s"
  "frames (put_frame i f s) = AList.update i f (frames s)" "held (put_frame i f s) = held s"
  by (simp_all add: put_frame_def)

lemma enter_parts [simp]:
  "entries (lock_enter l t s) = entries s" "inflight (lock_enter l t s) = inflight s" "frames (lock_enter l t s) = frames s"
  "cache_owned (lock_enter l t s) = cache_owned s"
  by (simp_all add: lock_enter_def)

lemma leave_parts:
  "lock_leave l t s = Some s' \<Longrightarrow>
   entries s' = entries s \<and> inflight s' = inflight s \<and> frames s' = frames s \<and> cache_owned s' = cache_owned s"
  by (auto simp: lock_leave_def split: option.splits if_splits)

lemma drain_frame:
  obtains f where "inert f" "frames (drain l t i chunks s) = AList.update i f (frames s)" "inflight (drain l t i chunks s) = inflight s"
proof (cases chunks)
  case Nil
  show thesis by (rule that [of "Finished Ended"]) (simp_all add: drain_def Nil)
next
  case (Cons c cs)
  show thesis by (rule that [of "Draining l cs"]) (simp_all add: drain_def Cons)
qed

lemma leave_drain_frame:
  obtains f where "inert f" "frames (leave_drain l t i end_of s) = AList.update i f (frames s)" "inflight (leave_drain l t i end_of s) = inflight s"
proof (cases "lock_leave l t s")
  case None
  show thesis by (rule that [of "Finished (Failed ReleaseError)"]) (simp_all add: leave_drain_def None)
next
  case (Some s')
  show thesis by (rule that [of "Finished end_of"]) (use leave_parts [OF Some] in \<open>simp_all add: leave_drain_def Some\<close>)
qed

lemma owned_drain: "cache_owned s \<Longrightarrow> part owned_call (frames s) i = None \<Longrightarrow> cache_owned (drain l t i chunks s)"
  by (cases chunks) (simp_all add: drain_def owned_inert)

lemma owned_leave_drain:
  assumes "cache_owned s" and "part owned_call (frames s) i = None"
  shows "cache_owned (leave_drain l t i end_of s)"
proof (cases "lock_leave l t s")
  case None
  with assms show ?thesis by (simp add: leave_drain_def owned_inert)
next
  case (Some s')
  have "cache_owned s'" "part owned_call (frames s') i = None" using leave_parts [OF Some] assms by simp_all
  then show ?thesis by (simp add: leave_drain_def Some owned_inert)
qed

lemma owned_new_call:
  assumes "cache_owned s" and "map_of (frames s) i = None"
  shows "cache_owned (new_call stream st key i s)"
proof -
  have i: "part owned_call (frames s) i = None" "part awaited_call (frames s) i = None" using assms(2) by simp_all
  have "owners_ok ((part owned_call (frames s))(i := Some (next_call s))) ((part flight (frames s))(i := Some (key, next_call s)))
     ((part awaited_call (frames s))(i := None)) J ((map_of (calls s))(next_call s := Some None)) (Suc (next_call s))"
    if "J = map_of (inflight s) \<or> J = (map_of (inflight s))(key := Some (next_call s))" for J
    using assms(1) i that unfolding cache_owned_def by (rule owners_new)
  from this [OF disjI1 [OF refl]] this [OF disjI2 [OF refl]] show ?thesis
    by (cases "dedupe_inflight st"; cases stream) (simp_all add: cache_owned_def new_call_def Let_def put_frame_def AList.update_conv')
qed

lemma owned_request:
  assumes "cache_owned s"
  shows "cache_owned (request stream st now key i t s)"
proof (cases "map_of (frames s) i")
  case None
  let ?s = "s\<lparr>entries := prune_locked now (max_entries st) (entries s)\<rparr>"
  have s: "cache_owned ?s" "map_of (frames ?s) i = None" "part owned_call (frames ?s) i = None" using assms None by simp_all
  have "cache_owned (put_frame i (Waiting c stream) ?s)" if "map_of (inflight s) key = Some c" for c
    using owners_wait [of _ _ _ _ _ _ i key c] s that by (simp add: cache_owned_def put_frame_def)
  then show ?thesis using s None owned_drain [OF s(1,3)] owned_new_call [OF s(1,2)] owned_inert [OF s(1,3)] assms
    by (auto simp: request_def Let_def intro!: owned_inert split: option.split)
qed (use assms in \<open>simp add: request_def\<close>)

lemma owned_settle:
  assumes "cache_owned s" and "map_of (frames s) i = Some f" and "flight f = Some (key, c)"
  shows "cache_owned (put_frame i (Announcing c r end_of) (s\<lparr>inflight := AList.delete key (inflight s)\<rparr>))"
proof -
  have "awaited_call f = None" using assms(3) by (cases f) auto
  then show ?thesis using assms owners_settle [of _ "part flight (frames s)" _ _ _ _ i key c]
    by (simp add: cache_owned_def put_frame_def AList.delete_conv')
qed

lemma owned_finish:
  assumes "cache_owned s" and "map_of (frames s) i = Some f" and "flight f = Some (key, c)"
  shows "cache_owned (give_up key c e i s)" "cache_owned (store key c st wrote now v end_of i s)"
proof -
  show "cache_owned (give_up key c e i s)" using owned_settle [OF assms] by (simp add: give_up_def)
  have "cache_owned (put_frame i (Announcing c (Inr v) end_of) (s\<lparr>entries := es, inflight := AList.delete key (inflight s)\<rparr>))" for es
    using owned_settle [of "s\<lparr>entries := es\<rparr>" i f key c "Inr v" end_of] assms by simp
  then show "cache_owned (store key c st wrote now v end_of i s)" by (simp add: store_def)
qed

lemma owned_announce:
  assumes "cache_owned s"
  shows "cache_owned (announce i t s)"
proof (cases "map_of (frames s) i")
  case (Some f)
  show ?thesis
  proof (cases f)
    case (Announcing c r end_of)
    with Some assms show ?thesis
      using owners_announce [of "part owned_call (frames s)" "part flight (frames s)" _ _ _ _ i c r]
      by (simp add: announce_def cache_owned_def put_frame_def AList.update_conv')
  qed (use Some assms in \<open>simp_all add: announce_def\<close>)
qed (use assms in \<open>simp add: announce_def\<close>)

lemma cache_step_owned: "cache_owned s \<Longrightarrow> cache_owned (cache_step s x)"
proof (cases x)
  case (Request stream st now key i t)
  assume "cache_owned s"
  then show ?thesis using Request by (simp add: owned_request)
next
  case (FinishResponse wrote now computed i t)
  assume "cache_owned s"
  then show ?thesis using FinishResponse
    by (auto simp: finish_response_def owned_finish split: option.split frame.split sum.split)
next
  case (StreamChunk v i t)
  assume s: "cache_owned s"
  have "cache_owned (put_frame i (Streaming key c st (chunks @ [strip_internal v])) s)"
    if "map_of (frames s) i = Some (Streaming key c st chunks)" for key c st chunks
    using s that owners_chunk [of _ "part flight (frames s)" _ _ _ _ i key c] by (simp add: cache_owned_def put_frame_def)
  with s show ?thesis using StreamChunk by (auto simp: stream_chunk_def split: option.split frame.split)
next
  case (FinishStream wrote now failure i t)
  assume "cache_owned s"
  then show ?thesis using FinishStream
    by (auto simp: finish_stream_def owned_finish split: option.split frame.split)
next
  case (Announce i t)
  assume "cache_owned s"
  then show ?thesis using Announce by (simp add: owned_announce)
next
  case (Resume i t)
  assume "cache_owned s"
  then show ?thesis using Resume
    by (auto simp: resume_def intro!: owned_inert owned_drain owned_leave_drain split: option.split frame.split sum.split list.split)
next
  case (CloseReader i t)
  assume "cache_owned s"
  then show ?thesis using CloseReader by (auto simp: close_reader_def intro!: owned_leave_drain split: option.split frame.split)
next
  case (ClearCache t)
  assume "cache_owned s"
  then show ?thesis using ClearCache owners_clear by (auto simp: clear_cache_def cache_owned_def)
qed

interpretation owned_machine: invariant_machine cache_step cache_owned
  by unfold_locales (rule cache_step_owned)

section \<open>The number of entries\<close>

fun frame_within :: "nat \<Rightarrow> frame \<Rightarrow> bool" where
  "frame_within m (Computing key c st) = (nat (max_entries st) \<le> m)"
| "frame_within m (Streaming key c st chunks) = (nat (max_entries st) \<le> m)"
| "frame_within m _ = True"

fun op_within :: "nat \<Rightarrow> cache_op \<Rightarrow> bool" where
  "op_within m (Request stream st now key i t) = (nat (max_entries st) \<le> m)"
| "op_within m _ = True"

definition cache_within :: "nat \<Rightarrow> cache \<Rightarrow> bool" where
  "cache_within m s \<longleftrightarrow> length (entries s) \<le> m \<and> (\<forall>i f. map_of (frames s) i = Some f \<longrightarrow> frame_within m f)"

lemma inert_within: "inert f \<Longrightarrow> frame_within m f"
  by (cases f) (simp_all add: inert_def)

lemma prune_locked_bound: "nat k \<le> m \<Longrightarrow> length (prune_locked now k es) \<le> m"
  unfolding prune_locked_def by (rule order_trans [OF prune_size_bound])

lemma within_put: "cache_within m s \<Longrightarrow> frame_within m f \<Longrightarrow> cache_within m (put_frame i f s)"
  by (simp add: cache_within_def)

lemma within_other [simp]:
  "cache_within m (s\<lparr>delivered := ds\<rparr>) = cache_within m s"
  "cache_within m (s\<lparr>held := hs\<rparr>) = cache_within m s"
  by (simp_all add: cache_within_def)

lemma within_drain: "cache_within m s \<Longrightarrow> cache_within m (drain l t i chunks s)"
  by (auto simp: drain_def lock_enter_def intro!: within_put split: list.split)

lemma within_leave_drain: "cache_within m s \<Longrightarrow> cache_within m (leave_drain l t i end_of s)"
  by (auto simp: leave_drain_def lock_leave_def intro!: within_put split: option.split)

lemma within_request:
  assumes "cache_within m s" and "nat (max_entries st) \<le> m"
  shows "cache_within m (request stream st now key i t s)"
proof -
  let ?s = "s\<lparr>entries := prune_locked now (max_entries st) (entries s)\<rparr>"
  have s: "cache_within m ?s" using assms by (simp add: cache_within_def prune_locked_bound)
  have "cache_within m (new_call stream st key i ?s)"
    using s assms(2) by (auto simp: new_call_def Let_def cache_within_def)
  then show ?thesis using s assms(1)
    by (auto simp: request_def Let_def intro!: within_put within_drain split: option.split)
qed

lemma within_finish:
  assumes "cache_within m s" and "nat (max_entries st) \<le> m"
  shows "cache_within m (store key c st wrote now v end_of i s)"
  using assms by (auto simp: store_def cache_within_def prune_locked_bound)

lemma within_give_up: "cache_within m s \<Longrightarrow> cache_within m (give_up key c e i s)"
  by (simp add: give_up_def cache_within_def)

lemma within_frame: "cache_within m s \<Longrightarrow> map_of (frames s) i = Some f \<Longrightarrow> frame_within m f"
  by (simp add: cache_within_def)

lemma cache_step_within: "cache_within m s \<Longrightarrow> op_within m x \<Longrightarrow> cache_within m (cache_step s x)"
proof (cases x)
  case (Request stream st now key i t)
  assume "cache_within m s" "op_within m x"
  then show ?thesis using Request by (simp add: within_request)
next
  case (FinishResponse wrote now computed i t)
  assume s: "cache_within m s"
  show ?thesis using FinishResponse s within_frame [OF s, of i]
    by (auto simp: finish_response_def within_give_up within_finish split: option.split frame.split sum.split)
next
  case (StreamChunk v i t)
  assume s: "cache_within m s"
  show ?thesis using StreamChunk s within_frame [OF s, of i]
    by (auto simp: stream_chunk_def intro!: within_put split: option.split frame.split)
next
  case (FinishStream wrote now failure i t)
  assume s: "cache_within m s"
  show ?thesis using FinishStream s within_frame [OF s, of i]
    by (auto simp: finish_stream_def within_give_up within_finish split: option.split frame.split)
next
  case (Announce i t)
  assume "cache_within m s"
  then show ?thesis using Announce by (auto simp: announce_def cache_within_def split: option.split frame.split)
next
  case (Resume i t)
  assume "cache_within m s"
  then show ?thesis using Resume
    by (auto simp: resume_def intro!: within_put within_drain within_leave_drain split: option.split frame.split sum.split list.split)
next
  case (CloseReader i t)
  assume "cache_within m s"
  then show ?thesis using CloseReader by (auto simp: close_reader_def intro!: within_leave_drain split: option.split frame.split)
next
  case (ClearCache t)
  assume "cache_within m s"
  then show ?thesis using ClearCache by (simp add: clear_cache_def cache_within_def)
qed

interpretation within_machine: guarded_machine cache_step "\<lambda>_ x. op_within m x" "cache_within m"
  by unfold_locales (rule cache_step_within)

section \<open>One flight per key\<close>

text \<open>While every request shares its calls and nobody clears the cache, a computation that runs is
  the registered one of its key.\<close>

fun op_shared :: "cache_op \<Rightarrow> bool" where
  "op_shared (Request stream st now key i t) = dedupe_inflight st"
| "op_shared (ClearCache t) = False"
| "op_shared _ = True"

definition registered :: "(nat \<Rightarrow> (string \<times> nat) option) \<Rightarrow> (string \<Rightarrow> nat option) \<Rightarrow> bool" where
  "registered L I \<longleftrightarrow> (\<forall>i k c. L i = Some (k, c) \<longrightarrow> I k = Some c)"

definition single_flight :: "cache \<Rightarrow> bool" where
  "single_flight s \<longleftrightarrow> cache_owned s \<and> registered (part flight (frames s)) (map_of (inflight s))"

lemma registered_inert: "registered L I \<Longrightarrow> registered (L(i := None)) I"
  by (simp add: registered_def)

lemma registered_new: "registered L I \<Longrightarrow> I k = None \<Longrightarrow> registered (L(i := Some (k, n))) (I(k := Some n))"
  by (auto simp: registered_def)

lemma registered_settle:
  assumes "registered L I" and ok: "owners_ok Q L W I C n" and "L i = Some (k, c)"
  shows "registered (L(i := None)) (I(k := None))"
proof -
  have "j = i" if "L j = Some (k, d)" for j d
  proof -
    have "I k = Some c" "I k = Some d" using assms(1,3) that unfolding registered_def by blast+
    then have "c = d" by simp
    then have "Q i = Some c" "Q j = Some c" using owners_flight [OF ok] assms(3) that by auto
    then show ?thesis using ok unfolding owners_ok_def by blast
  qed
  then show ?thesis using assms(1) by (auto simp: registered_def)
qed

lemma registered_drain:
  "registered (part flight (frames s)) I \<Longrightarrow> registered (part flight (frames (drain l t i chunks s))) I"
  by (rule drain_frame [of l t i chunks s]) (simp add: registered_inert inert_def)

lemma registered_leave_drain:
  "registered (part flight (frames s)) I \<Longrightarrow> registered (part flight (frames (leave_drain l t i end_of s))) I"
  by (rule leave_drain_frame [of l t i end_of s]) (simp add: registered_inert inert_def)

lemma drain_inflight [simp]:
  "inflight (drain l t i chunks s) = inflight s" "inflight (leave_drain l t i end_of s) = inflight s"
  by (rule drain_frame [of l t i chunks s]; simp) (rule leave_drain_frame [of l t i end_of s]; simp)

lemma finish_registered:
  assumes "single_flight s" and "map_of (frames s) i = Some f" and "flight f = Some (key, c)"
  shows "registered (part flight (frames (give_up key c e i s))) (map_of (inflight (give_up key c e i s)))"
    "registered (part flight (frames (store key c st wrote now v end_of i s))) (map_of (inflight (store key c st wrote now v end_of i s)))"
proof -
  have "registered ((part flight (frames s))(i := None)) ((map_of (inflight s))(key := None))"
  proof (rule registered_settle)
    show "registered (part flight (frames s)) (map_of (inflight s))" using assms(1) by (simp add: single_flight_def)
    show "owners_ok (part owned_call (frames s)) (part flight (frames s)) (part awaited_call (frames s))
       (map_of (inflight s)) (map_of (calls s)) (next_call s)"
      using assms(1) by (simp add: single_flight_def cache_owned_def)
    show "part flight (frames s) i = Some (key, c)" using assms(2,3) by simp
  qed
  then show "registered (part flight (frames (give_up key c e i s))) (map_of (inflight (give_up key c e i s)))"
    "registered (part flight (frames (store key c st wrote now v end_of i s))) (map_of (inflight (store key c st wrote now v end_of i s)))"
    by (simp_all add: give_up_def store_def AList.delete_conv')
qed

lemma registered_step:
  assumes s: "single_flight s" and x: "op_shared x"
  shows "registered (part flight (frames (cache_step s x))) (map_of (inflight (cache_step s x)))"
proof -
  have reg: "registered (part flight (frames s)) (map_of (inflight s))" using s by (simp add: single_flight_def)
  show ?thesis
  proof (cases x)
    case (Request stream st now key i t)
    let ?s = "s\<lparr>entries := prune_locked now (max_entries st) (entries s)\<rparr>"
    have "registered (part flight (frames (new_call stream st key i ?s))) (map_of (inflight (new_call stream st key i ?s)))"
      if "map_of (inflight s) key = None"
      using registered_new [OF reg that] x Request by (cases stream) (simp_all add: new_call_def Let_def AList.update_conv')
    then show ?thesis using Request x reg registered_inert [OF reg]  registered_drain [of ?s]
      by (auto simp: request_def Let_def split: option.split)
  next
    case (FinishResponse wrote now computed i t)
    then show ?thesis using reg finish_registered [OF s]
      by (auto simp: finish_response_def split: option.split frame.split sum.split)
  next
    case (StreamChunk v i t)
    have "registered ((part flight (frames s))(i := Some (key, c))) (map_of (inflight s))"
      if "map_of (frames s) i = Some (Streaming key c st chunks)" for key c st chunks
      using reg fun_upd_idem [of "part flight (frames s)" i "Some (key, c)"] that by simp
    then show ?thesis using StreamChunk reg by (auto simp: stream_chunk_def split: option.split frame.split)
  next
    case (FinishStream wrote now failure i t)
    then show ?thesis using reg finish_registered [OF s]
      by (auto simp: finish_stream_def split: option.split frame.split)
  next
    case (Announce i t)
    then show ?thesis using reg registered_inert [OF reg] by (auto simp: announce_def split: option.split frame.split)
  next
    case (Resume i t)
    then show ?thesis using reg registered_inert [OF reg] registered_drain [OF reg] registered_leave_drain [OF reg]
      by (auto simp: resume_def split: option.split frame.split sum.split list.split)
  next
    case (CloseReader i t)
    then show ?thesis using reg registered_leave_drain [OF reg] by (auto simp: close_reader_def split: option.split frame.split)
  qed (use x in simp)
qed

interpretation flight_machine: guarded_machine cache_step "\<lambda>_ x. op_shared x" single_flight
  by unfold_locales (simp add: single_flight_def registered_step cache_step_owned)

section \<open>A lock that stays held\<close>

text \<open>While thread \<open>a\<close> holds the lock of the cache, no step of another thread changes the lock, the
  entries, the registered calls or the running computations.\<close>

definition same_cache :: "nat \<Rightarrow> cache \<Rightarrow> cache \<Rightarrow> bool" where
  "same_cache a s s' \<longleftrightarrow>
     map_of (held s') CacheLock = map_of (held s) CacheLock \<and> entries s' = entries s \<and>
     inflight s' = inflight s \<and> part flight (frames s') = part flight (frames s)"

lemma same_put: "part flight (frames s) i = None \<Longrightarrow> flight f = None \<Longrightarrow> same_cache a s (put_frame i f s)"
  by (simp add: same_cache_def fun_upd_idem)

lemma same_drain: "part flight (frames s) i = None \<Longrightarrow> same_cache a s (drain (CallLock c) t i chunks s)"
  by (cases chunks) (simp_all add: same_cache_def drain_def fun_upd_idem lock_enter_def)

lemma same_leave_drain:
  assumes "part flight (frames s) i = None" and "map_of (held s) CacheLock = Some (a, n)" and "t \<noteq> a"
  shows "same_cache a s (leave_drain l t i end_of s)"
proof (cases "lock_leave l t s")
  case None
  with assms show ?thesis by (simp add: leave_drain_def same_put)
next
  case (Some s')
  have "l \<noteq> CacheLock" using Some assms(2,3) by (auto simp: lock_leave_def)
  then have "map_of (held s') CacheLock = map_of (held s) CacheLock"
    using Some by (auto simp: lock_leave_def split: option.splits if_splits)
  moreover have "entries s' = entries s \<and> inflight s' = inflight s \<and> frames s' = frames s" using leave_parts [OF Some] by simp
  ultimately show ?thesis using assms(1) by (simp add: leave_drain_def Some same_cache_def fun_upd_idem)
qed

lemma step_while_held:
  assumes held: "map_of (held s) CacheLock = Some (a, n)" and t: "op_thread x \<noteq> a"
  shows "same_cache a s (cache_step s x)"
proof -
  have shut: "\<not> lock_open s CacheLock u" if "u \<noteq> a" for u using held that by (simp add: lock_open_def)
  have self: "same_cache a s s" by (simp add: same_cache_def)
  show ?thesis
  proof (cases x)
    case (Request stream st now key i u)
    with t shut self show ?thesis by (auto simp: request_def intro!: same_put)
  next
    case (FinishResponse wrote now computed i u)
    with t shut self show ?thesis by (auto simp: finish_response_def split: option.split frame.split)
  next
    case (StreamChunk v i u)
    have "same_cache a s (put_frame i (Streaming key c st (chunks @ [strip_internal v])) s)"
      if "map_of (frames s) i = Some (Streaming key c st chunks)" for key c st chunks
      using that fun_upd_idem [of "part flight (frames s)" i "Some (key, c)"] by (simp add: same_cache_def)
    with StreamChunk self show ?thesis by (auto simp: stream_chunk_def split: option.split frame.split)
  next
    case (FinishStream wrote now failure i u)
    with t shut self show ?thesis by (auto simp: finish_stream_def split: option.split frame.split)
  next
    case (Announce i u)
    have "same_cache a s (put_frame i (Finished end_of) (s\<lparr>calls := x\<rparr>))" if "map_of (frames s) i = Some (Announcing c r end_of)" for c r end_of x
      using that fun_upd_idem [of "part flight (frames s)" i None] by (simp add: same_cache_def)
    with Announce self show ?thesis by (auto simp: announce_def split: option.split frame.split)
  next
    case (Resume i u)
    have "same_cache a s (put_frame i f (s\<lparr>delivered := x\<rparr>))" if "part flight (frames s) i = None" "flight f = None" for f x
      using that fun_upd_idem [of "part flight (frames s)" i None] by (simp add: same_cache_def)
    then show ?thesis using Resume self t held
      by (auto simp: resume_def intro!: same_put same_drain same_leave_drain split: option.split frame.split sum.split list.split)
  next
    case (CloseReader i u)
    with t held self show ?thesis
      by (auto simp: close_reader_def intro!: same_leave_drain split: option.split frame.split)
  next
    case (ClearCache u)
    with t shut self show ?thesis by (simp add: clear_cache_def)
  qed
qed

lemma run_while_held:
  "map_of (held s) CacheLock = Some (a, n) \<Longrightarrow> list_all (\<lambda>x. op_thread x \<noteq> a) ops \<Longrightarrow> same_cache a s (run cache_step s ops)"
proof (induction ops arbitrary: s)
  case (Cons x ops)
  have step: "same_cache a s (cache_step s x)" using Cons.prems by (intro step_while_held) auto
  then have "map_of (held (cache_step s x)) CacheLock = Some (a, n)" using Cons.prems(1) by (simp add: same_cache_def)
  with Cons have "same_cache a (cache_step s x) (run cache_step (cache_step s x) ops)" by simp
  with step show ?case by (simp add: same_cache_def)
qed (simp add: same_cache_def)

text \<open>A consumer that goes away hands its \<open>GeneratorExit\<close> to the callers that wait for the same stream.\<close>

lemma disconnect_reaches_followers:
  "map_of (frames (run cache_step empty_cache
     [Request True default_cache_settings 0 ''k'' 0 1, Request True default_cache_settings 0 ''k'' 1 2,
      StreamChunk (PInt 1) 0 1, FinishStream 1 1 (Some GeneratorExit) 0 1, Announce 0 1, Resume 1 2])) 1 =
   Some (Finished (Failed GeneratorExit))"
  by code_simp

section \<open>Properties\<close>

text \<open>C18. In every interleaving of callers, whatever the computations return, the cache never shares
  an internal field: every stored entry and every value or chunk handed to a caller other than
  the one that computed it is free of the five internal keys at every depth. And it never holds
  more entries than the largest bound of the requests it has seen.\<close>

theorem cache_shares_public_values:
  "let s = run cache_step empty_cache ops in
   list_all is_public (delivered s) \<and> entries_ok (entries s) \<and>
   (if list_all (op_within m) ops then length (entries s) \<le> m else True)"
proof -
  have "cache_public empty_cache" by (simp add: cache_public_def empty_cache_def entries_ok_def)
  then have "cache_public (run cache_step empty_cache ops)" by (rule public_machine.run_keeps)
  moreover have "cache_within m empty_cache" by (simp add: cache_within_def empty_cache_def)
  then have "cache_within m (run cache_step empty_cache ops)" if "list_all (op_within m) ops"
    using within_machine.run_inv [of m empty_cache ops] that by (simp add: allowed_run_list_all)
  ultimately show ?thesis by (simp add: Let_def cache_public_def cache_within_def)
qed

text \<open>C19. Calls in flight: in every interleaving a follower waits for a call that has its result, or
  that some caller still owns and will settle; and while requests share their calls and nobody
  clears the cache, at most one computation runs per key.\<close>

theorem cache_single_flight:
  "let s = run cache_step empty_cache ops in
   (case map_of (frames s) i of
      Some (Waiting c stream) \<Rightarrow>
        (case map_of (calls s) c of
           Some (Some r) \<Rightarrow> True
         | _ \<Rightarrow> list_ex (\<lambda>(j, f). owned_call f = Some c) (frames s))
    | _ \<Rightarrow> True) \<and>
   (if list_all op_shared ops
    then case (part flight (frames s) i, part flight (frames s) j) of
           (Some (k, c), Some (l, d)) \<Rightarrow> if k = l then i = j else True
         | _ \<Rightarrow> True
    else True)"
proof -
  define s where "s = run cache_step empty_cache ops"
  have start: "single_flight empty_cache"
    by (simp add: single_flight_def cache_owned_def owners_ok_def registered_def empty_cache_def part_def)
  then have "cache_owned empty_cache" by (simp add: single_flight_def)
  then have "cache_owned s" unfolding s_def by (rule owned_machine.run_keeps)
  then have own: "owners_ok (part owned_call (frames s)) (part flight (frames s)) (part awaited_call (frames s))
    (map_of (inflight s)) (map_of (calls s)) (next_call s)" by (simp add: cache_owned_def)
  have waits: "(\<exists>r. map_of (calls s) c = Some (Some r)) \<or> list_ex (\<lambda>(j, f). owned_call f = Some c) (frames s)"
    if "map_of (frames s) i = Some (Waiting c stream)" for c stream
  proof -
    have "part awaited_call (frames s) i = Some c" using that by simp
    from owners_follower [OF own this] show ?thesis
      by (auto simp: part_def list_ex_iff Option.bind_eq_Some_conv dest: map_of_SomeD)
  qed
  have one: "i = j" if "list_all op_shared ops" "part flight (frames s) i = Some (k, c)" "part flight (frames s) j = Some (k, d)" for k c d
  proof -
    have "single_flight s"
      using flight_machine.run_inv [OF start, of ops] that(1) by (simp add: allowed_run_list_all s_def)
    then have "map_of (inflight s) k = Some c" "map_of (inflight s) k = Some d"
      using that(2,3) unfolding single_flight_def registered_def by blast+
    then have "part owned_call (frames s) i = Some c" "part owned_call (frames s) j = Some c"
      using owners_flight [OF own that(2)] owners_flight [OF own that(3)] by simp_all
    then show ?thesis using own unfolding owners_ok_def by blast
  qed
  show ?thesis unfolding s_def [symmetric] Let_def
    using waits one by (auto split: option.split frame.split)
qed

text \<open>C20. A stream served from an entry keeps the lock of the cache between its chunks: from the
  request of thread \<open>a\<close> on, whatever the other threads do, even when they read that very stream to
  its end, the lock stays with \<open>a\<close>, entries and calls in flight stay as they are, no computation
  can hand in its result, and every cached request of another thread is stuck.\<close>

theorem stream_hit_blocks_cache:
  assumes "map_of (frames s) i = None" and "caching True st" and "map_of (held s) CacheLock = None"
    and "live_entry now key (prune_locked now (max_entries st) (entries s)) = Some (PList (c # cs))"
    and "list_all (\<lambda>x. op_thread x \<noteq> a) ops" and "b \<noteq> a" and "caching stream st'"
  defines "s' \<equiv> run cache_step (request True st now key i a s) ops"
  shows "map_of (held s') CacheLock = Some (a, 1) \<and> entries s' = prune_locked now (max_entries st) (entries s) \<and>
    inflight s' = inflight s \<and> part flight (frames s') = part flight (frames s) \<and>
    request stream st' now' key' j b s' = s'"
proof -
  define h where "h = request True st now key i a s"
  have h: "map_of (held h) CacheLock = Some (a, 1)" "entries h = prune_locked now (max_entries st) (entries s)"
    "inflight h = inflight s" "part flight (frames h) = part flight (frames s)"
    using assms(1-4) by (simp_all add: h_def request_def lock_open_def Let_def chunks_of_def drain_def lock_enter_def fun_upd_idem)
  have "same_cache a h s'" using run_while_held [OF h(1) assms(5)] by (simp add: h_def s'_def)
  then have "map_of (held s') CacheLock = Some (a, 1)" "entries s' = entries h" "inflight s' = inflight h"
    "part flight (frames s') = part flight (frames h)"
    using h(1) by (simp_all add: same_cache_def)
  with h assms(6,7) show ?thesis by (simp add: request_def lock_open_def)
qed

definition cached_stream :: cache where
  "cached_stream = empty_cache\<lparr>entries := [(''k'', \<lparr>entry_expires = 60, entry_value = PList [PInt 1, PInt 2]\<rparr>)]\<rparr>"

theorem stream_hit_blocks_cache_witness:
  "let s' = run cache_step (request True default_cache_settings 1 ''k'' 0 1 cached_stream) [Resume 0 2, Resume 0 2] in
   map_of (held s') CacheLock = Some (1, 1) \<and> map_of (frames s') 0 = Some (Finished (Failed ReleaseError)) \<and>
   request False default_cache_settings 2 ''other'' 1 2 s' = s'"
proof -
  have "map_of (held (run cache_step (request True default_cache_settings 1 ''k'' 0 1 cached_stream) [Resume 0 2, Resume 0 2])) CacheLock =
      Some (1, 1) \<and>
    request False default_cache_settings 2 ''other'' 1 2
      (run cache_step (request True default_cache_settings 1 ''k'' 0 1 cached_stream) [Resume 0 2, Resume 0 2]) =
      run cache_step (request True default_cache_settings 1 ''k'' 0 1 cached_stream) [Resume 0 2, Resume 0 2]"
    using stream_hit_blocks_cache
      [of cached_stream 0 default_cache_settings 1 "''k''" "PInt 1" "[PInt 2]" 1 "[Resume 0 2, Resume 0 2]" 2 False default_cache_settings 2 "''other''" 1]
    by (simp add: cached_stream_def empty_cache_def caching_def default_cache_settings_def live_entry_def prune_locked_def prune_size.simps)
  moreover have "map_of (frames (run cache_step (request True default_cache_settings 1 ''k'' 0 1 cached_stream) [Resume 0 2, Resume 0 2])) 0 =
      Some (Finished (Failed ReleaseError))" by code_simp
  ultimately show ?thesis by (simp add: Let_def)
qed

end
