(* ===== verification/WorkLimits.thy ===== *)
theory WorkLimits
  imports Prelude "HOL-Library.Multiset"
begin

text \<open>
  The limits on concurrent work. \<open>services/account_processing.py\<close>: the configured limits, the
  window over a batch of futures (\<open>bounded_future_results\<close>) and the re-entrant limiter.
  \<open>services/async_execution.py\<close>: blocking calls on behalf of asynchronous callers
  (\<open>BoundedExecution\<close>), whose slots outlive the callers and whose abandoned results are discarded.

  A section under a lock is one step. Threads, futures and calls are numbers; the batches in
  which futures complete, the order of the threads and the outcome of a call are arguments.
\<close>

section \<open>Configured limits\<close>

text \<open>The value of a setting; None when reading the configuration raises AttributeError.\<close>

definition configured_concurrency :: "pyval option \<Rightarrow> int \<Rightarrow> pyexc + int" where
  "configured_concurrency v d =
     (let number = (case v of None \<Rightarrow> Inr d | Some v \<Rightarrow>
            (case py_int v of Inl e \<Rightarrow> if e = TypeError \<or> e = ValueError then Inr d else Inl e | Inr n \<Rightarrow> Inr n)) in
      map_sum id (\<lambda>n. max 1 (min 100 n)) number)"

definition worker_count :: "int \<Rightarrow> int \<Rightarrow> int" where
  "worker_count item_count limit = min (max 0 item_count) limit"

section \<open>A window of futures\<close>

record 'a window =
  wd_rest :: "'a list"
  wd_pending :: "(nat \<times> 'a) list"
  wd_next :: nat
  wd_yielded :: "(nat \<times> 'a) list"

definition window_size :: "int \<Rightarrow> nat" where
  "window_size max_in_flight = nat (max 1 max_in_flight)"

text \<open>\<open>fill_window\<close>: the next item is submitted as the future \<open>wd_next\<close>.\<close>

definition submit_next :: "'a window \<Rightarrow> 'a window" where
  "submit_next w =
     (case wd_rest w of
        [] \<Rightarrow> w
      | x # xs \<Rightarrow> w\<lparr>wd_rest := xs, wd_pending := AList.update (wd_next w) x (wd_pending w), wd_next := wd_next w + 1\<rparr>)"

function fill_window :: "nat \<Rightarrow> 'a window \<Rightarrow> 'a window" where
  "fill_window k w =
     (if length (wd_pending w) < k \<and> wd_rest w \<noteq> [] then fill_window k (submit_next w) else w)"
  by pat_completeness auto
termination
  by (relation "measure (\<lambda>(k, w). length (wd_rest w))") (auto simp: submit_next_def split: list.split)

declare fill_window.simps [simp del]

definition open_window :: "nat \<Rightarrow> 'a list \<Rightarrow> 'a window" where
  "open_window k items = fill_window k \<lparr>wd_rest = items, wd_pending = [], wd_next = 0, wd_yielded = []\<rparr>"

text \<open>One completed future: it is popped and yielded, then the window is filled again. A future that
  is not pending is no completed one.\<close>

definition yield_future :: "nat \<Rightarrow> nat \<Rightarrow> 'a window \<Rightarrow> 'a window" where
  "yield_future k f w =
     (case map_of (wd_pending w) f of
        None \<Rightarrow> w
      | Some x \<Rightarrow> fill_window k (w\<lparr>wd_pending := AList.delete f (wd_pending w), wd_yielded := wd_yielded w @ [(f, x)]\<rparr>))"

text \<open>The loop: each element of the schedule is what one \<open>wait\<close> returns.\<close>

definition drain_window :: "nat \<Rightarrow> nat list list \<Rightarrow> 'a window \<Rightarrow> 'a window" where
  "drain_window k schedule w = fold (fold (yield_future k)) schedule w"

definition window_ok :: "nat \<Rightarrow> 'a list \<Rightarrow> 'a window \<Rightarrow> bool" where
  "window_ok k items w \<longleftrightarrow>
     distinct_keys (wd_pending w) \<and> list_all (\<lambda>p. fst p < wd_next w) (wd_pending w) \<and>
     length (wd_pending w) \<le> k \<and> (wd_rest w = [] \<or> length (wd_pending w) = k) \<and>
     mset items = mset (wd_rest w) + mset (map snd (wd_pending w)) + mset (map snd (wd_yielded w))"

lemma submit_next_parts:
  assumes "wd_rest w = x # xs" and "list_all (\<lambda>p. fst p < wd_next w) (wd_pending w)"
  shows "submit_next w = w\<lparr>wd_rest := xs, wd_pending := wd_pending w @ [(wd_next w, x)], wd_next := wd_next w + 1\<rparr>"
proof -
  have "map_of (wd_pending w) (wd_next w) = None" using assms(2) by (auto simp: map_of_eq_None_iff list_all_iff)
  then show ?thesis using assms(1) by (simp add: submit_next_def update_fresh)
qed

lemma fill_window_ok:
  "distinct_keys (wd_pending w) \<Longrightarrow> list_all (\<lambda>p. fst p < wd_next w) (wd_pending w) \<Longrightarrow> length (wd_pending w) \<le> k \<Longrightarrow>
   mset items = mset (wd_rest w) + mset (map snd (wd_pending w)) + mset (map snd (wd_yielded w)) \<Longrightarrow>
   window_ok k items (fill_window k w)"
proof (induction k w rule: fill_window.induct)
  case (1 k w)
  show ?case
  proof (cases "length (wd_pending w) < k \<and> wd_rest w \<noteq> []")
    case True
    then obtain x xs where rest: "wd_rest w = x # xs" by (auto simp: neq_Nil_conv)
    note sub = submit_next_parts [OF rest "1.prems"(2)]
    have "window_ok k items (fill_window k (submit_next w))"
    proof (rule "1.IH" [OF True])
      show "distinct_keys (wd_pending (submit_next w))" using "1.prems"(1,2) unfolding sub by (auto simp: distinct_keys_def list_all_iff)
      show "list_all (\<lambda>p. fst p < wd_next (submit_next w)) (wd_pending (submit_next w))"
        using "1.prems"(2) unfolding sub by (auto simp: list_all_iff)
      show "length (wd_pending (submit_next w)) \<le> k" using True unfolding sub by simp
      show "mset items = mset (wd_rest (submit_next w)) + mset (map snd (wd_pending (submit_next w))) + mset (map snd (wd_yielded (submit_next w)))"
        using "1.prems"(4) rest unfolding sub by simp
    qed
    with True show ?thesis by (subst fill_window.simps) simp
  next
    case False
    have "fill_window k w = w" unfolding fill_window.simps [of k w] if_not_P [OF False] ..
    with False "1.prems" show ?thesis by (auto simp: window_ok_def)
  qed
qed

lemma mset_delete: "distinct_keys d \<Longrightarrow> map_of d f = Some x \<Longrightarrow> mset (map snd d) = mset (map snd (AList.delete f d)) + {#x#}"
proof (induction d)
  case (Cons p d)
  show ?case
  proof (cases "fst p = f")
    case True
    then have "map_of d f = None" using Cons.prems(1) by (simp add: distinct_keys_def map_of_eq_None_iff)
    with True Cons.prems(2) show ?thesis by (cases p) (simp add: delete_fresh)
  next
    case False
    with Cons show ?thesis by (cases p) (simp add: distinct_keys_def)
  qed
qed simp

lemma yield_future_ok:
  assumes ok: "window_ok k items w"
  shows "window_ok k items (yield_future k f w)"
proof (cases "map_of (wd_pending w) f")
  case None
  with ok show ?thesis by (simp add: yield_future_def)
next
  case (Some x)
  let ?d = "AList.delete f (wd_pending w)"
  have d: "distinct_keys ?d" "length ?d \<le> k"
    using ok length_delete_le [of f "wd_pending w"] by (auto simp: window_ok_def)
  have "list_all (\<lambda>p. fst p < wd_next w) ?d" using ok by (auto simp: window_ok_def list_all_iff AList.delete_eq)
  note d = d this
  have "mset items = mset (wd_rest w) + mset (map snd ?d) + mset (map snd (wd_yielded w @ [(f, x)]))"
    using ok mset_delete [of "wd_pending w" f x] Some by (simp add: window_ok_def)
  with d show ?thesis unfolding yield_future_def using Some by (auto intro!: fill_window_ok)
qed

lemma drain_window_ok: "window_ok k items w \<Longrightarrow> window_ok k items (drain_window k schedule w)"
proof -
  have one: "window_ok k items w \<Longrightarrow> window_ok k items (fold (yield_future k) fs w)" for fs w
    by (induction fs arbitrary: w) (auto intro: yield_future_ok)
  show "window_ok k items w \<Longrightarrow> window_ok k items (drain_window k schedule w)"
    unfolding drain_window_def by (induction schedule arbitrary: w) (auto intro: one)
qed

lemma open_window_ok: "window_ok k items (open_window k items)"
  unfolding open_window_def by (rule fill_window_ok) simp_all


section \<open>The re-entrant limiter\<close>

record limiter =
  lm_active :: int
  lm_waiting :: int
  lm_depth :: "(nat \<times> nat) list"
  lm_queue :: "nat list"

definition new_limiter :: limiter where
  "new_limiter = \<lparr>lm_active = 0, lm_waiting = 0, lm_depth = [], lm_queue = []\<rparr>"

definition thread_depth :: "limiter \<Rightarrow> nat \<Rightarrow> nat" where
  "thread_depth s t = (case map_of (lm_depth s) t of None \<Rightarrow> 0 | Some n \<Rightarrow> n)"

text \<open>\<open>slot\<close>: entering (at once when the thread is inside already), a turn of the waiting loop with the
  limit it reads, giving up the wait, and leaving.\<close>

datatype limiter_op = Enter nat | TryTurn nat int | GiveUp nat | Leave nat

fun limiter_step :: "limiter \<Rightarrow> limiter_op \<Rightarrow> limiter" where
  "limiter_step s (Enter t) =
     (if 0 < thread_depth s t then s\<lparr>lm_depth := AList.update t (thread_depth s t + 1) (lm_depth s)\<rparr>
      else s\<lparr>lm_waiting := lm_waiting s + 1, lm_queue := t # lm_queue s\<rparr>)"
| "limiter_step s (TryTurn t limit) =
     (if limit \<le> lm_active s then s
      else s\<lparr>lm_active := lm_active s + 1, lm_waiting := max 0 (lm_waiting s - 1), lm_queue := removeAll t (lm_queue s),
             lm_depth := AList.update t 1 (lm_depth s)\<rparr>)"
| "limiter_step s (GiveUp t) = s\<lparr>lm_waiting := max 0 (lm_waiting s - 1), lm_queue := removeAll t (lm_queue s)\<rparr>"
| "limiter_step s (Leave t) =
     (if thread_depth s t = 1
      then s\<lparr>lm_depth := AList.update t 0 (lm_depth s), lm_active := max 0 (lm_active s - 1)\<rparr>
      else s\<lparr>lm_depth := AList.update t (thread_depth s t - 1) (lm_depth s)\<rparr>)"

text \<open>A thread that waits does nothing else; only a waiting one takes turns and only one inside leaves.\<close>

fun limiter_allowed :: "int \<Rightarrow> limiter \<Rightarrow> limiter_op \<Rightarrow> bool" where
  "limiter_allowed m s (Enter t) = (t \<notin> set (lm_queue s))"
| "limiter_allowed m s (TryTurn t limit) = (t \<in> set (lm_queue s) \<and> limit \<le> m)"
| "limiter_allowed m s (GiveUp t) = (t \<in> set (lm_queue s))"
| "limiter_allowed m s (Leave t) = (0 < thread_depth s t \<and> t \<notin> set (lm_queue s))"

definition inside :: "limiter \<Rightarrow> nat list" where
  "inside s = map fst (filter (\<lambda>p. 0 < snd p) (lm_depth s))"

definition limiter_ok :: "int \<Rightarrow> limiter \<Rightarrow> bool" where
  "limiter_ok m s \<longleftrightarrow>
     distinct_keys (lm_depth s) \<and> distinct (lm_queue s) \<and> list_all (\<lambda>t. thread_depth s t = 0) (lm_queue s) \<and>
     lm_active s = int (length (inside s)) \<and> lm_waiting s = int (length (lm_queue s)) \<and> lm_active s \<le> max 0 m"

definition is_inside :: "nat \<Rightarrow> int" where
  "is_inside n = (if 0 < n then 1 else 0)"

lemma inside_ksum: "int (length (inside s)) = ksum is_inside (lm_depth s)"
proof -
  have "int (length (map fst (filter (\<lambda>p. 0 < snd p) d))) = ksum is_inside d" for d :: "(nat \<times> nat) list"
    by (induction d) (auto simp: is_inside_def)
  then show ?thesis by (simp add: inside_def)
qed

lemma inside_iff: "distinct_keys (lm_depth s) \<Longrightarrow> t \<in> set (inside s) \<longleftrightarrow> 0 < thread_depth s t"
proof -
  assume d: "distinct_keys (lm_depth s)"
  have "t \<in> set (inside s) \<longleftrightarrow> (\<exists>n. 0 < n \<and> (t, n) \<in> set (lm_depth s))" by (force simp: inside_def)
  also have "\<dots> \<longleftrightarrow> (\<exists>n. 0 < n \<and> map_of (lm_depth s) t = Some n)" using d by (simp add: distinct_keys_def)
  also have "\<dots> \<longleftrightarrow> 0 < thread_depth s t" by (auto simp: thread_depth_def split: option.splits)
  finally show ?thesis .
qed

lemma distinct_inside: "distinct_keys (lm_depth s) \<Longrightarrow> distinct (inside s)"
  by (simp add: inside_def distinct_keys_def distinct_map_filter)

lemma ksum_depth: "distinct_keys (lm_depth s) \<Longrightarrow>
  ksum is_inside (AList.update t n (lm_depth s)) = ksum is_inside (lm_depth s) + is_inside n - is_inside (thread_depth s t)"
  by (cases "map_of (lm_depth s) t") (simp_all add: thread_depth_def dict_sum_rules is_inside_def)

lemma length_removeAll_distinct: "distinct xs \<Longrightarrow> x \<in> set xs \<Longrightarrow> int (length (removeAll x xs)) = int (length xs) - 1"
  by (induction xs) (auto simp: removeAll_id)

interpretation limiter_machine: guarded_machine limiter_step "limiter_allowed m" "limiter_ok m" for m
proof
  fix s x
  assume ok: "limiter_ok m s" and allowed: "limiter_allowed m s x"
  note parts = ok [unfolded limiter_ok_def inside_ksum]
  have sum: "ksum is_inside (AList.update t n (lm_depth s)) = lm_active s + is_inside n - is_inside (thread_depth s t)" for t n
    using parts by (simp add: ksum_depth)
  have queue: "t \<in> set (lm_queue s) \<Longrightarrow> thread_depth s t = 0" for t using parts by (simp add: list_all_iff)
  have depth: "thread_depth (s\<lparr>lm_depth := AList.update t n (lm_depth s)\<rparr>) u = (if u = t then n else thread_depth s u)" for t n u
    by (simp add: thread_depth_def)
  show "limiter_ok m (limiter_step s x)"
  proof (cases x)
    case (Enter t)
    then show ?thesis using parts allowed queue sum [of t "thread_depth s t + 1"]
      by (auto simp: limiter_ok_def inside_ksum thread_depth_def list_all_iff is_inside_def)
  next
    case (TryTurn t limit)
    then show ?thesis using parts allowed queue sum [of t 1] length_removeAll_distinct [of "lm_queue s" t]
      by (auto simp: limiter_ok_def inside_ksum thread_depth_def list_all_iff is_inside_def distinct_removeAll)
  next
    case (GiveUp t)
    then show ?thesis using parts allowed length_removeAll_distinct [of "lm_queue s" t]
      by (auto simp: limiter_ok_def inside_ksum thread_depth_def list_all_iff distinct_removeAll)
  next
    case (Leave t)
    have "0 \<le> ksum is_inside (AList.update t 0 (lm_depth s))" by (rule ksum_nonneg) (simp add: is_inside_def)
    then show ?thesis using Leave parts allowed queue sum [of t 0] sum [of t "thread_depth s t - 1"]
      by (auto simp: limiter_ok_def inside_ksum thread_depth_def list_all_iff is_inside_def)
  qed
qed


lemma limiter_facts:
  assumes ok: "limiter_ok m s"
  shows "lm_active s = int (length (inside s)) \<and> distinct (inside s) \<and> lm_active s \<le> max 0 m \<and>
    lm_waiting s = int (length (lm_queue s)) \<and>
    (if t \<in> set (inside s) then t \<in> set (inside (limiter_step s (Enter t))) \<and>
       lm_active (limiter_step s (Enter t)) = lm_active s \<and> lm_queue (limiter_step s (Enter t)) = lm_queue s
     else True)"
proof -
  have d: "distinct_keys (lm_depth s)" using ok by (simp add: limiter_ok_def)
  have "t \<in> set (inside (limiter_step s (Enter t))) \<and> lm_active (limiter_step s (Enter t)) = lm_active s \<and>
      lm_queue (limiter_step s (Enter t)) = lm_queue s" if "t \<in> set (inside s)"
  proof -
    have "0 < thread_depth s t" using that inside_iff [OF d, of t] by simp
    then show ?thesis using d inside_iff [of "limiter_step s (Enter t)" t] by (simp add: thread_depth_def)
  qed
  with ok distinct_inside [OF d] show ?thesis by (simp add: limiter_ok_def)
qed

section \<open>Bounded execution\<close>

text \<open>
  One call of \<open>run\<close>: its callback waits in the executor's queue, runs, has returned, has left its
  slot, and is done (the future carries its outcome). Its awaiter waits, has its result, or is gone;
  \<open>cl_called\<close> is set by the done callback of the future, \<open>cl_disposals\<close> counts the discarded results.
\<close>

datatype phase = Queued | Running | Returning bool | Left bool | Done bool

datatype awaiter = Waits | Served | Gone

record exec_call =
  cl_phase :: phase
  cl_awaiter :: awaiter
  cl_called :: bool
  cl_executed :: bool
  cl_disposals :: nat

record execution =
  ex_workers :: int
  ex_capacity :: int
  ex_accepted :: int
  ex_active :: int
  ex_calls :: "(nat \<times> exec_call) list"

definition new_execution :: "int \<Rightarrow> int \<Rightarrow> execution" where
  "new_execution workers queue =
     \<lparr>ex_workers = max 1 workers, ex_capacity = max 1 workers + max 0 queue, ex_accepted = 0, ex_active = 0, ex_calls = []\<rparr>"

definition new_exec_call :: exec_call where
  "new_exec_call = \<lparr>cl_phase = Queued, cl_awaiter = Waits, cl_called = False, cl_executed = False, cl_disposals = 0\<rparr>"

text \<open>\<open>dispose\<close>: at most once.\<close>

definition dispose :: "exec_call \<Rightarrow> exec_call" where
  "dispose c = (if 0 < cl_disposals c then c else c\<lparr>cl_disposals := 1\<rparr>)"

text \<open>A shutdown cancels the queued futures; \<open>invoke\<close>, entered with the deadline passed or the event loop closed (\<open>expired\<close>), returning a result
  or raising, and giving back its slot; the future takes the outcome; \<open>completed\<close>; the awaiter
  leaves (at a timeout, a cancellation or an error) or takes the outcome.\<close>

datatype exec_op = Admit nat | CancelQueued nat | Invoke nat bool | Return nat bool | LeaveSlot nat | Resolve nat | Completed nat | Abandon nat | TakeResult nat

definition with_call :: "nat \<Rightarrow> (exec_call \<Rightarrow> exec_call) \<Rightarrow> execution \<Rightarrow> execution" where
  "with_call i f x = (case map_of (ex_calls x) i of None \<Rightarrow> x | Some c \<Rightarrow> x\<lparr>ex_calls := AList.update i (f c) (ex_calls x)\<rparr>)"

definition outcome_ok :: "phase \<Rightarrow> bool" where
  "outcome_ok ph = (case ph of Done r \<Rightarrow> r | _ \<Rightarrow> False)"

fun exec_step :: "execution \<Rightarrow> exec_op \<Rightarrow> execution" where
  "exec_step x (Admit i) =
     (if ex_capacity x \<le> ex_accepted x then x
      else x\<lparr>ex_accepted := ex_accepted x + 1, ex_calls := AList.update i new_exec_call (ex_calls x)\<rparr>)"
| "exec_step x (CancelQueued i) = with_call i (\<lambda>c. c\<lparr>cl_phase := Done False\<rparr>) x"
| "exec_step x (Invoke i expired) =
     with_call i (\<lambda>c. if cl_awaiter c = Gone \<or> expired then c\<lparr>cl_phase := Returning False\<rparr>
       else c\<lparr>cl_phase := Running, cl_executed := True\<rparr>) (x\<lparr>ex_active := ex_active x + 1\<rparr>)"
| "exec_step x (Return i r) =
     with_call i (\<lambda>c. let c = (if r \<and> cl_awaiter c = Gone then dispose c else c) in c\<lparr>cl_phase := Returning r\<rparr>) x"
| "exec_step x (LeaveSlot i) =
     with_call i (\<lambda>c. case cl_phase c of Returning r \<Rightarrow> c\<lparr>cl_phase := Left r\<rparr> | _ \<Rightarrow> c) (x\<lparr>ex_active := ex_active x - 1\<rparr>)"
| "exec_step x (Resolve i) = with_call i (\<lambda>c. case cl_phase c of Left r \<Rightarrow> c\<lparr>cl_phase := Done r\<rparr> | _ \<Rightarrow> c) x"
| "exec_step x (Completed i) =
     with_call i (\<lambda>c. (if cl_awaiter c = Gone \<and> outcome_ok (cl_phase c) then dispose c else c)\<lparr>cl_called := True\<rparr>)
       (x\<lparr>ex_accepted := ex_accepted x - 1\<rparr>)"
| "exec_step x (Abandon i) =
     with_call i (\<lambda>c. (if outcome_ok (cl_phase c) then dispose c else c)\<lparr>cl_awaiter := Gone\<rparr>) x"
| "exec_step x (TakeResult i) = with_call i (\<lambda>c. c\<lparr>cl_awaiter := Served\<rparr>) x"

text \<open>A call goes through its phases in order; the executor has as many threads as workers.\<close>

definition is_done :: "phase \<Rightarrow> bool" where
  "is_done ph = (case ph of Done _ \<Rightarrow> True | _ \<Rightarrow> False)"

definition call_has :: "execution \<Rightarrow> nat \<Rightarrow> (exec_call \<Rightarrow> bool) \<Rightarrow> bool" where
  "call_has x i P = (case map_of (ex_calls x) i of None \<Rightarrow> False | Some c \<Rightarrow> P c)"

fun exec_allowed :: "execution \<Rightarrow> exec_op \<Rightarrow> bool" where
  "exec_allowed x (Admit i) = (map_of (ex_calls x) i = None)"
| "exec_allowed x (CancelQueued i) = call_has x i (\<lambda>c. cl_phase c = Queued)"
| "exec_allowed x (Invoke i expired) = (call_has x i (\<lambda>c. cl_phase c = Queued) \<and> ex_active x < ex_workers x)"
| "exec_allowed x (Return i r) = call_has x i (\<lambda>c. cl_phase c = Running)"
| "exec_allowed x (LeaveSlot i) = call_has x i (\<lambda>c. case cl_phase c of Returning _ \<Rightarrow> True | _ \<Rightarrow> False)"
| "exec_allowed x (Resolve i) = call_has x i (\<lambda>c. case cl_phase c of Left _ \<Rightarrow> True | _ \<Rightarrow> False)"
| "exec_allowed x (Completed i) =
     call_has x i (\<lambda>c. \<not> cl_called c \<and> is_done (cl_phase c))"
| "exec_allowed x (Abandon i) = call_has x i (\<lambda>c. cl_awaiter c = Waits)"
| "exec_allowed x (TakeResult i) = call_has x i (\<lambda>c. cl_awaiter c = Waits \<and> is_done (cl_phase c))"

definition holds_slot :: "exec_call \<Rightarrow> int" where
  "holds_slot c = (case cl_phase c of Running \<Rightarrow> 1 | Returning _ \<Rightarrow> 1 | _ \<Rightarrow> 0)"

definition holds_place :: "exec_call \<Rightarrow> int" where
  "holds_place c = (if cl_called c then 0 else 1)"

text \<open>What is known of one call.\<close>

definition discard_ok :: "exec_call \<Rightarrow> bool \<Rightarrow> bool" where
  "discard_ok c r \<longleftrightarrow>
     (cl_disposals c = 0 \<or> cl_disposals c = 1 \<and> cl_awaiter c = Gone \<and> r) \<and> (r \<longrightarrow> cl_executed c)"

definition call_ok :: "exec_call \<Rightarrow> bool" where
  "call_ok c \<longleftrightarrow>
     (case cl_phase c of
        Queued \<Rightarrow> \<not> cl_called c \<and> cl_awaiter c \<noteq> Served \<and> cl_disposals c = 0
      | Running \<Rightarrow> \<not> cl_called c \<and> cl_awaiter c \<noteq> Served \<and> cl_disposals c = 0 \<and> cl_executed c
      | Returning r \<Rightarrow> \<not> cl_called c \<and> cl_awaiter c \<noteq> Served \<and> discard_ok c r
      | Left r \<Rightarrow> \<not> cl_called c \<and> cl_awaiter c \<noteq> Served \<and> discard_ok c r
      | Done r \<Rightarrow> discard_ok c r \<and> (cl_called c \<and> cl_awaiter c = Gone \<and> r \<longrightarrow> cl_disposals c = 1))"

definition exec_ok :: "execution \<Rightarrow> bool" where
  "exec_ok x \<longleftrightarrow>
     distinct_keys (ex_calls x) \<and> list_all (\<lambda>p. call_ok (snd p)) (ex_calls x) \<and>
     ex_accepted x = ksum holds_place (ex_calls x) \<and> ex_active x = ksum holds_slot (ex_calls x) \<and>
     ex_accepted x \<le> ex_capacity x \<and> ex_active x \<le> ex_workers x"

lemma is_done_iff: "is_done ph \<longleftrightarrow> (\<exists>r. ph = Done r)"
  by (cases ph) (simp_all add: is_done_def)

lemma exec_sizes: "ex_capacity (exec_step x y) = ex_capacity x \<and> ex_workers (exec_step x y) = ex_workers x"
  by (cases y) (simp_all add: with_call_def split: option.split)

lemma run_sizes: "ex_capacity (run exec_step x ys) = ex_capacity x \<and> ex_workers (run exec_step x ys) = ex_workers x"
  by (induction ys arbitrary: x) (simp_all add: exec_sizes)

lemma ksum_places: "ksum holds_place d = int (length (filter (\<lambda>p. \<not> cl_called (snd p)) d))"
  by (induction d) (auto simp: holds_place_def)

lemma call_over: "call_ok c \<Longrightarrow> cl_called c \<Longrightarrow> cl_disposals c = (if cl_awaiter c = Gone \<and> cl_phase c = Done True then 1 else 0)"
  by (auto simp: call_ok_def discard_ok_def split: phase.splits)

lemma with_call_ok:
  assumes "distinct_keys (ex_calls x)" and "list_all (\<lambda>p. call_ok (snd p)) (ex_calls x)" and "map_of (ex_calls x) i = Some c"
    and "call_ok (f c)"
    and "ex_accepted x + holds_place c = ksum holds_place (ex_calls x) + holds_place (f c)"
    and "ex_active x + holds_slot c = ksum holds_slot (ex_calls x) + holds_slot (f c)"
    and "ex_accepted x \<le> ex_capacity x" and "ex_active x \<le> ex_workers x"
  shows "exec_ok (with_call i f x)"
  using assms update_list_all [of "\<lambda>p. call_ok (snd p)" "ex_calls x" i "f c"]
  by (simp add: exec_ok_def with_call_def ksum_update_int)

lemma call_okD: "list_all (\<lambda>p. call_ok (snd p)) d \<Longrightarrow> map_of d i = Some c \<Longrightarrow> call_ok c"
  by (auto simp: list_all_iff dest!: map_of_SomeD)

lemmas call_defs = call_ok_def discard_ok_def outcome_ok_def dispose_def is_done_def Let_def

text \<open>What each step does to its call, from the phases the call can be in.\<close>

lemma call_cancel: "call_ok c \<Longrightarrow> cl_phase c = Queued \<Longrightarrow> call_ok (c\<lparr>cl_phase := Done False\<rparr>)"
  and call_invoke: "call_ok c \<Longrightarrow> cl_phase c = Queued \<Longrightarrow>
    call_ok (if cl_awaiter c = Gone \<or> expired then c\<lparr>cl_phase := Returning False\<rparr> else c\<lparr>cl_phase := Running, cl_executed := True\<rparr>)"
  and call_return: "call_ok c \<Longrightarrow> cl_phase c = Running \<Longrightarrow>
    call_ok (let c = (if r \<and> cl_awaiter c = Gone then dispose c else c) in c\<lparr>cl_phase := Returning r\<rparr>)"
  and call_leave: "call_ok c \<Longrightarrow> cl_phase c = Returning r \<Longrightarrow> call_ok (c\<lparr>cl_phase := Left r\<rparr>)"
  and call_resolve: "call_ok c \<Longrightarrow> cl_phase c = Left r \<Longrightarrow> call_ok (c\<lparr>cl_phase := Done r\<rparr>)"
  and call_completed: "call_ok c \<Longrightarrow> cl_phase c = Done r \<Longrightarrow>
    call_ok ((if cl_awaiter c = Gone \<and> outcome_ok (Done r) then dispose c else c)\<lparr>cl_called := True\<rparr>)"
  and call_take: "call_ok c \<Longrightarrow> cl_awaiter c = Waits \<Longrightarrow> cl_phase c = Done r \<Longrightarrow> call_ok (c\<lparr>cl_awaiter := Served\<rparr>)"
  by (simp_all add: call_defs, (cases "cl_disposals c = 0"; simp)+)

lemma call_abandon: "call_ok c \<Longrightarrow> cl_awaiter c = Waits \<Longrightarrow>
    call_ok ((if outcome_ok (cl_phase c) then dispose c else c)\<lparr>cl_awaiter := Gone\<rparr>)"
  by (cases "cl_phase c") (auto simp: call_defs split: if_splits)

lemma dispose_parts [simp]:
  "cl_phase (dispose c) = cl_phase c" "cl_called (dispose c) = cl_called c"
  by (simp_all add: dispose_def)

interpretation exec_machine: guarded_machine exec_step exec_allowed exec_ok
proof
  fix x y
  assume ok: "exec_ok x" and allowed: "exec_allowed x y"
  note parts = ok [unfolded exec_ok_def]
  have call: "call_has x i P \<Longrightarrow> \<exists>c. map_of (ex_calls x) i = Some c \<and> P c \<and> call_ok c" for i P
    using call_okD [of "ex_calls x" i] parts by (auto simp: call_has_def split: option.splits)
  show "exec_ok (exec_step x y)"
  proof (cases y)
    case (Admit i)
    have "call_ok new_exec_call" by (simp add: call_defs new_exec_call_def)
    then show ?thesis using parts allowed Admit update_list_all [of "\<lambda>p. call_ok (snd p)" "ex_calls x" i new_exec_call]
      by (auto simp: exec_ok_def ksum_update_fresh new_exec_call_def holds_place_def holds_slot_def)
  next
    case (CancelQueued i)
    with allowed call [of i] obtain c where "map_of (ex_calls x) i = Some c" "cl_phase c = Queued" "call_ok c" by auto
    then show ?thesis unfolding CancelQueued exec_step.simps using parts
      by (intro with_call_ok [of _ _ c]) (simp_all add: holds_slot_def holds_place_def Let_def call_cancel)
  next
    case (Invoke i expired)
    with allowed call [of i] obtain c where "map_of (ex_calls x) i = Some c" "cl_phase c = Queued" "call_ok c" by auto
    moreover have "ex_active x < ex_workers x" using allowed Invoke by simp
    ultimately show ?thesis unfolding Invoke exec_step.simps using parts
      by (intro with_call_ok [of _ _ c]) (simp_all add: holds_slot_def holds_place_def Let_def call_invoke)
  next
    case (Return i r)
    with allowed call [of i] obtain c where "map_of (ex_calls x) i = Some c" "cl_phase c = Running" "call_ok c" by auto
    then show ?thesis unfolding Return exec_step.simps using parts
      by (intro with_call_ok [of _ _ c]) (simp_all add: holds_slot_def holds_place_def Let_def call_return [unfolded Let_def])
  next
    case (LeaveSlot i)
    from call [OF allowed [unfolded LeaveSlot exec_allowed.simps]] obtain c where c: "map_of (ex_calls x) i = Some c" "call_ok c"
      and "case cl_phase c of Returning _ \<Rightarrow> True | _ \<Rightarrow> False" by blast
    from this(3) obtain r where "cl_phase c = Returning r" by (cases "cl_phase c") auto
    with c show ?thesis unfolding LeaveSlot exec_step.simps using parts
      by (intro with_call_ok [of _ _ c]) (simp_all add: holds_slot_def holds_place_def Let_def call_leave)
  next
    case (Resolve i)
    from call [OF allowed [unfolded Resolve exec_allowed.simps]] obtain c where c: "map_of (ex_calls x) i = Some c" "call_ok c"
      and "case cl_phase c of Left _ \<Rightarrow> True | _ \<Rightarrow> False" by blast
    from this(3) obtain r where "cl_phase c = Left r" by (cases "cl_phase c") auto
    with c show ?thesis unfolding Resolve exec_step.simps using parts
      by (intro with_call_ok [of _ _ c]) (simp_all add: holds_slot_def holds_place_def Let_def call_resolve)
  next
    case (Completed i)
    from call [OF allowed [unfolded Completed exec_allowed.simps]] obtain c where c: "map_of (ex_calls x) i = Some c" "call_ok c"
      "\<not> cl_called c" and "is_done (cl_phase c)" by blast
    from this(4) obtain r where "cl_phase c = Done r" by (auto simp: is_done_iff)
    with c show ?thesis unfolding Completed exec_step.simps using parts
      by (intro with_call_ok [of _ _ c]) (simp_all add: holds_slot_def holds_place_def call_completed del: if_split)
  next
    case (Abandon i)
    with allowed call [of i] obtain c where "map_of (ex_calls x) i = Some c" "cl_awaiter c = Waits" "call_ok c" by auto
    then show ?thesis unfolding Abandon exec_step.simps using parts
      by (intro with_call_ok [of _ _ c]) (simp_all add: holds_slot_def holds_place_def Let_def call_abandon)
  next
    case (TakeResult i)
    from call [OF allowed [unfolded TakeResult exec_allowed.simps]] obtain c where c: "map_of (ex_calls x) i = Some c" "call_ok c"
      "cl_awaiter c = Waits" and "is_done (cl_phase c)" by blast
    from this(4) obtain r where "cl_phase c = Done r" by (auto simp: is_done_iff)
    with c show ?thesis unfolding TakeResult exec_step.simps using parts
      by (intro with_call_ok [of _ _ c]) (simp_all add: holds_slot_def holds_place_def Let_def call_take)
  qed
qed

lemma exec_facts:
  assumes "exec_ok x"
  shows "ex_accepted x \<le> ex_capacity x \<and> ex_active x \<le> ex_workers x \<and>
    ex_accepted x = int (length (filter (\<lambda>p. \<not> cl_called (snd p)) (ex_calls x))) \<and>
    list_all (\<lambda>p. cl_disposals (snd p) = (if cl_awaiter (snd p) = Gone \<and> cl_phase (snd p) = Done True then 1 else 0))
      (filter (\<lambda>p. cl_called (snd p)) (ex_calls x))"
proof (intro conjI)
  show "list_all (\<lambda>p. cl_disposals (snd p) = (if cl_awaiter (snd p) = Gone \<and> cl_phase (snd p) = Done True then 1 else 0))
      (filter (\<lambda>p. cl_called (snd p)) (ex_calls x))"
    using assms call_over unfolding exec_ok_def list_all_iff set_filter by blast
qed (use assms in \<open>simp_all add: exec_ok_def ksum_places\<close>)

section \<open>Properties\<close>

text \<open>A batch run through a window of futures loses and repeats nothing, in whatever batches its futures
  complete: never more futures are pending than the window holds, the items yielded, pending and
  not yet submitted are together the items of the batch, and when nothing is pending every item has
  been yielded.\<close>

theorem window_yields_all:
  "let k = window_size max_in_flight; w = drain_window k schedule (open_window k items) in
   length (wd_pending w) \<le> k \<and>
   mset items = mset (wd_rest w) + mset (map snd (wd_pending w)) + mset (map snd (wd_yielded w)) \<and>
   (if wd_pending w = [] then mset (map snd (wd_yielded w)) = mset items else True)"
proof -
  let ?k = "window_size max_in_flight"
  let ?w = "drain_window ?k schedule (open_window ?k items)"
  have ok: "window_ok ?k items ?w" by (intro drain_window_ok open_window_ok)
  have "0 < ?k" by (simp add: window_size_def)
  with ok have "wd_rest ?w = []" if "wd_pending ?w = []" using that by (auto simp: window_ok_def)
  with ok show ?thesis by (simp add: window_ok_def Let_def)
qed


text \<open>The limiter: whatever threads enter, wait, give up and leave, and however its limit moves, the
  active count is the number of threads inside, the waiting count that of the threads that wait,
  no more threads are inside than the largest limit read, and a thread that is inside enters again
  at once without taking a second slot.\<close>

theorem limiter_counts:
  "if allowed_run (limiter_allowed m) limiter_step new_limiter ops then
     (let s = run limiter_step new_limiter ops in
      lm_active s = int (length (inside s)) \<and> distinct (inside s) \<and> lm_active s \<le> max 0 m \<and>
      lm_waiting s = int (length (lm_queue s)) \<and>
      (if t \<in> set (inside s) then t \<in> set (inside (limiter_step s (Enter t))) \<and>
         lm_active (limiter_step s (Enter t)) = lm_active s \<and> lm_queue (limiter_step s (Enter t)) = lm_queue s
       else True))
   else True"
proof (cases "allowed_run (limiter_allowed m) limiter_step new_limiter ops")
  case True
  have "limiter_ok m new_limiter" by (simp add: limiter_ok_def inside_def new_limiter_def)
  from limiter_machine.run_inv [OF this True] show ?thesis unfolding Let_def if_P [OF True] by (rule limiter_facts)
next
  case False
  show ?thesis unfolding if_not_P [OF False] by (rule TrueI)
qed

end
