(* ===== verification/ProxyEgress.thy ===== *)
theory ProxyEgress
  imports Prelude
begin

text \<open>
  The outbound proxies of \<open>services/proxy_service.py\<close>: which proxy a request leaves through
  (\<open>ProxySettingsStore.get_profile\<close>), the choice of a node of a proxy group and its image capacity
  (\<open>_resolve_proxy_group\<close>, \<open>acquire_image_egress\<close>, \<open>release_image_egress\<close>), the clearance
  bundles with their cookies and headers, and the texts of proxy addresses.

  The settings that the store reads are arguments; \<open>urlparse\<close> and the answer of a clearance
  provider's HTTP request are arguments too, the random choice of a node is an index. A section
  under the egress condition is one step, and a turn of a waiting loop gets the clock and the
  counters as it finds them.
\<close>

section \<open>Text\<close>

definition starts_with :: "string \<Rightarrow> string \<Rightarrow> bool" where
  "starts_with p s \<longleftrightarrow> take (length p) s = p"

fun contains :: "string \<Rightarrow> string \<Rightarrow> bool" where
  "contains p [] = (p = [])"
| "contains p (c # cs) = (starts_with p (c # cs) \<or> contains p cs)"

text \<open>\<open>s.split(c, n)\<close> and \<open>s.split(c)\<close>.\<close>

fun split_max :: "nat \<Rightarrow> char \<Rightarrow> string \<Rightarrow> string list" where
  "split_max 0 c s = [s]"
| "split_max (Suc n) c s =
     (case split_at (\<lambda>d. d = c) s of (a, None) \<Rightarrow> [a] | (a, Some r) \<Rightarrow> a # split_max n c r)"

fun split_char :: "char \<Rightarrow> string \<Rightarrow> string list" where
  "split_char c [] = [[]]"
| "split_char c (x # xs) = (if x = c then [] # split_char c xs else (case split_char c xs of p # ps \<Rightarrow> (x # p) # ps | [] \<Rightarrow> [[x]]))"

fun join :: "string \<Rightarrow> string list \<Rightarrow> string" where
  "join sep [] = []"
| "join sep [x] = x"
| "join sep (x # y # ys) = x @ sep @ join sep (y # ys)"

definition is_decimal :: "string \<Rightarrow> bool" where
  "is_decimal s \<longleftrightarrow> s \<noteq> [] \<and> list_all is_digit s"

text \<open>\<open>urllib.parse.quote(s, safe="")\<close>.\<close>

definition is_unreserved :: "char \<Rightarrow> bool" where
  "is_unreserved c \<longleftrightarrow> is_digit c \<or> (let n = (of_char (lower_char c) :: nat) in 97 \<le> n \<and> n \<le> 122) \<or> c \<in> set ''_.-~''"

definition upper_hex :: "nat \<Rightarrow> char" where
  "upper_hex n = (if n < 10 then char_of (48 + n) else char_of (55 + n))"

definition quote :: "string \<Rightarrow> string" where
  "quote s = concat (map (\<lambda>c. if is_unreserved c then [c]
     else [CHR ''%'', upper_hex (of_char c div 16), upper_hex (of_char c mod 16)]) s)"

definition colon_proxy_to_url :: "string \<Rightarrow> string" where
  "colon_proxy_to_url url =
     (case split_max 3 (CHR '':'') url of
        [host, port, username, password] \<Rightarrow>
          if is_decimal port then ''http://'' @ quote username @ '':'' @ quote password @ ''@'' @ host @ '':'' @ port else url
      | [host, port] \<Rightarrow> if is_decimal port then ''http://'' @ url else url
      | _ \<Rightarrow> url)"

definition normalize_proxy_url :: "string \<Rightarrow> string" where
  "normalize_proxy_url url =
     (let candidate = strip url;
          candidate = (if candidate \<noteq> [] \<and> \<not> contains ''://'' candidate then colon_proxy_to_url candidate else candidate);
          lowered = lower candidate in
      if starts_with ''socks://'' lowered then ''socks5h://'' @ drop 8 candidate
      else if starts_with ''socks5://'' lowered then ''socks5h://'' @ drop 9 candidate
      else candidate)"

definition egress_key_for_proxy :: "string \<Rightarrow> string" where
  "egress_key_for_proxy proxy_url =
     (let normalized = normalize_proxy_url (strip proxy_url) in
      if normalized \<noteq> [] then ''proxy:'' @ normalized else ''direct'')"

definition normalize_host :: "string \<Rightarrow> string" where
  "normalize_host host =
     (let s = strip host; s = dropWhile (\<lambda>c. c = CHR ''.'') s in lower (rev (dropWhile (\<lambda>c. c = CHR ''.'') (rev s))))"

section \<open>Nodes of a proxy group\<close>

text \<open>\<open>d.get(k, v)\<close>.\<close>

definition get_default :: "pydict \<Rightarrow> string \<Rightarrow> pyval \<Rightarrow> pyval" where
  "get_default d k v = (case map_of d k of None \<Rightarrow> v | Some w \<Rightarrow> w)"

definition concurrency_fields :: "string list" where
  "concurrency_fields = [''image_concurrency_limit'', ''image_concurrency'', ''max_image_concurrency'']"

definition node_limit :: "pydict \<Rightarrow> int" where
  "node_limit node =
     (case List.find (\<lambda>k. field node k \<noteq> PNone \<and> field node k \<noteq> PStr []) concurrency_fields of
        None \<Rightarrow> 30
      | Some k \<Rightarrow>
          (case py_float (field node k) of
             Inl _ \<Rightarrow> 30
           | Inr x \<Rightarrow> (case py_int (PFloat x) of Inl _ \<Rightarrow> 30 | Inr n \<Rightarrow> max 0 (min n 10000))))"

definition node_id :: "pydict \<Rightarrow> nat \<Rightarrow> string" where
  "node_id node index =
     (if clean (field node ''id'') \<noteq> [] then clean (field node ''id'')
      else if clean (field node ''name'') \<noteq> [] then clean (field node ''name'')
      else ''node-'' @ nat_text (index + 1))"

definition group_node_key :: "string \<Rightarrow> pydict \<Rightarrow> nat \<Rightarrow> string" where
  "group_node_key group_id node index = ''group:'' @ group_id @ '':'' @ node_id node index"

record group_selection =
  gs_url :: string
  gs_group :: string
  gs_node :: string
  gs_name :: string
  gs_limit :: int
  gs_reserved :: bool
  gs_wait_ms :: int

definition empty_selection :: group_selection where
  "empty_selection = \<lparr>gs_url = [], gs_group = [], gs_node = [], gs_name = [], gs_limit = 0, gs_reserved = False, gs_wait_ms = 0\<rparr>"

definition selection_key :: "group_selection \<Rightarrow> string" where
  "selection_key s =
     (if gs_group s \<noteq> [] \<and> gs_node s \<noteq> [] then ''group:'' @ gs_group s @ '':'' @ gs_node s else egress_key_for_proxy (gs_url s))"

definition selection_label :: "group_selection \<Rightarrow> string" where
  "selection_label s =
     (if gs_group s \<noteq> [] \<and> gs_node s \<noteq> []
      then gs_group s @ ''/'' @ (if gs_name s \<noteq> [] then gs_name s else gs_node s) else egress_key_for_proxy (gs_url s))"

definition proxy_group_selection :: "string \<Rightarrow> pydict \<Rightarrow> nat \<Rightarrow> group_selection" where
  "proxy_group_selection group_id node index =
     (let nid = node_id node index in
      \<lparr>gs_url = clean (field node ''url''), gs_group = group_id, gs_node = nid,
        gs_name = (if clean (field node ''name'') \<noteq> [] then clean (field node ''name'') else nid),
        gs_limit = node_limit node, gs_reserved = False, gs_wait_ms = 0\<rparr>)"

type_synonym egress_counts = "(string \<times> int) list"

definition egress_load :: "egress_counts \<Rightarrow> string \<Rightarrow> int" where
  "egress_load d key = (case map_of d key of None \<Rightarrow> 0 | Some n \<Rightarrow> n)"

definition node_has_capacity :: "egress_counts \<Rightarrow> string \<Rightarrow> nat \<times> pydict \<Rightarrow> bool" where
  "node_has_capacity d group_id x \<longleftrightarrow>
     node_limit (snd x) \<le> 0 \<or> egress_load d (group_node_key group_id (snd x) (fst x)) < node_limit (snd x)"

definition node_load_score :: "egress_counts \<Rightarrow> string \<Rightarrow> nat \<times> pydict \<Rightarrow> rat \<times> int" where
  "node_load_score d group_id x =
     (let current = egress_load d (group_node_key group_id (snd x) (fst x)); limit = node_limit (snd x) in
      if limit \<le> 0 then (0, current) else (of_int current / of_int (max 1 limit), current))"

text \<open>\<open>min(xs, key=f)\<close> on pairs of a fraction and a count: the first least one.\<close>

fun min_by :: "('a \<Rightarrow> rat \<times> int) \<Rightarrow> 'a \<Rightarrow> 'a list \<Rightarrow> 'a" where
  "min_by f best [] = best"
| "min_by f best (x # xs) =
     min_by f (if fst (f x) < fst (f best) \<or> fst (f x) = fst (f best) \<and> snd (f x) < snd (f best) then x else best) xs"

text \<open>The enabled nodes with an address, numbered; None where iterating over the value raises.\<close>

definition group_nodes :: "pydict \<Rightarrow> (nat \<times> pydict) list option" where
  "group_nodes g =
     (let usable = (\<lambda>v. case v of PDict node \<Rightarrow>
            if truthy (get_default node ''enabled'' (PBool True)) \<and> clean (field node ''url'') \<noteq> [] then Some node else None
          | _ \<Rightarrow> None) in
      case get_default g ''nodes'' (PList []) of
        PList vs \<Rightarrow> Some (enumerate 0 (List.map_filter usable vs))
      | PStr _ \<Rightarrow> Some []
      | PDict _ \<Rightarrow> Some []
      | _ \<Rightarrow> None)"

definition dict_list :: "pyval \<Rightarrow> pydict list" where
  "dict_list v = (case v of PList vs \<Rightarrow> List.map_filter (\<lambda>x. case x of PDict d \<Rightarrow> Some d | _ \<Rightarrow> None) vs | _ \<Rightarrow> [])"

text \<open>One turn of the loop that waits for capacity.\<close>

datatype group_turn = Chosen group_selection | WaitForNode | GroupLate

definition is_late :: "rat option \<Rightarrow> rat \<Rightarrow> bool" where
  "is_late deadline now = (case deadline of None \<Rightarrow> False | Some d \<Rightarrow> 0 < d \<and> d \<le> now)"

definition group_turn ::
  "string \<Rightarrow> (nat \<times> pydict) list \<Rightarrow> bool \<Rightarrow> rat option \<Rightarrow> rat \<Rightarrow> nat \<Rightarrow> int \<Rightarrow> egress_counts \<Rightarrow> group_turn \<times> egress_counts" where
  "group_turn group_id nodes reserve deadline now pick elapsed d =
     (if is_late deadline now then (GroupLate, d)
      else
        (let available = filter (node_has_capacity d group_id) nodes in
         if available \<noteq> [] then
           (let (index, node) = available ! (pick mod length available);
                selection = proxy_group_selection group_id node index in
            if reserve \<and> 0 < gs_limit selection then
              (Chosen (selection\<lparr>gs_reserved := True, gs_wait_ms := elapsed\<rparr>),
               AList.update (selection_key selection) (egress_load d (selection_key selection) + 1) d)
            else (Chosen selection, d))
         else if \<not> reserve then
           (let (index, node) = min_by (node_load_score d group_id) (hd nodes) (tl nodes) in
            (Chosen (proxy_group_selection group_id node index), d))
         else (WaitForNode, d)))"

datatype egress_error = ReferenceUnavailable | EgressDeadline | EgressTypeError

record turn =
  tn_now :: rat
  tn_pick :: nat
  tn_elapsed :: int
  tn_inflight :: egress_counts

fun group_turns ::
  "string \<Rightarrow> (nat \<times> pydict) list \<Rightarrow> bool \<Rightarrow> rat option \<Rightarrow> turn list \<Rightarrow> ((egress_error + group_selection) \<times> egress_counts) option" where
  "group_turns group_id nodes reserve deadline [] = None"
| "group_turns group_id nodes reserve deadline (t # ts) =
     (case group_turn group_id nodes reserve deadline (tn_now t) (tn_pick t) (tn_elapsed t) (tn_inflight t) of
        (Chosen s, d) \<Rightarrow> Some (Inr s, d)
      | (GroupLate, d) \<Rightarrow> Some (Inl EgressDeadline, d)
      | (WaitForNode, d) \<Rightarrow> group_turns group_id nodes reserve deadline ts)"

text \<open>\<open>_resolve_proxy_group\<close>: None while it waits; the counters are returned where it changed them.\<close>

definition find_group :: "pydict \<Rightarrow> string \<Rightarrow> pydict option" where
  "find_group proxies normalized =
     List.find (\<lambda>g. clean (field g ''id'') = normalized \<and> field g ''enabled'' \<noteq> PBool False)
       (dict_list (field proxies ''proxy_groups''))"

definition resolve_proxy_group ::
  "pydict \<Rightarrow> bool \<Rightarrow> rat option \<Rightarrow> turn list \<Rightarrow> string \<Rightarrow> ((egress_error + group_selection) \<times> egress_counts option) option" where
  "resolve_proxy_group proxies reserve deadline turns group_id =
     (let normalized = strip group_id in
      if normalized = [] then Some (Inr empty_selection, None)
      else case find_group proxies normalized of
        None \<Rightarrow> Some (Inr empty_selection, None)
      | Some g \<Rightarrow>
          (case group_nodes g of
             None \<Rightarrow> Some (Inl EgressTypeError, None)
           | Some nodes \<Rightarrow>
               if nodes = [] then Some (Inr empty_selection, None)
               else map_option (\<lambda>(r, d). (r, Some d)) (group_turns normalized nodes reserve deadline turns)))"

section \<open>Which proxy a request leaves through\<close>

record resolved =
  rs_url :: string
  rs_source :: string
  rs_terminal :: bool
  rs_key :: string
  rs_label :: string
  rs_group :: string
  rs_node :: string
  rs_name :: string
  rs_limit :: int
  rs_reserved :: bool
  rs_wait_ms :: int

definition unresolved :: "string \<Rightarrow> resolved" where
  "unresolved source =
     \<lparr>rs_url = [], rs_source = source, rs_terminal = False, rs_key = ''direct'', rs_label = ''direct'', rs_group = [],
       rs_node = [], rs_name = [], rs_limit = 0, rs_reserved = False, rs_wait_ms = 0\<rparr>"

definition resolve_proxy_profile :: "pydict \<Rightarrow> string \<Rightarrow> string" where
  "resolve_proxy_profile proxies profile_id =
     (let normalized = strip profile_id in
      if normalized = [] then []
      else case List.find (\<lambda>q. clean (field q ''id'') = normalized \<and> truthy (get_default q ''enabled'' (PBool True)))
             (dict_list (field proxies ''proxy_profiles'')) of
        None \<Rightarrow> []
      | Some q \<Rightarrow> clean (field q ''proxy''))"

type_synonym group_resolver = "string \<Rightarrow> ((egress_error + group_selection) \<times> egress_counts option) option"

definition group_resolved :: "string \<Rightarrow> bool \<Rightarrow> group_selection \<Rightarrow> resolved" where
  "group_resolved source terminal_when_unresolved s =
     \<lparr>rs_url = gs_url s, rs_source = source @ ''_group'', rs_terminal = gs_url s \<noteq> [] \<or> terminal_when_unresolved,
       rs_key = selection_key s, rs_label = selection_label s, rs_group = gs_group s, rs_node = gs_node s,
       rs_name = gs_name s, rs_limit = gs_limit s, rs_reserved = gs_reserved s, rs_wait_ms = gs_wait_ms s\<rparr>"

text \<open>\<open>_resolve_proxy_reference\<close> on a stripped text.\<close>

definition resolve_proxy_reference ::
  "pydict \<Rightarrow> group_resolver \<Rightarrow> string \<Rightarrow> bool \<Rightarrow> string \<Rightarrow> ((egress_error + resolved) \<times> egress_counts option) option" where
  "resolve_proxy_reference proxies resolve_group source terminal_when_unresolved raw =
     (let low = lower raw in
      if raw = [] \<or> low = ''global'' then Some (Inr (unresolved source), None)
      else if low = ''direct'' then Some (Inr ((unresolved (source @ ''_direct''))\<lparr>rs_terminal := True\<rparr>), None)
      else if starts_with ''profile:'' low then
        (let proxy = resolve_proxy_profile proxies (drop 8 raw) in
         Some (Inr ((unresolved (source @ ''_profile''))\<lparr>rs_url := proxy,
             rs_terminal := proxy \<noteq> [] \<or> terminal_when_unresolved,
             rs_key := egress_key_for_proxy proxy, rs_label := source @ ''_profile''\<rparr>), None))
      else if starts_with ''group:'' low then
        (case resolve_group (strip (drop 6 raw)) of
           None \<Rightarrow> None
         | Some (Inl e, c) \<Rightarrow> Some (Inl e, c)
         | Some (Inr s, c) \<Rightarrow>
             if gs_url s = [] then Some (Inl ReferenceUnavailable, c)
             else Some (Inr (group_resolved source terminal_when_unresolved s), c))
      else Some (Inr ((unresolved source)\<lparr>rs_url := raw, rs_terminal := True, rs_key := egress_key_for_proxy raw,
          rs_label := source\<rparr>), None))"

text \<open>The five blocks of \<open>get_profile\<close>, one for each place a reference comes from: a reference is
  resolved while no proxy is selected and the search is not ended.\<close>

fun select_reference ::
  "pydict \<Rightarrow> group_resolver \<Rightarrow> resolved \<Rightarrow> (string \<times> string \<times> bool) list \<Rightarrow>
   ((egress_error + resolved) \<times> egress_counts option) option" where
  "select_reference proxies resolve_group r [] = Some (Inr r, None)"
| "select_reference proxies resolve_group r ((raw, source, terminal_when_unresolved) # refs) =
     (if rs_url r = [] \<and> \<not> rs_terminal r \<and> raw \<noteq> [] then
        (case resolve_proxy_reference proxies resolve_group source terminal_when_unresolved raw of
           None \<Rightarrow> None
         | Some (Inl e, c) \<Rightarrow> Some (Inl e, c)
         | Some (Inr r, c) \<Rightarrow>
             (case select_reference proxies resolve_group r refs of
                Some (x, None) \<Rightarrow> Some (x, c)
              | y \<Rightarrow> y))
      else select_reference proxies resolve_group r refs)"

record egress_settings =
  es_runtime :: pydict
  es_proxies :: pydict
  es_config :: pydict

definition account_group_proxy_reference :: "egress_settings \<Rightarrow> pydict option \<Rightarrow> string" where
  "account_group_proxy_reference settings account =
     (case account of
        None \<Rightarrow> []
      | Some account \<Rightarrow>
          (let group_id = clean (field account ''group_id'') in
           if group_id = [] then []
           else case List.find (\<lambda>g. clean (field g ''id'') = group_id \<and> field g ''enabled'' \<noteq> PBool False)
                  (dict_list (field (es_config settings) ''account_groups'')) of
             None \<Rightarrow> []
           | Some g \<Rightarrow>
               if clean (field g ''proxy'') \<noteq> [] then clean (field g ''proxy'')
               else if clean (field g ''proxy_group_id'') \<noteq> [] then ''group:'' @ clean (field g ''proxy_group_id'') else []))"

definition proxy_references ::
  "egress_settings \<Rightarrow> pydict option \<Rightarrow> string \<Rightarrow> bool \<Rightarrow> bool \<Rightarrow> (string \<times> string \<times> bool) list" where
  "proxy_references settings account proxy resource upstream =
     [(case account of None \<Rightarrow> [] | Some a \<Rightarrow> clean (field a ''proxy''), ''account'', True),
      (account_group_proxy_reference settings account, ''account_group'', False),
      (strip proxy, ''explicit'', True),
      (if upstream \<and> resource \<and> truthy (field (es_runtime settings) ''enabled'')
       then clean (field (es_runtime settings) ''resource_proxy_url'') else [], ''resource'', True),
      (clean (field (es_proxies settings) ''proxy''), ''default'', False)]"

fun status_codes_from :: "int list \<Rightarrow> pyval list \<Rightarrow> int list" where
  "status_codes_from codes [] = codes"
| "status_codes_from codes (v # vs) =
     (case v of
        PBool _ \<Rightarrow> status_codes_from codes vs
      | _ \<Rightarrow>
          (case py_int v of
             Inl _ \<Rightarrow> status_codes_from codes vs
           | Inr code \<Rightarrow>
               if 100 \<le> code \<and> code \<le> 599 \<and> code \<notin> set codes then status_codes_from (codes @ [code]) vs
               else status_codes_from codes vs))"

definition status_codes_tuple :: "pyval \<Rightarrow> int list" where
  "status_codes_tuple v =
     (let codes = status_codes_from [] (case v of PList vs \<Rightarrow> vs | _ \<Rightarrow> [PInt 403]) in if codes = [] then [403] else codes)"

record profile =
  pp_url :: string
  pp_source :: string
  pp_key :: string
  pp_label :: string
  pp_group :: string
  pp_node :: string
  pp_name :: string
  pp_limit :: int
  pp_reserved :: bool
  pp_wait_ms :: int
  pp_resource :: bool
  pp_enabled :: bool
  pp_mode :: string
  pp_skip_ssl :: bool
  pp_reset_codes :: "int list"
  pp_clearance :: pydict

definition profile_of :: "egress_settings \<Rightarrow> bool \<Rightarrow> resolved \<Rightarrow> profile" where
  "profile_of settings resource r =
     (let runtime = es_runtime settings in
      \<lparr>pp_url = normalize_proxy_url (rs_url r), pp_source = rs_source r,
        pp_key = (if rs_key r \<noteq> [] then rs_key r else egress_key_for_proxy (rs_url r)),
        pp_label = (if rs_label r \<noteq> [] then rs_label r else rs_source r),
        pp_group = rs_group r, pp_node = rs_node r, pp_name = rs_name r, pp_limit = max 0 (rs_limit r),
        pp_reserved = rs_reserved r, pp_wait_ms = max 0 (rs_wait_ms r), pp_resource = resource,
        pp_enabled = truthy (field runtime ''enabled''), pp_mode = (if rs_url r \<noteq> [] then ''proxy'' else ''direct''),
        pp_skip_ssl = truthy (field runtime ''skip_ssl_verify''),
        pp_reset_codes = status_codes_tuple (field runtime ''reset_session_status_codes''),
        pp_clearance = (case field runtime ''clearance'' of PDict d \<Rightarrow> d | _ \<Rightarrow> [])\<rparr>)"

definition get_profile ::
  "egress_settings \<Rightarrow> group_resolver \<Rightarrow> pydict option \<Rightarrow> string \<Rightarrow> bool \<Rightarrow> bool \<Rightarrow>
   ((egress_error + profile) \<times> egress_counts option) option" where
  "get_profile settings resolve_group account proxy resource upstream =
     map_option (\<lambda>(x, c). (case x of Inl e \<Rightarrow> Inl e | Inr r \<Rightarrow> Inr (profile_of settings resource r), c))
       (select_reference (es_proxies settings) resolve_group (unresolved ''direct'')
         (proxy_references settings account proxy resource upstream))"

definition fallback_proxy_reference :: "egress_settings \<Rightarrow> string" where
  "fallback_proxy_reference settings =
     (let reference = clean (field (es_proxies settings) ''fallback_proxy'') in
      if lower reference = ''global'' then [] else reference)"

definition fallback_names :: "profile \<Rightarrow> profile" where
  "fallback_names q =
     (let source = strip (if pp_source q = [] then ''direct'' else pp_source q);
          source = (if source = [] then ''direct'' else source);
          source = (if starts_with ''explicit'' source then ''fallback'' @ drop 8 source
            else if \<not> starts_with ''fallback'' source then ''fallback_'' @ source else source);
          label = strip (pp_label q);
          label = (if label = [] \<or> starts_with ''explicit'' label then (if pp_url q \<noteq> [] then ''fallback'' else source) else label) in
      q\<lparr>pp_source := source, pp_label := label\<rparr>)"

definition get_fallback_profile ::
  "egress_settings \<Rightarrow> group_resolver \<Rightarrow> bool \<Rightarrow> bool \<Rightarrow> ((egress_error + profile option) \<times> egress_counts option) option" where
  "get_fallback_profile settings resolve_group resource upstream =
     (if fallback_proxy_reference settings = [] then Some (Inr None, None)
      else map_option (\<lambda>(x, c). (map_sum id (\<lambda>q. Some (fallback_names q)) x, c))
        (get_profile settings resolve_group None (fallback_proxy_reference settings) resource upstream))"

definition session_kwargs_from_profile :: "profile \<Rightarrow> pydict \<Rightarrow> pydict" where
  "session_kwargs_from_profile q kwargs =
     (let kwargs = (if pp_url q \<noteq> [] then AList.update ''proxy'' (PStr (pp_url q)) kwargs else kwargs) in
      if pp_skip_ssl q then AList.update ''verify'' (PBool False) kwargs else kwargs)"

section \<open>Image capacity of an egress\<close>

definition profile_key :: "profile \<Rightarrow> string" where
  "profile_key q = (if strip (pp_key q) \<noteq> [] then strip (pp_key q) else egress_key_for_proxy (pp_url q))"

datatype egress_turn = EgressTaken int | EgressWait | EgressLate

text \<open>One turn of \<open>acquire_image_egress\<close>; the first one also looks at the deadline before anything else.\<close>

definition acquire_turn :: "profile \<Rightarrow> bool \<Rightarrow> rat option \<Rightarrow> rat \<Rightarrow> int \<Rightarrow> egress_counts \<Rightarrow> egress_turn \<times> egress_counts" where
  "acquire_turn q first deadline now elapsed d =
     (if first \<and> is_late deadline now then (EgressLate, d)
      else if pp_reserved q then (EgressTaken (max 0 (pp_wait_ms q)), d)
      else if max 0 (pp_limit q) \<le> 0 then (EgressTaken 0, d)
      else if max 0 (pp_limit q) \<le> egress_load d (profile_key q)
      then (if is_late deadline now then EgressLate else EgressWait, d)
      else (EgressTaken elapsed, AList.update (profile_key q) (egress_load d (profile_key q) + 1) d))"

definition release_image_egress :: "profile \<Rightarrow> egress_counts \<Rightarrow> egress_counts" where
  "release_image_egress q d =
     (if max 0 (pp_limit q) \<le> 0 then d
      else if egress_load d (profile_key q) \<le> 1 then AList.delete (profile_key q) d
      else AList.update (profile_key q) (egress_load d (profile_key q) - 1) d)"

section \<open>Cookies and headers\<close>

type_synonym cookies = "(string \<times> string) list"

definition parse_cookie_part :: "string \<Rightarrow> cookies \<Rightarrow> cookies" where
  "parse_cookie_part part cookies =
     (case split_at (\<lambda>c. c = CHR ''='') (strip part) of
        (name, Some value) \<Rightarrow> if name \<noteq> [] then AList.update (strip name) (strip value) cookies else cookies
      | (_, None) \<Rightarrow> cookies)"

definition parse_cookie_header :: "string \<Rightarrow> cookies" where
  "parse_cookie_header header = fold parse_cookie_part (split_char (CHR '';'') header) []"

definition cookie_text :: "string \<times> string \<Rightarrow> string" where
  "cookie_text c = fst c @ ''='' @ snd c"

definition cookies_to_header :: "cookies \<Rightarrow> string" where
  "cookies_to_header cookies = join ''; '' (map cookie_text (filter (\<lambda>c. fst c \<noteq> []) cookies))"

definition rstrip_separators :: "string \<Rightarrow> string" where
  "rstrip_separators s = rev (dropWhile (\<lambda>c. c = CHR '';'' \<or> c = CHR '' '') (rev s))"

definition cookie_additions :: "string \<Rightarrow> cookies \<Rightarrow> cookies" where
  "cookie_additions existing cookies =
     filter (\<lambda>c. fst c \<noteq> [] \<and> fst c \<notin> set (map fst (parse_cookie_header existing))) cookies"

definition merge_cookie_header :: "string \<Rightarrow> cookies \<Rightarrow> string" where
  "merge_cookie_header existing_header cookies =
     (let existing = strip existing_header; additions = map cookie_text (cookie_additions existing cookies) in
      if existing \<noteq> [] \<and> additions \<noteq> [] then rstrip_separators existing @ ''; '' @ join ''; '' additions
      else if existing \<noteq> [] then existing
      else join ''; '' additions)"

definition find_header_key :: "pydict \<Rightarrow> string \<Rightarrow> string option" where
  "find_header_key headers name = map_option fst (List.find (\<lambda>h. lower (fst h) = lower name) headers)"

section \<open>Clearance\<close>

definition clearance_mode :: "profile \<Rightarrow> string" where
  "clearance_mode q = lower (strip (py_str (py_or (field (pp_clearance q) ''mode'') (PStr ''none''))))"

definition clearance_enabled :: "profile \<Rightarrow> bool" where
  "clearance_enabled q \<longleftrightarrow>
     pp_enabled q \<and> truthy (field (pp_clearance q) ''enabled'') \<and> clearance_mode q \<in> {''manual'', ''flaresolverr''}"

definition refresh_interval :: "profile \<Rightarrow> int" where
  "refresh_interval q =
     (case py_int (py_or (field (pp_clearance q) ''refresh_interval'') (PInt 0)) of Inl e \<Rightarrow> 0 | Inr n \<Rightarrow> max 0 n)"

definition timeout_sec :: "profile \<Rightarrow> int" where
  "timeout_sec q = (case py_int (py_or (field (pp_clearance q) ''timeout_sec'') (PInt 60)) of Inl e \<Rightarrow> 60 | Inr n \<Rightarrow> max 1 n)"

record clearance_bundle =
  bu_host :: string
  bu_proxy :: string
  bu_cookies :: cookies
  bu_agent :: string
  bu_created :: rat
  bu_expires :: "rat option"

definition is_valid_for :: "clearance_bundle \<Rightarrow> string \<Rightarrow> string \<Rightarrow> rat \<Rightarrow> bool" where
  "is_valid_for b target_host proxy_url now =
     (let host = normalize_host target_host in
      if bu_host b \<noteq> [] \<and> host \<noteq> [] \<and> normalize_host (bu_host b) \<noteq> host then False
      else if normalize_proxy_url (bu_proxy b) \<noteq> normalize_proxy_url proxy_url then False
      else if (case bu_expires b of None \<Rightarrow> False | Some t \<Rightarrow> t \<le> now) then False
      else bu_cookies b \<noteq> [] \<or> bu_agent b \<noteq> [])"

definition domain_matches :: "string \<Rightarrow> string \<Rightarrow> bool" where
  "domain_matches host domain =
     (let h = normalize_host host; d = normalize_host (dropWhile (\<lambda>c. c = CHR ''.'') domain) in
      if d = [] then True else h = d \<or> starts_with (rev (''.'' @ d)) (rev h))"

definition filter_cookie :: "string \<Rightarrow> pyval \<Rightarrow> cookies \<Rightarrow> cookies" where
  "filter_cookie target_host v cookies =
     (case v of
        PDict item \<Rightarrow>
          (let name = clean (field item ''name''); val = py_str (py_or (field item ''value'') (PStr []));
               domain = clean (field item ''domain'') in
           if name \<noteq> [] \<and> (domain = [] \<or> domain_matches target_host domain) then AList.update name val cookies else cookies)
      | _ \<Rightarrow> cookies)"

definition filter_flaresolverr_cookies :: "pyval \<Rightarrow> string \<Rightarrow> cookies" where
  "filter_flaresolverr_cookies raw target_host =
     (case raw of PList vs \<Rightarrow> fold (filter_cookie target_host) vs [] | _ \<Rightarrow> [])"

text \<open>\<open>get_clearance\<close> of a provider, with the decoded answer of its request; None when the request or
  the decoding raised.\<close>

definition get_clearance :: "string \<Rightarrow> string \<Rightarrow> string \<Rightarrow> pyval option \<Rightarrow> rat \<Rightarrow> clearance_bundle option" where
  "get_clearance provider_url target_host proxy_url answer now =
     (if provider_url = [] then None
      else case answer of
        Some (PDict data) \<Rightarrow>
          if lower (py_str (py_or (field data ''status'') (PStr []))) \<noteq> ''ok'' then None
          else (case field data ''solution'' of
              PDict solution \<Rightarrow>
                (let cookies = filter_flaresolverr_cookies (field solution ''cookies'') target_host;
                     agent = clean (field solution ''userAgent'') in
                 if cookies = [] \<and> agent = [] then None
                 else Some \<lparr>bu_host = target_host, bu_proxy = normalize_proxy_url proxy_url, bu_cookies = cookies,
                   bu_agent = agent, bu_created = now, bu_expires = None\<rparr>)
            | _ \<Rightarrow> None)
      | _ \<Rightarrow> None)"

definition expires_at :: "profile \<Rightarrow> rat \<Rightarrow> rat option" where
  "expires_at q now = (if refresh_interval q \<noteq> 0 then Some (now + of_int (refresh_interval q)) else None)"

definition build_manual_bundle :: "profile \<Rightarrow> string \<Rightarrow> rat \<Rightarrow> clearance_bundle option" where
  "build_manual_bundle q target_host now =
     (let cookies = parse_cookie_header (py_str (py_or (field (pp_clearance q) ''cf_cookies'') (PStr [])));
          cf = clean (field (pp_clearance q) ''cf_clearance'');
          cookies = (if cf \<noteq> [] \<and> map_of cookies ''cf_clearance'' = None then AList.update ''cf_clearance'' cf cookies else cookies);
          agent = clean (field (pp_clearance q) ''user_agent'') in
      if cookies = [] \<and> agent = [] then None
      else Some \<lparr>bu_host = target_host, bu_proxy = pp_url q, bu_cookies = cookies, bu_agent = agent, bu_created = now,
        bu_expires = expires_at q now\<rparr>)"

type_synonym clearances = "((string \<times> string) \<times> clearance_bundle) list"

definition cache_pair :: "string \<Rightarrow> string \<Rightarrow> string \<times> string" where
  "cache_pair proxy_url target_host = (normalize_proxy_url proxy_url, normalize_host target_host)"

definition keep_bundle :: "string \<times> string \<Rightarrow> clearance_bundle option \<Rightarrow> clearances \<Rightarrow> clearances" where
  "keep_bundle key b c = (case b of None \<Rightarrow> c | Some b \<Rightarrow> AList.update key b c)"

definition bundle_for_headers :: "profile \<Rightarrow> string \<Rightarrow> rat \<Rightarrow> clearances \<Rightarrow> clearance_bundle option \<times> clearances" where
  "bundle_for_headers q target_host now c =
     (let key = cache_pair (pp_url q) target_host in
      if clearance_mode q = ''manual'' then
        (let b = build_manual_bundle q target_host now in (b, keep_bundle key b c))
      else if clearance_mode q = ''flaresolverr'' then (map_of c key, c)
      else (None, c))"

text \<open>\<open>build_headers\<close>, for the profile that the request leaves through and the host of its address.\<close>

definition add_bundle :: "clearance_bundle \<Rightarrow> pydict \<Rightarrow> pydict" where
  "add_bundle b headers =
     (let headers = (if bu_agent b \<noteq> [] \<and> find_header_key headers ''user-agent'' = None
            then AList.update ''User-Agent'' (PStr (bu_agent b)) headers else headers) in
      if bu_cookies b \<noteq> [] then
        (let cookie_key = (case find_header_key headers ''cookie'' of None \<Rightarrow> ''Cookie'' | Some k \<Rightarrow> if k = [] then ''Cookie'' else k);
             cookie_header = merge_cookie_header (py_str (py_or (field headers cookie_key) (PStr []))) (bu_cookies b) in
         if cookie_header \<noteq> [] then AList.update cookie_key (PStr cookie_header) headers else headers)
      else headers)"

definition build_headers :: "profile \<Rightarrow> string \<Rightarrow> rat \<Rightarrow> pydict \<Rightarrow> clearances \<Rightarrow> pydict \<times> clearances" where
  "build_headers q target_host now headers c =
     (if \<not> clearance_enabled q then (headers, c)
      else case bundle_for_headers q target_host now c of
        (None, c) \<Rightarrow> (headers, c)
      | (Some b, c) \<Rightarrow> if is_valid_for b target_host (pp_url q) now then (add_bundle b headers, c) else (headers, c))"

text \<open>\<open>refresh_clearance\<close>. Its part up to the lock of the flight: the answer at once, or what is cached
  for the case that the flight brings nothing; the part under that lock; and what a caller gets
  that waited for another one's flight.\<close>

datatype refresh_start = Served "clearance_bundle option" | NeedsFlight "clearance_bundle option"

definition refresh_begin :: "profile \<Rightarrow> string \<Rightarrow> bool \<Rightarrow> rat \<Rightarrow> clearances \<Rightarrow> refresh_start \<times> clearances" where
  "refresh_begin q target_host force now c =
     (let key = cache_pair (pp_url q) target_host in
      if \<not> clearance_enabled q then (Served None, c)
      else if clearance_mode q = ''manual'' then
        (let b = build_manual_bundle q target_host now in (Served b, keep_bundle key b c))
      else if clearance_mode q \<noteq> ''flaresolverr'' then (Served None, c)
      else case map_of c key of
        Some b \<Rightarrow> if \<not> force \<and> is_valid_for b target_host (pp_url q) now then (Served (Some b), c) else (NeedsFlight (Some b), c)
      | None \<Rightarrow> (NeedsFlight None, c))"

definition flight_needed :: "profile \<Rightarrow> string \<Rightarrow> bool \<Rightarrow> rat \<Rightarrow> clearances \<Rightarrow> bool" where
  "flight_needed q target_host force now c =
     (case map_of c (cache_pair (pp_url q) target_host) of
        None \<Rightarrow> True
      | Some b \<Rightarrow> \<not> (\<not> force \<and> is_valid_for b target_host (pp_url q) now))"

definition or_else :: "'a option \<Rightarrow> 'a option \<Rightarrow> 'a option" where
  "or_else a b = (case a of None \<Rightarrow> b | Some x \<Rightarrow> Some x)"

definition adopt_bundle :: "profile \<Rightarrow> string \<Rightarrow> rat \<Rightarrow> clearance_bundle \<Rightarrow> clearance_bundle" where
  "adopt_bundle q target_host now b =
     (if bu_host b = [] \<or> normalize_proxy_url (bu_proxy b) \<noteq> normalize_proxy_url (pp_url q) \<or> bu_expires b \<noteq> expires_at q now
      then b\<lparr>bu_host := (if bu_host b = [] then target_host else bu_host b), bu_proxy := pp_url q, bu_expires := expires_at q now\<rparr>
      else b)"

text \<open>The lock is held: a look at the cache, then the provider's answer, and the new bundle.\<close>

definition refresh_flight ::
  "profile \<Rightarrow> string \<Rightarrow> bool \<Rightarrow> clearance_bundle option \<Rightarrow> rat \<Rightarrow> clearances \<Rightarrow> clearance_bundle option \<Rightarrow> rat \<Rightarrow> clearances \<Rightarrow>
   clearance_bundle option \<times> clearances" where
  "refresh_flight q target_host force cached_before looked_at looked provided now c =
     (let key = cache_pair (pp_url q) target_host; cached_now = map_of looked key in
      if \<not> flight_needed q target_host force looked_at looked then (cached_now, c)
      else case provided of
        None \<Rightarrow> (or_else cached_now cached_before, c)
      | Some b \<Rightarrow> (let b = adopt_bundle q target_host now b in (Some b, AList.update key b c)))"

definition refresh_follow :: "profile \<Rightarrow> string \<Rightarrow> clearance_bundle option \<Rightarrow> clearances \<Rightarrow> clearance_bundle option" where
  "refresh_follow q target_host cached_before c = or_else (map_of c (cache_pair (pp_url q) target_host)) cached_before"

definition invalidate_clearance :: "profile \<Rightarrow> string \<Rightarrow> clearances \<Rightarrow> clearances" where
  "invalidate_clearance q target_host c = AList.delete (cache_pair (pp_url q) target_host) c"

section \<open>Cookie headers\<close>

lemma split_char_nonempty [simp]: "split_char c s \<noteq> []"
  by (induction s) (auto split: list.split)

lemma split_char_plain: "c \<notin> set s \<Longrightarrow> split_char c s = [s]"
  by (induction s) auto

lemma split_char_append: "split_char c (x @ c # y) = split_char c x @ split_char c y"
  by (induction x) (auto split: list.split simp: append_eq_Cons_conv)

lemma split_char_snoc: "d \<noteq> c \<Longrightarrow> split_char c (x @ [d]) = butlast (split_char c x) @ [last (split_char c x) @ [d]]"
  by (induction x) (auto split: list.split)

lemma split_char_free: "p \<in> set (split_char c s) \<Longrightarrow> c \<notin> set p"
  by (induction s arbitrary: p) (auto split: list.splits if_splits)

lemma strip_space_Cons: "is_space d \<Longrightarrow> strip (d # s) = strip s"
  by (simp add: strip_def)

lemma strip_space_snoc: "is_space d \<Longrightarrow> strip (s @ [d]) = strip s"
  by (cases "\<forall>x \<in> set s. is_space x") (auto simp: strip_def dropWhile_append dest: set_dropWhileD)

lemma parse_part_space_Cons: "is_space d \<Longrightarrow> parse_cookie_part (d # s) = parse_cookie_part s"
  by (rule ext) (simp add: parse_cookie_part_def strip_space_Cons)

lemma parse_part_space_snoc: "is_space d \<Longrightarrow> parse_cookie_part (s @ [d]) = parse_cookie_part s"
  by (rule ext) (simp add: parse_cookie_part_def strip_space_snoc)

lemma parse_part_Nil [simp]: "parse_cookie_part [] d = d"
  by (simp add: parse_cookie_part_def split_at_def)

lemma space_not_semicolon: "is_space d \<Longrightarrow> d \<noteq> CHR '';''"
  by (auto simp: is_space_def Let_def)

lemma parse_header_append: "parse_cookie_header (x @ CHR '';'' # y) = fold parse_cookie_part (split_char (CHR '';'') y) (parse_cookie_header x)"
  by (simp add: parse_cookie_header_def split_char_append)

lemma parse_header_space_Cons: "is_space d \<Longrightarrow> parse_cookie_header (d # s) = parse_cookie_header s"
  by (cases "split_char (CHR '';'') s") (auto simp: parse_cookie_header_def parse_part_space_Cons dest: space_not_semicolon)

lemma fold_butlast_last: "xs \<noteq> [] \<Longrightarrow> fold f xs a = f (last xs) (fold f (butlast xs) a)"
  by (induction xs rule: rev_induct) auto

lemma parse_header_space_snoc: "is_space d \<Longrightarrow> parse_cookie_header (s @ [d]) = parse_cookie_header s"
  by (simp add: parse_cookie_header_def split_char_snoc space_not_semicolon parse_part_space_snoc
      fold_butlast_last [of "split_char (CHR '';'') s"])

lemma parse_header_semicolon_snoc: "parse_cookie_header (s @ [CHR '';'']) = parse_cookie_header s"
  using parse_header_append [of s "[]"] by simp

lemma parse_header_dropWhile: "parse_cookie_header (dropWhile is_space s) = parse_cookie_header s"
  by (induction s) (auto simp: parse_header_space_Cons)

lemma parse_header_rev_dropWhile:
  "(\<And>c. P c \<Longrightarrow> is_space c \<or> c = CHR '';'') \<Longrightarrow> parse_cookie_header (rev (dropWhile P s)) = parse_cookie_header (rev s)"
proof (induction s)
  case (Cons c s)
  show ?case
  proof (cases "P c")
    case True
    then have "is_space c \<or> c = CHR '';''" using Cons.prems by blast
    then have "parse_cookie_header (rev (c # s)) = parse_cookie_header (rev s)"
      by (auto simp: parse_header_space_snoc parse_header_semicolon_snoc)
    with Cons True show ?thesis by simp
  qed simp
qed simp

lemma parse_header_strip: "parse_cookie_header (strip s) = parse_cookie_header s"
  using parse_header_rev_dropWhile [of is_space "rev (dropWhile is_space s)"] by (simp add: strip_def parse_header_dropWhile)

lemma space_char: "is_space (CHR '' '')"
  by (simp add: is_space_def)

lemma parse_header_rstrip: "parse_cookie_header (rstrip_separators s) = parse_cookie_header s"
  using parse_header_rev_dropWhile [of "\<lambda>c. c = CHR '';'' \<or> c = CHR '' ''" "rev s"] space_char
  unfolding rstrip_separators_def rev_rev_ident by blast

text \<open>Cookies that a header can carry.\<close>

definition cookie_ok :: "string \<times> string \<Rightarrow> bool" where
  "cookie_ok c \<longleftrightarrow>
     fst c \<noteq> [] \<and> strip (fst c) = fst c \<and> strip (snd c) = snd c \<and>
     CHR '';'' \<notin> set (fst c) \<and> CHR ''='' \<notin> set (fst c) \<and> CHR '';'' \<notin> set (snd c)"

definition cookies_ok :: "cookies \<Rightarrow> bool" where
  "cookies_ok cs \<longleftrightarrow> distinct_keys cs \<and> list_all cookie_ok cs"

lemma split_at_here: "c \<notin> set a \<Longrightarrow> split_at (\<lambda>d. d = c) (a @ c # b) = (a, Some b)"
  by (induction a) (auto simp: split_at_def split: list.splits)

lemma parse_cookie_text:
  assumes "cookie_ok c"
  shows "parse_cookie_part (cookie_text c) d = AList.update (fst c) (snd c) d"
proof -
  have n: "fst c \<noteq> []" "strip (fst c) = fst c" "strip (snd c) = snd c" using assms by (simp_all add: cookie_ok_def)
  have "\<not> is_space (hd (cookie_text c))" using strip_ends [OF n(2,1)] n(1) by (simp add: cookie_text_def)
  moreover have "\<not> is_space (last (cookie_text c))"
    using strip_ends [OF n(3)] by (cases "snd c = []") (simp_all add: cookie_text_def is_space_def)
  ultimately have "strip (cookie_text c) = cookie_text c" by (intro strip_id) (simp_all add: cookie_text_def)
  then show ?thesis using assms by (simp add: parse_cookie_part_def cookie_text_def split_at_here cookie_ok_def)
qed

lemma split_cookies:
  "list_all cookie_ok cs \<Longrightarrow> cs \<noteq> [] \<Longrightarrow>
   fold parse_cookie_part (split_char (CHR '';'') (join ''; '' (map cookie_text cs))) d =
   fold (\<lambda>c. AList.update (fst c) (snd c)) cs d"
proof (induction cs arbitrary: d)
  case (Cons c cs)
  have plain: "CHR '';'' \<notin> set (cookie_text c)" using Cons.prems by (simp add: cookie_ok_def cookie_text_def)
  show ?case
  proof (cases cs)
    case Nil
    with plain Cons.prems show ?thesis by (simp add: split_char_plain parse_cookie_text)
  next
    case (Cons c' cs')
    have "join ''; '' (map cookie_text (c # cs)) = cookie_text c @ CHR '';'' # CHR '' '' # join ''; '' (map cookie_text cs)"
      using Cons by simp
    moreover have "fold parse_cookie_part (split_char (CHR '';'') (CHR '' '' # x)) e = fold parse_cookie_part (split_char (CHR '';'') x) e" for x e
      by (cases "split_char (CHR '';'') x") (simp_all add: parse_part_space_Cons is_space_def)
    ultimately show ?thesis
      using Cons.prems Cons.IH [of "AList.update (fst c) (snd c) d"] Cons plain
      by (simp add: split_char_append split_char_plain parse_cookie_text)
  qed
qed simp

lemma fold_update_fresh:
  "distinct_keys (d @ cs) \<Longrightarrow> fold (\<lambda>c. AList.update (fst c) (snd c)) cs d = d @ cs"
proof (induction cs arbitrary: d)
  case (Cons c cs)
  then have "map_of d (fst c) = None" by (auto simp: distinct_keys_def map_of_eq_None_iff)
  then have "AList.update (fst c) (snd c) d = d @ [c]" by (simp add: update_fresh)
  with Cons show ?case by simp
qed simp

lemma cookies_ok_named: "cookies_ok cs \<Longrightarrow> filter (\<lambda>c. fst c \<noteq> []) cs = cs"
  by (auto simp: cookies_ok_def list_all_iff cookie_ok_def intro: filter_True)

lemma cookies_read_back: "cookies_ok cs \<Longrightarrow> parse_cookie_header (cookies_to_header cs) = cs"
  using split_cookies [of cs "[]"] fold_update_fresh [of "[]" cs]
  by (cases "cs = []") (simp_all add: cookies_to_header_def cookies_ok_named parse_cookie_header_def, simp add: cookies_ok_def)

text \<open>What is read from any header can be carried by one.\<close>

lemma split_at_parts: "split_at p s = (a, Some b) \<Longrightarrow> \<exists>c. p c \<and> s = a @ c # b \<and> (\<forall>x \<in> set a. \<not> p x)"
proof (induction s arbitrary: a)
  case (Cons x s)
  show ?case
  proof (cases "p x")
    case True
    with Cons.prems show ?thesis by (auto simp: split_at_def)
  next
    case False
    with Cons.prems obtain a' where "a = x # a'" "split_at p s = (a', Some b)"
      by (auto simp: split_at_def split: list.splits)
    with Cons.IH [of a'] False show ?thesis by auto
  qed
qed (simp add: split_at_def)

lemma parse_part_ok:
  assumes "cookies_ok d" and "CHR '';'' \<notin> set part"
  shows "cookies_ok (parse_cookie_part part d)"
proof (cases "\<exists>name val. split_at (\<lambda>c. c = CHR ''='') (strip part) = (name, Some val) \<and> name \<noteq> []")
  case True
  then obtain name val where sp: "split_at (\<lambda>c. c = CHR ''='') (strip part) = (name, Some val)" and "name \<noteq> []" by blast
  from split_at_parts [OF sp] have part: "strip part = name @ CHR ''='' # val" "CHR ''='' \<notin> set name" by auto
  have free: "CHR '';'' \<notin> set name" "CHR '';'' \<notin> set val" using part(1) assms(2) strip_subset [of part] by auto
  have "\<not> is_space (hd (strip part))" using strip_ends [OF strip_strip, of part] part(1) by simp
  then have "\<not> is_space (hd name)" using part(1) \<open>name \<noteq> []\<close> by simp
  then have "strip name \<noteq> []"
    using \<open>name \<noteq> []\<close> by (cases name) (auto simp: strip_def dropWhile_eq_Nil_conv)
  moreover have "CHR '';'' \<notin> set (strip name)" "CHR ''='' \<notin> set (strip name)" "CHR '';'' \<notin> set (strip val)"
    using free part(2) strip_subset by blast+
  ultimately have "cookie_ok (strip name, strip val)" by (simp add: cookie_ok_def)
  then have "cookies_ok (AList.update (strip name) (strip val) d)"
    using assms(1) update_list_all [of cookie_ok d "strip name" "strip val"] by (simp add: cookies_ok_def)
  with sp \<open>name \<noteq> []\<close> show ?thesis by (simp add: parse_cookie_part_def)
next
  case False
  then have "parse_cookie_part part d = d" by (auto simp: parse_cookie_part_def split: prod.split option.split)
  with assms(1) show ?thesis by simp
qed

lemma parse_header_ok: "cookies_ok (parse_cookie_header h)"
proof -
  have "cookies_ok (fold parse_cookie_part parts d)"
    if "cookies_ok d" "\<And>q. q \<in> set parts \<Longrightarrow> CHR '';'' \<notin> set q" for parts d
    using that by (induction parts arbitrary: d) (auto intro: parse_part_ok)
  then show ?thesis unfolding parse_cookie_header_def
    using split_char_free by (simp add: cookies_ok_def)
qed

lemma cookie_additions_ok: "cookies_ok cs \<Longrightarrow> cookies_ok (cookie_additions h cs)"
  by (auto simp: cookies_ok_def cookie_additions_def list_all_iff)

lemma merge_reads_back:
  assumes ok: "cookies_ok cs"
  shows "parse_cookie_header (merge_cookie_header h cs) = parse_cookie_header h @ cookie_additions h cs"
proof -
  let ?e = "strip h" and ?add = "cookie_additions h cs"
  have e: "parse_cookie_header ?e = parse_cookie_header h" by (rule parse_header_strip)
  then have add: "cookie_additions ?e cs = ?add" by (simp add: cookie_additions_def)
  have ok': "cookies_ok ?add" using ok by (rule cookie_additions_ok)
  have joined: "join ''; '' (map cookie_text ?add) = cookies_to_header ?add"
    by (simp add: cookies_to_header_def cookies_ok_named [OF ok'])
  show ?thesis
  proof (cases "?e \<noteq> [] \<and> ?add \<noteq> []")
    case True
    then have "merge_cookie_header h cs = rstrip_separators ?e @ CHR '';'' # CHR '' '' # cookies_to_header ?add"
      by (simp add: merge_cookie_header_def Let_def add joined)
    moreover have "fold parse_cookie_part (split_char (CHR '';'') (CHR '' '' # cookies_to_header ?add)) d = d @ ?add"
      if "distinct_keys (d @ ?add)" for d
      using that split_cookies [of ?add d] True ok' fold_update_fresh [OF that]
      by (cases "split_char (CHR '';'') (join ''; '' (map cookie_text ?add))")
        (simp_all add: parse_part_space_Cons is_space_def cookies_ok_def flip: joined)
    moreover have "distinct_keys (parse_cookie_header h @ ?add)"
    proof -
      have "set (map fst (parse_cookie_header h)) \<inter> set (map fst ?add) = {}" by (force simp: cookie_additions_def)
      then show ?thesis
        using parse_header_ok [of h] ok' unfolding cookies_ok_def distinct_keys_def map_append distinct_append by blast
    qed
    ultimately show ?thesis by (simp add: parse_header_append parse_header_rstrip e)
  next
    case False
    then consider "?e = []" | "?e \<noteq> []" "?add = []" by blast
    then show ?thesis
    proof cases
      case 1
      have "merge_cookie_header h cs = cookies_to_header ?add"
        unfolding merge_cookie_header_def Let_def add joined using 1 by simp
      moreover have "parse_cookie_header h = []" using 1 e by (simp add: parse_cookie_header_def)
      ultimately show ?thesis using cookies_read_back [OF ok'] by simp
    next
      case 2
      then have "merge_cookie_header h cs = ?e" unfolding merge_cookie_header_def Let_def add by simp
      with 2 e show ?thesis by simp
    qed
  qed
qed

text \<open>C29. Cookie headers are read back: the cookies read from any header, written as a header and read
  again, are the same, in the same order; and merging cookies that a header can carry into any
  header keeps the value of every cookie it had and appends exactly the missing ones.\<close>

theorem cookie_headers_round_trip:
  "parse_cookie_header (cookies_to_header (parse_cookie_header h)) = parse_cookie_header h \<and>
   (if cookies_ok cs then
      parse_cookie_header (cookies_to_header cs) = cs \<and>
      parse_cookie_header (merge_cookie_header h cs) =
        parse_cookie_header h @ filter (\<lambda>c. fst c \<notin> set (map fst (parse_cookie_header h))) cs
    else True)"
proof -
  have "cookie_additions h cs = filter (\<lambda>c. fst c \<notin> set (map fst (parse_cookie_header h))) cs" if "cookies_ok cs"
    using that by (auto simp: cookie_additions_def cookies_ok_def list_all_iff cookie_ok_def intro!: filter_cong)
  then show ?thesis using cookies_read_back parse_header_ok merge_reads_back by simp
qed

section \<open>The reference that decides\<close>

text \<open>A reference decides when it is neither blank nor \<open>global\<close>, unless it names a stored profile without
  a proxy where the search goes on.\<close>

definition decides :: "pydict \<Rightarrow> string \<times> string \<times> bool \<Rightarrow> bool" where
  "decides proxies x =
     (let (raw, source, terminal_when_unresolved) = x; low = lower raw in
      raw \<noteq> [] \<and> low \<noteq> ''global'' \<and>
      (if starts_with ''profile:'' low then resolve_proxy_profile proxies (drop 8 raw) \<noteq> [] \<or> terminal_when_unresolved else True))"

lemma resolve_undecided:
  assumes "\<not> decides proxies (raw, source, t)" and "raw \<noteq> []"
  shows "\<exists>r. resolve_proxy_reference proxies grp source t raw = Some (Inr r, None) \<and> rs_url r = [] \<and> \<not> rs_terminal r \<and>
    rs_limit r = 0 \<and> \<not> rs_reserved r"
proof (cases "lower raw = ''global''")
  case True
  then show ?thesis by (simp add: resolve_proxy_reference_def unresolved_def Let_def)
next
  case False
  with assms have "starts_with ''profile:'' (lower raw)" "resolve_proxy_profile proxies (drop 8 raw) = []" "\<not> t"
    by (auto simp: decides_def Let_def split: if_splits)
  moreover from this(1) have "lower raw \<noteq> ''direct''" by (auto simp: starts_with_def)
  ultimately show ?thesis using assms(2) False by (simp add: resolve_proxy_reference_def unresolved_def Let_def)
qed

lemma resolve_decided:
  assumes "decides proxies (raw, source, t)" and "resolve_proxy_reference proxies grp source t raw = Some (Inr r, c)"
  shows "rs_url r \<noteq> [] \<or> rs_terminal r"
  using assms
  by (auto simp: decides_def resolve_proxy_reference_def group_resolved_def Let_def split: if_splits option.splits sum.splits)

lemma select_settled: "rs_url r \<noteq> [] \<or> rs_terminal r \<Longrightarrow> select_reference proxies grp r refs = Some (Inr r, None)"
  by (induction refs) auto

lemma select_first_decisive:
  "rs_url r = [] \<Longrightarrow> \<not> rs_terminal r \<Longrightarrow>
   case List.find (decides proxies) refs of
     Some (raw, source, t) \<Rightarrow> select_reference proxies grp r refs = resolve_proxy_reference proxies grp source t raw
   | None \<Rightarrow> (\<exists>q. select_reference proxies grp r refs = Some (Inr q, None) \<and> rs_url q = [] \<and> \<not> rs_terminal q)"
proof (induction refs arbitrary: r)
  case (Cons x refs)
  obtain raw source t where x: "x = (raw, source, t)" by (cases x)
  show ?case
  proof (cases "decides proxies x")
    case True
    then have "raw \<noteq> []" by (simp add: x decides_def Let_def)
    show ?thesis
    proof (cases "resolve_proxy_reference proxies grp source t raw")
      case None
      with Cons.prems True \<open>raw \<noteq> []\<close> show ?thesis by (simp add: x)
    next
      case (Some y)
      obtain out c where y: "y = (out, c)" by (cases y)
      show ?thesis
      proof (cases out)
        case (Inl e)
        with Some y Cons.prems True \<open>raw \<noteq> []\<close> show ?thesis by (simp add: x)
      next
        case (Inr q)
        have "rs_url q \<noteq> [] \<or> rs_terminal q" using resolve_decided True Some y Inr by (simp add: x)
        from select_settled [OF this] Some y Inr Cons.prems True \<open>raw \<noteq> []\<close> show ?thesis by (simp add: x)
      qed
    qed
  next
    case False
    show ?thesis
    proof (cases "raw = []")
      case True
      then have "select_reference proxies grp r (x # refs) = select_reference proxies grp r refs" by (simp add: x)
      then show ?thesis using False Cons.IH [OF Cons.prems] by (simp split: option.splits prod.splits)
    next
      case raw: False
      obtain q where q: "resolve_proxy_reference proxies grp source t raw = Some (Inr q, None)" "rs_url q = []" "\<not> rs_terminal q"
        using resolve_undecided [of proxies raw source t grp] False raw unfolding x by blast
      have "select_reference proxies grp r (x # refs) = select_reference proxies grp q refs"
        using Cons.prems raw q(1) by (simp add: x split: option.split)
      then show ?thesis using False Cons.IH [OF q(2,3)] by (simp split: option.splits prod.splits)
    qed
  qed
qed simp


section \<open>The choice of a node and the capacity of the egresses\<close>

lemma selection_parts [simp]:
  "gs_url (proxy_group_selection g node i) = clean (field node ''url'')" "gs_group (proxy_group_selection g node i) = g"
  "gs_node (proxy_group_selection g node i) = node_id node i" "gs_limit (proxy_group_selection g node i) = node_limit node"
  "\<not> gs_reserved (proxy_group_selection g node i)"
  by (simp_all add: proxy_group_selection_def Let_def)

lemma node_id_nonempty [simp]: "node_id node i \<noteq> []"
  by (simp add: node_id_def)

lemma selection_key_node: "g \<noteq> [] \<Longrightarrow> selection_key (proxy_group_selection g node i) = group_node_key g node i"
  by (simp add: selection_key_def group_node_key_def)

definition score_le :: "rat \<times> int \<Rightarrow> rat \<times> int \<Rightarrow> bool" where
  "score_le a b \<longleftrightarrow> fst a < fst b \<or> fst a = fst b \<and> snd a \<le> snd b"

lemma min_by_least: "min_by f best xs \<in> set (best # xs) \<and> list_all (\<lambda>y. score_le (f (min_by f best xs)) (f y)) (best # xs)"
proof (induction xs arbitrary: best)
  case Nil
  then show ?case by (simp add: score_le_def)
next
  case (Cons x xs)
  let ?b = "if fst (f x) < fst (f best) \<or> fst (f x) = fst (f best) \<and> snd (f x) < snd (f best) then x else best"
  have b: "score_le (f ?b) (f best)" "score_le (f ?b) (f x)" by (auto simp: score_le_def)
  have trans: "score_le u v \<Longrightarrow> score_le v w \<Longrightarrow> score_le u w" for u v w by (auto simp: score_le_def)
  have m: "min_by f ?b xs \<in> set (?b # xs)" "list_all (\<lambda>y. score_le (f (min_by f ?b xs)) (f y)) (?b # xs)"
    using Cons.IH [of ?b] by auto
  have top: "score_le (f (min_by f ?b xs)) (f ?b)" using m(2) by simp
  have eq: "min_by f best (x # xs) = min_by f ?b xs" by simp
  have mem: "min_by f ?b xs \<in> set (best # x # xs)" using m(1) by (auto split: if_splits)
  have all: "list_all (\<lambda>y. score_le (f (min_by f ?b xs)) (f y)) (best # x # xs)"
    using m(2) trans [OF top b(1)] trans [OF top b(2)] by (simp only: list.pred_inject simp_thms)
  show ?case unfolding eq using mem all by blast
qed

text \<open>What one turn of the choice does.\<close>

lemma group_turn_cases:
  assumes "group_turn g nodes reserve deadline now pick elapsed d = (out, d')" and "g \<noteq> []" and "nodes \<noteq> []"
  obtains (late) "out = GroupLate" "d' = d" "is_late deadline now"
  | (wait) "out = WaitForNode" "d' = d" "reserve" "filter (node_has_capacity d g) nodes = []"
  | (reserved) i node where "(i, node) \<in> set nodes" "node_has_capacity d g (i, node)" "reserve" "0 < node_limit node"
      "out = Chosen ((proxy_group_selection g node i)\<lparr>gs_reserved := True, gs_wait_ms := elapsed\<rparr>)"
      "d' = AList.update (group_node_key g node i) (egress_load d (group_node_key g node i) + 1) d"
  | (free) i node where "(i, node) \<in> set nodes" "node_has_capacity d g (i, node)" "\<not> (reserve \<and> 0 < node_limit node)"
      "out = Chosen (proxy_group_selection g node i)" "d' = d"
  | (full) i node where "(i, node) \<in> set nodes" "\<not> reserve" "filter (node_has_capacity d g) nodes = []"
      "list_all (\<lambda>y. score_le (node_load_score d g (i, node)) (node_load_score d g y)) nodes"
      "out = Chosen (proxy_group_selection g node i)" "d' = d"
proof -
  let ?av = "filter (node_has_capacity d g) nodes"
  consider "is_late deadline now" | "\<not> is_late deadline now" "?av \<noteq> []" | "\<not> is_late deadline now" "?av = []" "reserve"
    | "\<not> is_late deadline now" "?av = []" "\<not> reserve" by blast
  then show ?thesis
  proof cases
    case 1
    with assms(1) late show ?thesis by (simp add: group_turn_def)
  next
    case 2
    obtain i node where x: "?av ! (pick mod length ?av) = (i, node)" by fastforce
    have "?av ! (pick mod length ?av) \<in> set ?av" using 2(2) by (intro nth_mem) simp
    then have mem: "(i, node) \<in> set nodes" "node_has_capacity d g (i, node)" unfolding x by simp_all
    show ?thesis
    proof (cases "reserve \<and> 0 < node_limit node")
      case True
      have "(out, d') = (Chosen ((proxy_group_selection g node i)\<lparr>gs_reserved := True, gs_wait_ms := elapsed\<rparr>),
          AList.update (group_node_key g node i) (egress_load d (group_node_key g node i) + 1) d)"
        using assms(1) 2 True x by (simp add: group_turn_def Let_def selection_key_node [OF assms(2)])
      with reserved [OF mem] True show ?thesis by simp
    next
      case False
      have "(out, d') = (Chosen (proxy_group_selection g node i), d)"
        using assms(1) 2 False x by (simp add: group_turn_def Let_def)
      with free [OF mem False] show ?thesis by simp
    qed
  next
    case 3
    with assms(1) wait show ?thesis by (simp add: group_turn_def)
  next
    case 4
    obtain i node where x: "min_by (node_load_score d g) (hd nodes) (tl nodes) = (i, node)" by fastforce
    have "(out, d') = (Chosen (proxy_group_selection g node i), d)"
      using assms(1) 4 x by (simp add: group_turn_def Let_def)
    with full [of i node] 4 min_by_least [of "node_load_score d g" "hd nodes" "tl nodes"] x assms(3) show ?thesis by simp
  qed
qed

text \<open>The counters with the keys that are held, one for each reservation or acquisition not yet released.\<close>

record egress_state =
  eg_counts :: egress_counts
  eg_held :: "string list"

datatype egress_op =
    GroupTurn string "(nat \<times> pydict) list" bool "rat option" rat nat int
  | AcquireTurn profile bool "rat option" rat int
  | ReleaseEgress profile

fun egress_step :: "egress_state \<Rightarrow> egress_op \<Rightarrow> egress_state" where
  "egress_step s (GroupTurn g nodes reserve deadline now pick elapsed) =
     (case group_turn g nodes reserve deadline now pick elapsed (eg_counts s) of
        (Chosen x, d) \<Rightarrow> \<lparr>eg_counts = d, eg_held = (if gs_reserved x then [selection_key x] else []) @ eg_held s\<rparr>
      | (_, d) \<Rightarrow> s\<lparr>eg_counts := d\<rparr>)"
| "egress_step s (AcquireTurn q first deadline now elapsed) =
     (case acquire_turn q first deadline now elapsed (eg_counts s) of
        (EgressTaken _, d) \<Rightarrow>
          \<lparr>eg_counts = d, eg_held = (if \<not> pp_reserved q \<and> 0 < pp_limit q then [profile_key q] else []) @ eg_held s\<rparr>
      | (_, d) \<Rightarrow> s\<lparr>eg_counts := d\<rparr>)"
| "egress_step s (ReleaseEgress q) =
     \<lparr>eg_counts = release_image_egress q (eg_counts s),
       eg_held = (if 0 < pp_limit q then remove1 (profile_key q) (eg_held s) else eg_held s)\<rparr>"

text \<open>A limit is at most what is allowed for its key, and only a holder releases.\<close>

fun egress_allowed :: "(string \<Rightarrow> int) \<Rightarrow> egress_state \<Rightarrow> egress_op \<Rightarrow> bool" where
  "egress_allowed cap s (GroupTurn g nodes reserve deadline now pick elapsed) =
     (g \<noteq> [] \<and> nodes \<noteq> [] \<and> list_all (\<lambda>(i, node). node_limit node \<le> cap (group_node_key g node i)) nodes)"
| "egress_allowed cap s (AcquireTurn q first deadline now elapsed) = (pp_limit q \<le> cap (profile_key q))"
| "egress_allowed cap s (ReleaseEgress q) = (if 0 < pp_limit q then profile_key q \<in> set (eg_held s) else True)"

definition egress_ok :: "(string \<Rightarrow> int) \<Rightarrow> egress_state \<Rightarrow> bool" where
  "egress_ok cap s \<longleftrightarrow>
     (\<forall>k. egress_load (eg_counts s) k = int (count_list (eg_held s) k) \<and> egress_load (eg_counts s) k \<le> max 0 (cap k))"

lemma egress_count: "egress_ok cap s \<Longrightarrow> egress_load (eg_counts s) k = int (count_list (eg_held s) k)"
  and egress_bound: "egress_ok cap s \<Longrightarrow> egress_load (eg_counts s) k \<le> max 0 (cap k)"
  unfolding egress_ok_def by blast+

lemma egress_okI:
  "(\<And>k. egress_load (eg_counts s) k = int (count_list (eg_held s) k)) \<Longrightarrow>
   (\<And>k. egress_load (eg_counts s) k \<le> max 0 (cap k)) \<Longrightarrow> egress_ok cap s"
  unfolding egress_ok_def by blast

lemma egress_load_update [simp]: "egress_load (AList.update j n d) k = (if k = j then n else egress_load d k)"
  by (simp add: egress_load_def)

lemma egress_load_delete [simp]: "egress_load (AList.delete j d) k = (if k = j then 0 else egress_load d k)"
  by (simp add: egress_load_def)

lemma egress_take:
  assumes ok: "egress_ok cap s" and "egress_load (eg_counts s) k < limit" and "limit \<le> cap k"
  shows "egress_ok cap \<lparr>eg_counts = AList.update k (egress_load (eg_counts s) k + 1) (eg_counts s), eg_held = k # eg_held s\<rparr>"
proof (rule egress_okI, goal_cases)
  case (1 j)
  show ?case using egress_count [OF ok, of k] egress_count [OF ok, of j] by simp
next
  case (2 j)
  show ?case using egress_bound [OF ok, of j] assms(2,3) by (cases "j = k") auto
qed

lemma egress_same: "egress_ok cap s \<Longrightarrow> egress_ok cap \<lparr>eg_counts = eg_counts s, eg_held = eg_held s\<rparr>"
  by (cases s) simp

lemma egress_group_ok:
  assumes ok: "egress_ok cap s" and allowed: "egress_allowed cap s (GroupTurn g nodes reserve deadline now pick elapsed)"
  shows "egress_ok cap (egress_step s (GroupTurn g nodes reserve deadline now pick elapsed))"
proof -
  obtain out d where turn: "group_turn g nodes reserve deadline now pick elapsed (eg_counts s) = (out, d)" by fastforce
  have g: "g \<noteq> []" "nodes \<noteq> []" using allowed by simp_all
  from turn g show ?thesis
  proof (cases rule: group_turn_cases)
    case (reserved i node)
    then have "node_limit node \<le> cap (group_node_key g node i)" using allowed by (auto simp: list_all_iff)
    moreover have "egress_load (eg_counts s) (group_node_key g node i) < node_limit node"
      using reserved by (simp add: node_has_capacity_def)
    ultimately show ?thesis
      using egress_take [OF ok] turn reserved by (simp add: selection_key_def group_node_key_def g)
  next
    case late
    with turn ok show ?thesis by simp
  next
    case wait
    with turn ok show ?thesis by simp
  next
    case (free i node)
    with turn egress_same [OF ok] show ?thesis by simp
  next
    case (full i node)
    with turn egress_same [OF ok] show ?thesis by simp
  qed
qed

lemma acquire_turn_cases:
  "acquire_turn q first deadline now elapsed d = (EgressLate, d) \<or> acquire_turn q first deadline now elapsed d = (EgressWait, d) \<or>
   (\<exists>n. acquire_turn q first deadline now elapsed d = (EgressTaken n, d) \<and> (pp_reserved q \<or> pp_limit q \<le> 0)) \<or>
   \<not> pp_reserved q \<and> 0 < pp_limit q \<and> egress_load d (profile_key q) < pp_limit q \<and>
   acquire_turn q first deadline now elapsed d =
     (EgressTaken elapsed, AList.update (profile_key q) (egress_load d (profile_key q) + 1) d)"
  by (simp add: acquire_turn_def)

lemma egress_acquire_ok:
  assumes ok: "egress_ok cap s" and "egress_allowed cap s (AcquireTurn q first deadline now elapsed)"
  shows "egress_ok cap (egress_step s (AcquireTurn q first deadline now elapsed))"
proof -
  let ?d = "eg_counts s"
  consider "acquire_turn q first deadline now elapsed ?d = (EgressLate, ?d)" | "acquire_turn q first deadline now elapsed ?d = (EgressWait, ?d)"
    | n where "acquire_turn q first deadline now elapsed ?d = (EgressTaken n, ?d)" "pp_reserved q \<or> pp_limit q \<le> 0"
    | "\<not> pp_reserved q" "0 < pp_limit q" "egress_load ?d (profile_key q) < pp_limit q"
      "acquire_turn q first deadline now elapsed ?d =
        (EgressTaken elapsed, AList.update (profile_key q) (egress_load ?d (profile_key q) + 1) ?d)"
    using acquire_turn_cases by metis
  then show ?thesis
  proof cases
    case 3
    with egress_same [OF ok] show ?thesis by auto
  next
    case 4
    with egress_take [OF ok, of "profile_key q" "pp_limit q"] assms(2) show ?thesis by simp
  qed (use ok in simp_all)
qed

lemma count_list_pos: "x \<in> set xs \<Longrightarrow> 0 < count_list xs x"
  by (induction xs) auto

lemma count_remove1: "count_list (remove1 x xs) y = (if x \<in> set xs \<and> x = y then count_list xs y - 1 else count_list xs y)"
  by (induction xs) (auto dest: count_list_pos)

lemma egress_release_ok:
  assumes ok: "egress_ok cap s" and allowed: "egress_allowed cap s (ReleaseEgress q)"
  shows "egress_ok cap (egress_step s (ReleaseEgress q))"
proof (cases "0 < pp_limit q")
  case True
  let ?k = "profile_key q"
  have k: "?k \<in> set (eg_held s)" using allowed True by simp
  then have c: "0 < count_list (eg_held s) ?k" by (simp add: count_list_pos)
  have load: "egress_load (release_image_egress q (eg_counts s)) j =
    (if j = ?k then egress_load (eg_counts s) ?k - 1 else egress_load (eg_counts s) j)" for j
    using True c egress_count [OF ok, of ?k] by (simp add: release_image_egress_def)
  show ?thesis
  proof (rule egress_okI, goal_cases)
    case (1 j)
    show ?case using True k c egress_count [OF ok, of ?k] egress_count [OF ok, of j] load [of j] by (simp add: count_remove1 of_nat_diff)
  next
    case (2 j)
    show ?case using egress_bound [OF ok, of j] load [of j] by (cases "j = ?k") auto
  qed
next
  case False
  with egress_same [OF ok] show ?thesis by (simp add: release_image_egress_def)
qed

interpretation egress_machine: guarded_machine egress_step "egress_allowed cap" "egress_ok cap" for cap
proof
  fix s x
  assume "egress_ok cap s" "egress_allowed cap s x"
  then show "egress_ok cap (egress_step s x)"
    by (cases x) (blast intro: egress_group_ok egress_acquire_ok egress_release_ok)+
qed

lemma node_id_last: "\<not> is_space (last (node_id node i))"
  using strip_ends [OF strip_strip, of "py_str (py_or (field node ''id'') (PStr []))"]
    strip_ends [OF strip_strip, of "py_str (py_or (field node ''name'') (PStr []))"] nat_text_plain [of "i + 1"]
  by (auto simp: node_id_def clean_def)

lemma group_node_key_stripped: "strip (group_node_key g node i) = group_node_key g node i"
proof (rule strip_id)
  show "\<not> is_space (last (group_node_key g node i))" using node_id_last by (simp add: group_node_key_def)
qed (simp_all add: group_node_key_def is_space_def)

lemma profile_key_reserved:
  "g \<noteq> [] \<Longrightarrow> profile_key (profile_of settings resource (group_resolved source terminal (proxy_group_selection g node i))) =
   group_node_key g node i"
  using group_node_key_stripped [of g node i]
  by (simp add: profile_key_def profile_of_def group_resolved_def Let_def selection_key_node) (simp add: group_node_key_def)

text \<open>C28. The image capacity of the egresses is accounted for under every sequence of turns and releases:
  the count of every key is the number of reservations and acquisitions that hold it, and stays
  within the largest limit allowed for that key; and a profile made from a reserved node releases
  exactly the key that the reservation counted.\<close>

theorem egress_accounted:
  "(if eg_counts s = [] \<and> eg_held s = [] \<and> allowed_run (egress_allowed cap) egress_step s ops then
      (let t = run egress_step s ops in
       egress_load (eg_counts t) key = int (count_list (eg_held t) key) \<and> egress_load (eg_counts t) key \<le> max 0 (cap key))
    else True) \<and>
   (if strip g \<noteq> [] then
      profile_key (profile_of settings resource (group_resolved source terminal (proxy_group_selection (strip g) node i))) =
      group_node_key (strip g) node i
    else True)"
proof -
  have "egress_ok cap s" if "eg_counts s = []" "eg_held s = []"
    using that by (simp add: egress_ok_def egress_load_def)
  then have "egress_ok cap (run egress_step s ops)"
    if "eg_counts s = []" "eg_held s = []" "allowed_run (egress_allowed cap) egress_step s ops"
    using that egress_machine.run_inv by blast
  then show ?thesis
    using egress_count [of cap "run egress_step s ops" key] egress_bound [of cap "run egress_step s ops" key] profile_key_reserved
    by (auto simp: Let_def)
qed

section \<open>More properties\<close>

text \<open>The choice of a node: a request waits only for a reservation that no node has room for, and gives
  up only at its deadline; a chosen node is one of the group, has room, and is counted when it is
  reserved, or the request reserves nothing, every node is full and the node has the least load.\<close>

theorem node_choice_sound:
  "if g \<noteq> [] \<and> nodes \<noteq> [] then
     (case group_turn g nodes reserve deadline now pick elapsed d of
        (GroupLate, d') \<Rightarrow> is_late deadline now \<and> d' = d
      | (WaitForNode, d') \<Rightarrow> reserve \<and> filter (node_has_capacity d g) nodes = [] \<and> d' = d
      | (Chosen s, d') \<Rightarrow>
          list_ex (\<lambda>(i, node).
            gs_url s = clean (field node ''url'') \<and> selection_key s = group_node_key g node i \<and> gs_limit s = node_limit node \<and>
            gs_reserved s = (reserve \<and> 0 < node_limit node) \<and>
            d' = (if gs_reserved s then AList.update (selection_key s) (egress_load d (selection_key s) + 1) d else d) \<and>
            (node_has_capacity d g (i, node) \<or>
             \<not> reserve \<and> filter (node_has_capacity d g) nodes = [] \<and>
             list_all (\<lambda>y. score_le (node_load_score d g (i, node)) (node_load_score d g y)) nodes)) nodes)
   else True"
proof (cases "g \<noteq> [] \<and> nodes \<noteq> []")
  case True
  then have g: "g \<noteq> []" "nodes \<noteq> []" by simp_all
  obtain out d' where turn: "group_turn g nodes reserve deadline now pick elapsed d = (out, d')" by fastforce
  have key: "selection_key (proxy_group_selection g node i) = group_node_key g node i"
    "selection_key ((proxy_group_selection g node i)\<lparr>gs_reserved := True, gs_wait_ms := elapsed\<rparr>) = group_node_key g node i" for node i
    using g by (simp_all add: selection_key_def group_node_key_def)
  from turn g show ?thesis
  proof (cases rule: group_turn_cases)
    case (reserved i node)
    then show ?thesis using turn g key by (auto simp: list_ex_iff intro!: bexI [of _ "(i, node)"])
  next
    case (free i node)
    then show ?thesis using turn g key by (auto simp: list_ex_iff intro!: bexI [of _ "(i, node)"])
  next
    case (full i node)
    then show ?thesis using turn g key by (auto simp: list_ex_iff intro!: bexI [of _ "(i, node)"])
  qed (use turn g in simp_all)
next
  case False
  show ?thesis unfolding if_not_P [OF False] by (rule TrueI)
qed

text \<open>C30. An account whose own reference names a group without a usable node gets an error and no egress at
  all; one whose own reference names a stored profile that is gone, disabled or empty leaves
  directly, whatever proxies the caller and the defaults have.\<close>

theorem unavailable_reference_outcome:
  "let ref = clean (field account ''proxy''); low = lower ref in
   (if starts_with ''group:'' low \<and> grp (strip (drop 6 ref)) = Some (Inr no, c) \<and> gs_url no = []
    then get_profile settings grp (Some account) proxy resource upstream = Some (Inl ReferenceUnavailable, c) else True) \<and>
   (if starts_with ''profile:'' low \<and> resolve_proxy_profile (es_proxies settings) (drop 8 ref) = []
    then (case get_profile settings grp (Some account) proxy resource upstream of
            Some (Inr q, None) \<Rightarrow> pp_url q = [] \<and> pp_mode q = ''direct'' \<and> pp_source q = ''account_profile''
          | _ \<Rightarrow> False) else True)"
proof -
  let ?ref = "clean (field account ''proxy'')"
  let ?refs = "proxy_references settings (Some account) proxy resource upstream"
  obtain rest where refs: "?refs = (?ref, ''account'', True) # rest" by (simp add: proxy_references_def)
  have nonempty: "?ref \<noteq> []" if "starts_with p (lower ?ref)" "p \<noteq> []" for p
    using that by (auto simp: starts_with_def lower_def)
  have group: "get_profile settings grp (Some account) proxy resource upstream = Some (Inl ReferenceUnavailable, c)"
    if "starts_with ''group:'' (lower ?ref)" "grp (strip (drop 6 ?ref)) = Some (Inr no, c)" "gs_url no = []"
  proof -
    have "lower ?ref \<noteq> ''global'' \<and> lower ?ref \<noteq> ''direct'' \<and> \<not> starts_with ''profile:'' (lower ?ref)"
      using that(1) by (cases "lower ?ref") (auto simp: starts_with_def)
    then have "resolve_proxy_reference (es_proxies settings) grp ''account'' True ?ref = Some (Inl ReferenceUnavailable, c)"
      using that nonempty [OF that(1)] by (simp add: resolve_proxy_reference_def Let_def)
    with nonempty [OF that(1)] show ?thesis by (simp add: get_profile_def refs unresolved_def)
  qed
  have stored: "\<exists>q. get_profile settings grp (Some account) proxy resource upstream = Some (Inr q, None) \<and>
      pp_url q = [] \<and> pp_mode q = ''direct'' \<and> pp_source q = ''account_profile''"
    if "starts_with ''profile:'' (lower ?ref)" "resolve_proxy_profile (es_proxies settings) (drop 8 ?ref) = []"
  proof -
    let ?r = "(unresolved ''account_profile'')\<lparr>rs_url := [], rs_terminal := True, rs_key := egress_key_for_proxy [],
      rs_label := ''account_profile''\<rparr>"
    have "lower ?ref \<noteq> ''global'' \<and> lower ?ref \<noteq> ''direct''" using that(1) by (auto simp: starts_with_def)
    then have "resolve_proxy_reference (es_proxies settings) grp ''account'' True ?ref = Some (Inr ?r, None)"
      using that nonempty [OF that(1)] by (simp add: resolve_proxy_reference_def Let_def)
    moreover have "select_reference (es_proxies settings) grp ?r rest = Some (Inr ?r, None)" by (rule select_settled) simp
    ultimately have "select_reference (es_proxies settings) grp (unresolved ''direct'') ?refs = Some (Inr ?r, None)"
      using nonempty [OF that(1)] by (simp add: refs) (simp add: unresolved_def)
    then show ?thesis
      by (simp add: get_profile_def profile_of_def Let_def unresolved_def normalize_proxy_url_def starts_with_def lower_def)
  qed
  show ?thesis unfolding Let_def using group stored by auto
qed

text \<open>A clearance that a flight brings is the one in use until it expires: it is returned and kept, the
  next refresh that is not forced is served with it without another flight, and the headers of
  requests to the host through the same proxy carry it.\<close>

theorem clearance_in_use:
  "if clearance_enabled q \<and> clearance_mode q = ''flaresolverr'' \<and> flight_needed q host force t0 looked \<and>
      (case expires_at q now of None \<Rightarrow> True | Some e \<Rightarrow> t < e)
   then
     (case get_clearance url host (pp_url q) answer t1 of
        None \<Rightarrow> refresh_flight q host force before t0 looked None now c = (or_else (map_of looked (cache_pair (pp_url q) host)) before, c)
      | Some b \<Rightarrow>
          (case refresh_flight q host force before t0 looked (Some b) now c of
             (Some b', c') \<Rightarrow>
               bu_cookies b' = bu_cookies b \<and> bu_agent b' = bu_agent b \<and>
               refresh_begin q host False t c' = (Served (Some b'), c') \<and>
               build_headers q host t headers c' = (add_bundle b' headers, c')
           | _ \<Rightarrow> False))
   else True"
proof (cases "clearance_enabled q \<and> clearance_mode q = ''flaresolverr'' \<and> flight_needed q host force t0 looked \<and>
    (case expires_at q now of None \<Rightarrow> True | Some e \<Rightarrow> t < e)")
  case True
  show ?thesis
  proof (cases "get_clearance url host (pp_url q) answer t1")
    case None
    with True show ?thesis by (simp add: refresh_flight_def Let_def)
  next
    case (Some b)
    let ?b = "adopt_bundle q host now b"
    have b: "bu_host b = host" "bu_expires b = None" "bu_cookies b \<noteq> [] \<or> bu_agent b \<noteq> []"
      using Some by (auto simp: get_clearance_def Let_def split: if_splits option.splits pyval.splits)
    have same: "bu_cookies ?b = bu_cookies b" "bu_agent ?b = bu_agent b" "bu_host ?b = host"
      "normalize_proxy_url (bu_proxy ?b) = normalize_proxy_url (pp_url q)" "bu_expires ?b = expires_at q now"
      using b by (simp_all add: adopt_bundle_def)
    then have "is_valid_for ?b host (pp_url q) t"
      using True b(3) by (auto simp: is_valid_for_def Let_def split: option.splits)
    then show ?thesis
      using True Some same
      by (simp add: refresh_flight_def refresh_begin_def build_headers_def bundle_for_headers_def Let_def)
  qed
next
  case False
  show ?thesis unfolding if_not_P [OF False] by (rule TrueI)
qed

end
