(* ===== verification/AccountRow.thy ===== *)
theory AccountRow
  imports AccountDispatch
begin

text \<open>
  The rows of the accounts in \<open>services/account_service.py\<close>: \<open>_normalize_account\<close>, which every row that
  is loaded or changed goes through, with its parts in the order of the code, and the form that it
  leaves a row in.

  \<open>surroundings\<close> carry the digest of a token (SHA-256, in hexadecimal) and the clock. The redaction of
  diagnostic texts (\<open>sanitize_diagnostic_text\<close>, a list of regular expressions) is an argument that
  gets the secrets, the proxies and the text. An OverflowError or ValueError of a number leaves the
  function, so the result is an exception, no row, or a row.
\<close>

type_synonym sanitizer = "pyval list \<Rightarrow> pyval list \<Rightarrow> pyval \<Rightarrow> string"

section \<open>Values\<close>

definition has_value :: "pyval \<Rightarrow> bool" where
  "has_value v \<longleftrightarrow> v \<noteq> PNone \<and> strip (py_str v) \<noteq> []"

definition bool_value :: "pyval \<Rightarrow> bool \<Rightarrow> bool" where
  "bool_value v d =
     (case v of
        PBool b \<Rightarrow> b
      | PInt i \<Rightarrow> truthy v
      | PFloat f \<Rightarrow> truthy v
      | _ \<Rightarrow>
          (let raw = lower (clean v) in
           if raw \<in> {''1'', ''true'', ''yes'', ''y'', ''on''} then True
           else if raw \<in> {''0'', ''false'', ''no'', ''n'', ''off'', ''none'', ''null'', []} then False
           else d))"

definition status_aliases :: "(string \<times> string) list" where
  "status_aliases =
     [(st_normal, st_normal), (''normal'', st_normal), (''ready'', st_normal), (st_limited, st_limited),
      (''limited'', st_limited), (''rate_limited'', st_limited), (''cooling'', st_limited), (''backoff'', st_limited),
      (st_abnormal, st_abnormal), (''abnormal'', st_abnormal), (''invalid'', st_abnormal), (''error'', st_abnormal),
      (''incomplete'', st_abnormal), (st_disabled, st_disabled), (''disabled'', st_disabled),
      (''auto_disabled'', st_disabled)]"

definition normalize_account_status :: "pyval \<Rightarrow> pydict \<Rightarrow> string" where
  "normalize_account_status v account =
     (if bool_value (field account ''auto_disabled'') False then st_disabled
      else if field account ''enabled'' \<noteq> PNone \<and> \<not> bool_value (field account ''enabled'') True then st_disabled
      else
        (let raw = clean v in
         if raw = [] then st_normal
         else case map_of status_aliases (lower raw) of
           Some s \<Rightarrow> s
         | None \<Rightarrow> (case map_of status_aliases raw of Some s \<Rightarrow> s | None \<Rightarrow> st_normal)))"

text \<open>\<open>float(str(v).strip())\<close>, None when it raises ValueError: a number survives the way through its text.\<close>

definition reparsed_float :: "pyval \<Rightarrow> pyfloat option" where
  "reparsed_float v =
     (case v of
        PFloat (Fin q) \<Rightarrow> Some (finite_or_inf q)
      | PFloat f \<Rightarrow> Some f
      | PInt i \<Rightarrow> Some (finite_or_inf (of_int i))
      | _ \<Rightarrow> parse_float (strip (py_str v)))"

text \<open>\<open>_quota_value\<close>: an infinite number raises OverflowError, which the code does not catch.\<close>

definition quota_value :: "pyval \<Rightarrow> pyexc + int" where
  "quota_value v =
     (if \<not> has_value v then Inr 0
      else case reparsed_float v of
        None \<Rightarrow> Inr 0
      | Some NaN \<Rightarrow> Inr 0
      | Some (Fin q) \<Rightarrow> Inr (max 0 (py_trunc q))
      | Some _ \<Rightarrow> Inl OverflowError)"

section \<open>Quota from the limits\<close>

definition limit_feature :: "pydict \<Rightarrow> string" where
  "limit_feature item =
     lower (clean (py_or (field item ''feature_name'') (py_or (field item ''feature'')
       (py_or (field item ''name'') (field item ''type'')))))"

definition is_image_limit :: "pyval \<Rightarrow> bool" where
  "is_image_limit v =
     (case v of
        PDict item \<Rightarrow> limit_feature item \<in> {''image_gen'', ''image_generation'', ''image'', ''images''}
      | _ \<Rightarrow> False)"

definition limit_restore :: "pydict \<Rightarrow> string option" where
  "limit_restore item =
     (let s = clean (py_or (field item ''reset_after'') (py_or (field item ''restore_at'') (field item ''reset_at''))) in
      if s = [] then None else Some s)"

definition extract_image_quota :: "pyval \<Rightarrow> pyexc + int option \<times> string option \<times> bool option" where
  "extract_image_quota limits =
     (case limits of
        PList xs \<Rightarrow>
          if xs = [] then Inr (None, None, None)
          else
            (case find is_image_limit xs of
               Some (PDict item) \<Rightarrow>
                 (case quota_value (field item ''remaining'') of
                    Inl e \<Rightarrow> Inl e
                  | Inr n \<Rightarrow> Inr (Some n, limit_restore item, Some False))
             | _ \<Rightarrow> Inr (None, None, Some True))
      | _ \<Rightarrow> Inr (None, None, None))"

section \<open>Identity\<close>

definition hex_chars :: string where
  "hex_chars = ''0123456789abcdef''"

definition is_hex :: "nat \<Rightarrow> string \<Rightarrow> bool" where
  "is_hex n s \<longleftrightarrow> length s = n \<and> set s \<subseteq> set hex_chars"

definition normalize_management_id :: "surroundings \<Rightarrow> pyval \<Rightarrow> pyval \<Rightarrow> string" where
  "normalize_management_id sr v token =
     (let candidate = lower (clean v);
          suffix = (if take 5 candidate = ''acct_'' then drop 5 candidate else []) in
      if is_hex 24 suffix then candidate
      else management_id_for_token sr (py_str (py_or token (PStr []))))"

definition fingerprint_limit :: nat where
  "fingerprint_limit = 8"

definition normalize_fingerprints :: "surroundings \<Rightarrow> pyval \<Rightarrow> pyval \<Rightarrow> string list" where
  "normalize_fingerprints sr v token =
     (let candidates = (case v of PList xs \<Rightarrow> xs | _ \<Rightarrow> []);
          fingerprints = map (lower \<circ> clean)
            (filter (\<lambda>item. length (clean item) = 64 \<and> set (lower (clean item)) \<subseteq> set hex_chars) candidates);
          current = sr_token_digest sr (py_str (py_or token (PStr [])));
          fingerprints = fromkeys fingerprints;
          first = (case fingerprints of f # _ \<Rightarrow> f | [] \<Rightarrow> current);
          recent = filter (\<lambda>f. f \<noteq> current) (tl fingerprints);
          recent = (if current \<noteq> first then recent @ [current] else recent) in
      first # last_n (fingerprint_limit - 1) recent)"

definition row_identity :: "surroundings \<Rightarrow> pyval \<Rightarrow> pydict \<Rightarrow> pydict" where
  "row_identity sr token item =
     (let row = AList.update ''access_token'' token (AList.delete ''accessToken'' item);
          row = AList.update ''management_id'' (PStr (normalize_management_id sr (field row ''management_id'') token)) row;
          row = AList.update ''access_token_fingerprints''
            (PList (map PStr (normalize_fingerprints sr (field row ''access_token_fingerprints'') token))) row in
      if lower (clean (field row ''type'')) = ''codex''
      then AList.delete ''type'' (AList.update ''export_type'' (PStr ''codex'') row)
      else row)"

section \<open>State and quota\<close>

definition none_if_falsy :: "string list \<Rightarrow> pydict \<Rightarrow> pydict" where
  "none_if_falsy ks row = fold (\<lambda>k r. AList.update k (py_or (field r k) PNone) r) ks row"

definition drop_fields :: "string list \<Rightarrow> pydict \<Rightarrow> pydict" where
  "drop_fields ks row = fold AList.delete ks row"

text \<open>None is stored for an absent text.\<close>

definition opt_text :: "string option \<Rightarrow> pyval" where
  "opt_text s = (case s of None \<Rightarrow> PNone | Some s \<Rightarrow> PStr s)"

definition state_fields :: "pydict \<Rightarrow> pydict" where
  "state_fields row =
     (let row = AList.update ''type'' (opt_text (normalize_account_type (field row ''type''))) row;
          row = AList.update ''status'' (PStr (normalize_account_status (field row ''status'') row)) row;
          row = drop_fields [''enabled'', ''auto_disabled''] row;
          row = none_if_falsy [''email'', ''user_id''] row;
          row = AList.update ''proxy'' (PStr (clean (field row ''proxy''))) row;
          source = field row ''source_type'';
          source = (if \<not> truthy source \<and> lower (clean (field row ''export_type'')) = ''codex''
                    then PStr ''codex'' else source) in
      AList.update ''source_type'' (PStr (normalize_source_type source)) row)"

definition quota_field :: "bool \<Rightarrow> int option \<Rightarrow> pydict \<Rightarrow> pyexc + pydict" where
  "quota_field explicit derived row =
     (let row = (case derived of Some n \<Rightarrow> if explicit then row else AList.update ''quota'' (PInt n) row | None \<Rightarrow> row) in
      case quota_value (field row ''quota'') of
        Inl e \<Rightarrow> Inl e
      | Inr n \<Rightarrow> Inr (AList.update ''quota'' (PInt n) row))"

definition quota_state :: "bool option \<Rightarrow> pydict \<Rightarrow> pydict" where
  "quota_state derived_unknown row =
     (let row = (if has_value (field row ''image_quota_unknown'') then row
                 else AList.update ''image_quota_unknown''
                   (PBool (case derived_unknown of None \<Rightarrow> True | Some b \<Rightarrow> b)) row);
          unknown = bool_value (field row ''image_quota_unknown'') True;
          row = AList.update ''image_quota_unknown'' (PBool unknown) row;
          confirmed = (derived_unknown = Some False \<or> truthy (field row ''last_remote_checked_at'') \<and> \<not> unknown) in
      if field row ''status'' = PStr st_normal \<and> (\<not> confirmed \<or> field row ''quota'' = PInt 0)
      then AList.update ''image_quota_unknown'' (PBool True) row
      else if field row ''status'' = PStr st_limited
      then AList.update ''image_quota_unknown'' (PBool False) (AList.update ''quota'' (PInt 0) row)
      else row)"

definition limit_fields :: "pyval list \<Rightarrow> string option \<Rightarrow> pydict \<Rightarrow> pydict" where
  "limit_fields limits derived_restore row =
     (let row = AList.update ''limits_progress'' (PList limits) row;
          row = none_if_falsy [''default_model_slug''] row;
          row = (case derived_restore of
              Some s \<Rightarrow> if truthy (field row ''restore_at'') then row else AList.update ''restore_at'' (PStr s) row
            | None \<Rightarrow> row) in
      none_if_falsy [''restore_at''] row)"

section \<open>Counters, checks and cool-downs\<close>

definition int_field :: "string \<Rightarrow> pydict \<Rightarrow> pyexc + pydict" where
  "int_field k row = map_sum id (\<lambda>n. AList.update k (PInt n) row) (py_int (py_or (field row k) (PInt 0)))"

fun int_fields :: "string list \<Rightarrow> pydict \<Rightarrow> pyexc + pydict" where
  "int_fields [] row = Inr row"
| "int_fields (k # ks) row = (case int_field k row of Inl e \<Rightarrow> Inl e | Inr row \<Rightarrow> int_fields ks row)"

definition check_fields :: "pydict \<Rightarrow> pydict" where
  "check_fields row =
     none_if_falsy [''last_image_success_at'', ''last_invalid_at'', ''last_refresh_error'', ''last_refresh_error_at'',
       ''last_remote_checked_at'', ''last_remote_check_attempt_at'', ''last_remote_check_error'',
       ''last_remote_check_error_at'', ''last_remote_check_event'']
       (AList.update ''last_used_at'' (field row ''last_used_at'') row)"

text \<open>\<open>max(0, int(v or 0))\<close>, None when the conversion raises.\<close>

definition remaining_value :: "pyval \<Rightarrow> pyval" where
  "remaining_value v =
     (if v = PNone then PNone
      else case py_int (py_or v (PInt 0)) of Inl _ \<Rightarrow> PNone | Inr n \<Rightarrow> PInt (max 0 n))"

definition row_cooldowns :: "pydict \<Rightarrow> pydict" where
  "row_cooldowns row =
     (let row = AList.update ''image_quota_last_remote_remaining''
            (remaining_value (field row ''image_quota_last_remote_remaining'')) row;
          until = image_quota_cooldown_until row;
          row = AList.update ''image_quota_cooldown_until'' (if until = 0 then PNone else PFloat (Fin until)) row;
          row = none_if_falsy [''image_quota_exhausted_at''] row in
      AList.update ''image_quota_exhausted_streak'' (PInt (saved_streak (field row ''image_quota_exhausted_streak''))) row)"

definition check_results :: "string list" where
  "check_results = [''pending'', ''ok'', ''error'', ''invalid'']"

definition result_value :: "pyval \<Rightarrow> pyval" where
  "result_value v = (let result = lower (clean v) in if result \<in> set check_results then PStr result else PNone)"

definition remove_value :: "bool \<Rightarrow> pyval \<Rightarrow> pyval" where
  "remove_value pending v = (if pending \<and> v \<noteq> PNone then PBool (bool_value v False) else PNone)"

definition scope_value :: "bool \<Rightarrow> pyval \<Rightarrow> pyval" where
  "scope_value pending v =
     (if pending then PStr (if lower (clean v) = ''image'' then ''image'' else ''account'') else PNone)"

definition pending_fields :: "pydict \<Rightarrow> pydict" where
  "pending_fields row =
     (let row = AList.update ''last_remote_check_result'' (result_value (field row ''last_remote_check_result'')) row;
          pending = (field row ''last_remote_check_result'' = PStr ''pending'');
          row = AList.update ''pending_auth_remove_invalid''
            (remove_value pending (field row ''pending_auth_remove_invalid'')) row;
          row = AList.update ''pending_auth_scope'' (scope_value pending (field row ''pending_auth_scope'')) row;
          verification = clean (field row ''pending_auth_verification_id'') in
      if pending \<and> verification \<noteq> []
      then AList.update ''pending_auth_verification_id'' (PStr verification) row
      else AList.delete ''pending_auth_verification_id'' row)"

definition refresh_fields :: "pydict \<Rightarrow> pydict" where
  "refresh_fields row =
     none_if_falsy [''last_token_refresh_at'', ''last_token_refresh_error'', ''last_token_refresh_error_at'',
       ''refresh_token_invalid_at''] row"

definition diagnostic_fields :: "string list" where
  "diagnostic_fields = [''last_remote_check_error'', ''last_refresh_error'', ''last_token_refresh_error'']"

definition scrub_diagnostics :: "sanitizer \<Rightarrow> pydict \<Rightarrow> pydict" where
  "scrub_diagnostics sz row =
     (let secrets = [field row ''access_token'', field row ''refresh_token'', field row ''id_token''];
          proxies = [field row ''proxy''] in
      fold (\<lambda>k r. if truthy (field r k) then AList.update k (PStr (sz secrets proxies (field r k))) r else r)
        diagnostic_fields row)"

definition obsolete_fields :: "string list" where
  "obsolete_fields =
     [''capability_cooldowns'', ''capability_failure_counts'', ''capability_failure_codes'', ''capability_failed_at'']"

text \<open>\<open>_now\<close>: \<open>strftime("%Y-%m-%d %H:%M:%S")\<close>.\<close>

definition now_text :: "rat \<Rightarrow> string" where
  "now_text t =
     (let s = micros t div 1000000; (y, m, d) = civil (s div 86400); r = s mod 86400 in
      digits4 y @ ''-'' @ digits2 m @ ''-'' @ digits2 d @ '' '' @
      digits2 (r div 3600) @ '':'' @ digits2 (r div 60 mod 60) @ '':'' @ digits2 (r mod 60))"

section \<open>The whole row\<close>

definition last_fields :: "sanitizer \<Rightarrow> rat \<Rightarrow> pydict \<Rightarrow> pydict" where
  "last_fields sz now row =
     (let row = drop_fields obsolete_fields (scrub_diagnostics sz (refresh_fields (pending_fields
            (row_cooldowns (check_fields row))))) in
      AList.update ''created_at'' (py_or (field row ''created_at'') (PStr (now_text now))) row)"

definition normalize_row :: "surroundings \<Rightarrow> sanitizer \<Rightarrow> pyval \<Rightarrow> pydict \<Rightarrow> pyexc + pydict" where
  "normalize_row sr sz token item =
     (let row = row_identity sr token item;
          limits = (case field row ''limits_progress'' of PList xs \<Rightarrow> xs | _ \<Rightarrow> []) in
      case extract_image_quota (PList limits) of
        Inl e \<Rightarrow> Inl e
      | Inr (derived_quota, derived_restore, derived_unknown) \<Rightarrow>
          (case quota_field (has_value (field row ''quota'')) derived_quota (state_fields row) of
             Inl e \<Rightarrow> Inl e
           | Inr row \<Rightarrow>
               (case int_fields [''success'', ''fail'', ''invalid_count'']
                       (limit_fields limits derived_restore (quota_state derived_unknown row)) of
                  Inl e \<Rightarrow> Inl e
                | Inr row \<Rightarrow> Inr (last_fields sz (sr_now sr) row))))"

definition normalize_account :: "surroundings \<Rightarrow> sanitizer \<Rightarrow> pyval \<Rightarrow> pyexc + pydict option" where
  "normalize_account sr sz v =
     (case v of
        PDict item \<Rightarrow>
          (let token = py_or (field item ''access_token'') (py_or (field item ''accessToken'') (PStr [])) in
           if \<not> truthy token then Inr None else map_sum id Some (normalize_row sr sz token item))
      | _ \<Rightarrow> Inr None)"

section \<open>The form of a row\<close>

text \<open>A field that is stored as None rather than as another false value.\<close>

definition settled :: "pydict \<Rightarrow> string \<Rightarrow> bool" where
  "settled row k = (case map_of row k of None \<Rightarrow> False | Some v \<Rightarrow> v = PNone \<or> truthy v)"

definition id_form :: "string \<Rightarrow> bool" where
  "id_form m \<longleftrightarrow> take 5 m = ''acct_'' \<and> is_hex 24 (drop 5 m)"

definition prints_form :: "string \<Rightarrow> string list \<Rightarrow> bool" where
  "prints_form current fs \<longleftrightarrow>
     fs \<noteq> [] \<and> distinct fs \<and> length fs \<le> fingerprint_limit \<and> list_all (is_hex 64) fs \<and> current \<in> {hd fs, last fs}"

definition identity_form :: "surroundings \<Rightarrow> pydict \<Rightarrow> bool" where
  "identity_form sr row =
     (truthy (field row ''access_token'') \<and> map_of row ''accessToken'' = None \<and>
      (case map_of row ''management_id'' of Some (PStr m) \<Rightarrow> id_form m | _ \<Rightarrow> False) \<and>
      (case map_of row ''access_token_fingerprints'' of
         Some (PList vs) \<Rightarrow>
           vs = map PStr (map py_str vs) \<and> prints_form (sr_token_digest sr (py_str (field row ''access_token''))) (map py_str vs)
       | _ \<Rightarrow> False))"

definition state_form :: "pydict \<Rightarrow> bool" where
  "state_form row =
     ((case map_of row ''type'' of
         Some PNone \<Rightarrow> True
       | Some (PStr t) \<Rightarrow> t \<in> set (map snd type_aliases)
       | _ \<Rightarrow> False) \<and>
      (case map_of row ''status'' of
         Some (PStr s) \<Rightarrow> s \<in> {st_normal, st_limited, st_abnormal, st_disabled}
       | _ \<Rightarrow> False) \<and>
      map_of row ''enabled'' = None \<and> map_of row ''auto_disabled'' = None \<and>
      settled row ''email'' \<and> settled row ''user_id'' \<and>
      (case map_of row ''proxy'' of Some (PStr p) \<Rightarrow> strip p = p | _ \<Rightarrow> False) \<and>
      map_of row ''source_type'' \<in> {Some (PStr ''codex''), Some (PStr ''web'')})"

definition limits_of :: "pydict \<Rightarrow> pyval list" where
  "limits_of row = (case field row ''limits_progress'' of PList xs \<Rightarrow> xs | _ \<Rightarrow> [])"

text \<open>A quota is a number that a float can hold. A limited account has none, and knows it. A normal
  account without quota, or without any confirmation from upstream, does not know its quota.\<close>

definition quota_form :: "pydict \<Rightarrow> bool" where
  "quota_form row =
     (case (map_of row ''quota'', map_of row ''image_quota_unknown'', extract_image_quota (PList (limits_of row))) of
        (Some (PInt n), Some (PBool unknown), Inr (_, _, derived_unknown)) \<Rightarrow>
          0 \<le> n \<and> of_int n < float_limit \<and>
          (field row ''status'' = PStr st_limited \<longrightarrow> n = 0 \<and> \<not> unknown) \<and>
          (field row ''status'' = PStr st_normal \<and> \<not> unknown \<longrightarrow>
             0 < n \<and> (derived_unknown = Some False \<or> truthy (field row ''last_remote_checked_at'')))
      | _ \<Rightarrow> False)"

definition limit_form :: "pydict \<Rightarrow> bool" where
  "limit_form row =
     ((case map_of row ''limits_progress'' of Some (PList xs) \<Rightarrow> True | _ \<Rightarrow> False) \<and>
      settled row ''default_model_slug'' \<and> settled row ''restore_at'' \<and>
      (case extract_image_quota (PList (limits_of row)) of
         Inr (_, Some s, _) \<Rightarrow> truthy (field row ''restore_at'')
       | _ \<Rightarrow> True))"

definition counter_form :: "pydict \<Rightarrow> bool" where
  "counter_form row = list_all (\<lambda>k. case map_of row k of Some (PInt n) \<Rightarrow> True | _ \<Rightarrow> False)
     [''success'', ''fail'', ''invalid_count'']"

definition check_form :: "pydict \<Rightarrow> bool" where
  "check_form row =
     (map_of row ''last_used_at'' \<noteq> None \<and>
      list_all (settled row)
        [''last_image_success_at'', ''last_invalid_at'', ''last_refresh_error_at'', ''last_remote_checked_at'',
         ''last_remote_check_attempt_at'', ''last_remote_check_error_at'', ''last_remote_check_event'',
         ''last_token_refresh_at'', ''last_token_refresh_error_at'', ''refresh_token_invalid_at''])"

definition cooldown_form :: "pydict \<Rightarrow> bool" where
  "cooldown_form row =
     ((case map_of row ''image_quota_last_remote_remaining'' of
         Some PNone \<Rightarrow> True | Some (PInt n) \<Rightarrow> 0 \<le> n | _ \<Rightarrow> False) \<and>
      (case map_of row ''image_quota_cooldown_until'' of
         Some PNone \<Rightarrow> True | Some (PFloat (Fin q)) \<Rightarrow> 0 < q | _ \<Rightarrow> False) \<and>
      settled row ''image_quota_exhausted_at'' \<and>
      (case map_of row ''image_quota_exhausted_streak'' of Some (PInt n) \<Rightarrow> 0 \<le> n \<and> n \<le> 16 | _ \<Rightarrow> False))"

text \<open>The fields of a pending verification exist while the result of the last check is pending only.\<close>

definition pending_form :: "pydict \<Rightarrow> bool" where
  "pending_form row =
     (if map_of row ''last_remote_check_result'' = Some (PStr ''pending'') then
        (case map_of row ''pending_auth_remove_invalid'' of Some PNone \<Rightarrow> True | Some (PBool b) \<Rightarrow> True | _ \<Rightarrow> False) \<and>
        map_of row ''pending_auth_scope'' \<in> {Some (PStr ''image''), Some (PStr ''account'')} \<and>
        (case map_of row ''pending_auth_verification_id'' of
           None \<Rightarrow> True | Some (PStr v) \<Rightarrow> v \<noteq> [] \<and> strip v = v | _ \<Rightarrow> False)
      else
        map_of row ''last_remote_check_result'' \<in> {Some PNone, Some (PStr ''ok''), Some (PStr ''error''), Some (PStr ''invalid'')} \<and>
        map_of row ''pending_auth_remove_invalid'' = Some PNone \<and> map_of row ''pending_auth_scope'' = Some PNone \<and>
        map_of row ''pending_auth_verification_id'' = None)"

definition age_form :: "pydict \<Rightarrow> bool" where
  "age_form row = (list_all (\<lambda>k. map_of row k = None) obsolete_fields \<and> truthy (field row ''created_at''))"

definition row_form :: "surroundings \<Rightarrow> pydict \<Rightarrow> bool" where
  "row_form sr row =
     (identity_form sr row \<and> state_form row \<and> quota_form row \<and> limit_form row \<and> counter_form row \<and> check_form row \<and>
      cooldown_form row \<and> pending_form row \<and> age_form row)"

text \<open>What normalising once more still does: the diagnostics are redacted again.\<close>

definition settle_diagnostics :: "sanitizer \<Rightarrow> pydict \<Rightarrow> pydict" where
  "settle_diagnostics sz row =
     scrub_diagnostics sz (none_if_falsy [''last_refresh_error'', ''last_remote_check_error'', ''last_token_refresh_error''] row)"

section \<open>Lookups\<close>

lemma update_same: "map_of al k = Some v \<Longrightarrow> AList.update k v al = al"
  by (induction al) (auto split: if_splits)

lemma none_if_falsy_other: "k \<notin> set ks \<Longrightarrow> map_of (none_if_falsy ks row) k = map_of row k"
proof (induction ks arbitrary: row)
  case (Cons a ks)
  have "none_if_falsy (a # ks) row = none_if_falsy ks (AList.update a (py_or (field row a) PNone) row)"
    by (simp add: none_if_falsy_def)
  with Cons show ?case by simp
qed (simp add: none_if_falsy_def)

lemma none_if_falsy_settled: "k \<in> set ks \<Longrightarrow> settled (none_if_falsy ks row) k"
proof (induction ks arbitrary: row)
  case (Cons a ks)
  have step: "none_if_falsy (a # ks) row = none_if_falsy ks (AList.update a (py_or (field row a) PNone) row)"
    by (simp add: none_if_falsy_def)
  show ?case
  proof (cases "k \<in> set ks")
    case True
    then show ?thesis unfolding step by (rule Cons.IH)
  next
    case False
    with Cons.prems have "k = a" by simp
    with False show ?thesis unfolding step by (simp add: settled_def none_if_falsy_other py_or_def)
  qed
qed simp

lemma none_if_falsy_truthy: "truthy (field (none_if_falsy ks row) k) = truthy (field row k)"
proof (induction ks arbitrary: row)
  case (Cons a ks)
  have step: "none_if_falsy (a # ks) row = none_if_falsy ks (AList.update a (py_or (field row a) PNone) row)"
    by (simp add: none_if_falsy_def)
  show ?case unfolding step Cons.IH by (simp add: field_update py_or_def)
qed (simp add: none_if_falsy_def)

lemma none_if_falsy_same: "list_all (settled row) ks \<Longrightarrow> none_if_falsy ks row = row"
proof (induction ks)
  case (Cons a ks)
  then obtain v where v: "map_of row a = Some v" "v = PNone \<or> truthy v"
    by (auto simp: settled_def split: option.splits)
  then have "AList.update a (py_or (field row a) PNone) row = row"
    by (intro update_same) (auto simp: field_def py_or_def)
  with Cons show ?case by (simp add: none_if_falsy_def)
qed (simp add: none_if_falsy_def)

lemma drop_fields_lookup: "map_of (drop_fields ks row) k = (if k \<in> set ks then None else map_of row k)"
proof (induction ks arbitrary: row)
  case (Cons a ks)
  then show ?case by (simp add: drop_fields_def)
qed (simp add: drop_fields_def)

lemma drop_fields_same: "list_all (\<lambda>k. map_of row k = None) ks \<Longrightarrow> drop_fields ks row = row"
  by (induction ks) (auto simp: drop_fields_def map_of_eq_None_iff)

section \<open>Identity\<close>

lemma hex_facts:
  assumes "is_hex n s"
  shows "lower s = s" "c \<in> set s \<Longrightarrow> \<not> is_space c"
proof -
  have chars: "list_all (\<lambda>c. lower_char c = c \<and> \<not> is_space c) hex_chars"
    by (simp add: hex_chars_def lower_char_def is_space_def)
  have s: "\<forall>c \<in> set s. lower_char c = c \<and> \<not> is_space c"
    using assms chars by (auto simp: is_hex_def list_all_iff)
  then show "lower s = s" by (auto simp: lower_def intro: map_idI)
  show "c \<in> set s \<Longrightarrow> \<not> is_space c" using s by blast
qed

lemma strip_no_space: "\<forall>c \<in> set s. \<not> is_space c \<Longrightarrow> strip s = s"
  by (cases "s = []") (auto intro!: strip_id)

declare clean_text [simp]

declare clean_None [simp]

lemma lower_Nil [simp]: "lower [] = []"
  by (simp add: lower_def)

lemma lower_append [simp]: "lower (s @ t) = lower s @ lower t"
  by (simp add: lower_def)

lemma id_form_clean:
  assumes "id_form m"
  shows "lower (strip m) = m"
proof -
  have m: "m = ''acct_'' @ drop 5 m" using assms append_take_drop_id [of 5 m] by (simp add: id_form_def)
  have hex: "is_hex 24 (drop 5 m)" using assms by (simp add: id_form_def)
  have prefix: "lower ''acct_'' = ''acct_''" "\<forall>c \<in> set ''acct_''. \<not> is_space c"
    by (simp_all add: lower_def lower_char_def is_space_def)
  have "\<forall>c \<in> set (''acct_'' @ drop 5 m). \<not> is_space c" using prefix(2) hex_facts(2) [OF hex] by auto
  then have "strip m = m" using m strip_no_space by metis
  moreover have "lower (''acct_'' @ drop 5 m) = ''acct_'' @ drop 5 m"
    using prefix(1) hex_facts(1) [OF hex] by (simp only: lower_append)
  ultimately show ?thesis using m by metis
qed

lemma normalize_management_id_form:
  assumes "is_hex 64 (sr_token_digest sr (py_str (py_or token (PStr []))))"
  shows "id_form (normalize_management_id sr v token)"
proof (cases "take 5 (lower (clean v)) = ''acct_'' \<and> is_hex 24 (drop 5 (lower (clean v)))")
  case True
  then show ?thesis by (simp add: normalize_management_id_def id_form_def)
next
  case False
  have "is_hex 24 (take 24 (sr_token_digest sr (py_str (py_or token (PStr [])))))"
    using assms set_take_subset by (fastforce simp: is_hex_def)
  moreover have "\<not> is_hex 24 []" by (simp add: is_hex_def)
  ultimately show ?thesis
    using False by (auto simp: normalize_management_id_def id_form_def management_id_for_token_def Let_def)
qed

lemma normalize_management_id_same: "id_form m \<Longrightarrow> normalize_management_id sr (PStr m) token = m"
  using id_form_clean [of m] by (simp add: normalize_management_id_def id_form_def Let_def)

lemma distinct_last_n: "distinct xs \<Longrightarrow> distinct (last_n n xs)"
  by (simp add: last_n_def)

lemma last_last_n: "xs \<noteq> [] \<Longrightarrow> 0 < n \<Longrightarrow> last_n n xs \<noteq> [] \<and> last (last_n n xs) = last xs"
  by (cases xs) (auto simp: last_n_def last_drop)

lemma normalize_fingerprints_form:
  assumes "is_hex 64 (sr_token_digest sr (py_str (py_or token (PStr []))))"
  shows "prints_form (sr_token_digest sr (py_str (py_or token (PStr [])))) (normalize_fingerprints sr v token)"
proof -
  define current where "current = sr_token_digest sr (py_str (py_or token (PStr [])))"
  define fs where "fs = fromkeys (map (lower \<circ> clean)
      (filter (\<lambda>item. length (clean item) = 64 \<and> set (lower (clean item)) \<subseteq> set hex_chars)
        (case v of PList xs \<Rightarrow> xs | _ \<Rightarrow> [])))"
  define first where "first = (case fs of f # _ \<Rightarrow> f | [] \<Rightarrow> current)"
  define rest where "rest = filter (\<lambda>f. f \<noteq> current) (tl fs)"
  define recent where "recent = (if current \<noteq> first then rest @ [current] else rest)"
  have result: "normalize_fingerprints sr v token = first # last_n 7 recent"
    unfolding normalize_fingerprints_def current_def fs_def first_def rest_def recent_def fingerprint_limit_def Let_def
    by simp
  have hex: "\<forall>f \<in> set fs. is_hex 64 f" by (auto simp: fs_def is_hex_def lower_def)
  have cur: "is_hex 64 current" using assms by (simp add: current_def)
  have dist: "distinct fs" by (simp add: fs_def)
  have rest: "set rest \<subseteq> set fs" "current \<notin> set rest" "distinct rest"
    using dist by (cases fs; auto simp: rest_def)+
  have first: "first \<notin> set recent" "is_hex 64 first" "distinct recent" "\<forall>f \<in> set recent. is_hex 64 f"
    using dist hex cur rest by (cases fs; auto simp: first_def rest_def recent_def)+
  have sub: "set (last_n 7 recent) \<subseteq> set recent" by (rule set_last_n)
  have "current \<in> {first, last (first # last_n 7 recent)}"
  proof (cases "current = first")
    case False
    then have "recent = rest @ [current]" by (simp add: recent_def)
    then have "last_n 7 recent \<noteq> []" "last (last_n 7 recent) = current" using last_last_n [of recent 7] by auto
    then show ?thesis by simp
  qed simp
  then have "prints_form current (first # last_n 7 recent)"
    using first sub distinct_last_n [OF first(3), of 7]
    by (auto simp: prints_form_def fingerprint_limit_def list_all_iff)
  then show ?thesis by (simp add: result current_def)
qed

lemma normalize_fingerprints_same:
  assumes form: "prints_form (sr_token_digest sr (py_str (py_or token (PStr [])))) fs"
  shows "normalize_fingerprints sr (PList (map PStr fs)) token = fs"
proof -
  define current where "current = sr_token_digest sr (py_str (py_or token (PStr [])))"
  from form have fs: "fs \<noteq> []" "distinct fs" "length fs \<le> 8" "\<forall>f \<in> set fs. is_hex 64 f"
      "current \<in> {hd fs, last fs}"
    by (auto simp: prints_form_def current_def fingerprint_limit_def list_all_iff)
  have texts: "clean (PStr f) = f" "lower f = f" if "f \<in> set fs" for f
    using hex_facts [of 64 f] strip_no_space [of f] fs(4) that by auto
  have kept: "filter (\<lambda>item. length (clean item) = 64 \<and> set (lower (clean item)) \<subseteq> set hex_chars) (map PStr fs) = map PStr fs"
    using texts fs(4) by (intro filter_True) (auto simp: is_hex_def)
  have same: "map (lower \<circ> clean) (map PStr fs) = fs"
    using texts by (simp add: map_idI)
  obtain f gs where fg: "fs = f # gs" using fs(1) by (cases fs) auto
  have recent: "(if current \<noteq> f then filter (\<lambda>g. g \<noteq> current) gs @ [current] else filter (\<lambda>g. g \<noteq> current) gs) = gs"
  proof (cases "current = f")
    case True
    then show ?thesis using fs(2) fg by (auto intro: filter_True)
  next
    case False
    with fs(5) fg have last: "gs \<noteq> []" "last gs = current" by (auto split: if_splits)
    then obtain hs where hs: "gs = hs @ [current]" by (metis append_butlast_last_id)
    with fs(2) fg have "current \<notin> set hs" by auto
    then have "filter (\<lambda>g. g \<noteq> current) hs = hs" by (intro filter_True) auto
    then show ?thesis using False hs by simp
  qed
  have read: "fromkeys (map (lower \<circ> clean) (filter (\<lambda>item. length (clean item) = 64 \<and>
      set (lower (clean item)) \<subseteq> set hex_chars) (map PStr fs))) = f # gs"
    unfolding kept same using fs(2) fg by (simp add: fromkeys_distinct)
  have "normalize_fingerprints sr (PList (map PStr fs)) token = f # last_n 7 gs"
    unfolding normalize_fingerprints_def Let_def pyval.case read list.case list.sel current_def [symmetric] recent
    by (simp add: fingerprint_limit_def)
  then show ?thesis using fs(3) fg by (simp add: last_n_short)
qed


lemma identity_establish:
  assumes hex: "is_hex 64 (sr_token_digest sr (py_str token))" and token: "truthy token"
  shows "identity_form sr (row_identity sr token item)"
proof -
  have or: "py_or token (PStr []) = token" using token by (simp add: py_or_def)
  note forms = normalize_management_id_form [of sr token, unfolded or, OF hex]
    normalize_fingerprints_form [of sr token, unfolded or, OF hex]
  have texts: "map py_str (map PStr fs) = fs" for fs by (simp add: map_idI)
  show ?thesis
    using token forms texts by (simp add: identity_form_def row_identity_def Let_def)
qed

lemma identity_same:
  assumes form: "identity_form sr row" and plain: "lower (clean (field row ''type'')) \<noteq> ''codex''"
  shows "row_identity sr (field row ''access_token'') row = row"
proof -
  let ?token = "field row ''access_token''"
  from form obtain m vs where
    facts: "truthy ?token" "map_of row ''accessToken'' = None" "map_of row ''management_id'' = Some (PStr m)" "id_form m"
      "map_of row ''access_token_fingerprints'' = Some (PList vs)" "vs = map PStr (map py_str vs)"
      "prints_form (sr_token_digest sr (py_str ?token)) (map py_str vs)"
    by (auto simp: identity_form_def split: option.splits pyval.splits)
  have or: "py_or ?token (PStr []) = ?token" using facts(1) by (simp add: py_or_def)
  have "map_of row ''access_token'' = Some ?token"
    using facts(1) by (cases "map_of row ''access_token''") (simp_all add: field_def)
  then have token: "AList.update ''access_token'' ?token (AList.delete ''accessToken'' row) = row"
    by (simp add: delete_fresh [OF facts(2)] update_same)
  have id: "AList.update ''management_id'' (PStr (normalize_management_id sr (field row ''management_id'') ?token)) row = row"
    using facts(3,4) by (intro update_same) (simp add: field_def normalize_management_id_same)
  have "normalize_fingerprints sr (PList (map PStr (map py_str vs))) ?token = map py_str vs"
    using facts(7) by (intro normalize_fingerprints_same) (simp add: or)
  then have prints: "AList.update ''access_token_fingerprints''
      (PList (map PStr (normalize_fingerprints sr (field row ''access_token_fingerprints'') ?token))) row = row"
    using facts(5,6) by (intro update_same) (simp add: field_def)
  show ?thesis
    unfolding row_identity_def Let_def token id prints using plain by simp
qed

section \<open>State\<close>

lemma type_alias_ends:
  assumes "normalize_account_type v = Some t"
  shows "t \<in> set (map snd type_aliases)"
proof -
  from assms obtain k where "map_of type_aliases k = Some t"
    by (auto simp: normalize_account_type_def Let_def split: if_splits option.splits)
  then have "(k, t) \<in> set type_aliases" by (rule map_of_SomeD)
  then show ?thesis by force
qed

lemma type_alias_fixed:
  "list_all (\<lambda>t. normalize_account_type (PStr t) = Some t \<and> lower (strip t) \<noteq> ''codex'') (map snd type_aliases)"
  by code_simp

lemma status_alias_fixed:
  "list_all (\<lambda>s. map_of status_aliases (lower s) = Some s \<and> strip s = s \<and> s \<noteq> [])
     [st_normal, st_limited, st_abnormal, st_disabled]"
  by code_simp

lemma status_alias_ends:
  "list_all (\<lambda>(k, s). s \<in> set [st_normal, st_limited, st_abnormal, st_disabled]) status_aliases"
  by code_simp

lemma normalize_status_word: "normalize_account_status v row \<in> {st_normal, st_limited, st_abnormal, st_disabled}"
proof -
  have "map_of status_aliases k = Some s \<Longrightarrow> s \<in> {st_normal, st_limited, st_abnormal, st_disabled}" for k s
    using status_alias_ends by (fastforce simp: list_all_iff dest: map_of_SomeD)
  then show ?thesis by (simp add: normalize_account_status_def Let_def split: option.splits)
qed

lemma state_establish: "state_form (state_fields row)"
proof -
  have email: "settled (none_if_falsy [''email'', ''user_id''] r) ''email''"
    "settled (none_if_falsy [''email'', ''user_id''] r) ''user_id''" for r
    by (simp_all add: none_if_falsy_settled)
  have "case opt_text (normalize_account_type v) of PNone \<Rightarrow> True | PStr t \<Rightarrow> t \<in> set (map snd type_aliases) | _ \<Rightarrow> False" for v
    using type_alias_ends [of v] by (auto simp: opt_text_def split: option.splits)
  then have type: "case Some (opt_text (normalize_account_type v)) of
      Some PNone \<Rightarrow> True | Some (PStr t) \<Rightarrow> t \<in> set (map snd type_aliases) | _ \<Rightarrow> False" for v
    by simp
  have source: "normalize_source_type v \<in> {''codex'', ''web''}" for v by (simp add: normalize_source_type_def)
  have settled: "settled (AList.update k v r) j = settled r j" if "j \<noteq> k" for k j v r
    using that by (simp add: settled_def)
  show ?thesis
    using type normalize_status_word source
    unfolding state_form_def state_fields_def Let_def
    by (simp add: none_if_falsy_other drop_fields_lookup settled email clean_def)
qed


lemma state_form_type: "state_form row \<Longrightarrow> lower (clean (field row ''type'')) \<noteq> ''codex''"
  using type_alias_fixed
  by (auto simp: state_form_def field_def lower_def list_all_iff split: option.splits pyval.splits)

lemma state_same:
  assumes form: "state_form row"
  shows "state_fields row = row"
proof -
  have gone: "map_of row ''enabled'' = None" "map_of row ''auto_disabled'' = None"
    and set: "settled row ''email''" "settled row ''user_id''"
    using form by (simp_all add: state_form_def)
  obtain v where type: "map_of row ''type'' = Some v" "v = PNone \<or> (\<exists>t. v = PStr t \<and> t \<in> set (map snd type_aliases))"
    using form by (auto simp: state_form_def simp del: set_map split: option.splits pyval.splits)
  obtain s where status: "map_of row ''status'' = Some (PStr s)" "s \<in> {st_normal, st_limited, st_abnormal, st_disabled}"
    using form by (auto simp only: state_form_def split: option.splits pyval.splits)
  obtain p where proxy: "map_of row ''proxy'' = Some (PStr p)" "strip p = p"
    using form by (auto simp only: state_form_def split: option.splits pyval.splits)
  obtain src where source: "map_of row ''source_type'' = Some (PStr src)" "src \<in> {''codex'', ''web''}"
    using form by (auto simp only: state_form_def)
  have "opt_text (normalize_account_type v) = v"
    using type(2) type_alias_fixed by (auto simp: opt_text_def list_all_iff normalize_account_type_def)
  then have 1: "AList.update ''type'' (opt_text (normalize_account_type (field row ''type''))) row = row"
    using type(1) by (intro update_same) (simp add: field_def)
  have "normalize_account_status (PStr s) row = s"
    using status(2) status_alias_fixed gone
    by (auto simp: normalize_account_status_def field_def bool_value_def Let_def)
  then have 2: "AList.update ''status'' (PStr (normalize_account_status (field row ''status'') row)) row = row"
    using status(1) by (intro update_same) (simp add: field_def)
  have 3: "drop_fields [''enabled'', ''auto_disabled''] row = row" using gone by (simp add: drop_fields_same)
  have 4: "none_if_falsy [''email'', ''user_id''] row = row" using set by (simp add: none_if_falsy_same)
  have 5: "AList.update ''proxy'' (PStr (clean (field row ''proxy''))) row = row"
    using proxy by (intro update_same) (simp add: field_def)
  have "normalize_source_type (PStr src) = src" "src \<noteq> []"
    using source(2) by (auto simp: normalize_source_type_def lower_def lower_char_def strip_no_space is_space_def)
  then have 6: "AList.update ''source_type'' (PStr (normalize_source_type (if \<not> truthy (field row ''source_type'') \<and>
      lower (clean (field row ''export_type'')) = ''codex'' then PStr ''codex'' else field row ''source_type''))) row = row"
    using source(1) by (intro update_same) (simp add: field_def)
  show ?thesis unfolding state_fields_def Let_def 1 2 3 4 5 6 ..
qed

definition state_keys :: "string list" where
  "state_keys = [''type'', ''status'', ''enabled'', ''auto_disabled'', ''email'', ''user_id'', ''proxy'', ''source_type'']"

lemma state_other: "k \<notin> set state_keys \<Longrightarrow> map_of (state_fields row) k = map_of row k"
  by (simp add: state_keys_def state_fields_def Let_def none_if_falsy_other drop_fields_lookup)

section \<open>Quota\<close>

text \<open>The bound written out, for evaluation.\<close>

lemma float_limit_code [code]:
  "float_limit = 179769313486231580793728971405303415079934132710037826936173778980444968292764750946649017977587207096330286416692887910946555547851940402630657488671505820681908902000708383676273854845817711531764475730270069855571366959622842914819860834936475292719074168444365510704342711559699508093042880177904174497792"
  by (simp add: float_limit_def)


lemma int_text_value: "has_value (PInt n)"
proof -
  have plain: "nat_text m \<noteq> []" "\<forall>c \<in> set (nat_text m). \<not> is_space c" for m using nat_text_plain by blast+
  have "\<forall>c \<in> set (int_text n). \<not> is_space c" "int_text n \<noteq> []"
    using plain by (auto simp: int_text_def is_space_def)
  then show ?thesis by (simp add: has_value_def strip_no_space)
qed

lemma py_trunc_int [simp]: "py_trunc (of_int n) = n"
  by (simp add: py_trunc_def)

lemma finite_or_inf_Fin: "finite_or_inf q = Fin r \<longleftrightarrow> q = r \<and> - float_limit < q \<and> q < float_limit"
  by (auto simp: finite_or_inf_def)

lemma parse_float_bounded: "parse_float s = Some (Fin q) \<Longrightarrow> q < float_limit"
proof -
  have unsigned: "- float_limit < r \<and> r < float_limit" if "parse_unsigned t = Some (Fin r)" for t r
    using that by (auto simp: parse_unsigned_def finite_or_inf_Fin split: if_splits prod.splits option.splits)
  have neg: "float_neg f = Fin r \<Longrightarrow> f = Fin (- r)" for f r by (cases f) auto
  show "parse_float s = Some (Fin q) \<Longrightarrow> q < float_limit"
    using unsigned by (fastforce simp: parse_float_def split: list.splits if_splits dest: neg)
qed

lemma quota_value_bounds:
  assumes "quota_value v = Inr n"
  shows "0 \<le> n" "of_int n < float_limit"
proof -
  have pos: "0 < float_limit" by (simp add: float_limit_def)
  have trunc: "of_int (py_trunc q) < float_limit" if "q < float_limit" for q
  proof (cases "0 \<le> q")
    case True
    then show ?thesis using that by (simp add: py_trunc_def le_less_trans [OF of_int_floor_le])
  next
    case False
    then have "py_trunc q \<le> 0" by (simp add: py_trunc_def)
    then show ?thesis using pos by (simp add: le_less_trans [of _ 0])
  qed
  have "q < float_limit" if "reparsed_float v = Some (Fin q)" for q
    using that parse_float_bounded by (auto simp: reparsed_float_def finite_or_inf_Fin split: pyval.splits pyfloat.splits)
  then show "0 \<le> n" "of_int n < float_limit"
    using assms pos trunc
    by (auto simp: quota_value_def max_def split: if_splits option.splits pyfloat.splits)
qed

lemma quota_value_same: "0 \<le> n \<Longrightarrow> of_int n < float_limit \<Longrightarrow> quota_value (PInt n) = Inr n"
proof -
  assume n: "0 \<le> n" "of_int n < float_limit"
  have pos: "0 < float_limit" by (simp add: float_limit_def)
  have "finite_or_inf (of_int n) = Fin (of_int n)" using n pos by (simp add: finite_or_inf_Fin)
  then show ?thesis using n by (simp add: quota_value_def int_text_value reparsed_float_def)
qed

lemma quota_field_effect:
  assumes "quota_field explicit derived row = Inr row'"
  obtains n where "0 \<le> n" "of_int n < float_limit" "map_of row' ''quota'' = Some (PInt n)"
    "\<And>k. k \<noteq> ''quota'' \<Longrightarrow> map_of row' k = map_of row k"
proof -
  from assms obtain r n where r: "r = (case derived of Some n \<Rightarrow> if explicit then row else AList.update ''quota'' (PInt n) row | None \<Rightarrow> row)"
    and n: "quota_value (field r ''quota'') = Inr n" and row': "row' = AList.update ''quota'' (PInt n) r"
    by (auto simp: quota_field_def Let_def split: sum.splits)
  have "map_of r k = map_of row k" if "k \<noteq> ''quota''" for k using that by (simp add: r split: option.split)
  then show ?thesis using that [of n] quota_value_bounds [OF n] by (simp add: row')
qed


lemma quota_state_other:
  "k \<noteq> ''quota'' \<Longrightarrow> k \<noteq> ''image_quota_unknown'' \<Longrightarrow> map_of (quota_state u row) k = map_of row k"
  by (simp add: quota_state_def Let_def)

lemma field_cong: "map_of r k = map_of r' k \<Longrightarrow> field r k = field r' k"
  by (simp add: field_def)

lemma quota_establish:
  assumes quota: "map_of row ''quota'' = Some (PInt n)" "0 \<le> n" "of_int n < float_limit"
    and limits: "extract_image_quota (PList (limits_of row)) = Inr (q, s, u)"
  shows "quota_form (quota_state u row)"
proof -
  let ?r = "quota_state u row"
  define unknown where "unknown = bool_value (field (if has_value (field row ''image_quota_unknown'') then row
      else AList.update ''image_quota_unknown'' (PBool (case u of None \<Rightarrow> True | Some b \<Rightarrow> b)) row) ''image_quota_unknown'') True"
  define confirmed where "confirmed = (u = Some False \<or> truthy (field row ''last_remote_checked_at'') \<and> \<not> unknown)"
  have kept: "map_of ?r k = map_of row k" if "k \<noteq> ''quota''" "k \<noteq> ''image_quota_unknown''" for k
    using that by (rule quota_state_other)
  have fields: "field ?r ''status'' = field row ''status''" "limits_of ?r = limits_of row"
    "field ?r ''last_remote_checked_at'' = field row ''last_remote_checked_at''"
    by (simp_all add: field_def kept limits_of_def)
  have parts: "map_of ?r ''quota'' = Some (PInt (if field row ''status'' = PStr st_limited then 0 else n))"
    "map_of ?r ''image_quota_unknown'' = Some (PBool (if field row ''status'' = PStr st_limited then False
      else if field row ''status'' = PStr st_normal \<and> (\<not> confirmed \<or> n = 0) then True else unknown))"
    using quota(1) by (auto simp: quota_state_def Let_def unknown_def confirmed_def field_def)
  have zero: "0 < float_limit" by (simp add: float_limit_def)
  show ?thesis
    unfolding quota_form_def fields limits parts
    using quota(2,3) zero by (auto simp: confirmed_def)
qed

lemma quota_form_cong:
  assumes "map_of r ''quota'' = map_of r' ''quota''" "map_of r ''image_quota_unknown'' = map_of r' ''image_quota_unknown''"
    "limits_of r = limits_of r'" "map_of r ''status'' = map_of r' ''status''"
    "truthy (field r ''last_remote_checked_at'') = truthy (field r' ''last_remote_checked_at'')"
  shows "quota_form r = quota_form r'"
  unfolding quota_form_def assms field_cong [OF assms(4)] ..

lemma case_int: "(case a of Some (PInt n) \<Rightarrow> P n | _ \<Rightarrow> False) \<Longrightarrow> \<exists>n. a = Some (PInt n) \<and> P n"
  by (cases a) (simp_all split: pyval.splits)

lemma case_bool: "(case a of Some (PBool b) \<Rightarrow> P b | _ \<Rightarrow> False) \<Longrightarrow> \<exists>b. a = Some (PBool b) \<and> P b"
  by (cases a) (simp_all split: pyval.splits)

lemma quota_case:
  assumes "case (a, b, c) of (Some (PInt n), Some (PBool u), Inr (x, y, z)) \<Rightarrow> P n u z | _ \<Rightarrow> False"
  shows "\<exists>n u x y z. a = Some (PInt n) \<and> b = Some (PBool u) \<and> c = Inr (x, y, z) \<and> P n u z"
proof -
  from case_int [OF assms [unfolded prod.case]] obtain n where n: "a = Some (PInt n)"
    "case b of Some (PBool u) \<Rightarrow> (case c of Inr (x, y, z) \<Rightarrow> P n u z | _ \<Rightarrow> False) | _ \<Rightarrow> False" by blast
  from case_bool [OF n(2)] obtain u where u: "b = Some (PBool u)" "case c of Inr (x, y, z) \<Rightarrow> P n u z | _ \<Rightarrow> False" by blast
  from u(2) obtain x y z where "c = Inr (x, y, z)" "P n u z" by (cases c) (simp_all split: prod.splits)
  with n(1) u(1) show ?thesis by blast
qed

lemma quota_same:
  assumes form: "quota_form row" and limits: "extract_image_quota (PList (limits_of row)) = Inr (q, s, u)"
  shows "quota_field (has_value (field row ''quota'')) q row = Inr row" "quota_state u row = row"
proof -
  obtain n b where quota: "map_of row ''quota'' = Some (PInt n)"
    and unknown: "map_of row ''image_quota_unknown'' = Some (PBool b)"
    and bounds: "0 \<le> n" "of_int n < float_limit"
    and limited: "field row ''status'' = PStr st_limited \<Longrightarrow> n = 0 \<and> \<not> b"
    and normal: "field row ''status'' = PStr st_normal \<Longrightarrow> \<not> b \<Longrightarrow>
       0 < n \<and> (u = Some False \<or> truthy (field row ''last_remote_checked_at''))"
    using quota_case [OF form [unfolded quota_form_def]] unfolding limits by blast
  have fields: "field row ''quota'' = PInt n" "field row ''image_quota_unknown'' = PBool b"
    using quota unknown by (simp_all add: field_def)
  have quota_same: "AList.update ''quota'' (PInt n) row = row" using quota by (rule update_same)
  have unknown_same: "AList.update ''image_quota_unknown'' (PBool b) row = row" using unknown by (rule update_same)
  show "quota_field (has_value (field row ''quota'')) q row = Inr row"
    using quota_same by (simp add: quota_field_def fields int_text_value quota_value_same [OF bounds] split: option.split)
  have valued: "has_value (PBool b)" "bool_value (PBool b) True = b"
    by (simp_all add: has_value_def bool_value_def strip_no_space is_space_def)
  have step: "quota_state u row =
      (if field row ''status'' = PStr st_normal \<and>
          (\<not> (u = Some False \<or> truthy (field row ''last_remote_checked_at'') \<and> \<not> b) \<or> n = 0)
       then AList.update ''image_quota_unknown'' (PBool True) row
       else if field row ''status'' = PStr st_limited
       then AList.update ''image_quota_unknown'' (PBool False) (AList.update ''quota'' (PInt 0) row)
       else row)"
    unfolding quota_state_def Let_def fields if_P [OF valued(1)] valued(2) unknown_same by (simp add: fields)
  show "quota_state u row = row"
  proof (cases b)
    case True
    then show ?thesis unfolding step using limited unknown_same by auto
  next
    case False
    then show ?thesis unfolding step using limited normal quota_same unknown_same by auto
  qed
qed

section \<open>Limits and counters\<close>

lemma limit_other:
  "k \<notin> set [''limits_progress'', ''default_model_slug'', ''restore_at''] \<Longrightarrow>
   map_of (limit_fields limits d row) k = map_of row k"
  by (simp add: limit_fields_def Let_def none_if_falsy_other split: option.split)

lemma limits_of_limit [simp]: "limits_of (limit_fields limits d row) = limits"
  by (simp add: limits_of_def limit_fields_def Let_def field_def none_if_falsy_other split: option.split)

lemma settled_other: "map_of r k = map_of r' k \<Longrightarrow> settled r k = settled r' k"
  by (simp add: settled_def)

lemma settled_update: "j \<noteq> k \<Longrightarrow> settled (AList.update k v r) j = settled r j"
  by (simp add: settled_def)

lemma settled_none_other: "k \<notin> set ks \<Longrightarrow> settled (none_if_falsy ks r) k = settled r k"
  by (simp add: settled_def none_if_falsy_other)

lemma limit_establish:
  assumes "extract_image_quota (PList limits) = Inr (q, d, u)"
  shows "limit_form (limit_fields limits d row)"
proof -
  let ?r = "limit_fields limits d row"
  have restore: "settled ?r ''restore_at''"
    by (simp add: limit_fields_def Let_def none_if_falsy_settled)
  have "settled (none_if_falsy [''default_model_slug''] r) ''default_model_slug''" for r
    by (simp add: none_if_falsy_settled)
  then have model: "settled ?r ''default_model_slug''"
    by (simp add: limit_fields_def Let_def settled_update settled_none_other split: option.split)
  have list: "map_of ?r ''limits_progress'' = Some (PList limits)"
    by (simp add: limit_fields_def Let_def none_if_falsy_other split: option.split)
  have kept: "truthy (field ?r ''restore_at'')" if "d = Some s" "s \<noteq> []" for s
    using that by (simp add: limit_fields_def Let_def none_if_falsy_truthy)
  have "s \<noteq> []" if "d = Some s" for s
    using assms that by (auto simp: extract_image_quota_def limit_restore_def Let_def split: if_splits option.splits pyval.splits sum.splits)
  then show ?thesis using restore model list kept by (simp add: limit_form_def assms split: option.split)
qed

lemma limit_same:
  assumes form: "limit_form row" and limits: "extract_image_quota (PList (limits_of row)) = Inr (q, d, u)"
  shows "limit_fields (limits_of row) d row = row"
proof -
  obtain xs where xs: "map_of row ''limits_progress'' = Some (PList xs)" and set: "settled row ''default_model_slug''" "settled row ''restore_at''"
    using form by (auto simp: limit_form_def split: option.splits pyval.splits)
  then have "limits_of row = xs" by (simp add: limits_of_def field_def)
  moreover have "truthy (field row ''restore_at'')" if "d = Some s" for s
    using form that by (simp add: limit_form_def limits)
  ultimately show ?thesis using xs set
    by (simp add: limit_fields_def Let_def update_same none_if_falsy_same split: option.split)
qed

lemma int_field_effect:
  assumes "int_field a row = Inr row'"
  obtains n where "row' = AList.update a (PInt n) row"
  using assms by (cases "py_int (py_or (field row a) (PInt 0))") (auto simp: int_field_def)

lemma int_fields_effect:
  "int_fields ks row = Inr row' \<Longrightarrow>
   (if k \<in> set ks then \<exists>n. map_of row' k = Some (PInt n) else map_of row' k = map_of row k)"
proof (induction ks arbitrary: row)
  case (Cons a ks)
  then obtain r where r: "int_field a row = Inr r" "int_fields ks r = Inr row'" by (auto split: sum.splits)
  from r(1) obtain n where "r = AList.update a (PInt n) row" by (rule int_field_effect)
  with Cons.IH [OF r(2)] show ?case by (auto split: if_splits)
qed simp

lemma int_fields_same:
  "list_all (\<lambda>k. case map_of row k of Some (PInt n) \<Rightarrow> True | _ \<Rightarrow> False) ks \<Longrightarrow> int_fields ks row = Inr row"
proof (induction ks)
  case (Cons a ks)
  then obtain n where n: "map_of row a = Some (PInt n)" by (auto split: option.splits pyval.splits)
  then have "py_int (py_or (field row a) (PInt 0)) = Inr n" by (simp add: field_def py_or_def)
  then show ?case using Cons n by (simp add: int_field_def update_same)
qed simp


section \<open>Checks, cool-downs and diagnostics\<close>

lemma none_if_falsy_Cons: "none_if_falsy (a # ks) row = none_if_falsy ks (none_if_falsy [a] row)"
  by (simp add: none_if_falsy_def)

lemma none_if_falsy_filter:
  assumes "\<forall>k \<in> set ks. k \<notin> D \<longrightarrow> settled row k"
  shows "none_if_falsy ks row = none_if_falsy (filter (\<lambda>k. k \<in> D) ks) row"
  using assms
proof (induction ks arbitrary: row)
  case (Cons a ks)
  have kept: "\<forall>k \<in> set ks. k \<notin> D \<longrightarrow> settled (none_if_falsy [a] row) k" if "a \<in> D"
  proof (intro ballI impI)
    fix k
    assume k: "k \<in> set ks" "k \<notin> D"
    then have "k \<notin> set [a]" using that by auto
    then show "settled (none_if_falsy [a] row) k" using Cons.prems k by (simp add: settled_none_other)
  qed
  show ?case
  proof (cases "a \<in> D")
    case True
    show ?thesis using True Cons.IH [OF kept [OF True]] none_if_falsy_Cons [of a ks row]
      by (simp add: none_if_falsy_Cons [of a "filter (\<lambda>k. k \<in> D) ks"])
  next
    case False
    then have "none_if_falsy [a] row = row" using Cons.prems by (simp add: none_if_falsy_same)
    then show ?thesis unfolding none_if_falsy_Cons [of a ks] using False Cons by simp
  qed
qed simp

definition check_keys :: "string list" where
  "check_keys =
     [''last_used_at'', ''last_image_success_at'', ''last_invalid_at'', ''last_refresh_error'', ''last_refresh_error_at'',
      ''last_remote_checked_at'', ''last_remote_check_attempt_at'', ''last_remote_check_error'',
      ''last_remote_check_error_at'', ''last_remote_check_event'']"

lemma check_other: "k \<notin> set check_keys \<Longrightarrow> map_of (check_fields row) k = map_of row k"
  by (simp add: check_keys_def check_fields_def none_if_falsy_other)

lemma check_truthy: "truthy (field (check_fields row) k) = truthy (field row k)"
  by (simp add: check_fields_def none_if_falsy_truthy)

lemma check_settled:
  "k \<in> set (tl check_keys) \<Longrightarrow> settled (check_fields row) k"
  "map_of (check_fields row) ''last_used_at'' \<noteq> None"
  by (simp_all add: check_keys_def check_fields_def none_if_falsy_settled none_if_falsy_other)

lemma refresh_other:
  "k \<notin> set [''last_token_refresh_at'', ''last_token_refresh_error'', ''last_token_refresh_error_at'', ''refresh_token_invalid_at''] \<Longrightarrow>
   map_of (refresh_fields row) k = map_of row k"
  by (simp add: refresh_fields_def none_if_falsy_other)

lemma check_same:
  assumes "check_form row"
  shows "check_fields row = none_if_falsy [''last_refresh_error'', ''last_remote_check_error''] row"
proof -
  have set: "list_all (settled row)
        [''last_image_success_at'', ''last_invalid_at'', ''last_refresh_error_at'', ''last_remote_checked_at'',
         ''last_remote_check_attempt_at'', ''last_remote_check_error_at'', ''last_remote_check_event'']"
    and used: "map_of row ''last_used_at'' \<noteq> None"
    using assms by (simp_all add: check_form_def)
  obtain v where "map_of row ''last_used_at'' = Some v" using used by blast
  then have "AList.update ''last_used_at'' (field row ''last_used_at'') row = row"
    by (simp add: field_def update_same)
  moreover have "none_if_falsy (tl check_keys) row =
      none_if_falsy (filter (\<lambda>k. k \<in> {''last_refresh_error'', ''last_remote_check_error''}) (tl check_keys)) row"
    by (rule none_if_falsy_filter) (use set in \<open>simp add: check_keys_def\<close>)
  ultimately show ?thesis by (simp add: check_fields_def check_keys_def)
qed

lemma refresh_same:
  assumes "check_form row"
  shows "refresh_fields row = none_if_falsy [''last_token_refresh_error''] row"
proof -
  let ?ks = "[''last_token_refresh_at'', ''last_token_refresh_error'', ''last_token_refresh_error_at'', ''refresh_token_invalid_at'']"
  have "none_if_falsy ?ks row = none_if_falsy (filter (\<lambda>k. k \<in> {''last_token_refresh_error''}) ?ks) row"
    by (rule none_if_falsy_filter) (use assms in \<open>simp add: check_form_def\<close>)
  then show ?thesis by (simp add: refresh_fields_def)
qed

definition cooldown_keys :: "string list" where
  "cooldown_keys = [''image_quota_last_remote_remaining'', ''image_quota_cooldown_until'', ''image_quota_exhausted_at'',
     ''image_quota_exhausted_streak'']"

lemma cooldown_other: "k \<notin> set cooldown_keys \<Longrightarrow> map_of (row_cooldowns row) k = map_of row k"
  by (simp add: cooldown_keys_def row_cooldowns_def Let_def none_if_falsy_other)

lemma saved_streak_bounds: "0 \<le> saved_streak v \<and> saved_streak v \<le> 16"
  by (simp add: saved_streak_def split: sum.split)

lemma cooldown_establish: "cooldown_form (row_cooldowns row)"
proof -
  have "settled (none_if_falsy [''image_quota_exhausted_at''] r) ''image_quota_exhausted_at''" for r
    by (simp add: none_if_falsy_settled)
  moreover have "0 \<le> image_quota_cooldown_until r" for r
    by (simp add: image_quota_cooldown_until_def timestamp_nonneg)
  moreover have "case Some (remaining_value v) of Some PNone \<Rightarrow> True | Some (PInt n) \<Rightarrow> 0 \<le> n | _ \<Rightarrow> False" for v
    by (simp add: remaining_value_def split: sum.split)
  ultimately show ?thesis using saved_streak_bounds
    by (simp add: cooldown_form_def row_cooldowns_def Let_def none_if_falsy_other settled_update order_less_le)
qed


lemma settled_same: "settled row k \<Longrightarrow> none_if_falsy [k] row = row"
  by (simp add: none_if_falsy_same)

lemma cooldown_same:
  assumes form: "cooldown_form row"
  shows "row_cooldowns row = row"
proof -
  obtain v where v: "map_of row ''image_quota_last_remote_remaining'' = Some v" "remaining_value v = v"
    using form by (auto simp: cooldown_form_def remaining_value_def py_or_def split: option.splits pyval.splits)
  obtain u where u: "map_of row ''image_quota_cooldown_until'' = Some u" "u = PNone \<or> (\<exists>q > 0. u = PFloat (Fin q))"
    using form by (auto simp: cooldown_form_def split: option.splits pyval.splits pyfloat.splits)
  obtain n where n: "map_of row ''image_quota_exhausted_streak'' = Some (PInt n)" "0 \<le> n" "n \<le> 16"
    using form by (auto simp: cooldown_form_def split: option.splits pyval.splits)
  have set: "settled row ''image_quota_exhausted_at''" using form by (simp add: cooldown_form_def)
  have 1: "AList.update ''image_quota_last_remote_remaining''
      (remaining_value (field row ''image_quota_last_remote_remaining'')) row = row"
    using v by (intro update_same) (simp add: field_def)
  have "(if timestamp u = 0 then PNone else PFloat (Fin (timestamp u))) = u"
    using u(2) by (auto simp: timestamp_float timestamp_falsy)
  then have 2: "AList.update ''image_quota_cooldown_until''
      (if image_quota_cooldown_until row = 0 then PNone else PFloat (Fin (image_quota_cooldown_until row))) row = row"
    using u(1) by (intro update_same) (auto simp: field_def image_quota_cooldown_until_def split: if_splits)
  have 3: "AList.update ''image_quota_exhausted_streak'' (PInt (saved_streak (field row ''image_quota_exhausted_streak''))) row = row"
    using n by (intro update_same) (simp add: field_def saved_streak_PInt)
  show ?thesis unfolding row_cooldowns_def Let_def 1 2 settled_same [OF set] 3 ..
qed

definition pending_keys :: "string list" where
  "pending_keys = [''last_remote_check_result'', ''pending_auth_remove_invalid'', ''pending_auth_scope'',
     ''pending_auth_verification_id'']"

lemma pending_other: "k \<notin> set pending_keys \<Longrightarrow> map_of (pending_fields row) k = map_of row k"
  by (simp add: pending_keys_def pending_fields_def Let_def)

lemma result_value_cases: "result_value v \<in> {PNone, PStr ''pending'', PStr ''ok'', PStr ''error'', PStr ''invalid''}"
  by (auto simp: result_value_def check_results_def Let_def)

lemma result_value_same:
  "v \<in> {PNone, PStr ''pending'', PStr ''ok'', PStr ''error'', PStr ''invalid''} \<Longrightarrow> result_value v = v"
proof -
  have "list_all (\<lambda>v. result_value v = v) [PNone, PStr ''pending'', PStr ''ok'', PStr ''error'', PStr ''invalid'']"
    by code_simp
  then show "v \<in> {PNone, PStr ''pending'', PStr ''ok'', PStr ''error'', PStr ''invalid''} \<Longrightarrow> result_value v = v"
    by auto
qed

lemma remove_value_bool: "case Some (remove_value pending v) of Some PNone \<Rightarrow> True | Some (PBool b) \<Rightarrow> True | _ \<Rightarrow> False"
  by (simp add: remove_value_def)

lemma remove_value_same: "v = PNone \<or> (\<exists>b. v = PBool b) \<Longrightarrow> remove_value True v = v"
  by (auto simp: remove_value_def bool_value_def)

lemma scope_value_cases: "scope_value True v \<in> {PStr ''image'', PStr ''account''}"
  by (simp add: scope_value_def)

lemma scope_value_same: "v \<in> {PStr ''image'', PStr ''account''} \<Longrightarrow> scope_value True v = v"
proof -
  have "list_all (\<lambda>v. scope_value True v = v) [PStr ''image'', PStr ''account'']" by code_simp
  then show "v \<in> {PStr ''image'', PStr ''account''} \<Longrightarrow> scope_value True v = v" by auto
qed

lemma not_pending_values: "remove_value False v = PNone" "scope_value False v = PNone"
  by (simp_all add: remove_value_def scope_value_def)

lemma pending_lookups:
  fixes row
  defines "r \<equiv> result_value (field row ''last_remote_check_result'')"
  shows "map_of (pending_fields row) ''last_remote_check_result'' = Some r"
    "map_of (pending_fields row) ''pending_auth_remove_invalid'' =
       Some (remove_value (r = PStr ''pending'') (field row ''pending_auth_remove_invalid''))"
    "map_of (pending_fields row) ''pending_auth_scope'' =
       Some (scope_value (r = PStr ''pending'') (field row ''pending_auth_scope''))"
    "map_of (pending_fields row) ''pending_auth_verification_id'' =
       (if r = PStr ''pending'' \<and> clean (field row ''pending_auth_verification_id'') \<noteq> []
        then Some (PStr (clean (field row ''pending_auth_verification_id''))) else None)"
  by (simp_all add: pending_fields_def Let_def r_def)

lemma pending_establish: "pending_form (pending_fields row)"
proof (cases "result_value (field row ''last_remote_check_result'') = PStr ''pending''")
  case True
  then show ?thesis
    using remove_value_bool [of True] scope_value_cases [of "field row ''pending_auth_scope''"]
    by (simp add: pending_form_def pending_lookups clean_def)
next
  case False
  then show ?thesis
    using result_value_cases [of "field row ''last_remote_check_result''"]
    by (auto simp: pending_form_def pending_lookups not_pending_values)
qed

lemma pending_same:
  assumes form: "pending_form row"
  shows "pending_fields row = row"
proof (cases "map_of row ''last_remote_check_result'' = Some (PStr ''pending'')")
  case True
  obtain rm where rm: "map_of row ''pending_auth_remove_invalid'' = Some rm" "rm = PNone \<or> (\<exists>b. rm = PBool b)"
    using form True by (auto simp: pending_form_def split: option.splits pyval.splits)
  obtain sc where sc: "map_of row ''pending_auth_scope'' = Some sc" "sc \<in> {PStr ''image'', PStr ''account''}"
    using form True by (auto simp: pending_form_def)
  have ver: "case map_of row ''pending_auth_verification_id'' of
      None \<Rightarrow> True | Some (PStr v) \<Rightarrow> v \<noteq> [] \<and> strip v = v | _ \<Rightarrow> False"
    using form True by (simp add: pending_form_def)
  have fields: "field row ''last_remote_check_result'' = PStr ''pending''" "field row ''pending_auth_remove_invalid'' = rm"
    "field row ''pending_auth_scope'' = sc" using True rm sc by (simp_all add: field_def)
  have vals: "result_value (PStr ''pending'') = PStr ''pending''" "remove_value True rm = rm" "scope_value True sc = sc"
    by (simp_all add: result_value_same remove_value_same [OF rm(2)] scope_value_same [OF sc(2)])
  note kept = update_same [OF True] update_same [OF rm(1)] update_same [OF sc(1)]
  have step: "pending_fields row =
      (let v = clean (field row ''pending_auth_verification_id'') in
       if v \<noteq> [] then AList.update ''pending_auth_verification_id'' (PStr v) row
       else AList.delete ''pending_auth_verification_id'' row)"
    by (simp add: pending_fields_def Let_def fields vals kept)
  show ?thesis
  proof (cases "map_of row ''pending_auth_verification_id''")
    case None
    then show ?thesis by (simp add: step field_def delete_fresh)
  next
    case (Some v)
    with ver obtain t where "v = PStr t" "t \<noteq> []" "strip t = t" by (cases v) simp_all
    with Some show ?thesis by (simp add: step field_def update_same)
  qed
next
  case False
  obtain v where res: "map_of row ''last_remote_check_result'' = Some v"
      "v \<in> {PNone, PStr ''ok'', PStr ''error'', PStr ''invalid''}"
    and rest: "map_of row ''pending_auth_remove_invalid'' = Some PNone" "map_of row ''pending_auth_scope'' = Some PNone"
      "map_of row ''pending_auth_verification_id'' = None"
    using form False by (auto simp: pending_form_def)
  have "result_value v = v" "v \<noteq> PStr ''pending''" using res(2) by (auto simp: result_value_same)
  moreover have "field row ''last_remote_check_result'' = v" using res(1) by (simp add: field_def)
  ultimately show ?thesis
    by (simp add: pending_fields_def Let_def not_pending_values update_same [OF res(1)] update_same [OF rest(1)]
        update_same [OF rest(2)] delete_fresh [OF rest(3)])
qed

section \<open>The last fields\<close>

definition refresh_keys :: "string list" where
  "refresh_keys = [''last_token_refresh_at'', ''last_token_refresh_error'', ''last_token_refresh_error_at'', ''refresh_token_invalid_at'']"

lemma scrub_other: "k \<notin> set diagnostic_fields \<Longrightarrow> map_of (scrub_diagnostics sz row) k = map_of row k"
  by (simp add: diagnostic_fields_def scrub_diagnostics_def Let_def)

definition last_keys :: "string list" where
  "last_keys = check_keys @ cooldown_keys @ pending_keys @ refresh_keys @ obsolete_fields @ [''created_at'']"

lemma diagnostic_keys: "set diagnostic_fields \<subseteq> set check_keys \<union> set refresh_keys"
  by (simp add: diagnostic_fields_def check_keys_def refresh_keys_def)

lemma last_other:
  assumes "k \<notin> set last_keys"
  shows "map_of (last_fields sz now row) k = map_of row k"
proof -
  have k: "k \<notin> set check_keys" "k \<notin> set cooldown_keys" "k \<notin> set pending_keys" "k \<notin> set refresh_keys"
    "k \<notin> set obsolete_fields" "k \<noteq> ''created_at''" "k \<notin> set diagnostic_fields"
    using assms diagnostic_keys by (auto simp: last_keys_def)
  then show ?thesis
    by (simp add: last_fields_def Let_def drop_fields_lookup scrub_other refresh_other [folded refresh_keys_def]
        pending_other cooldown_other check_other)
qed

definition same_on :: "string list \<Rightarrow> pydict \<Rightarrow> pydict \<Rightarrow> bool" where
  "same_on ks r r' = list_all (\<lambda>k. map_of r k = map_of r' k) ks"

lemma same_onI: "(\<And>k. k \<in> set ks \<Longrightarrow> map_of r k = map_of r' k) \<Longrightarrow> same_on ks r r'"
  by (simp add: same_on_def list_all_iff)

lemma settled_form:
  "list_all (\<lambda>k. settled r' k = settled r k) ks \<Longrightarrow> list_all (settled r) ks \<Longrightarrow> list_all (settled r') ks"
  by (auto simp: list_all_iff)

lemma cooldown_cong: "same_on cooldown_keys r r' \<Longrightarrow> cooldown_form r = cooldown_form r'"
  by (simp add: same_on_def cooldown_keys_def cooldown_form_def settled_def)

lemma pending_cong: "same_on pending_keys r r' \<Longrightarrow> pending_form r = pending_form r'"
  by (simp add: same_on_def pending_keys_def pending_form_def)

definition plain_check_keys :: "string list" where
  "plain_check_keys = filter (\<lambda>k. k \<notin> set diagnostic_fields) (check_keys @ refresh_keys)"

lemma plain_check_keys_eq:
  "plain_check_keys =
     [''last_used_at'', ''last_image_success_at'', ''last_invalid_at'', ''last_refresh_error_at'', ''last_remote_checked_at'',
      ''last_remote_check_attempt_at'', ''last_remote_check_error_at'', ''last_remote_check_event'',
      ''last_token_refresh_at'', ''last_token_refresh_error_at'', ''refresh_token_invalid_at'']"
  by (simp add: plain_check_keys_def check_keys_def refresh_keys_def diagnostic_fields_def)

lemma check_form_cong: "same_on plain_check_keys r r' \<Longrightarrow> check_form r = check_form r'"
  by (simp add: same_on_def plain_check_keys_eq check_form_def settled_def)

lemma key_groups:
  "set check_keys \<inter> set cooldown_keys = {}" "set check_keys \<inter> set pending_keys = {}" "set check_keys \<inter> set refresh_keys = {}"
  "set cooldown_keys \<inter> set pending_keys = {}" "set cooldown_keys \<inter> set refresh_keys = {}"
  "set pending_keys \<inter> set refresh_keys = {}"
  "set obsolete_fields \<inter> (set check_keys \<union> set cooldown_keys \<union> set pending_keys \<union> set refresh_keys) = {}"
  "''created_at'' \<notin> set check_keys \<union> set cooldown_keys \<union> set pending_keys \<union> set refresh_keys \<union> set obsolete_fields"
  by (simp_all add: check_keys_def cooldown_keys_def pending_keys_def refresh_keys_def obsolete_fields_def)

text \<open>After its own step a field of the last part keeps its value.\<close>

lemma after_cooldown:
  assumes k: "k \<in> set cooldown_keys"
  shows "map_of (last_fields sz now row) k = map_of (row_cooldowns (check_fields row)) k"
proof -
  have "k \<notin> set diagnostic_fields" using k key_groups(1,5) diagnostic_keys by blast
  moreover have "k \<notin> set pending_keys" "k \<notin> set refresh_keys" "k \<notin> set obsolete_fields" "k \<noteq> ''created_at''"
    using k key_groups by blast+
  ultimately show ?thesis
    by (simp add: last_fields_def Let_def drop_fields_lookup scrub_other refresh_other [folded refresh_keys_def] pending_other)
qed

lemma after_pending:
  assumes k: "k \<in> set pending_keys"
  shows "map_of (last_fields sz now row) k = map_of (pending_fields (row_cooldowns (check_fields row))) k"
proof -
  have "k \<notin> set diagnostic_fields" using k key_groups(2,6) diagnostic_keys by blast
  moreover have "k \<notin> set refresh_keys" "k \<notin> set obsolete_fields" "k \<noteq> ''created_at''" using k key_groups by blast+
  ultimately show ?thesis
    by (simp add: last_fields_def Let_def drop_fields_lookup scrub_other refresh_other [folded refresh_keys_def])
qed

lemma after_check:
  assumes k: "k \<in> set check_keys" and "k \<notin> set diagnostic_fields"
  shows "map_of (last_fields sz now row) k = map_of (check_fields row) k"
proof -
  have "k \<notin> set cooldown_keys" "k \<notin> set pending_keys" "k \<notin> set refresh_keys" "k \<notin> set obsolete_fields" "k \<noteq> ''created_at''"
    using k key_groups by blast+
  with assms(2) show ?thesis
    by (simp add: last_fields_def Let_def drop_fields_lookup scrub_other refresh_other [folded refresh_keys_def] pending_other
        cooldown_other)
qed

lemma after_refresh:
  "k \<in> set refresh_keys \<Longrightarrow> k \<notin> set diagnostic_fields \<Longrightarrow> settled (last_fields sz now row) k"
proof -
  assume k: "k \<in> set refresh_keys" "k \<notin> set diagnostic_fields"
  then have "k \<notin> set obsolete_fields" "k \<noteq> ''created_at''" using key_groups by blast+
  with k have "map_of (last_fields sz now row) k = map_of (refresh_fields (pending_fields (row_cooldowns (check_fields row)))) k"
    by (simp add: last_fields_def Let_def drop_fields_lookup scrub_other)
  moreover have "settled (refresh_fields r) k" for r
    using k(1) by (simp add: refresh_fields_def refresh_keys_def none_if_falsy_settled)
  ultimately show ?thesis by (simp add: settled_def)
qed

lemma last_forms:
  "cooldown_form (last_fields sz now row)" "pending_form (last_fields sz now row)"
  "check_form (last_fields sz now row)" "age_form (last_fields sz now row)"
proof -
  let ?r = "last_fields sz now row"
  have "same_on cooldown_keys ?r (row_cooldowns (check_fields row))"
    by (rule same_onI) (rule after_cooldown)
  then show "cooldown_form ?r" using cooldown_establish cooldown_cong by blast
  have "same_on pending_keys ?r (pending_fields (row_cooldowns (check_fields row)))"
    by (rule same_onI) (rule after_pending)
  then show "pending_form ?r" using pending_establish pending_cong by blast
  have checked: "settled ?r k" if "k \<in> set (tl check_keys)" "k \<notin> set diagnostic_fields" for k
    using that after_check [of k] check_settled(1) [of k row] list.set_sel(2) [of check_keys k]
    by (simp add: settled_def check_keys_def)
  have "map_of ?r ''last_used_at'' \<noteq> None"
    using after_check [of "''last_used_at''"] check_settled(2) by (simp add: check_keys_def diagnostic_fields_def)
  then show "check_form ?r"
    using checked after_refresh by (simp add: check_form_def check_keys_def refresh_keys_def diagnostic_fields_def)
  have "truthy (PStr (now_text now))" by (simp add: now_text_def Let_def split_beta)
  then show "age_form ?r"
    by (simp add: age_form_def last_fields_def Let_def obsolete_fields_def drop_fields_lookup py_or_def)
qed

section \<open>The whole row\<close>

lemma identity_form_cong:
  assumes "same_on [''access_token'', ''accessToken'', ''management_id'', ''access_token_fingerprints''] r r'"
  shows "identity_form sr r = identity_form sr r'"
proof -
  have same: "map_of r ''access_token'' = map_of r' ''access_token''" "map_of r ''accessToken'' = map_of r' ''accessToken''"
    "map_of r ''management_id'' = map_of r' ''management_id''"
    "map_of r ''access_token_fingerprints'' = map_of r' ''access_token_fingerprints''"
    using assms by (simp_all add: same_on_def)
  show ?thesis unfolding identity_form_def same field_cong [OF same(1)] ..
qed

lemma state_form_cong: "same_on state_keys r r' \<Longrightarrow> state_form r = state_form r'"
  by (simp add: same_on_def state_keys_def state_form_def settled_def)

lemma limit_form_cong:
  assumes "same_on [''limits_progress'', ''default_model_slug'', ''restore_at''] r r'"
  shows "limit_form r = limit_form r'"
proof -
  have same: "map_of r ''limits_progress'' = map_of r' ''limits_progress''"
    "map_of r ''default_model_slug'' = map_of r' ''default_model_slug''" "map_of r ''restore_at'' = map_of r' ''restore_at''"
    using assms by (simp_all add: same_on_def)
  have limits: "limits_of r = limits_of r'" by (simp add: limits_of_def field_cong [OF same(1)])
  show ?thesis unfolding limit_form_def settled_def same limits field_cong [OF same(3)] ..
qed

definition early_keys :: "string list" where
  "early_keys =
     [''access_token'', ''accessToken'', ''management_id'', ''access_token_fingerprints''] @ state_keys @
     [''quota'', ''image_quota_unknown'', ''limits_progress'', ''default_model_slug'', ''restore_at'', ''success'', ''fail'',
      ''invalid_count'']"

lemma early_not_last: "list_all (\<lambda>k. k \<notin> set last_keys) early_keys"
  by (simp add: early_keys_def state_keys_def last_keys_def check_keys_def cooldown_keys_def pending_keys_def
      refresh_keys_def obsolete_fields_def)

lemma normalize_row_steps:
  assumes "normalize_row sr sz token item = Inr row"
  obtains q d u r2 r3 r6 where
    "r2 = state_fields (row_identity sr token item)"
    "extract_image_quota (PList (limits_of (row_identity sr token item))) = Inr (q, d, u)"
    "quota_field (has_value (field (row_identity sr token item) ''quota'')) q r2 = Inr r3"
    "int_fields [''success'', ''fail'', ''invalid_count'']
       (limit_fields (limits_of (row_identity sr token item)) d (quota_state u r3)) = Inr r6"
    "row = last_fields sz (sr_now sr) r6"
  using assms unfolding normalize_row_def Let_def limits_of_def [symmetric]
  by (auto split: sum.splits prod.splits)

lemma normalize_row_form:
  assumes result: "normalize_row sr sz token item = Inr row" and token: "truthy token"
    and hex: "is_hex 64 (sr_token_digest sr (py_str token))"
  shows "row_form sr row"
proof -
  let ?r1 = "row_identity sr token item"
  obtain q d u r2 r3 r6 where
    r2: "r2 = state_fields ?r1" and limits: "extract_image_quota (PList (limits_of ?r1)) = Inr (q, d, u)"
    and r3: "quota_field (has_value (field ?r1 ''quota'')) q r2 = Inr r3"
    and r6: "int_fields [''success'', ''fail'', ''invalid_count''] (limit_fields (limits_of ?r1) d (quota_state u r3)) = Inr r6"
    and row: "row = last_fields sz (sr_now sr) r6"
    by (rule normalize_row_steps [OF result])
  obtain n where n: "0 \<le> n" "of_int n < float_limit" "map_of r3 ''quota'' = Some (PInt n)"
    and r3_other: "\<And>k. k \<noteq> ''quota'' \<Longrightarrow> map_of r3 k = map_of r2 k"
    by (rule quota_field_effect [OF r3]) blast
  define r4 where "r4 = quota_state u r3"
  define r5 where "r5 = limit_fields (limits_of ?r1) d r4"
  have r6_other: "map_of r6 k = map_of r5 k" if "k \<notin> set [''success'', ''fail'', ''invalid_count'']" for k
    using int_fields_effect [OF r6, of k] that by (auto simp: r5_def r4_def)
  have r2_other: "map_of r2 k = map_of ?r1 k" if "k \<notin> set state_keys" for k
    using state_other [OF that] by (simp add: r2)
  have r4_other: "map_of r4 k = map_of r3 k" if "k \<noteq> ''quota''" "k \<noteq> ''image_quota_unknown''" for k
    using quota_state_other [OF that] by (simp add: r4_def)
  have r5_other: "map_of r5 k = map_of r4 k" if "k \<notin> set [''limits_progress'', ''default_model_slug'', ''restore_at'']" for k
    using limit_other [OF that] by (simp add: r5_def)
  have row_early: "map_of row k = map_of r6 k" if "k \<in> set early_keys" for k
    using last_other [of k] early_not_last that by (simp add: row list_all_iff)
  note early = early_keys_def state_keys_def
  have "same_on [''access_token'', ''accessToken'', ''management_id'', ''access_token_fingerprints''] row ?r1"
    by (simp add: same_on_def row_early early r6_other r5_other r4_other r3_other r2_other)
  then have identity: "identity_form sr row" using identity_establish [OF hex token] identity_form_cong by blast
  have "same_on state_keys row r2"
    by (simp add: same_on_def row_early early r6_other r5_other r4_other r3_other)
  then have state: "state_form row" using state_establish state_form_cong unfolding r2 by blast
  have lim3: "limits_of r3 = limits_of ?r1"
    by (simp add: limits_of_def field_def r3_other r2_other state_keys_def)
  have quota: "quota_form row"
  proof -
    have "limits_of row = limits_of r5" "limits_of r4 = limits_of r3"
      by (simp_all add: limits_of_def field_def row_early early r6_other r4_other)
    then have "limits_of row = limits_of r4" by (simp add: r5_def lim3)
    moreover have "truthy (field row ''last_remote_checked_at'') = truthy (field r4 ''last_remote_checked_at'')"
    proof -
      have "map_of row ''last_remote_checked_at'' = map_of (check_fields r6) ''last_remote_checked_at''"
        unfolding row by (rule after_check) (simp_all add: check_keys_def diagnostic_fields_def)
      then have "truthy (field row ''last_remote_checked_at'') = truthy (field r6 ''last_remote_checked_at'')"
        using check_truthy by (simp add: field_def)
      then show ?thesis by (simp add: field_def r6_other r5_other)
    qed
    ultimately have "quota_form row = quota_form r4"
      by (intro quota_form_cong) (simp_all add: row_early early r6_other r5_other)
    moreover have "quota_form r4" unfolding r4_def using quota_establish [OF n(3,1,2)] limits lim3 by simp
    ultimately show ?thesis by simp
  qed
  have "same_on [''limits_progress'', ''default_model_slug'', ''restore_at''] row r5"
    by (simp add: same_on_def row_early early r6_other)
  then have limit: "limit_form row" using limit_establish [OF limits] limit_form_cong unfolding r5_def by blast
  have "case map_of row k of Some (PInt n) \<Rightarrow> True | _ \<Rightarrow> False" if k: "k \<in> set [''success'', ''fail'', ''invalid_count'']" for k
  proof -
    have "k \<in> set early_keys" using k by (auto simp: early)
    then have "map_of row k = map_of r6 k" by (rule row_early)
    moreover obtain n where "map_of r6 k = Some (PInt n)" using int_fields_effect [OF r6, of k] k by (simp only: if_True) blast
    ultimately show ?thesis by simp
  qed
  then have counter: "counter_form row" unfolding counter_form_def list_all_iff by blast
  show ?thesis
    using identity state quota limit counter last_forms by (simp add: row_form_def row)
qed

lemma normalize_row_again:
  assumes form: "row_form sr row" and digest: "sr_token_digest sr' = sr_token_digest sr"
  shows "normalize_row sr' sz (field row ''access_token'') row = Inr (settle_diagnostics sz row)"
proof -
  have "identity_form sr' row" using form unfolding row_form_def identity_form_def digest by blast
  then have forms: "identity_form sr' row" "state_form row" "quota_form row" "limit_form row" "counter_form row" "check_form row"
    "cooldown_form row" "pending_form row" "age_form row"
    using form by (simp_all add: row_form_def)
  note identity = identity_same [OF forms(1) state_form_type [OF forms(2)]]
  have "\<exists>q d u. extract_image_quota (PList (limits_of row)) = Inr (q, d, u)"
    using quota_case [OF forms(3) [unfolded quota_form_def]] by blast
  then obtain q d u where limits: "extract_image_quota (PList (limits_of row)) = Inr (q, d, u)" by blast
  have early: "normalize_row sr' sz (field row ''access_token'') row = Inr (last_fields sz (sr_now sr') row)"
    unfolding normalize_row_def Let_def identity limits_of_def [symmetric] limits sum.case prod.case state_same [OF forms(2)]
      quota_same [OF forms(3) limits] limit_same [OF forms(4) limits] int_fields_same [OF forms(5) [unfolded counter_form_def]] ..
  define r1 where "r1 = none_if_falsy [''last_refresh_error'', ''last_remote_check_error''] row"
  have r1: "map_of r1 k = map_of row k" if "k \<notin> set [''last_refresh_error'', ''last_remote_check_error'']" for k
    unfolding r1_def using that by (rule none_if_falsy_other)
  have "same_on cooldown_keys r1 row" "same_on pending_keys r1 row" "same_on plain_check_keys r1 row"
    by (simp_all add: same_on_def cooldown_keys_def pending_keys_def plain_check_keys_eq r1)
  then have kept: "cooldown_form r1" "pending_form r1" "check_form r1"
    using forms cooldown_cong pending_cong check_form_cong by blast+
  have settle: "scrub_diagnostics sz (none_if_falsy [''last_token_refresh_error''] r1) = settle_diagnostics sz row"
    unfolding settle_diagnostics_def r1_def by (simp add: none_if_falsy_def)
  have other: "map_of (settle_diagnostics sz row) k = map_of row k" if "k \<notin> set diagnostic_fields" for k
    using that unfolding settle_diagnostics_def
    by (subst scrub_other) (simp_all add: diagnostic_fields_def none_if_falsy_other)
  have "drop_fields obsolete_fields (settle_diagnostics sz row) = settle_diagnostics sz row"
    using forms(9) by (intro drop_fields_same) (simp add: age_form_def obsolete_fields_def other diagnostic_fields_def)
  moreover have "AList.update ''created_at'' (py_or (field (settle_diagnostics sz row) ''created_at'') v) (settle_diagnostics sz row) =
      settle_diagnostics sz row" for v
    using forms(9) by (intro update_same, cases "map_of row ''created_at''")
      (simp_all add: age_form_def field_def other diagnostic_fields_def py_or_def)
  ultimately have "last_fields sz (sr_now sr') row = settle_diagnostics sz row"
    unfolding last_fields_def Let_def check_same [OF forms(6)] r1_def [symmetric] cooldown_same [OF kept(1)]
      pending_same [OF kept(2)] refresh_same [OF kept(3)] settle by simp
  then show ?thesis using early by simp
qed

section \<open>Properties\<close>

lemma row_result: "map_sum id Some s = Inr (Some r) \<longleftrightarrow> s = Inr r"
  by (cases s) simp_all

lemma row_case: "(case x of Inr (Some r) \<Rightarrow> P r | _ \<Rightarrow> False) \<Longrightarrow> \<exists>r. x = Inr (Some r) \<and> P r"
  by (cases x) (simp_all split: option.splits)

text \<open>C31. Every row that normalisation returns has the form the rest of the service relies on: identifiers of
  their own form, one of the four status words, a quota that is a non-negative number (none for a
  limited account, never an unconfirmed one for a normal account), integer counters, and fields of a
  pending verification while one is pending only. Normalising it again, at any later time, gives the
  same row with its diagnostics redacted once more, so a row that was stored is not rewritten for
  ever. The digest is assumed to be 64 hexadecimal characters, as SHA-256 is written.\<close>

theorem account_rows_settle:
  assumes digest: "\<And>t. is_hex 64 (sr_token_digest sr t)" and later: "sr_token_digest sr' = sr_token_digest sr"
  shows "case normalize_account sr sz v of
      Inr (Some row) \<Rightarrow>
        row_form sr row \<and> normalize_account sr' sz (PDict row) = Inr (Some (settle_diagnostics sz row))
    | _ \<Rightarrow> True"
proof -
  have "row_form sr row \<and> normalize_account sr' sz (PDict row) = Inr (Some (settle_diagnostics sz row))"
    if result: "normalize_account sr sz v = Inr (Some row)" for row
  proof -
    obtain item token where "truthy token" "normalize_row sr sz token item = Inr row"
      using result by (auto simp: normalize_account_def Let_def row_result split: pyval.splits if_splits)
    then have form: "row_form sr row" using digest by (intro normalize_row_form)
    then have "truthy (field row ''access_token'')" by (simp add: row_form_def identity_form_def)
    then show ?thesis using form normalize_row_again [OF form later]
      by (simp add: normalize_account_def Let_def py_or_def)
  qed
  then show ?thesis by (simp split: sum.split option.split)
qed

definition sample_surroundings :: surroundings where
  "sample_surroundings =
     \<lparr>sr_claims = (\<lambda>_. []), sr_shard_digest = (\<lambda>_. 0), sr_token_digest = (\<lambda>_. replicate 64 (CHR ''a'')), sr_env = empty_env,
      sr_concurrency = 1, sr_now = 0, sr_monotonic = 0, sr_prewarmed = []\<rparr>"

definition sample_sanitizer :: sanitizer where
  "sample_sanitizer secrets proxies v = py_str v"

definition sample_item :: pyval where
  "sample_item = PDict
     [(''accessToken'', PStr ''t''), (''status'', PStr ''cooling''), (''quota'', PStr ''7''), (''last_refresh_error'', PStr ''timeout'')]"

theorem account_rows_settle_witness:
  "case normalize_account sample_surroundings sample_sanitizer sample_item of
     Inr (Some row) \<Rightarrow>
       row_form sample_surroundings row \<and> field row ''status'' = PStr st_limited \<and> field row ''quota'' = PInt 0 \<and>
       normalize_account (sample_surroundings\<lparr>sr_now := 90\<rparr>) sample_sanitizer (PDict row) =
         Inr (Some (settle_diagnostics sample_sanitizer row))
   | _ \<Rightarrow> False"
proof -
  have hex: "is_hex 64 (sr_token_digest sample_surroundings t)" for t
    by (simp add: sample_surroundings_def is_hex_def hex_chars_def)
  have evaluated: "case normalize_account sample_surroundings sample_sanitizer sample_item of
     Inr (Some row) \<Rightarrow> field row ''status'' = PStr st_limited \<and> field row ''quota'' = PInt 0 | _ \<Rightarrow> False"
    by code_simp
  have later: "sr_token_digest (sample_surroundings\<lparr>sr_now := 90\<rparr>) = sr_token_digest sample_surroundings" by simp
  from row_case [OF evaluated] obtain row where
    row: "normalize_account sample_surroundings sample_sanitizer sample_item = Inr (Some row)"
    "field row ''status'' = PStr st_limited" "field row ''quota'' = PInt 0" by blast
  show ?thesis
    using account_rows_settle [OF hex later, of sample_sanitizer sample_item] row(2,3)
    unfolding row(1) sum.case option.case by blast
qed

end
