(* ===== verification/ImageFailures.thy ===== *)
theory ImageFailures
  imports Credentials "HOL-Library.Sublist" "HOL-Library.List_Lexorder" "HOL-Library.Char_ord" "HOL-Library.Product_Lexorder"
begin

text \<open>
  The classification of failed image requests (\<open>services/image_failure.py\<close>): the policy of every failure
  code, the choice among the codes that an upstream answer carries, the classification of an HTTP
  error, of a message and of a whole conversation, and the text that a client may see.

  Values of JSON are \<open>pyval\<close>s. The text of a value (\<open>json.dumps\<close>), whether a text is JSON (\<open>json.loads\<close>
  succeeds) and \<open>str\<close> of a container are arguments (\<open>json\<close>). Case folding is
  the one of ASCII. Where the code calls a method that the value does not have, or converts a number
  that no float holds, the model returns the exception.
\<close>

section \<open>Policies\<close>

text \<open>Text outside ASCII, by its code points.\<close>

definition utf8_char :: "int \<Rightarrow> string" where
  "utf8_char n =
     (if n < 0x80 then [char_of n]
      else if n < 0x800 then [char_of (0xC0 + n div 64), char_of (0x80 + n mod 64)]
      else [char_of (0xE0 + n div 4096), char_of (0x80 + n div 64 mod 64), char_of (0x80 + n mod 64)])"

definition utf8 :: "int list \<Rightarrow> string" where
  "utf8 ns = concat (map utf8_char ns)"

record failure_policy =
  po_scope :: string
  po_capability :: "string option"
  po_retryable :: bool
  po_status :: int
  po_type :: string
  po_verify :: bool

definition policy_row :: "string \<Rightarrow> string option \<Rightarrow> bool \<Rightarrow> int \<Rightarrow> string \<Rightarrow> bool \<Rightarrow> failure_policy" where
  "policy_row scope capability retryable status type verify =
     \<lparr>po_scope = scope, po_capability = capability, po_retryable = retryable, po_status = status, po_type = type,
      po_verify = verify\<rparr>"

record failure =
  fl_code :: string
  fl_scope :: string
  fl_capability :: "string option"
  fl_retryable :: bool
  fl_retry_after :: "int option"
  fl_status :: int
  fl_type :: string
  fl_verify :: bool
  fl_raw :: pyval
  fl_public :: string

definition failure_outcome :: "failure \<Rightarrow> string" where
  "failure_outcome f = (if fl_status f = 400 then ''text'' else ''failure'')"

definition account_capacity_limited :: "failure \<Rightarrow> bool" where
  "account_capacity_limited f \<longleftrightarrow> fl_code f \<in> {''file_upload_throttled'', ''image_quota_exhausted'', ''insufficient_quota''}"

definition switch_account :: "failure \<Rightarrow> bool" where
  "switch_account f =
     (if fl_code f = ''image_storage_failed'' then False
      else if account_capacity_limited f then True
      else failure_outcome f = ''failure'' \<and> fl_status f \<noteq> 429)"

definition failure_policies :: "(string \<times> failure_policy) list" where
  "failure_policies =
    [(''upstream_error'', policy_row ''transient'' None False 502 ''server_error'' False),
     (''conversation_not_ready'', policy_row ''transient'' (Some ''image_generation'') True 409 ''server_error'' False),
     (''internal_error'', policy_row ''internal'' None False 500 ''server_error'' False),
     (''upstream_unavailable'', policy_row ''transient'' None True 502 ''server_error'' False),
     (''upstream_connection_failed'', policy_row ''transient'' None True 502 ''server_error'' False),
     (''upstream_connection_timeout'', policy_row ''transient'' None True 504 ''server_error'' False),
     (''upstream_rate_limited'',
       policy_row ''transient'' (Some ''image_generation'') False 429 ''rate_limit_error'' False),
     (''image_poll_timeout'', policy_row ''transient'' (Some ''image_generation'') False 502 ''server_error'' False),
     (''image_stream_timeout'', policy_row ''transient'' (Some ''image_generation'') False 502 ''server_error'' False),
     (''image_stream_interrupted'',
       policy_row ''transient'' (Some ''image_generation'') False 502 ''server_error'' False),
     (''image_tool_error'', policy_row ''account'' (Some ''image_generation'') False 502 ''server_error'' True),
     (''upstream_image_generation_error'',
       policy_row ''transient'' (Some ''image_generation'') True 502 ''server_error'' False),
     (''image_quota_exhausted'',
       policy_row ''account'' (Some ''image_generation'') False 429 ''insufficient_quota'' True),
     (''file_upload_throttled'', policy_row ''account'' (Some ''file_upload'') True 429 ''rate_limit_error'' False),
     (''auth_invalid'', policy_row ''account'' (Some ''auth'') False 401 ''authentication_error'' True),
     (''content_policy_violation'', policy_row ''request'' None False 400 ''invalid_request_error'' False),
     (''invalid_image_input'', policy_row ''request'' None False 400 ''invalid_request_error'' False),
     (''upstream_text_reply'', policy_row ''request'' None False 400 ''invalid_request_error'' False),
     (''no_image_generated'', policy_row ''request'' None False 502 ''server_error'' False),
     (''unsupported_model'', policy_row ''request'' None False 400 ''invalid_request_error'' False),
     (''image_download_failed'', policy_row ''delivery'' None False 502 ''server_error'' False),
     (''image_storage_failed'', policy_row ''delivery'' None False 502 ''server_error'' False),
     (''task_interrupted'', policy_row ''request'' None False 503 ''server_error'' False),
     (''no_available_account'', policy_row ''transient'' None False 503 ''server_error'' False),
     (''insufficient_quota'', policy_row ''account'' (Some ''image_generation'') False 429 ''insufficient_quota'' False)]"

definition failure_code_aliases :: "(string \<times> string) list" where
  "failure_code_aliases =
    [(''connection_failed'', ''upstream_connection_failed''),
     (''connection_timeout'', ''upstream_connection_timeout''),
     (''image_stream_interrupted'', ''image_stream_interrupted''), (''invalid_access_token'', ''auth_invalid''),
     (''moderation_blocked'', ''content_policy_violation''), (''quota_exhausted'', ''image_quota_exhausted''),
     (''rate_limit_exceeded'', ''upstream_rate_limited''), (''safety_blocked'', ''content_policy_violation''),
     (''token_invalid'', ''auth_invalid''), (''token_invalidated'', ''auth_invalid''),
     (''token_revoked'', ''auth_invalid''), (''unsupported_image_model'', ''unsupported_model''),
     (''upstream_timeout'', ''image_poll_timeout'')]"

definition rate_limit_failure_codes :: "string list" where
  "rate_limit_failure_codes =
    [''429'', ''file_upload_throttled'', ''image_quota_exhausted'', ''insufficient_quota'', ''limited'',
     ''quota_exhausted'', ''rate_limit'', ''rate_limit_exceeded'', ''rate_limited'', ''upstream_rate_limited'',
     utf8 [0x9650, 0x6d41]]"

definition text_review_failure_codes :: "string list" where
  "text_review_failure_codes = map fst (filter (\<lambda>(code, p). po_status p = 400) failure_policies)"

definition failed_statuses :: "string list" where
  "failed_statuses =
    [''error'', ''fail'', ''failed'', ''limited'', ''rate_limited'', utf8 [0x9650, 0x6d41]]"

text \<open>\<open>FAILURE_CODE_ALIASES.get(code, code)\<close>.\<close>

definition canonical_code :: "string \<Rightarrow> string" where
  "canonical_code code = (case map_of failure_code_aliases code of Some c \<Rightarrow> c | None \<Rightarrow> code)"

definition is_known_code :: "string \<Rightarrow> bool" where
  "is_known_code code \<longleftrightarrow> map_of failure_policies code \<noteq> None"

definition is_structured_failure :: "pyval \<Rightarrow> pyval list \<Rightarrow> bool" where
  "is_structured_failure status vs \<longleftrightarrow>
     lower (clean status) \<in> set failed_statuses \<or> list_ex (\<lambda>v. v \<noteq> PNone \<and> v \<noteq> PStr []) vs"

definition is_rate_limit_code :: "string \<Rightarrow> bool" where
  "is_rate_limit_code code \<longleftrightarrow> lower (strip code) \<in> set rate_limit_failure_codes"

definition is_text_review_code :: "string \<Rightarrow> bool" where
  "is_text_review_code code \<longleftrightarrow> canonical_code (lower (strip code)) \<in> set text_review_failure_codes"

text \<open>\<open>image_failure\<close>; an unknown code is \<open>upstream_error\<close>. No code at all is the empty text.\<close>

definition image_failure :: "string \<Rightarrow> int option \<Rightarrow> pyval \<Rightarrow> failure" where
  "image_failure code retry_after raw =
     (let normalized = canonical_code (lower (strip (if code = [] then ''upstream_error'' else code)));
          normalized = (if is_known_code normalized then normalized else ''upstream_error'');
          p = the (map_of failure_policies normalized) in
      \<lparr>fl_code = normalized, fl_scope = po_scope p, fl_capability = po_capability p, fl_retryable = po_retryable p,
       fl_retry_after = retry_after, fl_status = po_status p, fl_type = po_type p, fl_verify = po_verify p,
       fl_raw = raw, fl_public = []\<rparr>)"

section \<open>Text for clients\<close>

record json =
  js_dumps :: "pyval \<Rightarrow> string"
  js_loads :: "string \<Rightarrow> bool"
  js_repr :: "pyval \<Rightarrow> string"

definition public_raw_detail_codes :: "string list" where
  "public_raw_detail_codes =
    [''content_policy_violation'', ''image_quota_exhausted'', ''invalid_image_input'', ''no_image_generated'',
     ''unsupported_model'', ''upstream_rate_limited'', ''upstream_text_reply'']"

definition fence :: string where
  "fence = replicate 3 (CHR 0x60)"

definition is_structured_text_payload :: "json \<Rightarrow> string \<Rightarrow> bool" where
  "is_structured_text_payload js s =
     (let candidate = strip s;
          candidate =
            (if prefix fence candidate \<and> suffix fence candidate then
               (let inner = strip (drop 3 (take (length candidate - 3) candidate)) in
                if prefix ''json'' (lower inner) then dropWhile is_space (drop 4 inner) else inner)
             else candidate) in
      js_loads js candidate)"

definition is_structured_failure_code :: "string \<Rightarrow> bool" where
  "is_structured_failure_code s =
     (let normalized = lower (strip s) in
      normalized \<in> set (map fst failure_policies) \<or> normalized \<in> set (map fst failure_code_aliases) \<or>
      normalized \<in> set rate_limit_failure_codes \<or> normalized \<in> set failed_statuses)"

definition public_candidates :: "pydict \<Rightarrow> pyval list" where
  "public_candidates d =
     (let error = field d ''error'' in
      [case error of PDict e \<Rightarrow> field e ''message'' | _ \<Rightarrow> PNone, field d ''message'', field d ''detail'',
       field d ''error_description'', case error of PStr s \<Rightarrow> error | _ \<Rightarrow> PNone])"

lemma field_size: "size (field d k) < size (PDict d)"
proof (cases "map_of d k")
  case (Some v)
  then have "(k, v) \<in> set d" by (rule map_of_SomeD)
  then have "size v < size_list (size_prod (\<lambda>_. 0) size) d"
    by (induction d) auto
  with Some show ?thesis by (simp add: field_def)
qed (simp add: field_def)

lemma public_candidates_size: "c \<in> set (public_candidates d) \<Longrightarrow> size c < size (PDict d)"
proof -
  have nested: "size (field e k) < size (PDict d)" if "field d j = PDict e" for e j k
    using field_size [of e k] field_size [of d j] that by simp
  show "c \<in> set (public_candidates d) \<Longrightarrow> size c < size (PDict d)"
    using field_size [of d] nested
    by (auto simp: public_candidates_def Let_def split: pyval.splits)
qed

function safe_public_text :: "json \<Rightarrow> pyval \<Rightarrow> string" where
  "safe_public_text js v =
     (case v of
        PDict d \<Rightarrow>
          (case find (\<lambda>t. t \<noteq> []) (map (safe_public_text js) (public_candidates d)) of Some t \<Rightarrow> t | None \<Rightarrow> [])
      | PStr s \<Rightarrow>
          (if strip s = [] \<or> is_structured_text_payload js (strip s) \<or> is_structured_failure_code (strip s) then []
           else strip s)
      | _ \<Rightarrow> [])"
  by pat_completeness auto
termination
  by (relation "measure (size \<circ> snd)") (simp_all add: public_candidates_size [simplified])

declare safe_public_text.simps [simp del]

definition with_public_detail :: "json \<Rightarrow> failure \<Rightarrow> pyval \<Rightarrow> failure" where
  "with_public_detail js f v = f\<lparr>fl_public := safe_public_text js v\<rparr>"

text \<open>The candidates in order; \<open>raw_upstream_message\<close> of the exception, None without one.\<close>

definition public_upstream_text :: "json \<Rightarrow> failure \<Rightarrow> pyval \<Rightarrow> string" where
  "public_upstream_text js f upstream =
     (let candidates = (if fl_public f \<noteq> [] then [PStr (fl_public f)] else []) @ [upstream] @
            (if fl_code f \<in> set public_raw_detail_codes then [fl_raw f] else []) in
      case find (\<lambda>t. t \<noteq> []) (map (safe_public_text js) candidates) of Some t \<Rightarrow> t | None \<Rightarrow> [])"

definition timeout_message :: string where
  "timeout_message = ''Image generation timed out. Please try again.''"

definition tool_error_message :: string where
  "tool_error_message = ''The image generation tool encountered an error. Please try again.''"

definition quota_message :: string where
  "quota_message = ''No image generation quota is currently available.''"

definition public_image_error_message :: "json \<Rightarrow> failure \<Rightarrow> pyval \<Rightarrow> string" where
  "public_image_error_message js f upstream =
     (if fl_code f = ''image_poll_timeout'' then timeout_message
      else if fl_code f \<in> {''image_stream_interrupted'', ''image_stream_timeout'', ''upstream_image_generation_error''}
      then tool_error_message
      else if fl_code f \<in> {''image_quota_exhausted'', ''insufficient_quota''} then quota_message
      else
        (let upstream_text = public_upstream_text js f upstream in
         if upstream_text \<noteq> [] then upstream_text else tool_error_message))"

section \<open>Codes in an answer\<close>

text \<open>\<open>_structured_codes\<close>, in the order of a recursive walk; the result of the code is the set of them.\<close>

definition own_codes :: "pydict \<Rightarrow> string list" where
  "own_codes d =
     concat (map (\<lambda>k. case field d k of PStr s \<Rightarrow> (if strip s = [] then [] else [lower (strip s)]) | _ \<Rightarrow> [])
       [''code'', ''error_code'', ''failure_code'', ''type'', ''error''])"

fun structured_codes :: "pyval \<Rightarrow> string list" where
  "structured_codes (PDict d) = own_codes d @ concat (map (\<lambda>(k, v). structured_codes v) d)"
| "structured_codes (PList vs) = concat (map structured_codes vs)"
| "structured_codes _ = []"

definition quota_codes :: "string list" where
  "quota_codes =
    [''image_quota_exhausted'', ''insufficient_quota'', ''quota_exhausted'']"

definition auth_codes :: "string list" where
  "auth_codes =
    [''invalid_access_token'', ''token_invalid'', ''token_invalidated'', ''token_revoked'']"

definition policy_codes :: "string list" where
  "policy_codes =
    [''content_policy_violation'', ''moderation_blocked'', ''safety_blocked'']"

definition failure_priority :: "string \<Rightarrow> nat" where
  "failure_priority code =
     (let normalized = canonical_code (lower (strip code)) in
      if normalized = ''auth_invalid'' then 8
      else if normalized \<in> {''image_quota_exhausted'', ''insufficient_quota''} then 7
      else if normalized \<in> {''file_upload_throttled'', ''upstream_rate_limited''} then 6
      else if normalized \<in> {''image_download_failed'', ''image_storage_failed''} then 5
      else if normalized \<in> set text_review_failure_codes \<and> normalized \<noteq> ''upstream_text_reply'' then 4
      else if normalized \<in> {''image_tool_error'', ''upstream_image_generation_error''} then 3
      else if normalized = ''upstream_text_reply'' then 2
      else if normalized \<in> {''image_poll_timeout'', ''image_stream_interrupted'', ''image_stream_timeout'', ''task_interrupted'',
          ''upstream_connection_failed'', ''upstream_connection_timeout'', ''upstream_unavailable''} then 1
      else 0)"

definition special_codes :: "string list" where
  "special_codes = policy_codes @ auth_codes @ quota_codes"

definition known_codes :: "string list \<Rightarrow> string list" where
  "known_codes codes =
     (let normalized = filter (\<lambda>c. c \<noteq> []) (map (lower \<circ> strip) codes);
          known = (if list_ex (\<lambda>c. c \<in> set policy_codes) normalized then [''content_policy_violation''] else []) @
            (if list_ex (\<lambda>c. c \<in> set auth_codes) normalized then [''auth_invalid''] else []) @
            (if list_ex (\<lambda>c. c \<in> set quota_codes) normalized then [''image_quota_exhausted''] else []) @
            map canonical_code (filter (\<lambda>c. c \<notin> set special_codes \<and> is_known_code (canonical_code c)) normalized) in
      if ''file_upload_throttled'' \<notin> set known \<and> list_ex is_rate_limit_code normalized
      then known @ [''upstream_rate_limited''] else known)"

text \<open>\<open>max(codes, key=lambda code: (_failure_priority(code), code))\<close>.\<close>

definition select_code :: "string list \<Rightarrow> string option" where
  "select_code codes =
     (case codes of [] \<Rightarrow> None | c # cs \<Rightarrow> Some (max_by (\<lambda>code. (failure_priority code, code)) c cs))"

definition classify_structured :: "string list \<Rightarrow> int option \<Rightarrow> pyval \<Rightarrow> failure option" where
  "classify_structured codes retry_after raw =
     map_option (\<lambda>code. image_failure code retry_after raw) (select_code (known_codes codes))"

section \<open>Prose about the quota\<close>

datatype crash = AttributeError | FloatOverflow

definition mapping_of :: "pyval \<Rightarrow> pydict" where
  "mapping_of v = (case v of PDict d \<Rightarrow> d | _ \<Rightarrow> [])"

definition message_of :: "pyval \<Rightarrow> pydict" where
  "message_of v =
     (let item = mapping_of v in
      case field item ''message'' of
        PDict nested \<Rightarrow> nested
      | _ \<Rightarrow> (case field (mapping_of (field item ''v'')) ''message'' of PDict nested \<Rightarrow> nested | _ \<Rightarrow> item))"

definition message_text :: "pydict \<Rightarrow> string" where
  "message_text message =
     (case field message ''content'' of
        PStr s \<Rightarrow> strip s
      | content \<Rightarrow>
          (let content_map = mapping_of content;
               parts_text = (case field content_map ''parts'' of
                   PList parts \<Rightarrow> strip (concat (map (\<lambda>p. case p of PStr s \<Rightarrow> s | _ \<Rightarrow> []) parts))
                 | _ \<Rightarrow> []) in
           if parts_text \<noteq> [] then parts_text else clean (field content_map ''text'')))"

definition image_quota_message_markers :: "string list" where
  "image_quota_message_markers =
    [utf8 [0x56fe, 0x50cf, 0x751f, 0x6210, 0x8bf7, 0x6c42, 0x4e0a, 0x9650],
     utf8 [0x56fe, 0x50cf, 0x751f, 0x6210, 0x8bf7, 0x6c42, 0x9650, 0x5236],
     utf8 [0x5df2, 0x8fbe, 0x5230, 0x20, 0x66, 0x72, 0x65, 0x65, 0x20, 0x5957, 0x9910],
     utf8 [0x5df2, 0x8fbe, 0x5230, 0x514d, 0x8d39, 0x5957, 0x9910], ''free plan limit'', ''free tier limit'',
     ''limit for image generation'', ''limit on image generation'', ''limits for image generation'',
     ''image generation requests'', ''image generation request limit'', ''image generation quota'',
     ''no image generation quota'', ''quota exhausted'', ''insufficient quota'']"

definition image_quota_limit_markers :: "string list" where
  "image_quota_limit_markers =
    [''instant limit has been reached'', ''instant limit was reached'', ''instant image generation limit'',
     ''instant image creation limit'', ''image-generation limit has been reached'',
     ''image generation limit has been reached'', ''image creation limit has been reached'']"

definition image_context_markers :: "string list" where
  "image_context_markers =
    [''image generation'', ''image-generation'', ''image creation'', ''create the image'', ''generate the image'',
     utf8 [0x56fe, 0x7247, 0x751f, 0x6210], utf8 [0x56fe, 0x50cf, 0x751f, 0x6210]]"

definition zh_image_1 :: string where
  "zh_image_1 =
    utf8 [0x56fe, 0x50cf]"

definition zh_image_2 :: string where
  "zh_image_2 =
    utf8 [0x56fe, 0x7247]"

definition zh_upgrade :: string where
  "zh_upgrade =
    utf8 [0x5347, 0x7ea7, 0x8ba2, 0x9605]"

definition zh_usage :: string where
  "zh_usage =
    utf8 [0x7528, 0x91cf]"

definition zh_reset :: string where
  "zh_reset =
    utf8 [0x91cd, 0x7f6e]"

definition mentions :: "string list \<Rightarrow> string \<Rightarrow> bool" where
  "mentions markers s \<longleftrightarrow> list_ex (\<lambda>m. sublist m s) markers"

definition quota_prose :: "string \<Rightarrow> bool \<Rightarrow> bool option \<Rightarrow> bool" where
  "quota_prose normalized allow_deferred image_context =
     (if mentions image_quota_message_markers normalized then True
      else if (case image_context of Some b \<Rightarrow> b | None \<Rightarrow> mentions image_context_markers normalized) \<and>
          mentions image_quota_limit_markers normalized then True
      else
        allow_deferred \<and> mentions [zh_image_1, zh_image_2, ''image''] normalized \<and>
        (sublist zh_upgrade normalized \<and> sublist zh_usage normalized \<and> sublist zh_reset normalized \<or>
         sublist ''upgrade'' normalized \<and> sublist ''usage'' normalized \<and> sublist ''reset'' normalized))"

text \<open>\<open>_looks_like_image_quota_message\<close>. A value that is neither text nor a container has no \<open>get\<close>.\<close>

definition looks_like_image_quota :: "json \<Rightarrow> pyval \<Rightarrow> bool \<Rightarrow> bool option \<Rightarrow> crash + bool" where
  "looks_like_image_quota js v allow_deferred image_context =
     (let prose = (\<lambda>s. Inr (quota_prose (lower (strip s)) allow_deferred image_context)) in
      case v of
        PStr s \<Rightarrow> prose s
      | PDict d \<Rightarrow> prose (js_dumps js v)
      | PList vs \<Rightarrow> prose (js_dumps js v)
      | _ \<Rightarrow> Inl AttributeError)"

definition notice_start :: string where
  "notice_start =
    utf8 [0x975e, 0x5e38, 0x62b1, 0x6b49, 0xff0c]"

definition notice_middle :: string where
  "notice_middle =
    utf8 [0x53ef, 0x80fd, 0x8fdd, 0x53cd, 0x4e86]"

definition notice_end :: string where
  "notice_end =
    utf8 [0x3002, 0x5982, 0x679c, 0x4f60, 0x8ba4, 0x4e3a, 0x6b64, 0x5224, 0x65ad, 0x6709, 0x8bef, 0xff0c, 0x8bf7,
       0x91cd, 0x8bd5, 0x6216, 0x4fee, 0x6539, 0x63d0, 0x793a, 0x8bed, 0x3002]"

definition subject_prompt :: string where
  "subject_prompt =
    utf8 [0x8be5, 0x63d0, 0x793a]"

definition subject_image :: string where
  "subject_image =
    utf8 [0x751f, 0x6210, 0x7684, 0x56fe, 0x7247]"

definition reason_policy :: string where
  "reason_policy =
    utf8 [0x6211, 0x4eec, 0x7684, 0x5185, 0x5bb9, 0x653f, 0x7b56]"

definition reason_nudity :: string where
  "reason_nudity =
    utf8 [0x5173, 0x4e8e, 0x88f8, 0x9732, 0x3001, 0x8272, 0x60c5, 0x6216, 0x60c5, 0x8272, 0x5185, 0x5bb9, 0x7684,
       0x9632, 0x62a4, 0x9650, 0x5236]"

definition reason_violence :: string where
  "reason_violence =
    utf8 [0x5173, 0x4e8e, 0x66b4, 0x529b, 0x5185, 0x5bb9, 0x7684, 0x9632, 0x62a4, 0x9650, 0x5236]"

definition reason_illegal :: string where
  "reason_illegal =
    utf8 [0x5173, 0x4e8e, 0x975e, 0x6cd5, 0x6216, 0x8fdd, 0x6cd5, 0x6d3b, 0x52a8, 0x7684, 0x9632, 0x62a4, 0x9650,
       0x5236]"

definition policy_notice_texts :: "string list" where
  "policy_notice_texts =
     map (\<lambda>(subject, reason). notice_start @ subject @ notice_middle @ reason @ notice_end)
       [(subject_prompt, reason_policy), (subject_prompt, reason_nudity), (subject_image, reason_nudity),
        (subject_prompt, reason_violence), (subject_prompt, reason_illegal)]"

definition image_generation_error_texts :: "string list" where
  "image_generation_error_texts =
    [utf8 [0x62b1, 0x6b49, 0xff0c, 0x6211, 0x65e0, 0x6cd5, 0x751f, 0x6210, 0x8fd9, 0x5f20, 0x56fe, 0x7247,
       0xff0c, 0x56e0, 0x4e3a, 0x56fe, 0x50cf, 0x751f, 0x6210, 0x8fc7, 0x7a0b, 0x4e2d, 0x53d1, 0x751f, 0x4e86,
       0x9519, 0x8bef, 0x3002],
     utf8 [0x7531, 0x4e8e, 0x6211, 0x8fd9, 0x8fb9, 0x53d1, 0x751f, 0x4e86, 0x9519, 0x8bef, 0xff0c, 0x6211,
       0x672a, 0x80fd, 0x751f, 0x6210, 0x56fe, 0x7247, 0x3002]]"

section \<open>HTTP errors\<close>

record http_error =
  he_context :: pyval
  he_status :: int
  he_body :: pyval
  he_retry_after :: "int option"
  he_scope :: string

definition is_upload_path :: "string \<Rightarrow> bool" where
  "is_upload_path path \<longleftrightarrow>
     path \<in> {''/backend-api/files'', ''image_upload''} \<or>
     prefix ''/backend-api/files/'' path \<and> suffix ''/uploaded'' path"

text \<open>\<open>context.split("?", 1)[0].rstrip("/")\<close>.\<close>

definition context_path :: "string \<Rightarrow> string" where
  "context_path s = rev (dropWhile (\<lambda>c. c = CHR ''/'') (rev (takeWhile (\<lambda>c. c \<noteq> CHR ''?'') s)))"

definition classify_without_account :: "http_error \<Rightarrow> failure" where
  "classify_without_account e =
     (let status = he_status e;
          asset = (he_scope e = ''signed_asset'');
          code =
            (if asset \<and> sublist ''download'' (lower (clean (he_context e))) then ''image_download_failed''
             else if status = 429 then ''upstream_rate_limited''
             else if status \<in> {408, 504} then ''upstream_connection_timeout''
             else if status \<in> {403, 423} \<or> 500 \<le> status then ''upstream_unavailable''
             else ''upstream_error'');
          f = image_failure code (he_retry_after e) (he_body e) in
      f\<lparr>fl_status := status, fl_scope := (if asset then ''delivery'' else fl_scope f), fl_verify := False\<rparr>)"

definition classify_by_status :: "http_error \<Rightarrow> failure option \<Rightarrow> failure" where
  "classify_by_status e structured =
     (let status = he_status e; failure_of = (\<lambda>code. image_failure code (he_retry_after e) (he_body e)) in
      if (case structured of Some f \<Rightarrow> fl_status f = status | None \<Rightarrow> False) then the structured
      else if status \<in> {403, 423} then (failure_of ''upstream_unavailable'')\<lparr>fl_status := status\<rparr>
      else if status = 429 then failure_of ''upstream_rate_limited''
      else if status \<in> {408, 504} then failure_of ''upstream_connection_timeout''
      else if 500 \<le> status then (failure_of ''upstream_unavailable'')\<lparr>fl_status := status\<rparr>
      else (failure_of ''upstream_error'')\<lparr>fl_status := status\<rparr>)"

definition classify_upstream_http_error :: "json \<Rightarrow> http_error \<Rightarrow> crash + failure" where
  "classify_upstream_http_error js e =
     (let status = he_status e;
          structured = classify_structured (structured_codes (he_body e)) (he_retry_after e) (he_body e);
          failure_of = (\<lambda>code. image_failure code (he_retry_after e) (he_body e)) in
      if status = 400 then
        (let f = (case structured of
               Some f \<Rightarrow> if fl_status f = 400 then f else image_failure ''invalid_image_input'' None (he_body e)
             | None \<Rightarrow> image_failure ''invalid_image_input'' None (he_body e)) in
         Inr (if he_scope e = ''signed_asset'' then f\<lparr>fl_scope := ''delivery''\<rparr> else f))
      else if he_scope e \<noteq> ''account'' then Inr (classify_without_account e)
      else if status = 401 then Inr (failure_of ''auth_invalid'')
      else if (case structured of Some f \<Rightarrow> fl_code f = ''conversation_not_ready'' | None \<Rightarrow> False) \<and> status \<in> {404, 409, 423}
      then Inr ((failure_of ''conversation_not_ready'')\<lparr>fl_status := status\<rparr>)
      else if status = 429 then
        (if is_upload_path (context_path (lower (clean (he_context e)))) then Inr (failure_of ''file_upload_throttled'')
         else case looks_like_image_quota js (he_body e) True None of
           Inl c \<Rightarrow> Inl c
         | Inr True \<Rightarrow> Inr (failure_of ''image_quota_exhausted'')
         | Inr False \<Rightarrow> Inr (classify_by_status e structured))
      else Inr (classify_by_status e structured))"

section \<open>Exceptions\<close>

text \<open>What an exception is, as far as the code asks: it carries a failure, is an HTTP error, has a code
  that is a text, or is of one of the transport classes.\<close>

datatype transport = TimedOut | ConnectionFailed | OtherError

record raised =
  ra_failure :: "failure option"
  ra_http :: "http_error option"
  ra_code :: "string option"
  ra_transport :: transport
  ra_text :: string

definition classify_image_exception :: "json \<Rightarrow> raised \<Rightarrow> string \<Rightarrow> crash + failure" where
  "classify_image_exception js r code =
     (let text_failure = (\<lambda>c. image_failure c None (PStr (ra_text r)));
          structured = (if code \<noteq> [] then Some code else ra_code r) in
      case ra_failure r of
        Some f \<Rightarrow> Inr f
      | None \<Rightarrow>
          (case ra_http r of
             Some e \<Rightarrow> classify_upstream_http_error js e
           | None \<Rightarrow>
               (case structured of
                  Some c \<Rightarrow>
                    if lower (strip c) \<in> set (map fst failure_policies) \<or> lower (strip c) \<in> set (map fst failure_code_aliases)
                    then Inr (text_failure c)
                    else if code \<noteq> [] then Inr (text_failure code)
                    else Inr (text_failure (case ra_transport r of TimedOut \<Rightarrow> ''upstream_connection_timeout''
                      | ConnectionFailed \<Rightarrow> ''upstream_connection_failed'' | OtherError \<Rightarrow> ''internal_error''))
                | None \<Rightarrow> Inr (text_failure (case ra_transport r of TimedOut \<Rightarrow> ''upstream_connection_timeout''
                      | ConnectionFailed \<Rightarrow> ''upstream_connection_failed'' | OtherError \<Rightarrow> ''internal_error'')))))"

section \<open>Messages\<close>

definition terminal_message_statuses :: "string list" where
  "terminal_message_statuses =
    [''complete'', ''completed'', ''done'', ''finished'', ''finished_partial_completion'',
     ''finished_successfully'', ''succeeded'', ''success'']"

definition is_terminal_status :: "pyval \<Rightarrow> bool" where
  "is_terminal_status v \<longleftrightarrow> lower (clean v) \<in> set terminal_message_statuses"

text \<open>A text of a nested mapping, in lower case.\<close>

definition role_of :: "pydict \<Rightarrow> string" where
  "role_of message = lower (clean (field (mapping_of (field message ''author'')) ''role''))"

definition content_type_of :: "pydict \<Rightarrow> string" where
  "content_type_of message = lower (clean (field (mapping_of (field message ''content'')) ''content_type''))"

definition metadata_of :: "pydict \<Rightarrow> pydict" where
  "metadata_of message = mapping_of (field message ''metadata'')"

definition status_of :: "pydict \<Rightarrow> string" where
  "status_of message = lower (clean (py_or (field message ''status'') (field (metadata_of message) ''status'')))"

text \<open>\<open>has_pointer\<close>.\<close>

definition is_pointer :: "pydict \<Rightarrow> bool" where
  "is_pointer d =
     (case field d ''asset_pointer'' of PStr s \<Rightarrow> prefix ''file-service://'' s \<or> prefix ''sediment://'' s | _ \<Rightarrow> False)"

fun has_pointer :: "pyval \<Rightarrow> bool" where
  "has_pointer (PDict d) = (is_pointer d \<or> list_ex (\<lambda>(k, v). has_pointer v) d)"
| "has_pointer (PList vs) = list_ex has_pointer vs"
| "has_pointer _ = False"

definition has_image_output :: "pydict \<Rightarrow> bool" where
  "has_image_output message \<longleftrightarrow>
     role_of message = ''tool'' \<and> lower (clean (field (metadata_of message) ''async_task_type'')) = ''image_gen'' \<and>
     has_pointer (field message ''content'')"

record facts =
  fa_role :: string
  fa_content_type :: string
  fa_status :: string
  fa_end_turn :: bool
  fa_is_error :: bool
  fa_blocked :: bool
  fa_image_output :: bool
  fa_has_text :: bool
  fa_codes :: "string list"
  fa_raw :: pyval

definition refinable :: "failure option \<Rightarrow> bool" where
  "refinable structured =
     (case structured of
        None \<Rightarrow> True
      | Some f \<Rightarrow> fl_code f \<in> {''image_tool_error'', ''upstream_error'', ''upstream_image_generation_error'', ''upstream_rate_limited''})"

text \<open>The fields are stripped texts in lower case, as the callers pass them. The details as text:
  \<open>str(raw_detail or "")\<close>.\<close>

definition raw_text :: "json \<Rightarrow> pyval \<Rightarrow> string" where
  "raw_text js v = (if \<not> truthy v then [] else case v of PStr s \<Rightarrow> s | _ \<Rightarrow> js_repr js v)"

definition image_context_of :: "json \<Rightarrow> facts \<Rightarrow> bool" where
  "image_context_of js fa \<longleftrightarrow>
     fa_role fa \<in> {''assistant'', ''tool''} \<and> fa_content_type fa \<in> {''text'', ''system_error''} \<and>
     (fa_role fa = ''tool'' \<or> fa_end_turn fa \<or> fa_status fa \<in> set terminal_message_statuses) \<and>
     (fa_role fa = ''tool'' \<and> fa_content_type fa = ''system_error'' \<or>
      mentions image_context_markers (lower (raw_text js (fa_raw fa))))"

definition classify_text_reply :: "json \<Rightarrow> pyval \<Rightarrow> failure" where
  "classify_text_reply js raw =
     (let stripped = (case raw of PStr s \<Rightarrow> Some (strip s) | _ \<Rightarrow> None) in
      if stripped \<in> Some ` set policy_notice_texts
      then with_public_detail js (image_failure ''content_policy_violation'' None raw) raw
      else if stripped \<in> Some ` set image_generation_error_texts
      then image_failure ''upstream_image_generation_error'' None raw
      else with_public_detail js (image_failure ''upstream_text_reply'' None raw) raw)"

definition classify_message_facts :: "json \<Rightarrow> facts \<Rightarrow> crash + failure option" where
  "classify_message_facts js fa =
     (if fa_image_output fa then Inr None
      else if fa_blocked fa then Inr (Some (image_failure ''content_policy_violation'' None (fa_raw fa)))
      else
        (let structured = classify_structured (fa_codes fa @ [fa_status fa]) None (fa_raw fa);
             speaks = (fa_role fa \<in> {''assistant'', ''tool''} \<and> fa_content_type fa \<in> {''text'', ''system_error''}) in
         case looks_like_image_quota js (fa_raw fa) speaks (Some (image_context_of js fa)) of
           Inl c \<Rightarrow> Inl c
         | Inr quota_signal \<Rightarrow>
             Inr
               (if quota_signal \<and> refinable structured
                then Some (image_failure ''image_quota_exhausted'' None (fa_raw fa))
                else if structured \<noteq> None then structured
                else if fa_role fa = ''assistant'' \<and> fa_content_type fa = ''text'' \<and>
                    (fa_end_turn fa \<or> fa_status fa \<in> set terminal_message_statuses) \<and> fa_has_text fa
                then Some (classify_text_reply js (fa_raw fa))
                else if fa_role fa = ''tool'' \<and> fa_content_type fa = ''system_error''
                then Some (image_failure ''image_tool_error'' None (fa_raw fa))
                else if fa_is_error fa \<or> fa_status fa \<in> set failed_statuses
                then Some (image_failure (if is_rate_limit_code (fa_status fa) then ''upstream_rate_limited'' else ''upstream_error'')
                       None (fa_raw fa))
                else None)))"

definition is_true :: "pyval \<Rightarrow> bool" where
  "is_true v \<longleftrightarrow> v = PBool True"

definition facts_of :: "pyval \<Rightarrow> facts" where
  "facts_of v =
     (let outer = mapping_of v; moderation = mapping_of (field outer ''moderation_response''); message = message_of v;
          metadata = metadata_of message; raw = message_text message in
      \<lparr>fa_role = role_of message, fa_content_type = content_type_of message, fa_status = status_of message,
       fa_end_turn = is_true (field message ''end_turn''),
       fa_is_error = (is_true (field message ''is_error'') \<or> is_true (field metadata ''is_error'') \<or>
         truthy (field message ''error'') \<or> truthy (field metadata ''error'')),
       fa_blocked = (is_true (field message ''blocked'') \<or> is_true (field metadata ''blocked'') \<or>
         field outer ''type'' = PStr ''moderation'' \<and> is_true (field moderation ''blocked'')),
       fa_image_output = has_image_output message, fa_has_text = (raw \<noteq> []), fa_codes = structured_codes (PDict message),
       fa_raw = (if raw \<noteq> [] then PStr raw else v)\<rparr>)"

definition classify_response_event :: "json \<Rightarrow> string \<Rightarrow> pydict \<Rightarrow> crash + failure option" where
  "classify_response_event js event_type outer =
     (let response = mapping_of (field outer ''response'');
          structured = classify_structured (structured_codes (PDict outer)) None (PDict outer);
          response_error = py_or (field response ''error'') (py_or (field outer ''error'') (PDict outer)) in
      case looks_like_image_quota js response_error True None of
        Inl c \<Rightarrow> Inl c
      | Inr quota_signal \<Rightarrow>
          (let f =
             (if quota_signal \<and> refinable structured then image_failure ''image_quota_exhausted'' None response_error
              else case structured of Some f \<Rightarrow> f | None \<Rightarrow> image_failure ''image_tool_error'' None (PDict outer)) in
           Inr (Some (if event_type = ''response.failed''
             then with_public_detail js f (py_or (field response ''error'') (field outer ''error'')) else f))))"

definition classify_upstream_message :: "json \<Rightarrow> pyval \<Rightarrow> crash + failure option" where
  "classify_upstream_message js v =
     (let outer = mapping_of v; event_type = lower (clean (field outer ''type'')) in
      if event_type \<in> {''response.failed'', ''response.incomplete''} then classify_response_event js event_type outer
      else classify_message_facts js (facts_of v))"

section \<open>Conversations\<close>

definition merge_message_failure :: "json \<Rightarrow> failure option \<Rightarrow> failure option \<Rightarrow> failure option" where
  "merge_message_failure js current candidate =
     (case (current, candidate) of
        (_, None) \<Rightarrow> current
      | (None, _) \<Rightarrow> candidate
      | (Some old, Some new) \<Rightarrow>
          (let (winner, other) =
             (if fl_code new = fl_code old then (new, old)
              else if failure_priority (fl_code old) < failure_priority (fl_code new) then (new, old)
              else (old, new));
             winner = (if \<not> truthy (fl_raw winner) \<and> truthy (fl_raw other) then winner\<lparr>fl_raw := fl_raw other\<rparr> else winner);
             winner = (if fl_public winner = [] \<and> fl_public other \<noteq> []
               then with_public_detail js winner (PStr (fl_public other)) else winner) in
           Some winner))"

definition classify_task_failure :: "json \<Rightarrow> pyval \<Rightarrow> crash + failure option" where
  "classify_task_failure js task =
     (case field (mapping_of task) ''image_gen_message'' of
        PDict m \<Rightarrow>
          (case classify_upstream_message js (PDict m) of
             Inr (Some f) \<Rightarrow>
               if fl_code f \<noteq> ''image_tool_error'' then Inr (Some f)
               else
                 (let message = message_of (PDict m) in
                  if role_of message = ''tool'' \<and> content_type_of message = ''system_error'' \<or>
                     list_ex (\<lambda>c. canonical_code c = ''image_tool_error'') (structured_codes (PDict message))
                  then Inr (Some f)
                  else Inr (Some (image_failure ''upstream_error'' None (fl_raw f))))
           | result \<Rightarrow> result)
      | _ \<Rightarrow> Inr None)"

text \<open>The nodes from one node up to the root; a node seen before ends the walk. Newest first.\<close>

function lineage :: "pydict \<Rightarrow> string list \<Rightarrow> string \<Rightarrow> pydict list" where
  "lineage nodes visited node_id =
     (if node_id = [] \<or> node_id \<in> set visited then []
      else case map_of nodes node_id of
        None \<Rightarrow> []
      | Some v \<Rightarrow>
          (let node = mapping_of v; message = message_of v in
           if node = [] then []
           else (if message = [] then [] else [message]) @ lineage nodes (node_id # visited) (clean (field node ''parent''))))"
  by pat_completeness auto
termination
proof (relation "measure (\<lambda>(nodes, visited, node_id). card (set (map fst nodes) - set visited))", goal_cases)
  case (2 nodes visited node_id v node message)
  then have "node_id \<in> set (map fst nodes) - set visited" by (force dest: map_of_SomeD)
  then have "set (map fst nodes) - set (node_id # visited) \<subset> set (map fst nodes) - set visited" by auto
  then show ?case by (auto intro: psubset_card_mono)
qed simp

declare lineage.simps [simp del]

text \<open>The key of the sort by \<open>create_time\<close>: a float, in the order of floats, taken as the number 0 where it is
  not a number (nan).\<close>

definition time_key :: "pyval \<Rightarrow> crash + nat \<times> rat" where
  "time_key v =
     (case py_float (py_or v (PFloat (Fin 0))) of
        Inl OverflowError \<Rightarrow> Inl FloatOverflow
      | Inl _ \<Rightarrow> Inr (1, 0)
      | Inr NegInf \<Rightarrow> Inr (0, 0)
      | Inr (Fin q) \<Rightarrow> Inr (1, q)
      | Inr PosInf \<Rightarrow> Inr (2, 0)
      | Inr NaN \<Rightarrow> Inr (1, 0))"

fun timed_messages :: "pydict \<Rightarrow> crash + (((nat \<times> rat) \<times> string) \<times> pydict) list" where
  "timed_messages [] = Inr []"
| "timed_messages ((node_id, v) # nodes) =
     (let message = message_of v in
      if message = [] then timed_messages nodes
      else case (time_key (field message ''create_time''), timed_messages nodes) of
        (Inl c, _) \<Rightarrow> Inl c
      | (_, Inl c) \<Rightarrow> Inl c
      | (Inr t, Inr rest) \<Rightarrow> Inr (((t, node_id), message) # rest))"

text \<open>The messages after the last message of the user.\<close>

definition after_user :: "pydict list \<Rightarrow> pydict list" where
  "after_user messages = rev (takeWhile (\<lambda>m. role_of m \<noteq> ''user'') (rev messages))"

definition current_turn :: "pyval \<Rightarrow> crash + pydict list" where
  "current_turn data =
     (let nodes = mapping_of (field (mapping_of data) ''mapping'');
          current_node = clean (field (mapping_of data) ''current_node'') in
      if current_node \<noteq> [] \<and> map_of nodes current_node \<noteq> None
      then Inr (after_user (rev (lineage nodes [] current_node)))
      else map_sum id (\<lambda>ms. after_user (map snd (sort_key fst ms))) (timed_messages nodes))"

definition is_final_text :: "pydict \<Rightarrow> bool" where
  "is_final_text message \<longleftrightarrow>
     role_of message = ''assistant'' \<and> content_type_of message \<in> {''text'', ''code''} \<and>
     (is_true (field message ''end_turn'') \<or> status_of message \<in> set terminal_message_statuses)"

definition terminal_assistant_text :: "pyval \<Rightarrow> crash + string" where
  "terminal_assistant_text data =
     map_sum id (\<lambda>ms. case find is_final_text (rev ms) of Some m \<Rightarrow> message_text m | None \<Rightarrow> []) (current_turn data)"

fun fold_failures :: "json \<Rightarrow> failure option \<Rightarrow> pydict list \<Rightarrow> crash + failure option" where
  "fold_failures js f [] = Inr f"
| "fold_failures js f (m # ms) =
     (case classify_upstream_message js (PDict m) of
        Inl c \<Rightarrow> Inl c
      | Inr g \<Rightarrow> fold_failures js (merge_message_failure js f g) ms)"

definition classify_conversation_failure :: "json \<Rightarrow> pyval \<Rightarrow> crash + failure option" where
  "classify_conversation_failure js data =
     (case current_turn data of
        Inl c \<Rightarrow> Inl c
      | Inr messages \<Rightarrow> if list_ex has_image_output messages then Inr None else fold_failures js None messages)"

section \<open>Facts about the tables\<close>

lemma policy_table:
  "list_all (\<lambda>(code, p). code \<noteq> [] \<and> canonical_code (lower (strip code)) = code \<and> lower (strip code) = code \<and>
      (po_status p \<noteq> 400 \<or> \<not> po_verify p) \<and> po_status p \<noteq> 408) failure_policies"
  by code_simp

lemma known_code_fixed:
  assumes "is_known_code c"
  shows "c \<noteq> []" "canonical_code (lower (strip c)) = c"
    "fl_code (image_failure c r raw) = c" "fl_status (image_failure c r raw) = 400 \<Longrightarrow> \<not> fl_verify (image_failure c r raw)"
proof -
  from assms obtain p where p: "map_of failure_policies c = Some p" by (auto simp: is_known_code_def)
  then have "(c, p) \<in> set failure_policies" by (rule map_of_SomeD)
  then have facts: "c \<noteq> []" "canonical_code (lower (strip c)) = c" "po_status p \<noteq> 400 \<or> \<not> po_verify p"
    using policy_table by (auto simp: list_all_iff)
  then show "c \<noteq> []" "canonical_code (lower (strip c)) = c" by simp_all
  show "fl_code (image_failure c r raw) = c"
    using facts assms by (simp add: image_failure_def Let_def)
  show "fl_status (image_failure c r raw) = 400 \<Longrightarrow> \<not> fl_verify (image_failure c r raw)"
    using facts assms p by (simp add: image_failure_def Let_def)
qed

lemma used_codes:
  "list_all is_known_code
     [''upstream_error'', ''conversation_not_ready'', ''internal_error'', ''upstream_unavailable'', ''upstream_connection_failed'',
      ''upstream_connection_timeout'', ''upstream_rate_limited'', ''image_tool_error'', ''upstream_image_generation_error'',
      ''image_quota_exhausted'', ''file_upload_throttled'', ''auth_invalid'', ''content_policy_violation'',
      ''invalid_image_input'', ''upstream_text_reply'', ''image_download_failed'']"
  by code_simp

lemma policy_status:
  "list_all (\<lambda>(code, status, verify). case map_of failure_policies code of
       Some p \<Rightarrow> po_status p = status \<and> po_verify p = verify | None \<Rightarrow> False)
     [(''invalid_image_input'', 400, False), (''auth_invalid'', 401, True), (''file_upload_throttled'', 429, False),
      (''image_quota_exhausted'', 429, True), (''upstream_rate_limited'', 429, False),
      (''upstream_connection_timeout'', 504, False), (''upstream_unavailable'', 502, False), (''upstream_error'', 502, False),
      (''conversation_not_ready'', 409, False), (''image_download_failed'', 502, False)]"
  by code_simp

lemma used_status:
  assumes "(code, status, verify) \<in> set
     [(''invalid_image_input'', 400, False), (''auth_invalid'', 401, True), (''file_upload_throttled'', 429, False),
      (''image_quota_exhausted'', 429, True), (''upstream_rate_limited'', 429, False),
      (''upstream_connection_timeout'', 504, False), (''upstream_unavailable'', 502, False), (''upstream_error'', 502, False),
      (''conversation_not_ready'', 409, False), (''image_download_failed'', 502, False)]"
  shows "fl_status (image_failure code r raw) = status" "fl_verify (image_failure code r raw) = verify"
proof -
  obtain p where p: "map_of failure_policies code = Some p" "po_status p = status" "po_verify p = verify"
    using assms policy_status unfolding list_all_iff by (fastforce split: option.splits)
  then have known: "is_known_code code" by (simp add: is_known_code_def)
  show "fl_status (image_failure code r raw) = status" "fl_verify (image_failure code r raw) = verify"
    using p known known_code_fixed(1,2) [OF known] by (simp_all add: image_failure_def Let_def)
qed

lemma used_status_simps:
  "fl_status (image_failure ''invalid_image_input'' r raw) = 400"
  "fl_status (image_failure ''auth_invalid'' r raw) = 401"
  "fl_status (image_failure ''file_upload_throttled'' r raw) = 429"
  "fl_status (image_failure ''image_quota_exhausted'' r raw) = 429"
  "fl_status (image_failure ''upstream_rate_limited'' r raw) = 429"
  "fl_status (image_failure ''upstream_connection_timeout'' r raw) = 504"
  "fl_status (image_failure ''upstream_unavailable'' r raw) = 502"
  "fl_status (image_failure ''upstream_error'' r raw) = 502"
  "fl_status (image_failure ''conversation_not_ready'' r raw) = 409"
  "fl_status (image_failure ''image_download_failed'' r raw) = 502"
  by (simp_all add: used_status(1) [of "''invalid_image_input''" 400 False]
      used_status(1) [of "''auth_invalid''" 401 True]
      used_status(1) [of "''file_upload_throttled''" 429 False]
      used_status(1) [of "''image_quota_exhausted''" 429 True]
      used_status(1) [of "''upstream_rate_limited''" 429 False]
      used_status(1) [of "''upstream_connection_timeout''" 504 False]
      used_status(1) [of "''upstream_unavailable''" 502 False]
      used_status(1) [of "''upstream_error''" 502 False]
      used_status(1) [of "''conversation_not_ready''" 409 False]
      used_status(1) [of "''image_download_failed''" 502 False])

lemma alias_targets: "list_all (\<lambda>(code, target). is_known_code target) failure_code_aliases"
  by code_simp

lemma image_failure_known: "is_known_code (fl_code (image_failure code r raw))"
  using used_codes by (simp add: image_failure_def Let_def)

section \<open>The choice of a code\<close>

lemma known_codes_known: "list_all is_known_code (known_codes codes)"
  using used_codes by (auto simp: known_codes_def Let_def list_all_iff)

lemma max_by_eq:
  assumes inj: "inj f" and same: "set (x # xs) = set (y # ys)"
  shows "max_by f x xs = max_by f y ys"
proof -
  have "max_by f x xs \<in> set (y # ys)" "max_by f y ys \<in> set (x # xs)"
    using max_by_in [of f x xs] max_by_in [of f y ys] same by auto
  then have "f (max_by f x xs) \<le> f (max_by f y ys)" "f (max_by f y ys) \<le> f (max_by f x xs)"
    using max_by_ge [of _ y ys f] max_by_ge [of _ x xs f] by auto
  then show ?thesis using inj by (simp add: inj_eq)
qed

lemma select_code_same: "set codes = set codes' \<Longrightarrow> select_code codes = select_code codes'"
proof -
  have inj: "inj (\<lambda>code. (failure_priority code, code))" by (simp add: inj_def)
  show "set codes = set codes' \<Longrightarrow> select_code codes = select_code codes'"
    by (cases codes; cases codes') (auto simp: select_code_def intro!: max_by_eq [OF inj])
qed

lemma select_code_best:
  assumes "select_code codes = Some c"
  shows "c \<in> set codes" "\<And>d. d \<in> set codes \<Longrightarrow> failure_priority d \<le> failure_priority c"
proof -
  obtain x xs where x: "codes = x # xs" "c = max_by (\<lambda>code. (failure_priority code, code)) x xs"
    using assms by (cases codes) (auto simp: select_code_def)
  show "c \<in> set codes" using max_by_in [of "\<lambda>code. (failure_priority code, code)" x xs] x by auto
  show "failure_priority d \<le> failure_priority c" if "d \<in> set codes" for d
    using max_by_ge [of d x xs "\<lambda>code. (failure_priority code, code)"] that x by auto
qed

lemma known_codes_same:
  assumes "set codes = set codes'"
  shows "set (known_codes codes) = set (known_codes codes')"
proof -
  let ?n = "filter (\<lambda>c. c \<noteq> []) (map (lower \<circ> strip) codes)"
  let ?m = "filter (\<lambda>c. c \<noteq> []) (map (lower \<circ> strip) codes')"
  have same: "set ?n = set ?m" using assms by simp
  then have ex: "list_ex P ?n = list_ex P ?m" for P by (simp only: list_ex_iff)
  have "set (map f (filter P ?n)) = set (map f (filter P ?m))" for f :: "string \<Rightarrow> string" and P
    using same by (simp only: set_map set_filter)
  then show ?thesis unfolding known_codes_def Let_def ex by (simp only: set_append if_distrib [of set])
qed

section \<open>Status codes and crashes\<close>

definition is_scalar :: "pyval \<Rightarrow> bool" where
  "is_scalar v = (case v of PStr s \<Rightarrow> False | PDict d \<Rightarrow> False | PList vs \<Rightarrow> False | _ \<Rightarrow> True)"

lemma looks_like_scalar: "is_scalar v \<Longrightarrow> looks_like_image_quota js v a c = Inl AttributeError"
  by (simp add: is_scalar_def looks_like_image_quota_def Let_def split: pyval.splits)

lemma looks_like_text: "\<not> is_scalar v \<Longrightarrow> \<exists>b. looks_like_image_quota js v a c = Inr b"
  by (simp add: is_scalar_def looks_like_image_quota_def Let_def split: pyval.splits)

lemma structured_failure_parts:
  assumes "classify_structured codes r raw = Some f"
  shows "fl_code f \<in> set (known_codes codes)" "\<And>d. d \<in> set (known_codes codes) \<Longrightarrow> failure_priority d \<le> failure_priority (fl_code f)"
    "f = image_failure (fl_code f) r raw" "fl_status f = 400 \<Longrightarrow> \<not> fl_verify f"
proof -
  obtain c where c: "select_code (known_codes codes) = Some c" "f = image_failure c r raw"
    using assms by (auto simp: classify_structured_def)
  have known: "is_known_code c" using select_code_best(1) [OF c(1)] known_codes_known [of codes] by (simp add: list_all_iff)
  then have code: "fl_code f = c" by (simp add: c(2) known_code_fixed)
  show "fl_code f \<in> set (known_codes codes)" using select_code_best(1) [OF c(1)] by (simp add: code)
  show "failure_priority d \<le> failure_priority (fl_code f)" if "d \<in> set (known_codes codes)" for d
    using select_code_best(2) [OF c(1) that] by (simp add: code)
  show "f = image_failure (fl_code f) r raw" unfolding code by (rule c(2))
  show "fl_status f = 400 \<Longrightarrow> \<not> fl_verify f" using known_code_fixed(4) [OF known] by (simp add: c(2))
qed

definition status_owned :: "http_error \<Rightarrow> failure \<Rightarrow> bool" where
  "status_owned e f \<longleftrightarrow>
     fl_status f = (if he_status e = 408 \<and> he_scope e = ''account'' then 504 else he_status e) \<and>
     (he_scope e = ''account'' \<and> he_status e \<noteq> 400 \<or> \<not> fl_verify f)"

lemma by_status_owned:
  assumes "he_scope e = ''account''" "he_status e \<noteq> 400"
    and "case structured of None \<Rightarrow> True | Some f \<Rightarrow> fl_status f \<noteq> 408"
  shows "status_owned e (classify_by_status e structured)"
  using assms by (auto simp: status_owned_def classify_by_status_def Let_def used_status_simps split: option.splits)

lemma without_account_owned:
  "he_scope e \<noteq> ''account'' \<Longrightarrow> status_owned e (classify_without_account e)"
  by (simp add: status_owned_def classify_without_account_def Let_def)

lemma structured_not_timeout:
  assumes "classify_structured codes r raw = Some f"
  shows "fl_status f \<noteq> 408"
proof -
  have "\<exists>p. (fl_code f, p) \<in> set failure_policies \<and> fl_status f = po_status p"
  proof -
    have f: "f = image_failure (fl_code f) r raw" by (rule structured_failure_parts(3) [OF assms])
    have known: "is_known_code (fl_code f)"
      using structured_failure_parts(1) [OF assms] known_codes_known [of codes] by (simp add: list_all_iff)
    then obtain p where p: "map_of failure_policies (fl_code f) = Some p" by (auto simp: is_known_code_def)
    have "fl_status (image_failure (fl_code f) r raw) = po_status p"
      using known_code_fixed(1,2) [OF known] known p by (simp add: image_failure_def Let_def)
    with p f show ?thesis by (metis map_of_SomeD)
  qed
  then obtain p where p: "(fl_code f, p) \<in> set failure_policies" "fl_status f = po_status p" by blast
  have "case (fl_code f, p) of (code, p) \<Rightarrow> code \<noteq> [] \<and> canonical_code (lower (strip code)) = code \<and> lower (strip code) = code \<and>
      (po_status p \<noteq> 400 \<or> \<not> po_verify p) \<and> po_status p \<noteq> 408"
    using policy_table p(1) unfolding list_all_iff by (rule bspec)
  with p(2) show ?thesis by simp
qed


text \<open>The choice among the codes of an answer: there is a failure exactly when a code is known, its code is one of
  the known ones and has the highest priority of them, and neither the order of the codes nor their
  repetition matters.\<close>

theorem structured_code_choice:
  "(case classify_structured codes r raw of
      None \<Rightarrow> known_codes codes = []
    | Some f \<Rightarrow>
        fl_code f \<in> set (known_codes codes) \<and> is_known_code (fl_code f) \<and>
        list_all (\<lambda>c. failure_priority c \<le> failure_priority (fl_code f)) (known_codes codes)) \<and>
   (if set codes = set codes' then classify_structured codes r raw = classify_structured codes' r raw else True)"
proof (intro conjI)
  show "case classify_structured codes r raw of
      None \<Rightarrow> known_codes codes = []
    | Some f \<Rightarrow>
        fl_code f \<in> set (known_codes codes) \<and> is_known_code (fl_code f) \<and>
        list_all (\<lambda>c. failure_priority c \<le> failure_priority (fl_code f)) (known_codes codes)"
  proof (cases "classify_structured codes r raw")
    case None
    then show ?thesis by (auto simp: classify_structured_def select_code_def split: list.splits)
  next
    case (Some f)
    then show ?thesis
      using structured_failure_parts(1,2) [OF Some] known_codes_known [of codes] by (simp add: list_all_iff)
  qed
  show "if set codes = set codes' then classify_structured codes r raw = classify_structured codes' r raw else True"
  proof (cases "set codes = set codes'")
    case True
    then show ?thesis using select_code_same [OF known_codes_same [OF True]] by (simp add: classify_structured_def)
  next
    case False
    show ?thesis unfolding if_not_P [OF False] by (rule TrueI)
  qed
qed


section \<open>Conversations\<close>

definition failures_of :: "json \<Rightarrow> pydict list \<Rightarrow> failure list" where
  "failures_of js ms =
     List.map_filter (\<lambda>m. case classify_upstream_message js (PDict m) of Inr f \<Rightarrow> f | Inl _ \<Rightarrow> None) ms"

definition worst_of :: "failure option \<Rightarrow> failure list \<Rightarrow> bool" where
  "worst_of f fs =
     (case f of
        None \<Rightarrow> fs = []
      | Some f \<Rightarrow> fl_code f \<in> fl_code ` set fs \<and> list_all (\<lambda>g. failure_priority (fl_code g) \<le> failure_priority (fl_code f)) fs)"

lemma merge_codes:
  "merge_message_failure js None g = g" "merge_message_failure js f None = f"
  "\<exists>h. merge_message_failure js (Some old) (Some new) = Some h \<and>
     fl_code h = (if failure_priority (fl_code old) < failure_priority (fl_code new) then fl_code new else fl_code old)"
proof -
  show "merge_message_failure js None g = g" "merge_message_failure js f None = f"
    by (simp_all add: merge_message_failure_def split: option.split)
  show "\<exists>h. merge_message_failure js (Some old) (Some new) = Some h \<and>
     fl_code h = (if failure_priority (fl_code old) < failure_priority (fl_code new) then fl_code new else fl_code old)"
    by (cases "fl_code new = fl_code old"; cases "failure_priority (fl_code old) < failure_priority (fl_code new)")
      (simp_all add: merge_message_failure_def with_public_detail_def Let_def)
qed

lemma worst_of_merge:
  assumes "worst_of f fs"
  shows "worst_of (merge_message_failure js f (Some g)) (fs @ [g])"
proof (cases f)
  case None
  then show ?thesis using assms by (simp add: worst_of_def merge_codes)
next
  case (Some f')
  obtain h where h: "merge_message_failure js (Some f') (Some g) = Some h"
    "fl_code h = (if failure_priority (fl_code f') < failure_priority (fl_code g) then fl_code g else fl_code f')"
    using merge_codes(3) by blast
  then show ?thesis using assms Some by (auto simp: worst_of_def list_all_iff)
qed

lemma fold_failures_worst:
  "worst_of f fs \<Longrightarrow> fold_failures js f ms = Inr r \<Longrightarrow> worst_of r (fs @ failures_of js ms)"
proof (induction ms arbitrary: f fs)
  case Nil
  then show ?case by (simp add: failures_of_def map_filter_simps)
next
  case (Cons m ms)
  then obtain g where g: "classify_upstream_message js (PDict m) = Inr g"
    "fold_failures js (merge_message_failure js f g) ms = Inr r" by (auto split: sum.splits)
  show ?case
  proof (cases g)
    case None
    then show ?thesis using Cons g by (simp add: failures_of_def map_filter_simps merge_codes)
  next
    case (Some h)
    have "worst_of (merge_message_failure js f g) (fs @ [h])" using worst_of_merge [OF Cons.prems(1)] by (simp add: Some)
    from Cons.IH [OF this g(2)] show ?thesis using g(1) Some by (simp add: failures_of_def map_filter_simps)
  qed
qed

lemma after_user_roles: "list_all (\<lambda>m. role_of m \<noteq> ''user'') (after_user ms)"
  by (auto simp: after_user_def list_all_iff dest: set_takeWhileD)

lemma current_turn_roles: "current_turn data = Inr ms \<Longrightarrow> list_all (\<lambda>m. role_of m \<noteq> ''user'') ms"
  by (cases "timed_messages (mapping_of (field (mapping_of data) ''mapping''))")
    (auto simp: current_turn_def Let_def after_user_roles split: if_splits)


section \<open>Public text\<close>

definition first_text :: "string list \<Rightarrow> string" where
  "first_text ts = (case find (\<lambda>t. t \<noteq> []) ts of Some t \<Rightarrow> t | None \<Rightarrow> [])"

lemma first_text_in: "first_text ts \<noteq> [] \<Longrightarrow> first_text ts \<in> set ts"
  by (induction ts) (auto simp: first_text_def split: if_splits)

lemma safe_public_text_eqs:
  "safe_public_text js PNone = []" "safe_public_text js (PBool b) = []" "safe_public_text js (PInt i) = []"
  "safe_public_text js (PFloat x) = []" "safe_public_text js (PList vs) = []"
  "safe_public_text js (PDict d) = first_text (map (safe_public_text js) (public_candidates d))"
  "safe_public_text js (PStr s) =
     (if strip s = [] \<or> is_structured_text_payload js (strip s) \<or> is_structured_failure_code (strip s) then [] else strip s)"
  by (subst safe_public_text.simps, simp add: first_text_def)+

definition shown :: "json \<Rightarrow> string \<Rightarrow> bool" where
  "shown js t \<longleftrightarrow> \<not> is_structured_failure_code t \<and> \<not> is_structured_text_payload js t"

lemma safe_public_text_clean: "safe_public_text js v = [] \<or> shown js (safe_public_text js v)"
proof (induction js v rule: safe_public_text.induct)
  case (1 js v)
  show ?case
  proof (cases v)
    case (PDict d)
    show ?thesis
    proof (cases "safe_public_text js v = []")
      case False
      then have "safe_public_text js v \<in> set (map (safe_public_text js) (public_candidates d))"
        using first_text_in unfolding PDict safe_public_text_eqs by blast
      then obtain c where c: "c \<in> set (public_candidates d)" "safe_public_text js v = safe_public_text js c" by auto
      from "1.IH" [OF PDict c(1)] show ?thesis unfolding c(2) .
    qed simp
  qed (simp_all add: safe_public_text_eqs shown_def)
qed

lemma fixed_messages:
  "list_all (\<lambda>m. \<not> is_structured_failure_code m \<and> m \<noteq> []) [timeout_message, tool_error_message, quota_message]"
  by code_simp

text \<open>C40. What a client reads about a failed image is never empty and never a bare failure code, it is never a
  JSON payload passed through, and about an exhausted quota it is always the one fixed sentence.\<close>

theorem public_message_safe:
  "public_image_error_message js f upstream \<noteq> [] \<and>
   \<not> is_structured_failure_code (public_image_error_message js f upstream) \<and>
   (if is_structured_text_payload js (public_image_error_message js f upstream)
    then public_image_error_message js f upstream \<in> {timeout_message, tool_error_message, quota_message} else True) \<and>
   (if fl_code f \<in> {''image_quota_exhausted'', ''insufficient_quota''}
    then public_image_error_message js f upstream = quota_message else True)"
proof -
  have upstream: "\<not> is_structured_failure_code (public_upstream_text js f upstream) \<and>
      \<not> is_structured_text_payload js (public_upstream_text js f upstream)" if some: "public_upstream_text js f upstream \<noteq> []"
  proof -
    let ?cs = "(if fl_public f \<noteq> [] then [PStr (fl_public f)] else []) @ [upstream] @
            (if fl_code f \<in> set public_raw_detail_codes then [fl_raw f] else [])"
    have eq: "public_upstream_text js f upstream = first_text (map (safe_public_text js) ?cs)"
      by (simp add: public_upstream_text_def first_text_def Let_def)
    have "first_text (map (safe_public_text js) ?cs) \<in> safe_public_text js ` set ?cs"
      using first_text_in [of "map (safe_public_text js) ?cs"] some unfolding eq set_map .
    then obtain c where "public_upstream_text js f upstream = safe_public_text js c" unfolding eq by blast
    then show ?thesis using safe_public_text_clean [of js c] some unfolding shown_def by simp
  qed
  have fixed: "\<not> is_structured_failure_code m \<and> m \<noteq> []" if "m \<in> {timeout_message, tool_error_message, quota_message}" for m
  proof -
    have "m \<in> set [timeout_message, tool_error_message, quota_message]" using that by (simp only: list.set)
    with fixed_messages show ?thesis unfolding list_all_iff by (rule bspec)
  qed
  let ?m = "public_image_error_message js f upstream"
  have cases: "?m \<in> {timeout_message, tool_error_message, quota_message} \<and>
        (fl_code f \<in> {''image_quota_exhausted'', ''insufficient_quota''} \<longrightarrow> ?m = quota_message) \<or>
      ?m = public_upstream_text js f upstream \<and> public_upstream_text js f upstream \<noteq> [] \<and>
        fl_code f \<notin> {''image_quota_exhausted'', ''insufficient_quota''}"
  proof (cases "fl_code f \<in> {''image_quota_exhausted'', ''insufficient_quota''}")
    case True
    then have "?m = quota_message" by (auto simp: public_image_error_message_def)
    then show ?thesis by blast
  next
    case False
    show ?thesis
    proof (cases "?m \<in> {timeout_message, tool_error_message, quota_message}")
      case fixed: False
      have "?m = public_upstream_text js f upstream \<and> public_upstream_text js f upstream \<noteq> []"
        using False fixed unfolding public_image_error_message_def Let_def by (simp only: split: if_splits) simp_all
      with False show ?thesis by blast
    qed (use False in blast)
  qed
  then show ?thesis
  proof
    assume a: "?m \<in> {timeout_message, tool_error_message, quota_message} \<and>
        (fl_code f \<in> {''image_quota_exhausted'', ''insufficient_quota''} \<longrightarrow> ?m = quota_message)"
    then have m: "?m \<in> {timeout_message, tool_error_message, quota_message}" by blast
    show ?thesis
    proof (intro conjI)
      show "if is_structured_text_payload js ?m then ?m \<in> {timeout_message, tool_error_message, quota_message} else True"
        using m by (simp only: if_True split: if_split) blast
      show "if fl_code f \<in> {''image_quota_exhausted'', ''insufficient_quota''} then ?m = quota_message else True"
        using a by (simp only: split: if_split) blast
    qed (use fixed [OF m] in simp_all)
  next
    assume a: "?m = public_upstream_text js f upstream \<and> public_upstream_text js f upstream \<noteq> [] \<and>
        fl_code f \<notin> {''image_quota_exhausted'', ''insufficient_quota''}"
    then have up: "public_upstream_text js f upstream \<noteq> []" and m: "?m = public_upstream_text js f upstream" by blast+
    show ?thesis
      unfolding if_not_P [OF conjunct2 [OF conjunct2 [OF a]]] m using upstream [OF up] up by simp
  qed
qed

end
