(* ===== verification/AccountStore.thy ===== *)
theory AccountStore
  imports AccountRow AccountPool AccountMerge
begin

text \<open>
  How \<open>services/account_service.py\<close> keeps its accounts in step with the database: reading a snapshot
  (\<open>_normalize_loaded_accounts\<close>, \<open>_load_accounts\<close>), publishing one over the live view
  (\<open>_refresh_accounts_snapshot_if_stale\<close>), and committing a change (\<open>_save_accounts\<close>).

  A store is the pool of the process (its live view of the accounts, with the slots and the aliases),
  the rows it knows to be stored, and the revision of its last full snapshot. No lock is held while
  the database works, so an operation is two steps, and what the other threads made of the store in
  between is the store that the second step gets. The database that a transaction or a read finds is
  an argument as well: other processes write to it at any time.
\<close>

datatype load_error = Raised pyexc | Endless

record account_store =
  st_pool :: pool
  st_persisted :: view
  st_revision :: string
  st_journal :: "(string \<times> nat option \<times> pydict option) list option"

section \<open>Loading\<close>

text \<open>\<open>_unique_management_id\<close>. The loop tries one counter after the other; there is one more of them
  here than there are identities in use, so that it finds one unless two digests collide.\<close>

definition numbered_management_id :: "surroundings \<Rightarrow> string \<Rightarrow> nat \<Rightarrow> string" where
  "numbered_management_id sr token n = ''acct_'' @ take 24 (sr_token_digest sr (token @ CHR 0x00 # nat_text n))"

definition unique_management_id :: "surroundings \<Rightarrow> string \<Rightarrow> pyval \<Rightarrow> string list \<Rightarrow> string option" where
  "unique_management_id sr token preferred used =
     (let candidate = normalize_management_id sr preferred (PStr token) in
      if candidate \<notin> set used then Some candidate
      else List.find (\<lambda>c. c \<notin> set used) (map (numbered_management_id sr token) [1..<length used + 2]))"

text \<open>A check that the restart interrupted is over.\<close>

definition recover_check :: "rat \<Rightarrow> pydict \<Rightarrow> pydict" where
  "recover_check now row =
     AList.delete ''pending_auth_verification_id''
      (AList.update ''pending_auth_scope'' PNone
      (AList.update ''pending_auth_remove_invalid'' PNone
      (AList.update ''last_remote_check_error_at'' (PStr (isoformat now))
      (AList.update ''last_remote_check_error''
        (py_or (field row ''last_remote_check_error'') (PStr ''Account verification was interrupted by a service restart.''))
      (AList.update ''last_remote_check_result'' (PStr ''error'') row)))))"

definition check_interrupted :: "pydict \<Rightarrow> bool" where
  "check_interrupted row \<longleftrightarrow>
     field row ''last_remote_check_result'' = PStr ''pending'' \<and> field row ''pending_auth_scope'' \<noteq> PStr ''image'' \<and>
     \<not> truthy (field row ''pending_auth_verification_id'')"

text \<open>One turn of \<open>_normalize_loaded_accounts\<close>: the accounts so far, the identities in use, and whether
  a row had to be changed.\<close>

definition load_row ::
  "surroundings \<Rightarrow> sanitizer \<Rightarrow> bool \<Rightarrow> pydict \<Rightarrow> view \<times> string list \<times> bool \<Rightarrow> load_error + view \<times> string list \<times> bool" where
  "load_row sr sz recover item st =
     (case st of (loaded, used, changed) \<Rightarrow>
      case normalize_account sr sz (PDict item) of
        Inl e \<Rightarrow> Inl (Raised e)
      | Inr None \<Rightarrow> Inr (loaded, used, True)
      | Inr (Some row) \<Rightarrow>
          (let token = clean (field row ''access_token'');
               used = (case map_of loaded token of
                   None \<Rightarrow> used
                 | Some previous \<Rightarrow> removeAll (lower (clean (field previous ''management_id''))) used) in
           case unique_management_id sr token (field row ''management_id'') used of
             None \<Rightarrow> Inl Endless
           | Some mid \<Rightarrow>
               (let moved = (field row ''management_id'' \<noteq> PStr mid);
                    row = (if moved then AList.update ''management_id'' (PStr mid) row else row);
                    interrupted = (recover \<and> check_interrupted row);
                    row = (if interrupted then recover_check (sr_now sr) row else row) in
                Inr (AList.update (py_str (field row ''access_token'')) row loaded, mid # used,
                  changed \<or> moved \<or> interrupted \<or> \<not> item_eq row item))))"

fun load_rows ::
  "surroundings \<Rightarrow> sanitizer \<Rightarrow> bool \<Rightarrow> pydict list \<Rightarrow> view \<times> string list \<times> bool \<Rightarrow> load_error + view \<times> string list \<times> bool" where
  "load_rows sr sz recover [] st = Inr st"
| "load_rows sr sz recover (item # items) st =
     (case load_row sr sz recover item st of Inl e \<Rightarrow> Inl e | Inr st \<Rightarrow> load_rows sr sz recover items st)"

definition normalize_loaded_accounts ::
  "surroundings \<Rightarrow> sanitizer \<Rightarrow> bool \<Rightarrow> pydict list \<Rightarrow> load_error + view \<times> bool" where
  "normalize_loaded_accounts sr sz recover items =
     map_sum id (\<lambda>(loaded, used, changed). (loaded, changed)) (load_rows sr sz recover items ([], [], False))"

definition read_accounts_snapshot :: "surroundings \<Rightarrow> sanitizer \<Rightarrow> bool \<Rightarrow> db \<Rightarrow> load_error + view \<times> string \<times> bool" where
  "read_accounts_snapshot sr sz recover s =
     (let (items, revn) = load_snapshot Accounts s in
      map_sum id (\<lambda>(loaded, changed). (loaded, revn, changed)) (normalize_loaded_accounts sr sz recover items))"

text \<open>\<open>_load_accounts\<close>, when the service starts: the database at the read and at the write of each
  attempt. Some conflict is left when every attempt met one.\<close>

datatype 'a loading = Loaded 'a | LoadRaised load_error | LoadFailed storage_error

fun load_accounts ::
  "surroundings \<Rightarrow> sanitizer \<Rightarrow> (db \<times> db) list \<Rightarrow> storage_error \<Rightarrow> (view \<times> string) loading" where
  "load_accounts sr sz [] e = LoadFailed e"
| "load_accounts sr sz ((at_read, at_write) # turns) e =
     (case read_accounts_snapshot sr sz True at_read of
        Inl e \<Rightarrow> LoadRaised e
      | Inr (loaded, revn, changed) \<Rightarrow>
          if \<not> changed then Loaded (loaded, revn)
          else case fst (db_replace Accounts (map (PDict \<circ> snd) loaded) (Some revn) at_write) of
            Inr receipt \<Rightarrow> Loaded (loaded, rc_revision receipt)
          | Inl (RevisionConflict x y) \<Rightarrow> load_accounts sr sz turns (RevisionConflict x y)
          | Inl e \<Rightarrow> LoadFailed e)"

section \<open>Publishing a snapshot\<close>

text \<open>The tokens that the new view has in place of old ones, and the aliases that must follow.\<close>

definition passive_token_rotations :: "view \<Rightarrow> pool \<Rightarrow> (string \<times> string list) list" where
  "passive_token_rotations loaded p =
     (let by_id = rev (List.map_filter (\<lambda>(token, account).
            let mid = clean (field account ''management_id'') in if mid = [] then None else Some (mid, token)) loaded) in
      List.map_filter (\<lambda>(old, account).
        if map_of loaded old \<noteq> None then None
        else case map_of by_id (clean (field account ''management_id'')) of
          None \<Rightarrow> None
        | Some new \<Rightarrow> if new = [] \<or> new = old then None else Some (new, alias_sources p old)) (accounts p))"

definition move_tokens :: "(string \<times> string list) list \<Rightarrow> pool \<Rightarrow> pool" where
  "move_tokens rotations p = fold (\<lambda>(new, sources). move_runtime_token new sources) rotations p"

definition apply_account_view :: "view \<Rightarrow> view \<Rightarrow> string \<Rightarrow> bool \<Rightarrow> account_store \<Rightarrow> account_store" where
  "apply_account_view view stored revn preserve_index s =
     (let rotations = passive_token_rotations view (st_pool s);
          p = move_tokens rotations ((st_pool s)\<lparr>accounts := view\<rparr>);
          p = (if preserve_index then p
               else p\<lparr>text_index := (if view = [] then 0 else text_index p mod length view)\<rparr>) in
      s\<lparr>st_pool := p, st_persisted := stored, st_revision := revn\<rparr>)"

text \<open>\<open>_ordered_account_revision\<close>: the number of a revision of the accounts.\<close>

definition ordered_account_revision :: "string option \<Rightarrow> nat option" where
  "ordered_account_revision revn =
     (case split_at (\<lambda>c. c = CHR '':'') (case revn of None \<Rightarrow> [] | Some r \<Rightarrow> r) of
        (prefix, Some digits) \<Rightarrow>
          if prefix = ''accounts'' \<and> digits \<noteq> [] \<and> list_all is_digit digits
          then Some (foldl (\<lambda>a c. a * 10 + digit_val c) 0 digits) else None
      | _ \<Rightarrow> None)"

definition journal_account_write :: "(string \<times> string option) list \<Rightarrow> view \<Rightarrow> account_store \<Rightarrow> account_store" where
  "journal_account_write revisions committed s =
     (case st_journal s of
        None \<Rightarrow> s
      | Some journal \<Rightarrow>
          s\<lparr>st_journal := Some (fold (\<lambda>(key, revn). AList.update key (ordered_account_revision revn, map_of committed key))
              revisions journal)\<rparr>)"

text \<open>\<open>self._normalize_account(row) or dict(row)\<close>.\<close>

definition normalized_or_row :: "surroundings \<Rightarrow> sanitizer \<Rightarrow> pydict \<Rightarrow> pyexc + pydict" where
  "normalized_or_row sr sz row =
     map_sum id (\<lambda>r. case r of None \<Rightarrow> row | Some r \<Rightarrow> if r = [] then row else r) (normalize_account sr sz (PDict row))"

text \<open>\<open>_overlay_snapshot_writes_locked\<close>: the writes of this process that are newer than the snapshot;
  None when the versions cannot be compared.\<close>

fun overlay_writes ::
  "surroundings \<Rightarrow> sanitizer \<Rightarrow> nat \<Rightarrow> (string \<times> nat option \<times> pydict option) list \<Rightarrow> view \<times> view \<Rightarrow> pyexc + view \<times> view" where
  "overlay_writes sr sz snapshot [] views = Inr views"
| "overlay_writes sr sz snapshot ((key, ver, row) # journal) (loaded, stored) =
     (if (case ver of None \<Rightarrow> True | Some v \<Rightarrow> v \<le> snapshot) then overlay_writes sr sz snapshot journal (loaded, stored)
      else case row of
        None \<Rightarrow> overlay_writes sr sz snapshot journal (AList.delete key loaded, AList.delete key stored)
      | Some row \<Rightarrow>
          (case normalized_or_row sr sz row of
             Inl e \<Rightarrow> Inl e
           | Inr r \<Rightarrow> overlay_writes sr sz snapshot journal (AList.update key r loaded, AList.update key row stored)))"

definition overlay_snapshot_writes ::
  "surroundings \<Rightarrow> sanitizer \<Rightarrow> (string \<times> nat option \<times> pydict option) list option \<Rightarrow> string \<Rightarrow> view \<times> view \<Rightarrow>
   pyexc + (view \<times> view) option" where
  "overlay_snapshot_writes sr sz journal revn views =
     (let journal = (case journal of None \<Rightarrow> [] | Some j \<Rightarrow> j) in
      if journal = [] then Inr (Some views)
      else case ordered_account_revision (Some revn) of
        None \<Rightarrow> Inr None
      | Some snapshot \<Rightarrow>
          if list_ex (\<lambda>(_, ver, _). ver = None) journal then Inr None
          else map_sum id Some (overlay_writes sr sz snapshot journal views))"

text \<open>The live row of an account merged with its new stored row: fields of the stored row that
  already equal the live row count as acknowledged.\<close>

definition acknowledge :: "pydict \<Rightarrow> pydict \<Rightarrow> pydict \<Rightarrow> pydict" where
  "acknowledge local remote baseline =
     fold (\<lambda>(f, v) b. case map_of remote f of
         None \<Rightarrow> b
       | Some w \<Rightarrow> if py_eq w v then AList.update f v b else b) local baseline"

definition refreshed_row :: "view \<Rightarrow> string \<Rightarrow> pydict \<Rightarrow> pydict \<Rightarrow> pydict" where
  "refreshed_row stored token local remote =
     (case map_of stored token of
        None \<Rightarrow> remote
      | Some baseline \<Rightarrow>
          if \<not> item_eq local baseline \<and> \<not> item_eq local remote \<and>
             credential_generation token local = credential_generation token remote
          then merge_account_fields (acknowledge local remote baseline) local remote
          else remote)"

definition refreshed_view :: "view \<Rightarrow> view \<Rightarrow> view \<Rightarrow> view" where
  "refreshed_view stored live loaded =
     fold (\<lambda>(token, local) v. case map_of loaded token of
         None \<Rightarrow> v
       | Some remote \<Rightarrow> AList.update token (refreshed_row stored token local remote) v) live loaded"

text \<open>\<open>_refresh_accounts_snapshot_if_stale\<close>: before the read, and the publication after it, with the
  store of before, the snapshot, and the store of now. The revision is asked first when the
  database is the storage.\<close>

datatype refresh_start = RefreshUnneeded | RefreshRead

definition start_refresh :: "bool \<Rightarrow> string option \<Rightarrow> account_store \<Rightarrow> refresh_start \<times> account_store" where
  "start_refresh stale current s =
     (if \<not> stale then (RefreshUnneeded, s)
      else if current \<noteq> None \<and> current = Some (st_revision s) then (RefreshUnneeded, s)
      else (RefreshRead, s\<lparr>st_journal := Some []\<rparr>))"

definition publish_refresh ::
  "surroundings \<Rightarrow> sanitizer \<Rightarrow> string \<Rightarrow> view \<Rightarrow> string \<Rightarrow> account_store \<Rightarrow> pyexc + bool \<times> account_store" where
  "publish_refresh sr sz expected loaded revn s =
     (let closed = s\<lparr>st_journal := None\<rparr> in
      if st_revision s \<noteq> expected then Inr (False, closed)
      else case overlay_snapshot_writes sr sz (st_journal s) revn (loaded, loaded) of
        Inl e \<Rightarrow> Inl e
      | Inr None \<Rightarrow> Inr (False, closed)
      | Inr (Some (fresh, stored)) \<Rightarrow>
          if revn = expected then Inr (False, closed)
          else Inr (True, apply_account_view (refreshed_view (st_persisted s) (accounts (st_pool s)) fresh) stored revn False closed))"

section \<open>Saving\<close>

text \<open>Equality of two dictionaries of rows.\<close>

definition view_eq :: "view \<Rightarrow> view \<Rightarrow> bool" where
  "view_eq a b \<longleftrightarrow>
     list_all (\<lambda>(k, v). case map_of b k of None \<Rightarrow> False | Some w \<Rightarrow> item_eq v w) a \<and>
     list_all (\<lambda>(k, _). map_of a k \<noteq> None) b"

definition restrict_view :: "string list \<Rightarrow> view \<Rightarrow> view" where
  "restrict_view keys v = List.map_filter (\<lambda>k. map_option (Pair k) (map_of v k)) keys"

text \<open>\<open>{key: staged[key] \<dots>}\<close> over the stored rows, and the keys without it removed.\<close>

definition intend :: "string list \<Rightarrow> view \<Rightarrow> view \<Rightarrow> view" where
  "intend keys staged stored =
     fold (\<lambda>k v. case map_of staged k of None \<Rightarrow> AList.delete k v | Some row \<Rightarrow> AList.update k row v) keys stored"

definition changed_tokens :: "view \<Rightarrow> view \<Rightarrow> string list" where
  "changed_tokens stored staged =
     filter (\<lambda>k. case (map_of stored k, map_of staged k) of
         (None, None) \<Rightarrow> False | (Some a, Some b) \<Rightarrow> \<not> item_eq a b | _ \<Rightarrow> True)
       (fromkeys (map fst stored @ map fst staged))"

text \<open>What a save works on, from the moment that it leaves the lock.\<close>

record saving =
  sv_tokens :: "string list option"
  sv_generation :: "cred_generation option"
  sv_skip_new :: bool
  sv_persisted :: view
  sv_before :: view
  sv_intent :: view

record progress =
  pr_keys :: "string list"
  pr_baseline :: view
  pr_desired :: view
  pr_revision :: string
  pr_committed :: view
  pr_journal :: "(string \<times> string option) list"
  pr_existing :: "string list"
  pr_commit :: "(db \<times> db) option"

datatype save_start = NothingToSave account_store | Saving saving progress account_store

definition begin_save ::
  "string list option \<Rightarrow> cred_generation option \<Rightarrow> bool \<Rightarrow> view \<Rightarrow> account_store \<Rightarrow> save_start" where
  "begin_save tokens generation skip_new earlier s =
     (let stored = st_persisted s; staged = accounts (st_pool s);
          keys = (case tokens of Some ts \<Rightarrow> ts | None \<Rightarrow> changed_tokens stored staged);
          intent = intend keys staged stored;
          baseline = restrict_view keys stored; desired = restrict_view keys intent in
      if view_eq baseline desired
      then NothingToSave (s\<lparr>st_pool := (st_pool s)\<lparr>token_aliases :=
             prune_token_aliases (pool_tokens (st_pool s)) (token_aliases (st_pool s))\<rparr>\<rparr>)
      else Saving
        \<lparr>sv_tokens = tokens, sv_generation = generation, sv_skip_new = skip_new, sv_persisted = stored,
          sv_before = earlier, sv_intent = intent\<rparr>
        \<lparr>pr_keys = keys, pr_baseline = baseline, pr_desired = desired, pr_revision = st_revision s,
          pr_committed = baseline, pr_journal = [], pr_existing = [], pr_commit = None\<rparr>
        (s\<lparr>st_pool := (st_pool s)\<lparr>accounts := earlier\<rparr>\<rparr>))"

text \<open>\<open>_load_credential_conflict\<close>: the rows of the keys alone when none of them is gone.\<close>

definition row_token :: "pydict \<Rightarrow> string" where
  "row_token row = py_str (field row ''access_token'')"

definition raw_rows :: "pydict list \<Rightarrow> view" where
  "raw_rows items =
     fold (\<lambda>row v. if truthy (field row ''access_token'') then AList.update (row_token row) row v else v) items []"

definition conflict_scoped :: "saving \<Rightarrow> string list \<Rightarrow> db \<Rightarrow> bool" where
  "conflict_scoped sv keys s =
     (let present = map row_token (fst (load_accounts_subset_snapshot keys s));
          required = filter (\<lambda>k. map_of (sv_persisted sv) k \<noteq> None) keys @
            (case sv_generation sv of None \<Rightarrow> [] | Some (old, _) \<Rightarrow> [old]) in
      sv_tokens sv \<noteq> None \<and> set required \<subseteq> set present)"

definition load_conflict ::
  "surroundings \<Rightarrow> sanitizer \<Rightarrow> saving \<Rightarrow> string list \<Rightarrow> db \<Rightarrow> load_error + string \<times> view \<times> view \<times> bool" where
  "load_conflict sr sz sv keys s =
     (let scoped = conflict_scoped sv keys s;
          (items, revn) = (if scoped then load_accounts_subset_snapshot keys s else load_snapshot Accounts s) in
      map_sum id (\<lambda>(remote, changed). (revn, raw_rows items, remote, scoped))
        (normalize_loaded_accounts sr sz False items))"

definition generation_moved :: "saving \<Rightarrow> view \<Rightarrow> bool" where
  "generation_moved sv remote =
     (case sv_generation sv of
        None \<Rightarrow> False
      | Some generation \<Rightarrow>
          (let old = fst generation;
               rotation = rotated_account_token (sv_intent sv) (sv_persisted sv) old
                 (case map_of (sv_persisted sv) old of None \<Rightarrow> [] | Some a \<Rightarrow> a) in
           case map_of remote old of
             None \<Rightarrow> True
           | Some row \<Rightarrow>
               (case rotation of None \<Rightarrow> False | Some r \<Rightarrow> map_of remote r \<noteq> None) \<or>
               credential_generation old row \<noteq> generation))"

text \<open>\<open>row.get("management_id") == management_id\<close> for the text of the stored identity.\<close>

definition same_identity :: "saving \<Rightarrow> view \<Rightarrow> string list" where
  "same_identity sv remote =
     (let mid = (case sv_generation sv of
            None \<Rightarrow> []
          | Some (old, _) \<Rightarrow> (case map_of (sv_persisted sv) old of None \<Rightarrow> [] | Some a \<Rightarrow> text_of a ''management_id'')) in
      map fst (filter (\<lambda>(_, row). mid \<noteq> [] \<and> field row ''management_id'' = PStr mid) remote))"

definition mutation_keys :: "mutation \<Rightarrow> string list" where
  "mutation_keys m =
     map (\<lambda>v. case v of PDict row \<Rightarrow> row_token row | _ \<Rightarrow> []) (upserts m) @
     map (\<lambda>v. case v of PStr k \<Rightarrow> k | _ \<Rightarrow> []) (delete_keys m)"

definition add_keys :: "string list \<Rightarrow> string list \<Rightarrow> string list" where
  "add_keys new keys = keys @ filter (\<lambda>k. k \<notin> set keys) (fromkeys new)"

text \<open>What a conflict leaves: a refusal because another process changed the credentials, or the
  merge of the intent with the stored rows, for the next attempt.\<close>

definition merged_intent :: "saving \<Rightarrow> string list \<Rightarrow> bool \<Rightarrow> view \<Rightarrow> view" where
  "merged_intent sv keys scoped remote =
     (let base = (if scoped then restrict_view keys (sv_persisted sv) else sv_persisted sv);
          intent = (if scoped then restrict_view keys (sv_intent sv) else sv_intent sv);
          merged = merge_accounts_after_conflict base intent remote in
      if sv_skip_new sv
      then fold (\<lambda>k m. case map_of remote k of
               None \<Rightarrow> m
             | Some row \<Rightarrow> if map_of (sv_persisted sv) k = None then AList.update k row m else m) keys merged
      else merged)"

datatype save_end = Saved | SaveRefused | SaveBroken

definition after_conflict ::
  "saving \<Rightarrow> string \<times> view \<times> view \<times> bool \<Rightarrow> progress \<Rightarrow> save_end option \<times> progress" where
  "after_conflict sv snapshot pr =
     (case snapshot of (revn, raw, remote, scoped) \<Rightarrow>
      let keys = pr_keys pr;
          pr = pr\<lparr>pr_existing := pr_existing pr @
            filter (\<lambda>k. map_of (sv_persisted sv) k = None \<and> map_of remote k \<noteq> None) keys\<rparr> in
      if generation_moved sv remote then
        (let keys = add_keys (same_identity sv remote) keys in
         (Some SaveRefused,
          pr\<lparr>pr_keys := keys, pr_committed := restrict_view keys raw, pr_journal := map (\<lambda>k. (k, Some revn)) keys\<rparr>))
      else
        (let merged = merged_intent sv keys scoped remote;
             keys = add_keys (mutation_keys (account_mutation remote merged revn)) keys in
         (None,
          pr\<lparr>pr_keys := keys, pr_journal := map (\<lambda>k. (k, Some revn)) keys, pr_baseline := restrict_view keys raw,
            pr_desired := restrict_view keys merged, pr_committed := restrict_view keys raw, pr_revision := revn\<rparr>)))"

text \<open>One attempt: the database at the commit and at the read after a conflict, None when it fails.\<close>

definition commit_attempt ::
  "surroundings \<Rightarrow> sanitizer \<Rightarrow> saving \<Rightarrow> db option \<times> db option \<Rightarrow> progress \<Rightarrow> save_end option \<times> progress" where
  "commit_attempt sr sz sv turn pr =
     (let m = account_mutation (pr_baseline pr) (pr_desired pr) (pr_revision pr) in
      if upserts m = [] \<and> delete_keys m = [] then (Some Saved, pr\<lparr>pr_committed := pr_desired pr\<rparr>)
      else case fst turn of
        None \<Rightarrow> (Some SaveBroken, pr)
      | Some s \<Rightarrow>
          (let keys = mutation_keys m;
               expected = (if sv_tokens sv = None then None
                           else Some (map (\<lambda>k. (k, map_of (pr_baseline pr) k)) (fromkeys keys))) in
           case db_mutate Accounts (None :: unit hook option) m expected (s, ()) of
             (Inr receipt, s2, _) \<Rightarrow>
               (Some Saved,
                pr\<lparr>pr_journal := fold (\<lambda>k. AList.update k (Some (rc_revision receipt))) (fromkeys keys) (pr_journal pr),
                  pr_committed := pr_desired pr, pr_commit := Some (s, s2)\<rparr>)
           | (Inl (RevisionConflict x y), _) \<Rightarrow>
               (case snd turn of
                  None \<Rightarrow> (Some SaveBroken, pr)
                | Some at_read \<Rightarrow>
                    (case load_conflict sr sz sv (pr_keys pr) at_read of
                       Inl e \<Rightarrow> (Some SaveBroken, pr)
                     | Inr snapshot \<Rightarrow> after_conflict sv snapshot pr))
           | (Inl e, _) \<Rightarrow> (Some SaveBroken, pr)))"

text \<open>The attempts: \<open>_STORAGE_MUTATION_MAX_ATTEMPTS\<close> of them, the last of which raises its conflict.\<close>

definition max_attempts :: nat where
  "max_attempts = 12"

fun commit_loop ::
  "surroundings \<Rightarrow> sanitizer \<Rightarrow> saving \<Rightarrow> (nat \<Rightarrow> db option \<times> db option) \<Rightarrow> nat \<Rightarrow> progress \<Rightarrow> save_end \<times> progress" where
  "commit_loop sr sz sv turns 0 pr = (SaveRefused, pr)"
| "commit_loop sr sz sv turns (Suc n) pr =
     (case commit_attempt sr sz sv (turns n) pr of
        (Some done_with, pr) \<Rightarrow> (done_with, pr)
      | (None, pr) \<Rightarrow> if n = 0 then (SaveBroken, pr) else commit_loop sr sz sv turns n pr)"

text \<open>After an exception: the stored rows as the database has them, or as they were known.\<close>

definition recover_save :: "saving \<Rightarrow> db option \<Rightarrow> progress \<Rightarrow> progress" where
  "recover_save sv at_recovery pr =
     (case at_recovery of
        None \<Rightarrow>
          pr\<lparr>pr_journal := map (\<lambda>k. (k, None)) (pr_keys pr), pr_committed := restrict_view (pr_keys pr) (sv_persisted sv)\<rparr>
      | Some s \<Rightarrow>
          (let (items, revn) = load_snapshot Accounts s in
           pr\<lparr>pr_journal := map (\<lambda>k. (k, Some revn)) (pr_keys pr), pr_committed := restrict_view (pr_keys pr) (raw_rows items)\<rparr>))"

definition save_commit ::
  "surroundings \<Rightarrow> sanitizer \<Rightarrow> saving \<Rightarrow> (nat \<Rightarrow> db option \<times> db option) \<Rightarrow> db option \<Rightarrow> progress \<Rightarrow> save_end \<times> progress" where
  "save_commit sr sz sv turns at_recovery pr =
     (case commit_loop sr sz sv turns max_attempts pr of
        (SaveBroken, pr) \<Rightarrow> (SaveBroken, recover_save sv at_recovery pr)
      | result \<Rightarrow> result)"

text \<open>Back under the lock: what was committed, with what the other threads changed meanwhile.\<close>

definition usage_fields :: "string list" where
  "usage_fields = [''success'', ''fail'', ''quota'', ''last_used_at'', ''last_image_success_at'']"

definition usage_row :: "pydict \<Rightarrow> pydict \<Rightarrow> pydict" where
  "usage_row old live =
     fold (\<lambda>f u. case map_of live f of None \<Rightarrow> u | Some v \<Rightarrow> AList.update f v u) usage_fields old"

definition carried_row :: "bool \<Rightarrow> string \<Rightarrow> string \<Rightarrow> pydict option \<Rightarrow> pydict option \<Rightarrow> pydict \<Rightarrow> pydict" where
  "carried_row saved key old_key old live normalized =
     (case (old, live) of
        (Some old, Some live) \<Rightarrow>
          if item_eq old live then normalized
          else if credential_generation old_key old = credential_generation key normalized
          then merge_account_fields old live normalized
          else if saved \<and> old_key \<noteq> key then merge_account_fields old (usage_row old live) normalized
          else normalized
      | _ \<Rightarrow> normalized)"

definition earlier_key :: "view \<Rightarrow> string \<Rightarrow> pydict \<Rightarrow> string" where
  "earlier_key earlier key row =
     (if map_of earlier key \<noteq> None then key
      else case List.find (\<lambda>(_, b). py_eq (field b ''management_id'') (field row ''management_id'')) (rev earlier) of
        None \<Rightarrow> key
      | Some (k, _) \<Rightarrow> k)"

fun settle_keys ::
  "surroundings \<Rightarrow> sanitizer \<Rightarrow> bool \<Rightarrow> view \<Rightarrow> view \<Rightarrow> view \<Rightarrow> string list \<Rightarrow> view \<times> view \<Rightarrow> pyexc + view \<times> view" where
  "settle_keys sr sz saved earlier live committed [] views = Inr views"
| "settle_keys sr sz saved earlier live committed (key # keys) (view, stored) =
     (case map_of committed key of
        None \<Rightarrow> settle_keys sr sz saved earlier live committed keys (AList.delete key view, AList.delete key stored)
      | Some row \<Rightarrow>
          (let old_key = earlier_key earlier key row in
           case normalized_or_row sr sz row of
             Inl e \<Rightarrow> Inl e
           | Inr normalized \<Rightarrow>
               settle_keys sr sz saved earlier live committed keys
                 (AList.update key
                    (carried_row saved key old_key (map_of earlier old_key) (map_of live old_key) normalized) view,
                  AList.update key row stored)))"

definition finish_save ::
  "surroundings \<Rightarrow> sanitizer \<Rightarrow> saving \<Rightarrow> save_end \<Rightarrow> progress \<Rightarrow> account_store \<Rightarrow> pyexc + account_store" where
  "finish_save sr sz sv result pr s =
     (let s = journal_account_write (pr_journal pr) (pr_committed pr) s; live = accounts (st_pool s) in
      case settle_keys sr sz (result = Saved) (sv_before sv) live (pr_committed pr) (pr_keys pr) (live, st_persisted s) of
        Inl e \<Rightarrow> Inl e
      | Inr (view, stored) \<Rightarrow>
          (let rotations = (if list_ex (\<lambda>k. map_of live k \<noteq> None \<and> map_of view k = None) (pr_keys pr)
                            then passive_token_rotations view (st_pool s) else []);
               p = move_tokens rotations ((st_pool s)\<lparr>accounts := view\<rparr>) in
           Inr (s\<lparr>st_pool := p\<lparr>token_aliases := prune_token_aliases (pool_tokens p) (token_aliases p)\<rparr>,
                 st_persisted := stored\<rparr>)))"

text \<open>\<open>_remove_account_runtime_state_locked\<close>: what the process remembers of removed tokens.\<close>

definition remove_runtime_state :: "string list \<Rightarrow> pool \<Rightarrow> pool" where
  "remove_runtime_state tokens p =
     (let removed = map strip (filter (\<lambda>t. t \<noteq> []) tokens) in
      if removed = [] then p
      else p\<lparr>image_inflight := fold AList.delete removed (image_inflight p),
        credential_blocked := fold AList.delete removed (credential_blocked p),
        token_aliases := filter (\<lambda>(source, target). source \<notin> set removed \<and> target \<notin> set removed) (token_aliases p),
        text_index := (if accounts p = [] then 0 else text_index p mod length (accounts p))\<rparr>)"

end
