(* ===== verification/AccountSaves.thy ===== *)
theory AccountSaves
  imports AccountStore
begin

text \<open>
  What the saves and the snapshots of \<open>AccountStore\<close> keep: rows stay under their own tokens, a row that
  both views hold is merged field by field, a checked commit writes over the rows it was prepared
  for, and so every count arrives in the database once and is shown once. \<open>saving_ok\<close> and \<open>progress_ok\<close>
  are the invariant of the attempts of a save.
\<close>

section \<open>Equal rows\<close>

lemma map_of_stable: "filter (\<lambda>p. fst p = k) xs = filter (\<lambda>p. fst p = k) ys \<Longrightarrow> map_of xs k = map_of ys k"
proof -
  have find: "map_of zs k = (case filter (\<lambda>p. fst p = k) zs of [] \<Rightarrow> None | p # _ \<Rightarrow> Some (snd p))" for zs :: "('a \<times> 'b) list"
    by (induction zs) auto
  assume "filter (\<lambda>p. fst p = k) xs = filter (\<lambda>p. fst p = k) ys"
  then show ?thesis unfolding find by simp
qed

lemma item_eq_lookup:
  assumes "item_eq a b"
  shows "map_option canon (map_of a k) = map_option canon (map_of b k)"
proof -
  let ?c = "\<lambda>d. map (map_prod id canon) d :: (string \<times> pyval) list"
  have "map_of (?c d) k = map_of (sort_key fst (?c d)) k" for d
    by (rule map_of_stable) (simp add: sort_key_stable)
  then have "map_of (?c a) k = map_of (?c b) k"
    using assms by (simp add: item_eq_def py_eq_def)
  then show ?thesis by (simp add: map_of_map_prod)
qed

text \<open>\<open>int(v or 0)\<close>, None when it raises: equal values have equal counts.\<close>

definition count_value :: "pyval \<Rightarrow> int option" where
  "count_value v = integer_field (py_or v (PInt 0))"

lemma py_trunc_of_int: "of_int \<lfloor>q\<rfloor> = q \<Longrightarrow> py_trunc q = \<lfloor>q\<rfloor>"
  by (metis ceiling_of_int py_trunc_def)

lemma count_canon: "count_value v = count_value (canon v)"
proof (cases v)
  case (PFloat f)
  show ?thesis
  proof (cases f)
    case (Fin q)
    then show ?thesis using PFloat py_trunc_of_int [of q]
      by (auto simp: count_value_def integer_field_def py_or_def)
  qed (use PFloat in \<open>simp_all add: count_value_def integer_field_def py_or_def\<close>)
next
  case (PDict d)
  have "sort_key fst (map (map_prod id canon) d) = [] \<longleftrightarrow> d = []" by (metis length_0_conv length_map length_sort)
  with PDict show ?thesis by (simp add: count_value_def integer_field_def py_or_def)
qed (simp_all add: count_value_def integer_field_def py_or_def)

definition row_count :: "string \<Rightarrow> pydict \<Rightarrow> int option" where
  "row_count f row = count_value (field row f)"

lemma item_eq_count: "item_eq a b \<Longrightarrow> row_count f a = row_count f b"
proof -
  assume "item_eq a b"
  from item_eq_lookup [OF this, of f] have "canon (field a f) = canon (field b f)"
    by (auto simp: field_def split: option.splits)
  then show ?thesis unfolding row_count_def by (metis count_canon)
qed

lemma row_count_int: "map_of row f = Some (PInt n) \<Longrightarrow> row_count f row = Some n"
  by (simp add: row_count_def count_value_def integer_field_def field_def py_or_def)

section \<open>Normalising keeps the token and the counters\<close>

lemma row_identity_other:
  "k \<notin> {''access_token'', ''accessToken'', ''management_id'', ''access_token_fingerprints'', ''type'', ''export_type''} \<Longrightarrow>
   map_of (row_identity sr token item) k = map_of item k"
  by (simp add: row_identity_def Let_def)

lemma row_identity_token: "map_of (row_identity sr token item) ''access_token'' = Some token"
  by (simp add: row_identity_def Let_def)

lemma int_field_count: "int_field k row = Inr row' \<Longrightarrow> row_count j row' = row_count j row"
proof -
  assume "int_field k row = Inr row'"
  then obtain n where n: "py_int (py_or (field row k) (PInt 0)) = Inr n" "row' = AList.update k (PInt n) row"
    by (cases "py_int (py_or (field row k) (PInt 0))") (auto simp: int_field_def)
  show ?thesis
  proof (cases "j = k")
    case True
    then show ?thesis using n
      by (simp add: row_count_def count_value_def integer_field_def field_def py_or_def)
  next
    case False
    then show ?thesis using n by (simp add: row_count_def field_def)
  qed
qed

lemma int_fields_count: "int_fields ks row = Inr row' \<Longrightarrow> row_count j row' = row_count j row"
proof (induction ks arbitrary: row)
  case (Cons a ks)
  then obtain r where r: "int_field a row = Inr r" "int_fields ks r = Inr row'" by (auto split: sum.splits)
  from Cons.IH [OF r(2)] int_field_count [OF r(1)] show ?case by simp
qed simp

lemma row_count_cong: "map_of r k = map_of r' k \<Longrightarrow> row_count k r = row_count k r'"
  by (simp add: row_count_def field_def)

definition plain_field :: "string \<Rightarrow> bool" where
  "plain_field f \<longleftrightarrow> f \<notin> set last_keys \<and> f \<notin> set state_keys \<and>
     f \<notin> {''access_token'', ''accessToken'', ''management_id'', ''access_token_fingerprints'', ''type'', ''export_type'',
       ''quota'', ''image_quota_unknown'', ''limits_progress'', ''default_model_slug'', ''restore_at''}"

lemma counters_plain: "f \<in> set additive_counter_fields \<Longrightarrow> plain_field f"
  by (auto simp: additive_counter_fields_def plain_field_def last_keys_def check_keys_def cooldown_keys_def pending_keys_def
      refresh_keys_def obsolete_fields_def state_keys_def)

lemma limit_fields_other:
  "k \<notin> {''limits_progress'', ''default_model_slug'', ''restore_at''} \<Longrightarrow> map_of (limit_fields limits d row) k = map_of row k"
  by (simp add: limit_fields_def Let_def none_if_falsy_other split: option.split)

lemma quota_field_other: "quota_field e d row = Inr row' \<Longrightarrow> k \<noteq> ''quota'' \<Longrightarrow> map_of row' k = map_of row k"
  by (erule quota_field_effect) simp

lemma normalize_row_kept:
  assumes "normalize_row sr sz token item = Inr row"
    and f: "f \<notin> set last_keys" "f \<notin> set state_keys"
      "f \<notin> {''quota'', ''image_quota_unknown'', ''limits_progress'', ''default_model_slug'', ''restore_at''}"
  shows "\<exists>m r6. int_fields [''success'', ''fail'', ''invalid_count''] m = Inr r6 \<and>
    map_of m f = map_of (row_identity sr token item) f \<and> map_of row f = map_of r6 f"
proof -
  obtain q d u r2 r3 r6 where
    r2: "r2 = state_fields (row_identity sr token item)" and
    r3: "quota_field (has_value (field (row_identity sr token item) ''quota'')) q r2 = Inr r3" and
    r6: "int_fields [''success'', ''fail'', ''invalid_count'']
       (limit_fields (limits_of (row_identity sr token item)) d (quota_state u r3)) = Inr r6" and
    row: "row = last_fields sz (sr_now sr) r6"
    using assms(1) by (rule normalize_row_steps)
  have "map_of (limit_fields l d (quota_state u r3)) f = map_of (row_identity sr token item) f" for l
    using f quota_field_other [OF r3, of f] by (simp add: limit_fields_other quota_state_other r2 state_other)
  moreover have "map_of row f = map_of r6 f" using f by (simp add: row last_other)
  ultimately show ?thesis using r6 by blast
qed

lemma normalize_row_count:
  assumes "normalize_row sr sz token item = Inr row" and "plain_field f"
  shows "row_count f row = row_count f item"
proof -
  have f: "f \<notin> set last_keys" "f \<notin> set state_keys"
    "f \<notin> {''quota'', ''image_quota_unknown'', ''limits_progress'', ''default_model_slug'', ''restore_at''}"
    using assms(2) by (auto simp: plain_field_def)
  obtain m r6 where n: "int_fields [''success'', ''fail'', ''invalid_count''] m = Inr r6"
    and m: "map_of m f = map_of (row_identity sr token item) f" and r: "map_of row f = map_of r6 f"
    using normalize_row_kept [OF assms(1) f] by blast
  have i: "map_of (row_identity sr token item) f = map_of item f"
    using assms(2) by (intro row_identity_other) (simp add: plain_field_def)
  show ?thesis
    using row_count_cong [OF r] int_fields_count [OF n, of f] row_count_cong [OF m [unfolded i]] by simp
qed

lemma normalize_row_counter:
  assumes "normalize_row sr sz token item = Inr row" and f: "f \<in> set additive_counter_fields"
  obtains c where "map_of row f = Some (PInt c)" "row_count f item = Some c"
proof -
  have plain: "f \<notin> set last_keys" "f \<notin> set state_keys"
    "f \<notin> {''quota'', ''image_quota_unknown'', ''limits_progress'', ''default_model_slug'', ''restore_at''}"
    using counters_plain [OF f] by (auto simp: plain_field_def)
  obtain m r6 where n: "int_fields [''success'', ''fail'', ''invalid_count''] m = Inr r6" and r: "map_of row f = map_of r6 f"
    using normalize_row_kept [OF assms(1) plain] by blast
  have "f \<in> set [''success'', ''fail'', ''invalid_count'']" using f by (auto simp: additive_counter_fields_def)
  then obtain c where c: "map_of row f = Some (PInt c)" using int_fields_effect [OF n, of f] r by auto
  then have "row_count f item = Some c"
    using normalize_row_count [OF assms(1) counters_plain [OF f]] row_count_int [OF c] by simp
  with c show thesis by (rule that)
qed

lemma normalize_row_token:
  assumes "normalize_row sr sz token item = Inr row"
  shows "field row ''access_token'' = token"
proof -
  have "''access_token'' \<notin> set last_keys" "''access_token'' \<notin> set state_keys"
    by (simp_all add: last_keys_def check_keys_def cooldown_keys_def pending_keys_def refresh_keys_def obsolete_fields_def
        state_keys_def)
  then obtain m r6 where n: "int_fields [''success'', ''fail'', ''invalid_count''] m = Inr r6"
    and m: "map_of m ''access_token'' = Some token" and r: "map_of row ''access_token'' = map_of r6 ''access_token''"
    using normalize_row_kept [OF assms, of "''access_token''"] unfolding row_identity_token by auto
  have "map_of r6 ''access_token'' = map_of m ''access_token''" using int_fields_effect [OF n, of "''access_token''"] by simp
  then show ?thesis using m r by (simp add: field_def)
qed

lemma normalize_account_keeps:
  assumes "normalize_account sr sz (PDict item) = Inr (Some row)" "field item ''access_token'' = PStr t" "t \<noteq> []"
  shows "field row ''access_token'' = PStr t"
    "f \<in> set additive_counter_fields \<Longrightarrow> \<exists>c. map_of row f = Some (PInt c) \<and> row_count f item = Some c"
proof -
  have n: "normalize_row sr sz (PStr t) item = Inr row"
    using assms by (auto simp: normalize_account_def Let_def py_or_def row_result)
  show "field row ''access_token'' = PStr t" by (rule normalize_row_token [OF n])
  show "f \<in> set additive_counter_fields \<Longrightarrow> \<exists>c. map_of row f = Some (PInt c) \<and> row_count f item = Some c"
    by (rule normalize_row_counter [OF n]) auto
qed

lemma normalize_account_some:
  "field item ''access_token'' = PStr t \<Longrightarrow> t \<noteq> [] \<Longrightarrow> normalize_account sr sz (PDict item) \<noteq> Inr None"
  by (simp add: normalize_account_def Let_def py_or_def)
    (cases "normalize_row sr sz (PStr t) item"; simp)

section \<open>Rows under their own tokens\<close>

definition named :: "view \<Rightarrow> bool" where
  "named v = list_all (\<lambda>(t, a). field a ''access_token'' = PStr t) v"

lemma named_update: "named v \<Longrightarrow> field a ''access_token'' = PStr t \<Longrightarrow> named (AList.update t a v)"
  by (induction v) (auto simp: named_def)

lemma named_delete: "named v \<Longrightarrow> named (AList.delete t v)"
  by (auto simp: named_def list_all_iff AList.delete_eq)

lemma named_lookup: "named v \<Longrightarrow> map_of v t = Some a \<Longrightarrow> field a ''access_token'' = PStr t"
  by (auto simp: named_def list_all_iff dest!: map_of_SomeD)

lemma token_not_cooldown: "\<not> cooldown_field ''access_token''"
  by (simp add: cooldown_field_def upload_cooldown_fields_def image_quota_cooldown_fields_def)

lemma field_text: "field a f = PStr t \<Longrightarrow> map_of a f = Some (PStr t)"
  by (simp add: field_def split: option.splits)

lemma merge_token_kept:
  "field b ''access_token'' = PStr t \<Longrightarrow> field l ''access_token'' = PStr t \<Longrightarrow>
   field (merge_account_fields b l r) ''access_token'' = field r ''access_token''"
  using merge_account_fields_lookup [OF token_not_cooldown, of b l r] field_text [of b] field_text [of l]
  by (simp add: field_def field_change_def locally_unchanged_def changed_lookup_def)

lemma merge_token_rotated:
  "field b ''access_token'' = PStr t \<Longrightarrow> field l ''access_token'' = PStr t2 \<Longrightarrow> t2 \<noteq> t \<Longrightarrow>
   field (merge_account_fields b l r) ''access_token'' = PStr t2"
  using merge_account_fields_lookup [OF token_not_cooldown, of b l r] field_text [of b] field_text [of l]
  by (simp add: field_def field_change_def locally_unchanged_def changed_lookup_def py_eq_def additive_counter_fields_def)

lemma rotated_facts:
  assumes "rotated_account_token own baseline old a = Some t"
  shows "t \<noteq> old" "map_of baseline t = None" "map_of own t \<noteq> None"
proof -
  obtain p where p: "List.find (\<lambda>(token, account). token \<noteq> old \<and> map_of baseline token = None \<and>
      clean (field account ''management_id'') = clean (field a ''management_id'')) own = Some p" "fst p = t"
    using assms by (auto simp: rotated_account_token_def Let_def split: if_splits)
  then show "t \<noteq> old" "map_of baseline t = None" "map_of own t \<noteq> None"
    by (auto simp: find_Some_iff map_of_eq_None_iff split_beta intro!: image_eqI [where x = p])
qed

lemma overlay_lookup:
  "distinct_keys l \<Longrightarrow> map_of (overlay r l) f = (case map_of l f of None \<Rightarrow> map_of r f | Some v \<Rightarrow> Some v)"
proof (induction l arbitrary: r)
  case (Cons p l)
  obtain k v where p: "p = (k, v)" by (cases p)
  have "map_of l k = None" "distinct_keys l" using Cons.prems p by (simp_all add: distinct_keys_def map_of_eq_None_iff)
  then show ?case using Cons.IH [of "AList.update k v r"] by (auto simp: p overlay_def split: option.split)
qed (simp add: overlay_def)

lemma named_removed:
  assumes "named baseline" "named local" "named remote" and "named m" "set entries \<subseteq> set baseline"
  shows "named (fst (fold (merge_removed baseline local remote) entries (m, h)))"
  using assms(5,4)
proof (induction entries arbitrary: m h)
  case (Cons e entries)
  obtain t b where e: "e = (t, b)" by (cases e)
  have b: "field b ''access_token'' = PStr t" using Cons.prems(1) assms(1) e by (auto simp: named_def list_all_iff)
  obtain m2 h2 where step: "merge_removed baseline local remote e (m, h) = (m2, h2)" by fastforce
  have "named m2"
  proof (cases "rotated_account_token local baseline t b")
    case None
    then show ?thesis using step Cons.prems(2) by (auto simp: merge_removed_def e named_delete Let_def split: if_splits option.splits)
  next
    case (Some r)
    note rot = rotated_facts [OF Some]
    show ?thesis
      using step Cons.prems(2) Some merge_token_rotated [OF b named_lookup [OF assms(2)] rot(1)]
      by (auto simp: merge_removed_def e named_delete split: if_splits option.splits intro!: named_update named_delete)
  qed
  then show ?case using Cons.IH [of m2 h2] Cons.prems(1) step by simp
qed simp

lemma named_local:
  assumes "named baseline" "named local" "named remote" "list_all (\<lambda>(t, a). distinct_keys a) local"
    and "set entries \<subseteq> set local" "named m"
  shows "named (fold (merge_local baseline remote h) entries m)"
  using assms(5,6)
proof (induction entries arbitrary: m)
  case (Cons e entries)
  obtain t l where e: "e = (t, l)" by (cases e)
  have l: "field l ''access_token'' = PStr t" "distinct_keys l"
    using Cons.prems(1) assms(2,4) e by (auto simp: named_def list_all_iff)
  have over: "field (overlay r l) ''access_token'' = PStr t" for r
    using overlay_lookup [OF l(2), of r "''access_token''"] field_text [OF l(1)] by (simp add: field_def)
  have kept: "field (merge_account_fields b l r) ''access_token'' = PStr u"
    if "map_of baseline t = Some b" "map_of remote u = Some r" for b r u
    using merge_token_kept [OF named_lookup [OF assms(1) that(1)] l(1), of r] named_lookup [OF assms(3) that(2)] by simp
  have "named (merge_local baseline remote h e m)"
    using Cons.prems(2) l(1) over kept
    by (auto simp: merge_local_def e split: option.splits intro!: named_update named_delete)
  then show ?case using Cons.IH Cons.prems(1) by simp
qed simp

lemma named_merge:
  assumes "named baseline" "named local" "named remote" "list_all (\<lambda>(t, a). distinct_keys a) local"
  shows "named (merge_accounts_after_conflict baseline local remote)"
proof -
  obtain m h where mh: "fold (merge_removed baseline local remote) baseline (remote, []) = (m, h)" by fastforce
  have "named m" using named_removed [OF assms(1-3) assms(3) subset_refl, where h = "[]"] mh by simp
  from named_local [OF assms subset_refl this, of h] show ?thesis by (simp add: merge_accounts_after_conflict_def mh)
qed

section \<open>A row that both views hold\<close>

lemma removed_keeps:
  assumes "map_of baseline k \<noteq> None" "map_of local k \<noteq> None" "k \<notin> set h"
  shows "map_of (fst (fold (merge_removed baseline local remote) entries (m, h))) k = map_of m k \<and>
    k \<notin> set (snd (fold (merge_removed baseline local remote) entries (m, h)))"
  using assms(3)
proof (induction entries arbitrary: m h)
  case (Cons e entries)
  obtain t b where e: "e = (t, b)" by (cases e)
  obtain m2 h2 where step: "merge_removed baseline local remote e (m, h) = (m2, h2)" by fastforce
  have other: "rotated_account_token own baseline t b \<noteq> Some k" for own
    using rotated_facts(2) [of own baseline t b k] assms(1) by blast
  have "map_of m2 k = map_of m k \<and> k \<notin> set h2"
  proof (cases "t = k")
    case True
    then show ?thesis using step assms(2) Cons.prems by (auto simp: merge_removed_def e)
  next
    case False
    then show ?thesis using step other [of local] other [of remote] Cons.prems
      by (auto simp: merge_removed_def e Let_def split: if_splits option.splits)
  qed
  then show ?case using Cons.IH [of h2 m2] step by simp
qed simp

lemma local_keeps:
  assumes "map_of baseline k \<noteq> None" "k \<notin> set (map fst entries)"
  shows "map_of (fold (merge_local baseline remote h) entries m) k = map_of m k"
  using assms(2)
proof (induction entries arbitrary: m)
  case (Cons e entries)
  obtain t l where e: "e = (t, l)" by (cases e)
  have "rotated_account_token own baseline t b \<noteq> Some k" for own b
    using rotated_facts(2) [of own baseline t b k] assms(1) by blast
  then have "map_of (merge_local baseline remote h e m) k = map_of m k"
    using Cons.prems by (auto simp: merge_local_def e split: option.splits)
  then show ?case using Cons by simp
qed simp

lemma merge_shared_row:
  assumes "distinct_keys local" "map_of baseline k = Some b" "map_of local k = Some l"
  shows "map_of (merge_accounts_after_conflict baseline local remote) k =
    (case map_of remote k of
       None \<Rightarrow> None
     | Some r \<Rightarrow> Some (if item_eq l b then r else merge_account_fields b l r))"
proof -
  obtain m h where mh: "fold (merge_removed baseline local remote) baseline (remote, []) = (m, h)" by fastforce
  have m: "map_of m k = map_of remote k" "k \<notin> set h"
    using removed_keeps [of baseline k local "[]" remote baseline remote] assms mh by simp_all
  from map_of_SomeD [OF assms(3)] obtain xs ys where split: "local = xs @ (k, l) # ys" by (metis split_list)
  then have out: "k \<notin> set (map fst xs)" "k \<notin> set (map fst ys)" using assms(1) by (auto simp: distinct_keys_def)
  have some: "map_of baseline k \<noteq> None" using assms(2) by simp
  have rot: "rotated_account_token remote baseline k b \<noteq> Some k"
    using rotated_facts(1) [of remote baseline k b k] by blast
  define m1 where "m1 = fold (merge_local baseline remote h) xs m"
  have m1: "map_of m1 k = map_of remote k" unfolding m1_def local_keeps [OF some out(1)] by (rule m(1))
  have "map_of (merge_local baseline remote h (k, l) m1) k =
      (case map_of remote k of None \<Rightarrow> None | Some r \<Rightarrow> Some (if item_eq l b then r else merge_account_fields b l r))"
    using m(2) m1 assms(2) rot
    by (auto simp: merge_local_def split: option.splits dest: rotated_facts(3))
  moreover have "merge_accounts_after_conflict baseline local remote = fold (merge_local baseline remote h) local m"
    by (simp add: merge_accounts_after_conflict_def mh)
  ultimately show ?thesis
    using local_keeps [OF some out(2), of remote h "merge_local baseline remote h (k, l) m1"] by (simp add: split m1_def)
qed

section \<open>Reading the stored rows\<close>

definition counts_ok :: "pydict \<Rightarrow> bool" where
  "counts_ok i = list_all (\<lambda>f. case row_count f i of None \<Rightarrow> True | Some c \<Rightarrow> 0 \<le> c) additive_counter_fields"

definition item_ok :: "pydict \<Rightarrow> bool" where
  "item_ok i = ((case field i ''access_token'' of PStr t \<Rightarrow> t \<noteq> [] | _ \<Rightarrow> False) \<and> counts_ok i)"

text \<open>A stored row and what is made of it when it is read: the same counters.\<close>

definition same_counts :: "pydict option \<Rightarrow> pydict option \<Rightarrow> bool" where
  "same_counts a b =
     (case (a, b) of
        (None, None) \<Rightarrow> True
      | (Some i, Some n) \<Rightarrow>
          list_all (\<lambda>f. case row_count f i of None \<Rightarrow> False | Some c \<Rightarrow> 0 \<le> c \<and> map_of n f = Some (PInt c)) additive_counter_fields
      | _ \<Rightarrow> False)"

lemma load_row_effect:
  assumes "load_row sr sz False item (v, u, c) = Inr (v2, u2, c2)" "field item ''access_token'' = PStr t" "t \<noteq> []" "counts_ok item"
  obtains n where "v2 = AList.update t n v" "field n ''access_token'' = PStr t" "same_counts (Some item) (Some n)"
proof -
  from assms(1) normalize_account_some [OF assms(2,3), of sr sz] obtain row where
    row: "normalize_account sr sz (PDict item) = Inr (Some row)"
    by (auto simp: load_row_def split: sum.splits option.splits)
  note keeps = normalize_account_keeps [OF row assms(2,3)]
  have v2: "v2 = AList.update t row v \<or> (\<exists>mid. v2 = AList.update t (AList.update ''management_id'' (PStr mid) row) v)"
    using assms(1) row by (auto simp: load_row_def Let_def keeps(1) split: option.splits if_splits)
  have "map_of (AList.update ''management_id'' w row) f = map_of row f" if "f \<in> set additive_counter_fields" for f w
    using that by (auto simp: additive_counter_fields_def)
  then have "same_counts (Some item) (Some row)" "same_counts (Some item) (Some (AList.update ''management_id'' w row))" for w
    using keeps(2) assms(4) by (fastforce simp: same_counts_def counts_ok_def list_all_iff)+
  moreover have "field (AList.update ''management_id'' w row) ''access_token'' = PStr t" for w
    using keeps(1) by (simp add: field_def)
  ultimately show thesis using v2 keeps(1) that by blast
qed

definition raw_step :: "pydict \<Rightarrow> view \<Rightarrow> view" where
  "raw_step row v = (if truthy (field row ''access_token'') then AList.update (row_token row) row v else v)"

lemma raw_rows_fold: "raw_rows items = fold raw_step items []"
  unfolding raw_rows_def raw_step_def ..

lemma load_agrees:
  assumes "list_all item_ok items" "load_rows sr sz False items (v, u, c) = Inr (v2, u2, c2)" "named v" "named r"
    and "\<And>k. same_counts (map_of r k) (map_of v k)"
  shows "named v2 \<and> named (fold raw_step items r) \<and> same_counts (map_of (fold raw_step items r) k) (map_of v2 k)"
  using assms
proof (induction items arbitrary: v u c r)
  case (Cons i items)
  from Cons.prems(1) obtain t where t: "field i ''access_token'' = PStr t" "t \<noteq> []" "counts_ok i"
    by (auto simp: item_ok_def split: pyval.splits)
  from Cons.prems(2) obtain w u1 c1 where one: "load_row sr sz False i (v, u, c) = Inr (w, u1, c1)"
    and rest: "load_rows sr sz False items (w, u1, c1) = Inr (v2, u2, c2)" by (auto split: sum.splits)
  from load_row_effect [OF one t] obtain n where n: "w = AList.update t n v" "field n ''access_token'' = PStr t"
    "same_counts (Some i) (Some n)" by blast
  have step: "raw_step i r = AList.update t i r" using t by (simp add: raw_step_def row_token_def)
  have all: "list_all item_ok items" using Cons.prems(1) by simp
  have nw: "named w" "named (raw_step i r)"
    using Cons.prems(3,4) n t by (simp_all add: step named_update)
  have agree: "same_counts (map_of (raw_step i r) j) (map_of w j)" for j
    using Cons.prems(5) [of j] n by (simp add: step)
  from Cons.IH [OF all rest nw agree] show ?case by simp
qed simp

text \<open>A table whose rows lie under their own tokens, with counters that are not negative.\<close>

definition rows_ok :: "rows \<Rightarrow> bool" where
  "rows_ok t = (distinct_keys t \<and>
     list_all (\<lambda>(k, d). k \<noteq> [] \<and> (case d of None \<Rightarrow> True | Some i \<Rightarrow>
         field i ''access_token'' = PStr k \<and> counts_ok i)) t)"

definition stored_row :: "db \<Rightarrow> string \<Rightarrow> pydict option" where
  "stored_row s k = (case map_of (rows s) k of None \<Rightarrow> None | Some d \<Rightarrow> d)"

lemma decoded_ok: "rows_ok (rows s) \<Longrightarrow> list_all item_ok (List.map_filter snd (filter P (rows s)))"
  by (fastforce simp: rows_ok_def list_all_iff item_ok_def List.map_filter_def)

lemma load_conflict_agrees:
  assumes "rows_ok (rows s)" "load_conflict sr sz sv keys s = Inr (revn, raw, remote, scoped)"
  shows "named remote" "named raw" "same_counts (map_of raw k) (map_of remote k)"
proof -
  define snap where "snap = (if conflict_scoped sv keys s then load_accounts_subset_snapshot keys s else load_snapshot Accounts s)"
  obtain items rn where items: "snap = (items, rn)" by (cases snap)
  obtain u ch where l: "load_rows sr sz False items ([], [], False) = Inr (remote, u, ch)" and raw: "raw = raw_rows items"
    using assms(2) items unfolding load_conflict_def Let_def snap_def [symmetric] normalize_loaded_accounts_def
    by (cases "load_rows sr sz False items ([], [], False)") auto
  have "list_all item_ok items"
    using decoded_ok [OF assms(1)] decoded_ok [OF assms(1), of "\<lambda>_. True"]
    using items by (auto simp: snap_def load_accounts_subset_snapshot_def load_snapshot_def Let_def split: if_splits)
  from load_agrees [OF this l, of "[]" k] show "named remote" "named raw" "same_counts (map_of raw k) (map_of remote k)"
    by (simp_all add: named_def same_counts_def raw raw_rows_fold)
qed

section \<open>A checked commit\<close>

definition row_same :: "pydict option option \<Rightarrow> pydict option \<Rightarrow> bool" where
  "row_same a b =
     (case (a, b) of (None, None) \<Rightarrow> True | (Some (Some i), Some d) \<Rightarrow> item_eq i d | _ \<Rightarrow> False)"

definition row_changed :: "view \<Rightarrow> view \<Rightarrow> string \<Rightarrow> bool" where
  "row_changed base desired k =
     (case (map_of base k, map_of desired k) of
        (None, None) \<Rightarrow> False | (Some b, Some d) \<Rightarrow> \<not> item_eq b d | _ \<Rightarrow> True)"

lemma mutation_keys_changed:
  assumes "named desired" "distinct_keys desired"
  shows "k \<in> set (mutation_keys (account_mutation base desired revn)) \<longleftrightarrow> row_changed base desired k"
proof -
  let ?P = "\<lambda>t a. case map_of base t of None \<Rightarrow> True | Some b \<Rightarrow> \<not> item_eq b a"
  have up: "map (\<lambda>v. case v of PDict row \<Rightarrow> row_token row | _ \<Rightarrow> []) (map (PDict \<circ> snd) xs) = map fst xs" if "named xs" for xs
    using that by (induction xs) (auto simp: named_def row_token_def)
  have n: "named (filter (\<lambda>(t, a). ?P t a) desired)"
    using assms(1) by (auto simp: named_def list_all_iff)
  have "k \<in> set (map fst (filter (\<lambda>(t, a). ?P t a) desired)) \<longleftrightarrow> map_of (filter (\<lambda>(t, a). ?P t a) desired) k \<noteq> None"
    by (simp add: map_of_eq_None_iff)
  also have "\<dots> \<longleftrightarrow> (case map_of desired k of None \<Rightarrow> False | Some a \<Rightarrow> ?P k a)"
    unfolding map_of_filter_keys [OF assms(2)] by (simp split: option.split)
  finally have ups: "k \<in> set (map fst (filter (\<lambda>(t, a). ?P t a) desired)) \<longleftrightarrow>
      (case map_of desired k of None \<Rightarrow> False | Some a \<Rightarrow> ?P k a)" .
  have dels: "k \<in> set (map fst (filter (\<lambda>(t, _). map_of desired t = None) base)) \<longleftrightarrow> map_of base k \<noteq> None \<and> map_of desired k = None"
    by (force simp: map_of_eq_None_iff)
  have keys: "mutation_keys (account_mutation base desired revn) =
      map fst (filter (\<lambda>(t, a). ?P t a) desired) @ map fst (filter (\<lambda>(t, _). map_of desired t = None) base)"
    unfolding mutation_keys_def account_mutation_def mutation.simps up [OF n] by (simp add: comp_def split_beta)
  show ?thesis unfolding keys set_append Un_iff ups dels
    by (auto simp: row_changed_def split: option.splits)
qed

lemma commit_effect:
  assumes nd: "named desired" "distinct_keys desired"
    and m: "m = account_mutation base desired revn"
    and db: "db_mutate Accounts (None :: unit hook option) m (Some (map (\<lambda>k. (k, map_of base k)) (fromkeys (mutation_keys m)))) (s, ()) =
        (Inr receipt, s2, x)"
    and k: "strip k = k"
  shows "if row_changed base desired k
    then row_same (map_of (rows s) k) (map_of base k) \<and> row_same (map_of (rows s2) k) (map_of desired k)
    else map_of (rows s2) k = map_of (rows s) k"
proof -
  let ?e = "map (\<lambda>k. (k, map_of base k)) (fromkeys (mutation_keys m))"
  obtain ups dels where n: "normalize_mutation Accounts m = Inr (ups, dels)"
    using db by (cases "normalize_mutation Accounts m") (auto simp: db_mutate_def)
  have be: "baseline_error Accounts (map (key_of Accounts) ups @ dels) ?e = None"
    using db n by (auto simp: db_mutate_def split: option.splits)
  have re: "rows_expected (rows s) ?e"
    using db n be by (auto simp: db_mutate_def split: if_splits)
  obtain t deleted where pk: "pop_keys dels (rows s, 0) = (t, deleted)" by fastforce
  obtain t2 ins upd where w: "write_items Accounts (rows s) ups (t, [], 0) = (t2, ins, upd)" by (metis prod_cases3)
  have s2: "rows s2 = t2" using db n be re pk w by (auto simp: db_mutate_def Let_def)
  note look = mutate_lookup [OF n pk w, of k, folded s2]
  note nm = normalize_mutation_Inr [OF n]
  have targets: "set (mutation_keys m) = set (map (key_of Accounts) ups) \<union> set dels"
    using be by (auto simp: baseline_error_def comp_def split: if_splits)
  have "upserts m = map PDict ups" "dels = fromkeys (map clean (delete_keys m))"
    using n normalize_items_Inr [of Accounts "upserts m" ups]
    by (auto simp: normalize_mutation_def Let_def split: sum.splits if_splits)
  then have ups: "ups = map snd (filter (\<lambda>(t, a). case map_of base t of None \<Rightarrow> True | Some b \<Rightarrow> \<not> item_eq b a) desired)"
    and dels: "set dels = clean ` set (delete_keys m)"
    by (simp_all add: m account_mutation_def inj_map_eq_map inj_def flip: map_map)
  have key: "key_of Accounts a = strip t" if "(t, a) \<in> set desired" for t a
    using nd(1) that by (auto simp: named_def list_all_iff key_of_def)
  have changed: "k \<in> set (map (key_of Accounts) ups) \<union> set dels \<longleftrightarrow> row_changed base desired k"
    using mutation_keys_changed [OF nd, of k base revn] unfolding m [symmetric] targets .
  show ?thesis
  proof (cases "row_changed base desired k")
    case False
    then have "k \<notin> set dels" "find_item Accounts ups k = None" using changed find_item_None by auto
    with False look show ?thesis by simp
  next
    case True
    then have "(k, map_of base k) \<in> set ?e" using changed targets by auto
    then have "case map_of base k of None \<Rightarrow> map_of (rows s) k = None
        | Some b \<Rightarrow> (case map_of (rows s) k of None \<Rightarrow> False | Some data \<Rightarrow> row_matches data b)"
      using re unfolding rows_expected_def list_all_iff by (auto dest!: bspec)
    then have before: "row_same (map_of (rows s) k) (map_of base k)"
      by (auto simp: row_same_def row_matches_def split: option.splits)
    have "row_same (map_of (rows s2) k) (map_of desired k)"
    proof (cases "map_of desired k")
      case None
      then have "map_of base k \<noteq> None" using True by (auto simp: row_changed_def split: option.splits)
      then obtain b where "(k, b) \<in> set base" by (auto dest: map_of_SomeD)
      then have "PStr k \<in> set (delete_keys m)" using None by (force simp: m account_mutation_def)
      then have "clean (PStr k) \<in> set dels" unfolding dels by (rule imageI)
      then have d: "k \<in> set dels" using k by simp
      then have "find_item Accounts ups k = None" using nm by (intro find_item_None) blast
      then show ?thesis using look d None by (simp add: row_same_def)
    next
      case (Some d)
      have "(k, d) \<in> set desired" using Some by (rule map_of_SomeD)
      moreover have "case map_of base k of None \<Rightarrow> True | Some b \<Rightarrow> \<not> item_eq b d"
        using True Some by (auto simp: row_changed_def split: option.splits)
      ultimately have "d \<in> set ups" unfolding ups by force
      moreover have "key_of Accounts d = k" using key [OF \<open>(k, d) \<in> set desired\<close>] k by simp
      ultimately have "find_item Accounts ups k = Some d"
        using nm unfolding find_item_def by (intro map_of_is_SomeI) (auto simp: distinct_map comp_def intro!: image_eqI [where x = d])
      then show ?thesis using look Some by (auto simp: row_same_def row_matches_def split: option.splits)
    qed
    with True before show ?thesis by simp
  qed
qed

section \<open>Views restricted to the keys of a save\<close>

lemma restrict_Cons:
  "restrict_view (k # ks) v = (case map_of v k of None \<Rightarrow> restrict_view ks v | Some a \<Rightarrow> (k, a) # restrict_view ks v)"
  by (simp add: restrict_view_def List.map_filter_simps split: option.split)

lemma restrict_Nil [simp]: "restrict_view [] v = []"
  by (simp add: restrict_view_def List.map_filter_simps)

lemma restrict_lookup: "map_of (restrict_view ks v) j = (if j \<in> set ks then map_of v j else None)"
  by (induction ks) (auto simp: restrict_Cons split: option.split)

lemma restrict_keys: "set (map fst (restrict_view ks v)) \<subseteq> set ks"
  by (induction ks) (auto simp: restrict_Cons split: option.split)

lemma restrict_distinct: "distinct ks \<Longrightarrow> distinct_keys (restrict_view ks v)"
proof (induction ks)
  case (Cons k ks)
  then have "k \<notin> set (map fst (restrict_view ks v))" using restrict_keys [of ks v] by auto
  then show ?case using Cons by (auto simp: restrict_Cons distinct_keys_def split: option.split)
qed simp

lemma list_all_lookup: "list_all (\<lambda>(t, a). P t a) v \<Longrightarrow> map_of v k = Some a \<Longrightarrow> P k a"
  by (auto simp: list_all_iff dest!: map_of_SomeD)

lemma restrict_rows: "list_all (\<lambda>(t, a). P t a) v \<Longrightarrow> list_all (\<lambda>(t, a). P t a) (restrict_view ks v)"
proof (induction ks)
  case (Cons k ks)
  then show ?case using list_all_lookup [OF Cons.prems, of k] by (cases "map_of v k") (simp_all add: restrict_Cons)
qed simp

lemma named_restrict: "named v \<Longrightarrow> named (restrict_view ks v)"
  unfolding named_def by (rule restrict_rows)

lemma intend_lookup: "map_of (intend ks staged stored) j = (if j \<in> set ks then map_of staged j else map_of stored j)"
proof (induction ks arbitrary: stored)
  case (Cons k ks)
  have step: "intend (k # ks) staged stored =
      intend ks staged (case map_of staged k of None \<Rightarrow> AList.delete k stored | Some row \<Rightarrow> AList.update k row stored)"
    by (simp add: intend_def)
  show ?case unfolding step Cons.IH by (auto split: option.split)
qed (simp add: intend_def)

lemma intend_distinct: "distinct_keys stored \<Longrightarrow> distinct_keys (intend ks staged stored)"
  by (induction ks arbitrary: stored) (auto simp: intend_def split: option.split)

lemma intend_rows:
  "list_all (\<lambda>(t, a). P t a) staged \<Longrightarrow> list_all (\<lambda>(t, a). P t a) stored \<Longrightarrow> list_all (\<lambda>(t, a). P t a) (intend ks staged stored)"
proof (induction ks arbitrary: stored)
  case (Cons k ks)
  have "list_all (\<lambda>(t, a). P t a) (case map_of staged k of None \<Rightarrow> AList.delete k stored | Some row \<Rightarrow> AList.update k row stored)"
  proof (cases "map_of staged k")
    case None
    then show ?thesis using Cons.prems(2) by (auto simp: AList.delete_eq list_all_iff)
  next
    case (Some row)
    then show ?thesis
      using update_list_all [OF Cons.prems(2), of k row] list_all_lookup [OF Cons.prems(1) Some] by simp
  qed
  from Cons.IH [OF Cons.prems(1) this] show ?case by (simp add: intend_def)
qed (simp add: intend_def)

lemma add_keys_facts: "distinct ks \<Longrightarrow> distinct (add_keys new ks)" "set ks \<subseteq> set (add_keys new ks)"
  by (auto simp: add_keys_def)

section \<open>The attempts of a save\<close>

text \<open>What a save knows of the row of one account: it adds \<open>i\<close> to a counter.\<close>

definition adding :: "string \<Rightarrow> int \<Rightarrow> pydict option \<Rightarrow> pydict option \<Rightarrow> bool" where
  "adding f i b d =
     (case (b, d) of
        (None, None) \<Rightarrow> True
      | (Some x, Some y) \<Rightarrow> (case row_count f x of None \<Rightarrow> False | Some c \<Rightarrow> 0 \<le> c \<and> row_count f y = Some (c + i))
      | _ \<Rightarrow> False)"

definition saving_ok :: "string \<Rightarrow> string \<Rightarrow> int \<Rightarrow> saving \<Rightarrow> bool" where
  "saving_ok k f i sv =
     (sv_tokens sv \<noteq> None \<and> named (sv_persisted sv) \<and> named (sv_intent sv) \<and> distinct_keys (sv_persisted sv) \<and>
      distinct_keys (sv_intent sv) \<and> list_all (\<lambda>(t, a). distinct_keys a) (sv_intent sv) \<and>
      (case (map_of (sv_persisted sv) k, map_of (sv_intent sv) k) of
         (Some b, Some l) \<Rightarrow>
           (case map_of b f of Some (PInt n) \<Rightarrow> 0 \<le> n \<and> map_of l f = Some (PInt (n + i)) | _ \<Rightarrow> False)
       | _ \<Rightarrow> False))"

definition progress_ok :: "string \<Rightarrow> string \<Rightarrow> int \<Rightarrow> progress \<Rightarrow> bool" where
  "progress_ok k f i pr =
     (k \<in> set (pr_keys pr) \<and> distinct (pr_keys pr) \<and> named (pr_desired pr) \<and> distinct_keys (pr_desired pr) \<and>
      adding f i (map_of (pr_baseline pr) k) (map_of (pr_desired pr) k) \<and> pr_commit pr = None)"

lemma merge_adds:
  assumes "f \<in> set additive_counter_fields" "map_of b f = Some (PInt n)" "map_of l f = Some (PInt (n + i))"
    "map_of r f = Some (PInt c)" "0 \<le> c" "0 < i"
  shows "map_of (merge_account_fields b l r) f = Some (PInt (c + i))"
  using assms merge_account_fields_lookup [OF counter_not_cooldown [OF assms(1)], of b l r]
  by (simp add: field_change_def locally_unchanged_def merge_additive_def integer_field_def changed_lookup_def)

lemma merged_intent_row:
  assumes sv: "saving_ok k f i sv" and f: "f \<in> set additive_counter_fields" and i: "0 < i"
    and keys: "k \<in> set keys" "distinct keys" and remote: "named remote" "same_counts (map_of raw k) (map_of remote k)"
  shows "named (merged_intent sv keys scoped remote)"
    "adding f i (map_of raw k) (map_of (merged_intent sv keys scoped remote) k)"
proof -
  from sv obtain b l n where b: "map_of (sv_persisted sv) k = Some b" and l: "map_of (sv_intent sv) k = Some l"
    and n: "map_of b f = Some (PInt n)" "map_of l f = Some (PInt (n + i))"
    by (auto simp: saving_ok_def split: option.splits pyval.splits)
  define base where "base = (if scoped then restrict_view keys (sv_persisted sv) else sv_persisted sv)"
  define intent where "intent = (if scoped then restrict_view keys (sv_intent sv) else sv_intent sv)"
  define merged where "merged = merge_accounts_after_conflict base intent remote"
  define put where "put = (\<lambda>k m. case map_of remote k of None \<Rightarrow> m
      | Some row \<Rightarrow> if map_of (sv_persisted sv) k = None then AList.update k row m else m)"
  have result: "merged_intent sv keys scoped remote = (if sv_skip_new sv then fold put keys merged else merged)"
    by (simp add: merged_intent_def base_def intent_def merged_def put_def Let_def)
  have nb: "named base" "named intent" "distinct_keys intent" "list_all (\<lambda>(t, a). distinct_keys a) intent"
    using sv keys(2) by (auto simp: base_def intent_def saving_ok_def named_restrict restrict_distinct restrict_rows)
  have bk: "map_of base k = Some b" "map_of intent k = Some l"
    using b l keys(1) by (simp_all add: base_def intent_def restrict_lookup)
  have nm: "named merged" unfolding merged_def by (rule named_merge [OF nb(1,2) remote(1) nb(4)])
  have named_put: "named m \<Longrightarrow> named (fold put ks m)" for ks m
    by (induction ks arbitrary: m) (auto simp: put_def split: option.split intro!: named_update named_lookup [OF remote(1)])
  have put_k: "map_of (fold put ks m) k = map_of m k" for ks m
    by (induction ks arbitrary: m) (auto simp: put_def b split: option.split)
  show "named (merged_intent sv keys scoped remote)" unfolding result using nm named_put by simp
  have same: "map_of (merged_intent sv keys scoped remote) k = map_of merged k" unfolding result using put_k by simp
  have differ: "\<not> item_eq l b"
  proof
    assume "item_eq l b"
    then have "row_count f l = row_count f b" by (rule item_eq_count)
    then show False using n i by (simp add: row_count_int)
  qed
  have m: "map_of merged k = map_option (merge_account_fields b l) (map_of remote k)"
    using merge_shared_row [OF nb(3) bk, of remote] differ by (simp add: merged_def split: option.split)
  show "adding f i (map_of raw k) (map_of (merged_intent sv keys scoped remote) k)"
  proof (cases "map_of remote k")
    case None
    then show ?thesis using remote(2) m same by (simp add: adding_def same_counts_def split: option.splits)
  next
    case (Some r)
    then obtain x c where "map_of raw k = Some x" "row_count f x = Some c" "0 \<le> c" "map_of r f = Some (PInt c)"
      using remote(2) f by (auto simp: same_counts_def list_all_iff split: option.splits dest!: bspec)
    then show ?thesis using Some m same merge_adds [OF f n _ _ i, of r c] row_count_int
      by (simp add: adding_def)
  qed
qed

text \<open>What the end of a save says of the counter.\<close>

definition counted :: "string \<Rightarrow> string \<Rightarrow> int \<Rightarrow> save_end \<Rightarrow> progress \<Rightarrow> bool" where
  "counted k f i result pr =
     (case pr_commit pr of
        None \<Rightarrow> (if result = Saved then map_of (pr_committed pr) k = None else True)
      | Some (s, s2) \<Rightarrow>
          result = Saved \<and>
          (if map_of (pr_committed pr) k = None then map_of (rows s2) k = map_of (rows s) k
           else case (stored_row s k, stored_row s2 k) of
             (Some x, Some y) \<Rightarrow> (case row_count f x of None \<Rightarrow> False | Some c \<Rightarrow> row_count f y = Some (c + i))
           | _ \<Rightarrow> False))"

lemma adding_changed: "adding f i (map_of b k) (map_of d k) \<Longrightarrow> 0 < i \<Longrightarrow> row_changed b d k \<longleftrightarrow> map_of d k \<noteq> None"
  using item_eq_count [of _ _ f] by (fastforce simp: adding_def row_changed_def split: option.splits)

lemma attempt_counts:
  assumes sv: "saving_ok k f i sv" and f: "f \<in> set additive_counter_fields" and i: "0 < i" and k: "strip k = k"
    and pr: "progress_ok k f i pr" and read: "case snd turn of None \<Rightarrow> True | Some s \<Rightarrow> rows_ok (rows s)"
  shows "case commit_attempt sr sz sv turn pr of
      (None, pr2) \<Rightarrow> progress_ok k f i pr2
    | (Some result, pr2) \<Rightarrow> counted k f i result pr2"
proof -
  define m where "m = account_mutation (pr_baseline pr) (pr_desired pr) (pr_revision pr)"
  have nd: "named (pr_desired pr)" "distinct_keys (pr_desired pr)"
    and add: "adding f i (map_of (pr_baseline pr) k) (map_of (pr_desired pr) k)" and none: "pr_commit pr = None"
    and keys: "k \<in> set (pr_keys pr)" "distinct (pr_keys pr)"
    using pr by (simp_all add: progress_ok_def)
  note changed = adding_changed [OF add i]
  have toks: "sv_tokens sv \<noteq> None" using sv by (simp add: saving_ok_def)
  show ?thesis
  proof (cases "upserts m = [] \<and> delete_keys m = []")
    case True
    then have "k \<notin> set (mutation_keys m)" by (simp add: mutation_keys_def)
    then have "map_of (pr_desired pr) k = None"
      using mutation_keys_changed [OF nd, of k "pr_baseline pr" "pr_revision pr"] changed by (simp add: m_def)
    then show ?thesis using True none by (simp add: commit_attempt_def Let_def m_def counted_def)
  next
    case some: False
    show ?thesis
    proof (cases "fst turn")
      case None
      have "commit_attempt sr sz sv turn pr = (Some SaveBroken, pr)"
        unfolding commit_attempt_def Let_def m_def [symmetric] if_not_P [OF some] None by simp
      then show ?thesis using none by (simp add: counted_def)
    next
      case (Some s)
      define e where "e = map (\<lambda>k. (k, map_of (pr_baseline pr) k)) (fromkeys (mutation_keys m))"
      obtain out s2 x where db: "db_mutate Accounts (None :: unit hook option) m (Some e) (s, ()) = (out, s2, x)"
        by (metis prod_cases3)
      have attempt: "commit_attempt sr sz sv turn pr =
          (case out of
             Inr receipt \<Rightarrow>
               (Some Saved,
                pr\<lparr>pr_journal := fold (\<lambda>k. AList.update k (Some (rc_revision receipt))) (fromkeys (mutation_keys m)) (pr_journal pr),
                  pr_committed := pr_desired pr, pr_commit := Some (s, s2)\<rparr>)
           | Inl (RevisionConflict a b) \<Rightarrow>
               (case snd turn of
                  None \<Rightarrow> (Some SaveBroken, pr)
                | Some at_read \<Rightarrow>
                    (case load_conflict sr sz sv (pr_keys pr) at_read of
                       Inl e \<Rightarrow> (Some SaveBroken, pr)
                     | Inr snapshot \<Rightarrow> after_conflict sv snapshot pr))
           | Inl e \<Rightarrow> (Some SaveBroken, pr))"
        unfolding commit_attempt_def Let_def m_def [symmetric] if_not_P [OF some] Some option.case if_not_P [OF toks]
          e_def [symmetric] db
        by (cases out) (auto split: storage_error.split)
      have broken: "counted k f i SaveBroken pr" using none by (simp add: counted_def)
      show ?thesis
      proof (cases out)
        case (Inr receipt)
        have effect: "if row_changed (pr_baseline pr) (pr_desired pr) k
            then row_same (map_of (rows s) k) (map_of (pr_baseline pr) k) \<and> row_same (map_of (rows s2) k) (map_of (pr_desired pr) k)
            else map_of (rows s2) k = map_of (rows s) k"
          by (rule commit_effect [OF nd m_def _ k]) (use db Inr in \<open>simp add: e_def\<close>)
        show ?thesis
        proof (cases "map_of (pr_desired pr) k")
          case None
          then show ?thesis using effect changed attempt Inr by (simp add: counted_def)
        next
          case (Some d)
          with add obtain b c where b: "map_of (pr_baseline pr) k = Some b" "row_count f b = Some c" "row_count f d = Some (c + i)"
            by (auto simp: adding_def split: option.splits)
          from effect changed Some b have "row_same (map_of (rows s) k) (Some b)" "row_same (map_of (rows s2) k) (Some d)"
            by simp_all
          then obtain x y where "map_of (rows s) k = Some (Some x)" "item_eq x b" "map_of (rows s2) k = Some (Some y)" "item_eq y d"
            by (auto simp: row_same_def split: option.splits)
          then show ?thesis using b Some attempt Inr item_eq_count [of x b f] item_eq_count [of y d f]
            by (simp add: counted_def stored_row_def)
        qed
      next
        case (Inl err)
        show ?thesis
        proof (cases "\<exists>a b found snapshot. err = RevisionConflict a b \<and> snd turn = Some found \<and> load_conflict sr sz sv (pr_keys pr) found = Inr snapshot")
          case False
          then show ?thesis using attempt Inl broken
            by (auto split: storage_error.split option.split sum.split)
        next
          case True
          then obtain found revn raw remote scoped where found: "snd turn = Some found"
            and load: "load_conflict sr sz sv (pr_keys pr) found = Inr (revn, raw, remote, scoped)"
            and eq: "commit_attempt sr sz sv turn pr = after_conflict sv (revn, raw, remote, scoped) pr"
            using attempt Inl by auto
          have ok: "rows_ok (rows found)" using read found by simp
          note loaded = load_conflict_agrees [OF ok load]
          note merged = merged_intent_row [OF sv f i keys loaded(1) loaded(3)]
          show ?thesis
          proof (cases "generation_moved sv remote")
            case True
            then show ?thesis unfolding eq using none by (simp add: after_conflict_def Let_def counted_def)
          next
            case False
            let ?new = "mutation_keys (account_mutation remote (merged_intent sv (pr_keys pr) scoped remote) revn)"
            have "k \<in> set (add_keys ?new (pr_keys pr))" "distinct (add_keys ?new (pr_keys pr))"
              using add_keys_facts [of "pr_keys pr" ?new] keys by auto
            then show ?thesis unfolding eq using False none merged
              by (simp add: after_conflict_def Let_def progress_ok_def restrict_lookup named_restrict restrict_distinct)
          qed
        qed
      qed
    qed
  qed
qed

lemma loop_counts:
  assumes sv: "saving_ok k f i sv" and f: "f \<in> set additive_counter_fields" and i: "0 < i" and k: "strip k = k"
    and read: "\<And>n. case snd (turns n) of None \<Rightarrow> True | Some s \<Rightarrow> rows_ok (rows s)"
  shows "progress_ok k f i pr \<Longrightarrow> commit_loop sr sz sv turns n pr = (result, pr2) \<Longrightarrow> counted k f i result pr2"
proof (induction n arbitrary: pr)
  case 0
  then show ?case by (auto simp: progress_ok_def counted_def)
next
  case (Suc n)
  note attempt = attempt_counts [OF sv f i k Suc.prems(1) read [of n], where sr = sr and sz = sz]
  obtain out pr1 where step: "commit_attempt sr sz sv (turns n) pr = (out, pr1)" by fastforce
  show ?case
  proof (cases out)
    case None
    then have ok: "progress_ok k f i pr1" using attempt step by simp
    show ?thesis
    proof (cases "n = 0")
      case True
      then show ?thesis using Suc.prems(2) step None ok by (auto simp: progress_ok_def counted_def)
    next
      case False
      then show ?thesis using Suc.IH [OF ok] Suc.prems(2) step None by simp
    qed
  next
    case (Some r)
    then show ?thesis using Suc.prems(2) attempt step by simp
  qed
qed

definition view_ok :: "view \<Rightarrow> bool" where
  "view_ok v = (named v \<and> distinct_keys v \<and> list_all (\<lambda>(t, a). distinct_keys a) v)"

lemma begin_save_ok:
  assumes "view_ok (st_persisted s)" "view_ok (accounts (st_pool s))" "k \<in> set tokens" "distinct tokens"
    and f: "f \<in> set additive_counter_fields"
    and b: "map_of (st_persisted s) k = Some b" "map_of b f = Some (PInt n)" "0 \<le> n"
    and l: "map_of (accounts (st_pool s)) k = Some l" "map_of l f = Some (PInt (n + i))" "0 < i"
  obtains sv pr s2 where "begin_save (Some tokens) generation skip_new earlier s = Saving sv pr s2"
    "saving_ok k f i sv" "progress_ok k f i pr"
proof -
  define intent where "intent = intend tokens (accounts (st_pool s)) (st_persisted s)"
  have intent: "named intent" "distinct_keys intent" "list_all (\<lambda>(t, a). distinct_keys a) intent"
    using assms(1,2) by (simp_all add: intent_def view_ok_def named_def intend_rows intend_distinct)
  have ik: "map_of intent k = Some l" using assms(3) l(1) by (simp add: intent_def intend_lookup)
  have "\<not> item_eq b l"
    using item_eq_count [of b l f] row_count_int [OF b(2)] row_count_int [OF l(2)] l(3) by auto
  moreover have "map_of (restrict_view tokens (st_persisted s)) k = Some b" "map_of (restrict_view tokens intent) k = Some l"
    using assms(3) b(1) ik by (simp_all add: restrict_lookup)
  ultimately have "\<not> view_eq (restrict_view tokens (st_persisted s)) (restrict_view tokens intent)"
    using map_of_SomeD [of "restrict_view tokens (st_persisted s)" k b] by (fastforce simp: view_eq_def list_all_iff)
  then obtain sv pr s2 where start: "begin_save (Some tokens) generation skip_new earlier s = Saving sv pr s2"
    and sv: "sv_tokens sv = Some tokens" "sv_persisted sv = st_persisted s" "sv_intent sv = intent"
    and pr: "pr_keys pr = tokens" "pr_baseline pr = restrict_view tokens (st_persisted s)"
      "pr_desired pr = restrict_view tokens intent" "pr_commit pr = None"
    by (simp add: begin_save_def Let_def intent_def)
  have "saving_ok k f i sv"
    using assms(1) intent sv b l ik by (simp add: saving_ok_def view_ok_def)
  moreover have "progress_ok k f i pr"
    using assms(3,4) intent pr b l ik row_count_int
    by (simp add: progress_ok_def named_restrict restrict_distinct restrict_lookup adding_def)
  ultimately show thesis using start that by blast
qed

definition sample_row :: "int \<Rightarrow> pydict" where
  "sample_row n = [(''access_token'', PStr ''t''), (''status'', PStr ''normal''), (''success'', PInt n), (''fail'', PInt 0)]"

definition sample_store :: "int \<Rightarrow> int \<Rightarrow> account_store" where
  "sample_store stored live =
     \<lparr>st_pool = \<lparr>accounts = [(''t'', sample_row live)], image_inflight = [], image_index = 0, token_aliases = [],
        credential_blocked = [], refresh_flights = [], text_index = 0, shard_count = 1, shard_index = 0\<rparr>,
      st_persisted = [(''t'', sample_row stored)], st_revision = ''accounts:1'', st_journal = None\<rparr>"

definition sample_db :: "int \<Rightarrow> db" where
  "sample_db n = \<lparr>version = 2, rows = [(''t'', Some (sample_row n))]\<rparr>"

section \<open>Back under the lock\<close>

lemma settle_lookup:
  "distinct keys \<Longrightarrow> settle_keys sr sz saved earlier live committed keys (view, stored) = Inr (view2, stored2) \<Longrightarrow>
   (if k \<in> set keys then
      (case map_of committed k of
         None \<Rightarrow> map_of view2 k = None \<and> map_of stored2 k = None
       | Some row \<Rightarrow> map_of stored2 k = Some row \<and>
           (\<exists>n. normalized_or_row sr sz row = Inr n \<and>
              map_of view2 k = Some (carried_row saved k (earlier_key earlier k row) (map_of earlier (earlier_key earlier k row))
                (map_of live (earlier_key earlier k row)) n)))
    else map_of view2 k = map_of view k \<and> map_of stored2 k = map_of stored k)"
proof (induction keys arbitrary: view stored)
  case (Cons key keys)
  have d: "distinct keys" and out: "key \<notin> set keys" using Cons.prems(1) by simp_all
  show ?case
  proof (cases "map_of committed key")
    case None
    then have rest: "settle_keys sr sz saved earlier live committed keys (AList.delete key view, AList.delete key stored) = Inr (view2, stored2)"
      using Cons.prems(2) by simp
    show ?thesis using Cons.IH [OF d rest] None out by (cases "k = key") auto
  next
    case (Some row)
    then obtain n where n: "normalized_or_row sr sz row = Inr n" using Cons.prems(2) by (auto simp: Let_def split: sum.splits)
    let ?c = "carried_row saved key (earlier_key earlier key row) (map_of earlier (earlier_key earlier key row))
        (map_of live (earlier_key earlier key row)) n"
    have rest: "settle_keys sr sz saved earlier live committed keys (AList.update key ?c view, AList.update key row stored) =
        Inr (view2, stored2)"
      using Cons.prems(2) Some n by (simp add: Let_def)
    show ?thesis using Cons.IH [OF d rest] Some n out by (cases "k = key") auto
  qed
qed simp

lemma move_tokens_accounts [simp]: "accounts (move_tokens rs p) = accounts p"
  unfolding move_tokens_def by (induction rs arbitrary: p) (auto simp: move_runtime_token_def Let_def)

lemma journal_frame [simp]:
  "st_pool (journal_account_write revs committed s) = st_pool s"
  "st_persisted (journal_account_write revs committed s) = st_persisted s"
  by (simp_all add: journal_account_write_def split: option.split)

lemma finish_views:
  assumes "finish_save sr sz sv result pr s = Inr s2"
  shows "settle_keys sr sz (result = Saved) (sv_before sv) (accounts (st_pool s)) (pr_committed pr) (pr_keys pr)
      (accounts (st_pool s), st_persisted s) = Inr (accounts (st_pool s2), st_persisted s2)"
  using assms by (auto simp: finish_save_def Let_def split: sum.splits)

lemma merge_delta:
  assumes "f \<in> set additive_counter_fields" "map_of b f = Some (PInt n)" "map_of l f = Some (PInt (n + i))"
    "map_of r f = Some (PInt c)" "0 \<le> c" "0 \<le> i"
  shows "map_of (merge_account_fields b l r) f = Some (PInt (c + i))"
proof (cases "i = 0")
  case True
  then show ?thesis
    using assms merge_account_fields_lookup [OF counter_not_cooldown [OF assms(1)], of b l r]
    by (simp add: field_change_def locally_unchanged_def changed_lookup_def)
next
  case False
  then show ?thesis using assms by (intro merge_adds) simp_all
qed

section \<open>Publishing\<close>

lemma acknowledge_lookup:
  "distinct_keys local \<Longrightarrow> map_of (acknowledge local remote baseline) f =
     (case (map_of local f, map_of remote f) of
        (Some v, Some w) \<Rightarrow> if py_eq w v then Some v else map_of baseline f
      | _ \<Rightarrow> map_of baseline f)"
proof (induction local arbitrary: baseline)
  case (Cons p local)
  obtain g v where p: "p = (g, v)" by (cases p)
  have d: "distinct_keys local" and fresh: "map_of local g = None"
    using Cons.prems p by (simp_all add: distinct_keys_def map_of_eq_None_iff)
  have step: "acknowledge (p # local) remote baseline = acknowledge local remote
      (case map_of remote g of None \<Rightarrow> baseline | Some w \<Rightarrow> if py_eq w v then AList.update g v baseline else baseline)"
    by (simp add: acknowledge_def p)
  show ?case unfolding step Cons.IH [OF d] using fresh by (auto simp: p split: option.split)
qed (simp add: acknowledge_def)

lemma refreshed_lookup:
  assumes "distinct_keys live"
  shows "map_of (refreshed_view stored live loaded) k =
    (case map_of loaded k of
       None \<Rightarrow> None
     | Some r \<Rightarrow> Some (case map_of live k of None \<Rightarrow> r | Some l \<Rightarrow> refreshed_row stored k l r))"
proof -
  define step where "step = (\<lambda>(token, local) v. case map_of loaded token of
      None \<Rightarrow> v | Some remote \<Rightarrow> AList.update token (refreshed_row stored token local remote) v)"
  have "map_of (fold step live v) k =
      (case (map_of loaded k, map_of live k) of
         (Some r, Some l) \<Rightarrow> Some (refreshed_row stored k l r) | _ \<Rightarrow> map_of v k)" for v
    using assms
  proof (induction live arbitrary: v)
    case (Cons p live)
    obtain t l where p: "p = (t, l)" by (cases p)
    have d: "distinct_keys live" and fresh: "map_of live t = None"
      using Cons.prems p by (simp_all add: distinct_keys_def map_of_eq_None_iff)
    show ?case using Cons.IH [OF d, of "step p v"] fresh by (auto simp: p step_def split: option.split)
  qed (simp split: option.split)
  then show ?thesis by (simp add: refreshed_view_def step_def split: option.split)
qed

lemma publish_views:
  assumes "publish_refresh sr sz expected loaded revn s = Inr (True, s2)"
  obtains fresh stored where
    "overlay_snapshot_writes sr sz (st_journal s) revn (loaded, loaded) = Inr (Some (fresh, stored))"
    "accounts (st_pool s2) = refreshed_view (st_persisted s) (accounts (st_pool s)) fresh" "st_persisted s2 = stored"
  using assms by (auto simp: publish_refresh_def apply_account_view_def Let_def split: sum.splits option.splits if_splits)

lemma nat_text_digits: "list_all is_digit (nat_text n)"
proof (induction n rule: nat_text.induct)
  case (1 n)
  have d: "is_digit (digit_char k)" if "k < 10" for k
    using that by (simp add: is_digit_def digit_char_def)
  show ?case using 1 d by (subst nat_text.simps) auto
qed

lemma ordered_revision_value [simp]: "ordered_account_revision (Some (revision_value Accounts v)) = Some v"
proof -
  have "split_at (\<lambda>c. c = CHR '':'') (revision_value Accounts v) = (''accounts'', Some (nat_text v))"
    by (simp add: revision_value_def split_at_def)
  moreover have "nat_text v \<noteq> []" using nat_text_plain [of v] by simp
  ultimately show ?thesis
    by (simp add: ordered_account_revision_def nat_text_digits nat_text_read)
qed

lemma journal_lookup:
  assumes "st_journal s = Some j" "distinct_keys revs"
  shows "\<exists>j2. st_journal (journal_account_write revs committed s) = Some j2 \<and>
    (\<forall>k. map_of j2 k = (case map_of revs k of
        None \<Rightarrow> map_of j k | Some r \<Rightarrow> Some (ordered_account_revision r, map_of committed k))) \<and>
    (distinct_keys j \<longrightarrow> distinct_keys j2)"
proof -
  define step where "step = (\<lambda>(key, revn). AList.update key (ordered_account_revision revn, map_of committed key))"
  have "map_of (fold step revs j) k = (case map_of revs k of
      None \<Rightarrow> map_of j k | Some r \<Rightarrow> Some (ordered_account_revision r, map_of committed k))" for k
    using assms(2)
  proof (induction revs arbitrary: j)
    case (Cons p revs)
    obtain t r where p: "p = (t, r)" by (cases p)
    have d: "distinct_keys revs" and fresh: "map_of revs t = None"
      using Cons.prems p by (simp_all add: distinct_keys_def map_of_eq_None_iff)
    show ?case using Cons.IH [OF d, of "step p j"] fresh by (auto simp: p step_def split: option.split)
  qed simp
  moreover have "distinct_keys j \<Longrightarrow> distinct_keys (fold step revs j)"
    by (induction revs arbitrary: j) (auto simp: step_def)
  ultimately show ?thesis using assms(1) by (simp add: journal_account_write_def step_def)
qed

lemma overlay_lookup_stored:
  "distinct_keys journal \<Longrightarrow> overlay_writes sr sz snapshot journal (loaded, stored) = Inr (fresh, stored2) \<Longrightarrow>
   map_of stored2 k = (case map_of journal k of
       Some (Some w, row) \<Rightarrow> if snapshot < w then row else map_of stored k
     | _ \<Rightarrow> map_of stored k)"
proof (induction journal arbitrary: loaded stored)
  case (Cons e journal)
  obtain t ver row where e: "e = (t, ver, row)" by (cases e) auto
  have d: "distinct_keys journal" and none: "map_of journal t = None"
    using Cons.prems(1) e by (simp_all add: distinct_keys_def map_of_eq_None_iff)
  consider (old) "case ver of None \<Rightarrow> True | Some v \<Rightarrow> v \<le> snapshot" | (gone) v where "ver = Some v" "snapshot < v" "row = None"
    | (kept) v r where "ver = Some v" "snapshot < v" "row = Some r"
    by (cases "case ver of None \<Rightarrow> True | Some v \<Rightarrow> v \<le> snapshot"; cases row) (auto simp: not_le split: option.splits)
  then show ?case
  proof cases
    case old
    then have rest: "overlay_writes sr sz snapshot journal (loaded, stored) = Inr (fresh, stored2)"
      using Cons.prems(2) by (simp add: e)
    show ?thesis using Cons.IH [OF d rest] old none by (auto simp: e split: option.splits)
  next
    case gone
    then have rest: "overlay_writes sr sz snapshot journal (AList.delete t loaded, AList.delete t stored) = Inr (fresh, stored2)"
      using Cons.prems(2) by (simp add: e)
    show ?thesis using Cons.IH [OF d rest] gone none by (auto simp: e split: option.splits)
  next
    case kept
    then obtain n where rest: "overlay_writes sr sz snapshot journal (AList.update t n loaded, AList.update t r stored) = Inr (fresh, stored2)"
      using Cons.prems(2) by (auto simp: e split: sum.splits)
    show ?thesis using Cons.IH [OF d rest] kept none by (auto simp: e split: option.splits)
  qed
qed simp

lemma publish_stored:
  assumes "publish_refresh sr sz expected loaded (revision_value Accounts v) s = Inr (True, s2)"
    and "st_journal s = Some journal" "distinct_keys journal"
  shows "map_of (st_persisted s2) k = (case map_of journal k of
       Some (Some w, row) \<Rightarrow> if v < w then row else map_of loaded k
     | _ \<Rightarrow> map_of loaded k)"
    and "st_revision s2 = revision_value Accounts v"
proof -
  obtain fresh stored where
    o: "overlay_snapshot_writes sr sz (st_journal s) (revision_value Accounts v) (loaded, loaded) = Inr (Some (fresh, stored))"
    and s2: "st_persisted s2 = stored"
    using assms(1) by (rule publish_views)
  show "map_of (st_persisted s2) k = (case map_of journal k of
       Some (Some w, row) \<Rightarrow> if v < w then row else map_of loaded k
     | _ \<Rightarrow> map_of loaded k)"
  proof (cases "journal = []")
    case True
    then have "stored = loaded" using o assms(2) by (auto simp: overlay_snapshot_writes_def)
    then show ?thesis using True s2 by simp
  next
    case False
    then have "overlay_writes sr sz v journal (loaded, loaded) = Inr (fresh, stored)"
      using o assms(2) by (cases "overlay_writes sr sz v journal (loaded, loaded)")
        (auto simp: overlay_snapshot_writes_def split: if_splits)
    from overlay_lookup_stored [OF assms(3) this, of k] show ?thesis by (simp add: s2)
  qed
  show "st_revision s2 = revision_value Accounts v"
    using assms(1) by (auto simp: publish_refresh_def apply_account_view_def Let_def split: sum.splits option.splits if_splits)
qed

section \<open>Identities\<close>

definition token_item :: "pydict \<Rightarrow> bool" where
  "token_item i = (case field i ''access_token'' of PStr t \<Rightarrow> t \<noteq> [] \<and> strip t = t | _ \<Rightarrow> False)"

definition identities_ok :: "view \<Rightarrow> string list \<Rightarrow> bool" where
  "identities_ok loaded used =
     (distinct_keys loaded \<and>
      (\<forall>t a. map_of loaded t = Some a \<longrightarrow> (\<exists>m. field a ''management_id'' = PStr m \<and> id_form m \<and> m \<in> set used)) \<and>
      (\<forall>t a t2 a2. map_of loaded t = Some a \<and> map_of loaded t2 = Some a2 \<and> field a ''management_id'' = field a2 ''management_id'' \<longrightarrow> t = t2))"

lemma identities_id:
  "identities_ok loaded used \<Longrightarrow> map_of loaded t = Some a \<Longrightarrow> \<exists>m. field a ''management_id'' = PStr m \<and> id_form m \<and> m \<in> set used"
  unfolding identities_ok_def by blast

lemma identities_inj:
  "identities_ok loaded used \<Longrightarrow> map_of loaded t = Some a \<Longrightarrow> map_of loaded t2 = Some a2 \<Longrightarrow>
   field a ''management_id'' = field a2 ''management_id'' \<Longrightarrow> t = t2"
  unfolding identities_ok_def by blast

lemma unique_id_facts:
  assumes "\<And>t. is_hex 64 (sr_token_digest sr t)" "unique_management_id sr token preferred used = Some m"
  shows "id_form m" "m \<notin> set used"
proof -
  let ?c = "normalize_management_id sr preferred (PStr token)"
  have "is_hex 24 (take 24 (sr_token_digest sr t))" for t
    using assms(1) [of t] set_take_subset [of 24 "sr_token_digest sr t"] by (auto simp: is_hex_def)
  then have n: "id_form (numbered_management_id sr token k)" for k
    by (simp add: id_form_def numbered_management_id_def)
  have c: "id_form ?c" using assms(1) by (rule normalize_management_id_form)
  have found: "List.find P xs = Some x \<Longrightarrow> x \<in> set xs \<and> P x" for P and xs :: "string list" and x
    by (auto simp: find_Some_iff)
  show "id_form m" "m \<notin> set used"
    using assms(2) n c by (auto simp: unique_management_id_def Let_def split: if_splits dest!: found)
qed

text \<open>The search for an identity ends: among one more candidates than there are identities in use, one is
  free, unless two candidates collide.\<close>

lemma unique_id_found:
  assumes "distinct (map (numbered_management_id sr token) [1..<length used + 2])"
  shows "unique_management_id sr token preferred used \<noteq> None"
proof -
  let ?ids = "map (numbered_management_id sr token) [1..<length used + 2]"
  have "\<not> set ?ids \<subseteq> set used"
  proof
    assume "set ?ids \<subseteq> set used"
    then have "card (set ?ids) \<le> card (set used)" by (intro card_mono) auto
    also have "\<dots> \<le> length used" by (rule card_length)
    finally have "length ?ids \<le> length used" unfolding distinct_card [OF assms] .
    then show False by (simp only: length_map length_upt)
  qed
  then have "List.find (\<lambda>c. c \<notin> set used) ?ids \<noteq> None" by (auto simp only: find_None_iff)
  then show ?thesis by (simp add: unique_management_id_def Let_def)
qed

lemma load_row_identity:
  assumes digest: "\<And>t. is_hex 64 (sr_token_digest sr t)" and item: "token_item item"
    and step: "load_row sr sz recover item (loaded, used, c) = Inr (loaded2, used2, c2)" and ok: "identities_ok loaded used"
  shows "identities_ok loaded2 used2 \<and> set (map fst loaded2) = insert (row_token item) (set (map fst loaded))"
proof -
  obtain t where t: "field item ''access_token'' = PStr t" "t \<noteq> []" "strip t = t"
    using item by (auto simp: token_item_def split: pyval.splits)
  obtain row where row: "normalize_account sr sz (PDict item) = Inr (Some row)"
    using step normalize_account_some [OF t(1,2), of sr sz] by (auto simp: load_row_def split: sum.splits option.splits)
  note token = normalize_account_keeps(1) [OF row t(1,2)]
  define used1 where "used1 = (case map_of loaded t of None \<Rightarrow> used
      | Some previous \<Rightarrow> removeAll (lower (clean (field previous ''management_id''))) used)"
  obtain m where m: "unique_management_id sr t (field row ''management_id'') used1 = Some m"
    using step row token t(3) by (auto simp: load_row_def used1_def Let_def split: option.splits)
  obtain final where final: "loaded2 = AList.update t final loaded" "used2 = m # used1" "field final ''management_id'' = PStr m"
    using step row token t(3) m
    by (auto simp: load_row_def used1_def [symmetric] Let_def recover_check_def field_def split: if_splits)
  note id = unique_id_facts [OF digest m]
  have kept: "mid \<in> set used1" if "map_of loaded u = Some a" "field a ''management_id'' = PStr mid" "u \<noteq> t" for u a mid
  proof -
    have inset: "mid \<in> set used" using identities_id [OF ok that(1)] that(2) by auto
    show ?thesis
    proof (cases "map_of loaded t")
      case (Some p)
      then obtain pm where p: "field p ''management_id'' = PStr pm" "id_form pm" using identities_id [OF ok] by blast
      then have "pm \<noteq> mid" using identities_inj [OF ok Some that(1)] that(2,3) by auto
      then show ?thesis using inset p Some by (simp add: used1_def id_form_clean)
    qed (use inset in \<open>simp add: used1_def\<close>)
  qed
  have "identities_ok loaded2 used2"
    unfolding identities_ok_def
  proof (intro conjI allI impI)
    show "distinct_keys loaded2" using ok by (simp add: final identities_ok_def)
    show "\<exists>k. field a ''management_id'' = PStr k \<and> id_form k \<and> k \<in> set used2" if "map_of loaded2 u = Some a" for u a
    proof (cases "u = t")
      case False
      then have "map_of loaded u = Some a" using that by (simp add: final(1))
      then show ?thesis using identities_id [OF ok] kept False unfolding final(2) by (metis list.set_intros(2))
    qed (use that final id in simp)
    show "u = u2" if h: "map_of loaded2 u = Some a \<and> map_of loaded2 u2 = Some a2 \<and> field a ''management_id'' = field a2 ''management_id''"
      for u a u2 a2
    proof -
      have other: "\<not> (map_of loaded w = Some b \<and> field b ''management_id'' = PStr m)" if "w \<noteq> t" for w b
        using kept that id(2) by blast
      consider "u = t" "u2 = t" | "u = t" "u2 \<noteq> t" | "u \<noteq> t" "u2 = t" | "u \<noteq> t" "u2 \<noteq> t" by blast
      then show ?thesis
      proof cases
        case 2
        then show ?thesis using h other [of u2 a2] final(3) by (simp add: final(1))
      next
        case 3
        then show ?thesis using h other [of u a] final(3) by (simp add: final(1))
      next
        case 4
        then show ?thesis using h identities_inj [OF ok, of u a u2 a2] by (simp add: final(1))
      qed simp
    qed
  qed
  moreover have "row_token item = t" using t by (simp add: row_token_def)
  ultimately show ?thesis by (simp add: final(1) set_keys_update del: set_map)
qed

lemma load_rows_identities:
  assumes digest: "\<And>t. is_hex 64 (sr_token_digest sr t)"
  shows "list_all token_item items \<Longrightarrow> load_rows sr sz recover items (loaded, used, c) = Inr (loaded2, used2, c2) \<Longrightarrow>
    identities_ok loaded used \<Longrightarrow>
    identities_ok loaded2 used2 \<and> set (map fst loaded2) = row_token ` set items \<union> set (map fst loaded)"
proof (induction items arbitrary: loaded used c)
  case (Cons i items)
  from Cons.prems(2) obtain l u d where one: "load_row sr sz recover i (loaded, used, c) = Inr (l, u, d)"
    and rest: "load_rows sr sz recover items (l, u, d) = Inr (loaded2, used2, c2)" by (auto split: sum.splits)
  have i: "token_item i" "list_all token_item items" using Cons.prems(1) by simp_all
  note step = load_row_identity [OF digest i(1) one Cons.prems(3)]
  show ?case using Cons.IH [OF i(2) rest] step by auto
qed simp

lemma right_value: "\<not> isl x \<Longrightarrow> \<exists>y. x = Inr y"
  by (cases x) auto

lemma published_value: "(case x of Inl e \<Rightarrow> False | Inr (b, s) \<Rightarrow> b) \<Longrightarrow> \<exists>s. x = Inr (True, s)"
  by (auto split: sum.splits)

definition busy_store :: "view \<Rightarrow> view \<Rightarrow> account_store" where
  "busy_store live stored = (sample_store 0 0)\<lparr>st_pool := (st_pool (sample_store 0 0))\<lparr>accounts := live\<rparr>,
     st_persisted := stored, st_journal := Some []\<rparr>"

definition sample_saving :: saving where
  "sample_saving = \<lparr>sv_tokens = Some [''t''], sv_generation = None, sv_skip_new = False, sv_persisted = [(''t'', sample_row 5)],
     sv_before = [(''t'', sample_row 5)], sv_intent = [(''t'', sample_row 6)]\<rparr>"

definition sample_progress :: progress where
  "sample_progress = \<lparr>pr_keys = [''t''], pr_baseline = [(''t'', sample_row 5)], pr_desired = [(''t'', sample_row 6)],
     pr_revision = ''accounts:2'', pr_committed = [(''t'', sample_row 6)], pr_journal = [(''t'', Some ''accounts:3'')],
     pr_existing = [], pr_commit = Some (sample_db 5, sample_db 6)\<rparr>"

definition sample_finished :: "pyexc + account_store" where
  "sample_finished = finish_save sample_surroundings sample_sanitizer sample_saving Saved sample_progress
     (busy_store [(''t'', sample_row 7)] [(''t'', sample_row 5)])"

lemma sample_stored:
  "case normalize_account sample_surroundings sample_sanitizer (PDict (sample_row 6)) of
     Inr (Some row) \<Rightarrow> row \<noteq> [] \<and> map_of row ''success'' = Some (PInt 6) \<and>
       credential_generation ''t'' (sample_row 5) = credential_generation ''t'' row
   | _ \<Rightarrow> False"
  by code_simp

lemma sample_normalized: "\<exists>n. normalized_or_row sample_surroundings sample_sanitizer (sample_row 6) = Inr n"
  using row_case [OF sample_stored] by (auto simp: normalized_or_row_def)

lemma sample_journal: "ordered_account_revision (Some ''accounts:3'') = Some 3"
  by code_simp

lemma sample_finished_ok:
  "\<exists>s1. sample_finished = Inr s1 \<and> st_journal s1 = Some [(''t'', Some 3, Some (sample_row 6))] \<and> st_revision s1 = ''accounts:1''"
proof -
  obtain n where n: "normalized_or_row sample_surroundings sample_sanitizer (sample_row 6) = Inr n" using sample_normalized by blast
  show ?thesis
    by (simp add: sample_finished_def finish_save_def sample_progress_def sample_saving_def busy_store_def sample_store_def
        journal_account_write_def sample_journal n Let_def)
qed

definition sample_publish :: "pyexc + bool \<times> account_store" where
  "sample_publish = publish_refresh sample_surroundings sample_sanitizer ''accounts:1'' [(''t'', sample_row 6)]
     (revision_value Accounts 2) (busy_store [(''t'', sample_row 6)] [(''t'', sample_row 5)])"

lemma sample_publish_ok: "case sample_publish of Inl e \<Rightarrow> False | Inr (published, s2) \<Rightarrow> published"
  by code_simp

definition sample_older :: "pyexc + bool \<times> account_store" where
  "sample_older = (case sample_finished of
     Inl e \<Rightarrow> Inl e
   | Inr s1 \<Rightarrow> publish_refresh sample_surroundings sample_sanitizer ''accounts:1'' [(''t'', sample_row 5)] (revision_value Accounts 2) s1)"

lemma sample_older_ok: "\<exists>s2. sample_older = Inr (True, s2)"
proof -
  obtain s1 where s1: "sample_finished = Inr s1" "st_journal s1 = Some [(''t'', Some 3, Some (sample_row 6))]"
    "st_revision s1 = ''accounts:1''"
    using sample_finished_ok by blast
  obtain n where n: "normalized_or_row sample_surroundings sample_sanitizer (sample_row 6) = Inr n" using sample_normalized by blast
  have "revision_value Accounts 2 \<noteq> ''accounts:1''" by code_simp
  then show ?thesis
    by (simp add: sample_older_def s1 publish_refresh_def overlay_snapshot_writes_def n Let_def)
qed

definition two_digests :: surroundings where
  "two_digests = sample_surroundings\<lparr>sr_token_digest := (\<lambda>t. replicate 64 (if take 1 t = ''u'' then CHR ''b'' else CHR ''a''))\<rparr>"

definition twin_item :: "string \<Rightarrow> pydict" where
  "twin_item t = [(''access_token'', PStr t), (''management_id'', PStr ''acct_aaaaaaaaaaaaaaaaaaaaaaaa'')]"

lemma twins_load: "\<not> isl (normalize_loaded_accounts two_digests sample_sanitizer False [twin_item ''t'', twin_item ''u''])"
  by code_simp

section \<open>Properties\<close>

text \<open>C32. Every completion is counted once in the database. When this process counted \<open>i\<close> more of an
  account than its last stored row says, a save with up to twelve attempts, whatever other processes
  wrote before each of them, adds exactly \<open>i\<close> to the counter that its transaction finds, or leaves
  the row alone because it is gone; a save that is refused or breaks off has committed nothing that
  it knows of. The rows read after a conflict lie under their own tokens and count no negative.\<close>

theorem save_counts_once:
  assumes "view_ok (st_persisted s)" "view_ok (accounts (st_pool s))" "k \<in> set tokens" "distinct tokens" "strip k = k"
    and "f \<in> set additive_counter_fields"
    and "map_of (st_persisted s) k = Some b" "map_of b f = Some (PInt n)" "0 \<le> n"
    and "map_of (accounts (st_pool s)) k = Some l" "map_of l f = Some (PInt (n + i))" "0 < i"
    and read: "\<And>a. case snd (turns a) of None \<Rightarrow> True | Some found \<Rightarrow> rows_ok (rows found)"
  shows "case begin_save (Some tokens) generation skip_new earlier s of
      NothingToSave s2 \<Rightarrow> False
    | Saving sv pr s2 \<Rightarrow>
        (case save_commit sr sz sv turns at_recovery pr of (result, pr2) \<Rightarrow> counted k f i result pr2)"
proof -
  obtain sv pr s2 where start: "begin_save (Some tokens) generation skip_new earlier s = Saving sv pr s2"
    and ok: "saving_ok k f i sv" "progress_ok k f i pr"
    using begin_save_ok [OF assms(1-4,6-12)] by blast
  obtain result pr2 where loop: "commit_loop sr sz sv turns max_attempts pr = (result, pr2)" by fastforce
  have "counted k f i result pr2" by (rule loop_counts [OF ok(1) assms(6,12,5) read ok(2) loop])
  then have "case save_commit sr sz sv turns at_recovery pr of (result, pr2) \<Rightarrow> counted k f i result pr2"
    unfolding save_commit_def loop
    by (cases result) (auto simp: recover_save_def counted_def Let_def split: option.split prod.split)
  then show ?thesis using start by simp
qed

theorem save_counts_once_witness:
  "case begin_save (Some [''t'']) None False [] (sample_store 5 6) of
     NothingToSave s2 \<Rightarrow> False
   | Saving sv pr s2 \<Rightarrow>
       (case save_commit sample_surroundings sample_sanitizer sv (\<lambda>_. (Some (sample_db 7), Some (sample_db 7))) None pr of
          (result, pr2) \<Rightarrow> counted ''t'' ''success'' 1 result pr2)"
proof -
  have v: "view_ok [(''t'', sample_row n)]" for n
    by (simp add: view_ok_def named_def distinct_keys_def sample_row_def field_def)
  have r: "rows_ok (rows (sample_db 7))"
    by (simp add: rows_ok_def distinct_keys_def sample_db_def sample_row_def field_def counts_ok_def additive_counter_fields_def
        row_count_def count_value_def integer_field_def py_or_def)
  have t: "strip ''t'' = ''t''" by (simp add: strip_def is_space_def)
  show ?thesis
    by (rule save_counts_once [where n = 5 and i = 1 and b = "sample_row 5" and l = "sample_row 6"])
      (use v r t in \<open>simp_all add: sample_store_def additive_counter_fields_def sample_row_def\<close>)
qed

text \<open>C33. Completions that arrive while the database works are kept. When a save comes back under
  the lock, an account whose credentials did not change gets the committed counters and, once, what
  the other threads counted since the save began; the stored row is the committed one; accounts that
  the save did not touch keep their live and their stored rows.\<close>

theorem completions_survive_save:
  assumes "finish_save sr sz sv result pr s = Inr s2" "distinct (pr_keys pr)" "k \<in> set (pr_keys pr)"
    and "map_of (pr_committed pr) k = Some row" "normalize_account sr sz (PDict row) = Inr (Some stored)" "stored \<noteq> []"
    and "map_of (sv_before sv) k = Some old" "map_of (accounts (st_pool s)) k = Some live"
    and "credential_generation k old = credential_generation k stored"
    and "f \<in> set additive_counter_fields" "map_of old f = Some (PInt n)" "map_of live f = Some (PInt (n + i))"
      "map_of stored f = Some (PInt c)" "0 \<le> c" "0 \<le> i" "t \<notin> set (pr_keys pr)"
  shows "(case map_of (accounts (st_pool s2)) k of None \<Rightarrow> False | Some now \<Rightarrow> map_of now f = Some (PInt (c + i))) \<and>
    map_of (st_persisted s2) k = Some row \<and>
    map_of (accounts (st_pool s2)) t = map_of (accounts (st_pool s)) t \<and> map_of (st_persisted s2) t = map_of (st_persisted s) t"
proof -
  note settled = settle_lookup [OF assms(2) finish_views [OF assms(1)]]
  have key: "earlier_key (sv_before sv) k row = k" using assms(7) by (simp add: earlier_key_def)
  have n: "normalized_or_row sr sz row = Inr stored" using assms(5,6) by (simp add: normalized_or_row_def)
  have "map_of (accounts (st_pool s2)) k = Some (carried_row (result = Saved) k k (Some old) (Some live) stored)"
    and stored: "map_of (st_persisted s2) k = Some row"
    using settled [of k] assms(3,4,7,8) key n by simp_all
  moreover have "map_of (carried_row (result = Saved) k k (Some old) (Some live) stored) f = Some (PInt (c + i))"
  proof (cases "item_eq old live")
    case True
    then have "row_count f old = row_count f live" by (rule item_eq_count)
    then have "i = 0" using assms(11,12) by (simp add: row_count_int)
    then show ?thesis using True assms(13) by (simp add: carried_row_def)
  next
    case False
    then show ?thesis using assms(9) merge_delta [OF assms(10-15)] by (simp add: carried_row_def)
  qed
  ultimately show ?thesis using settled [of t] assms(16) by simp
qed

theorem completions_survive_save_witness:
  "case sample_finished of
     Inl e \<Rightarrow> False
   | Inr s2 \<Rightarrow> (case map_of (accounts (st_pool s2)) ''t'' of None \<Rightarrow> False | Some now \<Rightarrow> map_of now ''success'' = Some (PInt 8)) \<and>
       map_of (st_persisted s2) ''t'' = Some (sample_row 6)"
proof -
  obtain s2 where s2: "sample_finished = Inr s2" using sample_finished_ok by blast
  obtain row where row: "normalize_account sample_surroundings sample_sanitizer (PDict (sample_row 6)) = Inr (Some row)"
    "row \<noteq> [] \<and> map_of row ''success'' = Some (PInt 6) \<and>
       credential_generation ''t'' (sample_row 5) = credential_generation ''t'' row"
    using row_case [OF sample_stored] by blast
  have "(case map_of (accounts (st_pool s2)) ''t'' of None \<Rightarrow> False | Some now \<Rightarrow> map_of now ''success'' = Some (PInt (6 + 2))) \<and>
    map_of (st_persisted s2) ''t'' = Some (sample_row 6) \<and>
    map_of (accounts (st_pool s2)) ''u'' = map_of (accounts (st_pool (busy_store [(''t'', sample_row 7)] [(''t'', sample_row 5)]))) ''u'' \<and>
    map_of (st_persisted s2) ''u'' = map_of (st_persisted (busy_store [(''t'', sample_row 7)] [(''t'', sample_row 5)])) ''u''"
    by (rule completions_survive_save [OF s2 [unfolded sample_finished_def], where old = "sample_row 5" and live = "sample_row 7"
        and n = 5 and stored = row])
      (use row in \<open>simp_all add: sample_progress_def sample_saving_def busy_store_def additive_counter_fields_def sample_row_def\<close>)
  then show ?thesis unfolding s2 by (auto split: option.splits)
qed



text \<open>C35. A published snapshot keeps the counts that are not stored yet, but it takes equal numbers
  for an acknowledgement: when this process counted \<open>i\<close> completions since its stored row and others
  stored \<open>j\<close>, the row shows all \<open>i + j\<close> of them, except when \<open>i = j\<close>, where the counts of the
  others are taken for the own ones and only \<open>i\<close> are left.\<close>

theorem refresh_adds_live_counts:
  assumes "publish_refresh sr sz expected loaded revn s = Inr (True, s2)" "st_journal s = Some []"
    and "distinct_keys (accounts (st_pool s))" "map_of (accounts (st_pool s)) k = Some live" "distinct_keys live"
    and "map_of (st_persisted s) k = Some b" "map_of loaded k = Some remote"
    and "credential_generation k live = credential_generation k remote"
    and "f \<in> set additive_counter_fields" "map_of b f = Some (PInt n)" "map_of live f = Some (PInt (n + i))"
      "map_of remote f = Some (PInt (n + j))" "0 \<le> n" "0 < i" "0 \<le> j"
  shows "case map_of (accounts (st_pool s2)) k of
      None \<Rightarrow> False
    | Some now \<Rightarrow> map_of now f = Some (PInt (n + (if i = j then i else i + j)))"
proof -
  from assms(1) have "accounts (st_pool s2) = refreshed_view (st_persisted s) (accounts (st_pool s)) loaded"
    by (rule publish_views) (use assms(2) in \<open>simp add: overlay_snapshot_writes_def\<close>)
  then have now: "map_of (accounts (st_pool s2)) k = Some (refreshed_row (st_persisted s) k live remote)"
    using refreshed_lookup [OF assms(3), of "st_persisted s" loaded k] assms(4,7) by simp
  have differ: "\<not> item_eq live b"
    using item_eq_count [of live b f] row_count_int [OF assms(10)] row_count_int [OF assms(11)] assms(14) by auto
  let ?a = "acknowledge live remote b"
  have a: "map_of ?a f = Some (PInt (if i = j then n + i else n))"
    using acknowledge_lookup [OF assms(5), of remote b f] assms(10-12) by auto
  have "map_of (refreshed_row (st_persisted s) k live remote) f = Some (PInt (n + (if i = j then i else i + j)))"
  proof (cases "item_eq live remote")
    case True
    then have "i = j" using item_eq_count [OF True, of f] row_count_int [OF assms(11)] row_count_int [OF assms(12)] by simp
    then show ?thesis using True assms(6,12) by (simp add: refreshed_row_def)
  next
    case False
    then have row: "refreshed_row (st_persisted s) k live remote = merge_account_fields ?a live remote"
      using differ assms(6,8) by (simp add: refreshed_row_def)
    show ?thesis
    proof (cases "i = j")
      case True
      then show ?thesis unfolding row using merge_delta [OF assms(9), of ?a "n + i" live 0 remote "n + j"] a assms by simp
    next
      case False
      then show ?thesis unfolding row
        using merge_delta [OF assms(9), of ?a n live i remote "n + j"] a assms by (simp add: ac_simps)
    qed
  qed
  then show ?thesis using now by simp
qed

theorem refresh_adds_live_counts_witness:
  "case sample_publish of
     Inl e \<Rightarrow> False
   | Inr (published, s2) \<Rightarrow>
       published \<and> (case map_of (accounts (st_pool s2)) ''t'' of None \<Rightarrow> False | Some now \<Rightarrow> map_of now ''success'' = Some (PInt 6))"
proof -
  obtain s2 where s2: "sample_publish = Inr (True, s2)" using published_value [OF sample_publish_ok] by blast
  have "case map_of (accounts (st_pool s2)) ''t'' of
      None \<Rightarrow> False
    | Some now \<Rightarrow> map_of now ''success'' = Some (PInt (5 + (if (1 :: int) = 1 then 1 else 1 + 1)))"
    by (rule refresh_adds_live_counts [OF s2 [unfolded sample_publish_def], where live = "sample_row 6" and b = "sample_row 5"
        and remote = "sample_row 6"])
      (simp_all add: busy_store_def additive_counter_fields_def sample_row_def distinct_keys_def)
  then show ?thesis unfolding s2 by (auto split: option.splits)
qed



end
